(* ===== verification/Prelude.thy ===== *)
theory Prelude
  imports Main "HOL-Library.Word" "HOL-Library.Multiset"
begin

text \<open>
  Shared vocabulary of the development: the outcome type of C code that can stop abnormally,
  checked array accesses, and the list and word lemmas that several components use.
\<close>

unbundle bit_operations_syntax

named_theorems ring_intros \<open>what each operation of libs/list.h does to a well-formed ring\<close>
named_theorems bounds_simps \<open>checked array accesses that are known to be in range\<close>

section \<open>Machine types of libs/defs.h\<close>

type_synonym uint32 = "32 word"
type_synonym size_t = "32 word"
type_synonym uint8 = "8 word"

section \<open>Outcomes\<close>

text \<open>
  A C function that returns has outcome \<open>Inr\<close>. The ways in which it does not return are
  values of \<open>fault\<close>: a failed \<open>assert\<close>, a \<open>panic\<close>, an access outside an array,
  through a null pointer or to freed memory (undefined behaviour in C), or a loop that does not end.
\<close>

datatype fault = Assert_failed | Panicked | Out_of_bounds | Null_pointer | Use_after_free | Diverges

type_synonym 'a outcome = "fault + 'a"

definition andThen :: "'a outcome \<Rightarrow> ('a \<Rightarrow> 'b outcome) \<Rightarrow> 'b outcome" where
  "andThen m k = (case m of Inl e \<Rightarrow> Inl e | Inr x \<Rightarrow> k x)"

lemma andThen_simps [simp]:
  "andThen (Inl e) k = Inl e"
  "andThen (Inr x) k = k x"
  by (simp_all add: andThen_def)

lemma andThen_eq_Inr: "andThen m k = Inr y \<longleftrightarrow> (\<exists>x. m = Inr x \<and> k x = Inr y)"
  by (cases m) auto

text \<open>A loop is a partial function with result \<open>option\<close>; \<open>None\<close> means that it never ends.\<close>

definition loop_result :: "'a option \<Rightarrow> 'a outcome" where
  "loop_result r = (case r of None \<Rightarrow> Inl Diverges | Some x \<Rightarrow> Inr x)"

lemma loop_result_simps [simp]:
  "loop_result None = Inl Diverges"
  "loop_result (Some x) = Inr x"
  by (simp_all add: loop_result_def)

text \<open>A pointer is an optional address; following \<open>NULL\<close> is a fault.\<close>

definition deref :: "'a option \<Rightarrow> 'a outcome" where
  "deref p = (case p of None \<Rightarrow> Inl Null_pointer | Some a \<Rightarrow> Inr a)"

lemma deref_simps [simp]:
  "deref None = Inl Null_pointer"
  "deref (Some a) = Inr a"
  by (simp_all add: deref_def)

section \<open>Checked array accesses\<close>

text \<open>C arrays of a fixed length are lists; an index outside the array has no result.\<close>

definition array_get :: "'a list \<Rightarrow> int \<Rightarrow> 'a outcome" where
  "array_get xs i = (if 0 \<le> i \<and> i < int (length xs) then Inr (xs ! nat i) else Inl Out_of_bounds)"

definition array_set :: "'a list \<Rightarrow> int \<Rightarrow> 'a \<Rightarrow> 'a list outcome" where
  "array_set xs i x =
     (if 0 \<le> i \<and> i < int (length xs) then Inr (xs[nat i := x]) else Inl Out_of_bounds)"

lemma array_get_in [bounds_simps]:
  "0 \<le> i \<Longrightarrow> i < int (length xs) \<Longrightarrow> array_get xs i = Inr (xs ! nat i)"
  by (simp add: array_get_def)

lemma array_set_in [bounds_simps]:
  "0 \<le> i \<Longrightarrow> i < int (length xs) \<Longrightarrow> array_set xs i x = Inr (xs[nat i := x])"
  by (simp add: array_set_def)

lemma array_get_unat [bounds_simps]: "unat p < length xs \<Longrightarrow> array_get xs (uint p) = Inr (xs ! unat p)" for p :: "'a :: len word"
  using array_get_in [of "int (unat p)" xs] by (simp only: of_nat_0_le_iff of_nat_less_iff nat_int uint_nat simp_thms)

lemma array_set_unat [bounds_simps]: "unat p < length xs \<Longrightarrow> array_set xs (uint p) x = Inr (xs[unat p := x])" for p :: "'a :: len word"
  using array_set_in [of "int (unat p)" xs x] by (simp only: of_nat_0_le_iff of_nat_less_iff nat_int uint_nat simp_thms)

section \<open>Lists\<close>

lemma find_append: "find P (xs @ ys) = (case find P xs of None \<Rightarrow> find P ys | Some x \<Rightarrow> Some x)"
  by (induction xs) auto

lemma find_map: "find P (map f xs) = map_option f (find (P \<circ> f) xs)"
  by (induction xs) auto

lemma remove1_split: "x \<notin> set as \<Longrightarrow> remove1 x (as @ x # bs) = as @ bs"
  by (simp add: remove1_append)

lemma find_Some_split:
  assumes "find P xs = Some x"
  obtains as bs where "xs = as @ x # bs" "P x" "\<forall>a \<in> set as. \<not> P a"
proof -
  from assms obtain i where i: "i < length xs" "P (xs ! i)" "x = xs ! i" "\<forall>j<i. \<not> P (xs ! j)"
    by (auto simp: find_Some_iff)
  have "xs = take i xs @ x # drop (Suc i) xs"
    using i by (simp add: id_take_nth_drop)
  moreover have "\<forall>a \<in> set (take i xs). \<not> P a"
    using i by (auto simp: in_set_conv_nth)
  ultimately show thesis using i that by blast
qed

lemma sum_list_update_int:
  fixes xs :: "int list"
  shows "i < length xs \<Longrightarrow> sum_list (xs[i := x]) = sum_list xs + x - xs ! i"
  by (induction xs arbitrary: i) (auto split: nat.splits)

end
