(* ===== verification/Linked_List.thy ===== *)
theory Linked_List
  imports Prelude
begin

text \<open>
  The doubly linked ring of \<open>libs/list.h\<close>. An entry is an address of any type; the store
  \<open>links\<close> holds the two pointers of every entry. The relation \<open>ring h r xs\<close> says that the
  entries \<open>xs\<close> hang in this order between the header \<open>r\<close> and itself. The locale
  \<open>entry_ring\<close> is the interface clients use: the laws of the operations on rings.
\<close>

section \<open>Entries and operations\<close>

record 'a links =
  prev :: "'a \<Rightarrow> 'a"
  nxt :: "'a \<Rightarrow> 'a"

definition set_prev :: "'a \<Rightarrow> 'a \<Rightarrow> 'a links \<Rightarrow> 'a links" where
  "set_prev e p h = h\<lparr>prev := (prev h)(e := p)\<rparr>"

definition set_next :: "'a \<Rightarrow> 'a \<Rightarrow> 'a links \<Rightarrow> 'a links" where
  "set_next e n h = h\<lparr>nxt := (nxt h)(e := n)\<rparr>"

definition list_init :: "'a \<Rightarrow> 'a links \<Rightarrow> 'a links" where
  "list_init elm h = set_prev elm elm (set_next elm elm h)"

text \<open>The helper \<open>__list_add\<close>: first \<open>next->prev\<close>, then \<open>prev->next\<close>, then the new entry.\<close>

definition list_add_between :: "'a \<Rightarrow> 'a \<Rightarrow> 'a \<Rightarrow> 'a links \<Rightarrow> 'a links" where
  "list_add_between elm p n h =
     set_prev elm p (set_next elm n (set_next p elm (set_prev n elm h)))"

definition list_add_before :: "'a \<Rightarrow> 'a \<Rightarrow> 'a links \<Rightarrow> 'a links" where
  "list_add_before listelm elm h = list_add_between elm (prev h listelm) listelm h"

definition list_add_after :: "'a \<Rightarrow> 'a \<Rightarrow> 'a links \<Rightarrow> 'a links" where
  "list_add_after listelm elm h = list_add_between elm listelm (nxt h listelm) h"

definition list_add :: "'a \<Rightarrow> 'a \<Rightarrow> 'a links \<Rightarrow> 'a links" where
  "list_add listelm elm h = list_add_after listelm elm h"

text \<open>The helper \<open>__list_del\<close>.\<close>

definition list_del_between :: "'a \<Rightarrow> 'a \<Rightarrow> 'a links \<Rightarrow> 'a links" where
  "list_del_between p n h = set_prev n p (set_next p n h)"

definition list_del :: "'a \<Rightarrow> 'a links \<Rightarrow> 'a links" where
  "list_del listelm h = list_del_between (prev h listelm) (nxt h listelm) h"

definition list_del_init :: "'a \<Rightarrow> 'a links \<Rightarrow> 'a links" where
  "list_del_init listelm h = list_init listelm (list_del listelm h)"

definition list_empty :: "'a \<Rightarrow> 'a links \<Rightarrow> bool" where
  "list_empty list h \<longleftrightarrow> nxt h list = list"

definition list_next :: "'a \<Rightarrow> 'a links \<Rightarrow> 'a" where
  "list_next listelm h = nxt h listelm"

definition list_prev :: "'a \<Rightarrow> 'a links \<Rightarrow> 'a" where
  "list_prev listelm h = prev h listelm"

lemmas list_op_defs =
  list_add_def list_add_before_def list_add_after_def list_add_between_def list_del_def
  list_del_between_def set_prev_def set_next_def

section \<open>Linked sequences\<close>

fun linked :: "'a links \<Rightarrow> 'a list \<Rightarrow> bool" where
  "linked h [] = True"
| "linked h [x] = True"
| "linked h (x # y # zs) = (nxt h x = y \<and> prev h y = x \<and> linked h (y # zs))"

lemma linked_append:
  "linked h (xs @ x # ys) \<longleftrightarrow> linked h (xs @ [x]) \<and> linked h (x # ys)"
proof (induction xs)
  case (Cons a xs)
  then show ?case by (cases xs) auto
qed simp

lemma linked_set_next [simp]:
  "u \<notin> set (butlast xs) \<Longrightarrow> linked (set_next u v h) xs = linked h xs"
  by (induction h xs rule: linked.induct) (auto simp: set_next_def)

lemma linked_set_prev [simp]:
  "u \<notin> set (tl xs) \<Longrightarrow> linked (set_prev u v h) xs = linked h xs"
  by (induction h xs rule: linked.induct) (auto simp: set_prev_def)

lemma nxt_set [simp]:
  "nxt (set_prev u v h) = nxt h" "nxt (set_next u v h) = (nxt h)(u := v)"
  by (simp_all add: set_prev_def set_next_def)

lemma prev_set [simp]:
  "prev (set_next u v h) = prev h" "prev (set_prev u v h) = (prev h)(u := v)"
  by (simp_all add: set_prev_def set_next_def)

lemma linked_insert:
  assumes l: "linked h (as @ p # n # bs)"
    and d: "distinct (as @ [p])" "distinct (n # bs)"
    and n: "n \<notin> set (tl (as @ [p]))" "p \<notin> set (butlast (n # bs))"
    and e: "e \<notin> set (as @ p # n # bs)"
  shows "linked (list_add_between e p n h) (as @ p # e # n # bs)"
proof -
  let ?h = "list_add_between e p n h"
  from l have l1: "linked h (as @ [p])" and l2: "linked h (n # bs)"
    by (auto simp: linked_append [of h as p "n # bs"])
  have e1: "e \<notin> set (tl (as @ [p]))"
    using e by (cases as) auto
  have e2: "e \<notin> set (butlast (n # bs))"
    using e by (metis in_set_butlastD in_set_conv_decomp append.assoc append_Cons Un_iff set_append)
  have "linked ?h (as @ [p])"
    using l1 d(1) e n(1) e1 by (simp add: list_add_between_def)
  moreover have "linked ?h (n # bs)"
    using l2 d(2) e n(2) e2 by (simp add: list_add_between_def)
  moreover have "nxt ?h p = e" "prev ?h e = p" "nxt ?h e = n" "prev ?h n = e"
    using e by (auto simp: list_add_between_def)
  ultimately show ?thesis
    by (simp add: linked_append [of ?h as p "e # n # bs"])
qed

lemma linked_delete:
  assumes l: "linked h (as @ p # x # n # bs)"
    and d: "distinct (as @ [p])" "distinct (n # bs)"
    and n: "n \<notin> set (tl (as @ [p]))" "p \<notin> set (butlast (n # bs))"
  shows "linked (list_del_between p n h) (as @ p # n # bs)"
proof -
  let ?h = "list_del_between p n h"
  from l have l1: "linked h (as @ [p])" and l2: "linked h (n # bs)"
    by (auto simp: linked_append [of h as p "x # n # bs"])
  have "linked ?h (as @ [p])"
    using l1 d(1) n(1) by (simp add: list_del_between_def)
  moreover have "linked ?h (n # bs)"
    using l2 d(2) n(2) by (simp add: list_del_between_def)
  moreover have "nxt ?h p = n" "prev ?h n = p"
    by (auto simp: list_del_between_def)
  ultimately show ?thesis
    by (simp add: linked_append [of ?h as p "n # bs"])
qed

section \<open>Rings\<close>

definition ring :: "'a links \<Rightarrow> 'a \<Rightarrow> 'a list \<Rightarrow> bool" where
  "ring h r xs \<longleftrightarrow> distinct (r # xs) \<and> linked h (r # xs @ [r])"

lemma ring_distinct: "ring h r xs \<Longrightarrow> distinct (r # xs)"
  by (simp add: ring_def)

lemma ring_init [ring_intros]: "ring (list_init r h) r []"
  by (simp add: ring_def list_init_def)

lemma ring_cut:
  assumes "ring h r (as @ bs)"
  obtains cs p y ds where "r # as = cs @ [p]" "bs @ [r] = y # ds" "linked h (cs @ p # y # ds)"
    "last (r # as) = p" "hd (bs @ [r]) = y"
proof -
  have l: "linked h ((r # as) @ (bs @ [r]))" using assms by (simp add: ring_def)
  have c: "r # as = butlast (r # as) @ [last (r # as)]"
    by (rule append_butlast_last_id [symmetric]) simp
  have y: "bs @ [r] = hd (bs @ [r]) # tl (bs @ [r])"
    by (rule hd_Cons_tl [symmetric]) simp
  have "(r # as) @ (bs @ [r]) =
      butlast (r # as) @ last (r # as) # hd (bs @ [r]) # tl (bs @ [r])"
    using arg_cong2 [OF c y, of "(@)"] by (simp del: butlast.simps last.simps)
  with l have "linked h (butlast (r # as) @ last (r # as) # hd (bs @ [r]) # tl (bs @ [r]))"
    by (simp only:)
  then show thesis using c y that by blast
qed

lemma ring_next: "ring h r (as @ bs) \<Longrightarrow> nxt h (last (r # as)) = hd (bs @ [r])"
proof (erule ring_cut)
  fix cs p y ds
  assume "linked h (cs @ p # y # ds)" and py: "last (r # as) = p" "hd (bs @ [r]) = y"
  then have "nxt h p = y" by (simp only: linked_append [of h cs p "y # ds"] linked.simps)
  then show ?thesis by (simp only: py)
qed

lemma ring_prev: "ring h r (as @ bs) \<Longrightarrow> prev h (hd (bs @ [r])) = last (r # as)"
proof (erule ring_cut)
  fix cs p y ds
  assume "linked h (cs @ p # y # ds)" and py: "last (r # as) = p" "hd (bs @ [r]) = y"
  then have "prev h y = p" by (simp only: linked_append [of h cs p "y # ds"] linked.simps)
  then show ?thesis by (simp only: py)
qed

text \<open>
  The header closes the ring, so it is the first entry of the part before a position and the
  last entry of the part after it. The side conditions of \<open>linked_insert\<close> and
  \<open>linked_delete\<close> at such a position hold for every ring.
\<close>

lemma ring_position:
  assumes "distinct (r # as @ bs)" "r # as = cs @ [p]" "bs @ [r] = y # ds"
  shows "distinct (cs @ [p])" "distinct (y # ds)" "y \<notin> set (tl (cs @ [p]))"
    "p \<notin> set (butlast (y # ds))" "set (cs @ p # y # ds) = set (r # as @ bs)"
proof -
  show "distinct (cs @ [p])" using assms by (metis append_Cons distinct_append)
  show "distinct (y # ds)" using assms(1) by (simp flip: assms(3))
  have "tl (cs @ [p]) = as" by (metis assms(2) list.sel(3))
  moreover have "y \<in> set (bs @ [r])" by (simp only: assms(3)) simp
  ultimately show "y \<notin> set (tl (cs @ [p]))" using assms(1) by auto
  have "butlast (y # ds) = bs" by (metis assms(3) butlast_snoc)
  moreover have "p \<in> set (r # as)" by (simp only: assms(2)) simp
  ultimately show "p \<notin> set (butlast (y # ds))" using assms(1) by auto
  have "set (cs @ p # y # ds) = set (cs @ [p]) \<union> set (y # ds)" by auto
  then show "set (cs @ p # y # ds) = set (r # as @ bs)"
    by (simp only: assms(2,3) [symmetric]) auto
qed

lemma ring_add_between:
  assumes r: "ring h r (as @ bs)" and e: "e \<notin> set (r # as @ bs)"
  shows "ring (list_add_between e (last (r # as)) (hd (bs @ [r])) h) r (as @ e # bs)"
proof -
  from r obtain cs p y ds where c: "r # as = cs @ [p]" and y: "bs @ [r] = y # ds"
    and l: "linked h (cs @ p # y # ds)" and py: "last (r # as) = p" "hd (bs @ [r]) = y"
    by (rule ring_cut)
  note pos = ring_position [OF ring_distinct [OF r] c y]
  have "linked (list_add_between e p y h) (cs @ p # e # y # ds)"
    using e by (intro linked_insert l pos(1-4)) (simp only: pos(5) not_False_eq_True)
  moreover have "r # (as @ e # bs) @ [r] = (r # as) @ e # (bs @ [r])" by simp
  then have "r # (as @ e # bs) @ [r] = cs @ p # e # y # ds" by (simp only: c y) simp
  ultimately have "linked (list_add_between e p y h) (r # (as @ e # bs) @ [r])" by (simp only:)
  then show ?thesis
    unfolding py using e ring_distinct [OF r] by (auto simp: ring_def)
qed

lemma ring_add_before [ring_intros]:
  "ring h r (as @ bs) \<Longrightarrow> e \<notin> set (r # as @ bs) \<Longrightarrow>
     ring (list_add_before (hd (bs @ [r])) e h) r (as @ e # bs)"
  using ring_add_between by (simp add: list_add_before_def ring_prev del: last.simps)

lemma ring_add_after [ring_intros]:
  "ring h r (as @ bs) \<Longrightarrow> e \<notin> set (r # as @ bs) \<Longrightarrow>
     ring (list_add_after (last (r # as)) e h) r (as @ e # bs)"
  using ring_add_between by (simp add: list_add_after_def ring_next del: last.simps)

lemma ring_del [ring_intros]:
  assumes r: "ring h r (as @ x # bs)"
  shows "ring (list_del x h) r (as @ bs)"
proof -
  have r': "ring h r ((as @ [x]) @ bs)" using r by simp
  have px: "prev h x = last (r # as)" using ring_prev [OF r] by simp
  have nx: "nxt h x = hd (bs @ [r])" using ring_next [OF r'] by simp
  have d: "distinct (r # as @ bs)" using ring_distinct [OF r] by simp
  have l: "linked h ((r # as) @ x # (bs @ [r]))" using r by (simp add: ring_def)
  obtain cs p where c: "r # as = cs @ [p]" by (metis append_butlast_last_id list.distinct(1))
  obtain y ds where y: "bs @ [r] = y # ds" by (cases bs) auto
  have "linked h (cs @ p # x # y # ds)" using l by (simp only: c y) simp
  then have "linked (list_del_between p y h) (cs @ p # y # ds)"
    by (rule linked_delete) (rule ring_position [OF d c y])+
  moreover have "r # (as @ bs) @ [r] = (r # as) @ (bs @ [r])" by simp
  then have "r # (as @ bs) @ [r] = cs @ p # y # ds" by (simp only: c y) simp
  ultimately have "linked (list_del_between p y h) (r # (as @ bs) @ [r])" by (simp only:)
  moreover have "prev h x = p" "nxt h x = y" unfolding px nx c y by simp_all
  ultimately show ?thesis using d by (simp add: ring_def list_del_def)
qed

lemma list_del_next: "ring h r (as @ x # bs) \<Longrightarrow> nxt (list_del x h) x = nxt h x"
proof -
  assume r: "ring h r (as @ x # bs)"
  have "prev h x = last (r # as)" using ring_prev [OF r] by simp
  moreover have "last (r # as) \<in> set (r # as)" by (rule last_in_set) simp
  ultimately have "prev h x \<noteq> x" using ring_distinct [OF r] by auto
  then show ?thesis by (simp add: list_del_def list_del_between_def)
qed

lemma list_empty_ring: "ring h r xs \<Longrightarrow> list_empty r h \<longleftrightarrow> xs = []"
  using ring_next [of h r "[]" xs] by (cases xs) (auto simp: list_empty_def ring_def)

lemma list_del_init_ring [ring_intros]:
  assumes r: "ring h r (as @ x # bs)"
  shows "ring (list_del_init x h) r (as @ bs) \<and> list_empty x (list_del_init x h)"
proof -
  have "x \<notin> set (r # as @ bs)" using ring_distinct [OF r] by auto
  then have "x \<notin> set (butlast (r # (as @ bs) @ [r]))" "x \<notin> set (tl (r # (as @ bs) @ [r]))"
    by (auto simp: butlast_append)
  then show ?thesis
    using ring_del [OF r] by (simp add: list_del_init_def list_init_def ring_def list_empty_def)
qed

section \<open>Walking a ring\<close>

text \<open>
  The idiom \<open>while ((le = list_next(le)) != head) if (P(le)) break;\<close> shared by the searches of
  the page allocator: the entry where the walk stops, the header when no entry satisfies \<open>P\<close>.
  On a store that is no ring the walk need not end.
\<close>

partial_function (option) ring_search ::
  "('a \<Rightarrow> 'a) \<Rightarrow> ('a \<Rightarrow> bool) \<Rightarrow> 'a \<Rightarrow> 'a \<Rightarrow> 'a option" where
  "ring_search nx P head le =
     (if nx le = head then Some head
      else if P (nx le) then Some (nx le)
      else ring_search nx P head (nx le))"

locale entry_ring =
  fixes rep :: "'h \<Rightarrow> 'a \<Rightarrow> 'a list \<Rightarrow> bool"
    and next_of :: "'a \<Rightarrow> 'h \<Rightarrow> 'a"
    and insert_before :: "'a \<Rightarrow> 'a \<Rightarrow> 'h \<Rightarrow> 'h"
    and insert_after :: "'a \<Rightarrow> 'a \<Rightarrow> 'h \<Rightarrow> 'h"
    and remove :: "'a \<Rightarrow> 'h \<Rightarrow> 'h"
  assumes rep_distinct: "rep h r xs \<Longrightarrow> distinct (r # xs)"
    and rep_next: "rep h r (as @ bs) \<Longrightarrow> next_of (last (r # as)) h = hd (bs @ [r])"
    and rep_insert_before: "rep h r (as @ bs) \<Longrightarrow> e \<notin> set (r # as @ bs) \<Longrightarrow>
      rep (insert_before (hd (bs @ [r])) e h) r (as @ e # bs)"
    and rep_insert_after: "rep h r (as @ bs) \<Longrightarrow> e \<notin> set (r # as @ bs) \<Longrightarrow>
      rep (insert_after (last (r # as)) e h) r (as @ e # bs)"
    and rep_remove: "rep h r (as @ x # bs) \<Longrightarrow> rep (remove x h) r (as @ bs)"
    and remove_next: "rep h r (as @ x # bs) \<Longrightarrow> next_of x (remove x h) = next_of x h"
begin

lemma search_from:
  "rep h r (as @ bs) \<Longrightarrow>
     ring_search (\<lambda>e. next_of e h) P r (last (r # as)) =
       Some (case find P bs of None \<Rightarrow> r | Some x \<Rightarrow> x)"
proof (induction bs arbitrary: as)
  case Nil
  then show ?case
    using rep_next [of h r as "[]"] by (subst ring_search.simps) simp
next
  case (Cons b bs)
  then have nx: "next_of (last (r # as)) h = b"
    using rep_next [of h r as "b # bs"] by simp
  have "b \<noteq> r" using rep_distinct [OF Cons.prems] by auto
  moreover have "ring_search (\<lambda>e. next_of e h) P r b = Some (case find P bs of None \<Rightarrow> r | Some x \<Rightarrow> x)"
    using Cons.IH [of "as @ [b]"] Cons.prems by simp
  ultimately show ?case
    by (subst ring_search.simps) (simp only: nx, simp)
qed

lemma search_ring:
  "rep h r xs \<Longrightarrow> ring_search (\<lambda>e. next_of e h) P r r =
     Some (case find P xs of None \<Rightarrow> r | Some x \<Rightarrow> x)"
  using search_from [of h r "[]" xs] by simp

lemma push_front: "rep h r xs \<Longrightarrow> e \<notin> set (r # xs) \<Longrightarrow> rep (insert_after r e h) r (e # xs)"
  using rep_insert_after [of h r "[]" xs e] by simp

lemma push_back: "rep h r xs \<Longrightarrow> e \<notin> set (r # xs) \<Longrightarrow> rep (insert_before r e h) r (xs @ [e])"
  using rep_insert_before [of h r xs "[]" e] by simp

lemma remove_any: "rep h r xs \<Longrightarrow> x \<in> set xs \<Longrightarrow> rep (remove x h) r (remove1 x xs)"
  by (metis rep_remove rep_distinct split_list_first remove1_append remove1.simps(2))

lemma insert_remove: "rep h r xs \<Longrightarrow> e \<notin> set (r # xs) \<Longrightarrow> rep (remove e (insert_after r e h)) r xs"
  using rep_remove [of _ r "[]" e xs] push_front by simp

end

interpretation lring: entry_ring ring list_next list_add_before list_add list_del
  by unfold_locales
    (auto simp: list_next_def list_add_def list_del_next simp del: last.simps
      intro: ring_intros ring_next dest: ring_distinct)

end
