(* ===== verification/Pmm_Manager.thy ===== *)
theory Pmm_Manager
  imports Prelude
begin

text \<open>
  The interface \<open>struct pmm_manager\<close> of \<open>kern/mm/pmm.h\<close>: the contract of a physical page
  allocator as the rest of the kernel relies on it. \<open>rep s F\<close> says that the manager's state
  \<open>s\<close> is well formed and that its free pages are \<open>F\<close>; \<open>usable\<close> and \<open>reserved\<close> are the
  pages that may be handed out and those that still wait for \<open>init_memmap\<close>.
\<close>

locale pmm_manager =
  fixes rep :: "'s \<Rightarrow> nat set \<Rightarrow> bool"
    and usable :: "'s \<Rightarrow> nat set"
    and reserved :: "'s \<Rightarrow> nat set"
    and init :: "'s \<Rightarrow> 's"
    and init_memmap :: "nat \<Rightarrow> size_t \<Rightarrow> 's \<Rightarrow> 's outcome"
    and alloc_pages :: "size_t \<Rightarrow> 's \<Rightarrow> (nat option \<times> 's) outcome"
    and free_pages :: "nat \<Rightarrow> size_t \<Rightarrow> 's \<Rightarrow> 's outcome"
    and nr_free_pages :: "'s \<Rightarrow> size_t"
  assumes rep_usable: "rep s F \<Longrightarrow> finite F \<and> F \<subseteq> usable s"
    and rep_nr: "rep s F \<Longrightarrow> unat (nr_free_pages s) = card F"
    and init_rep: "usable s = {} \<Longrightarrow> rep (init s) {} \<and> usable (init s) = {} \<and> reserved (init s) = reserved s"
    and init_memmap_ok: "rep s F \<Longrightarrow> 0 < n \<Longrightarrow> {b..<b + unat n} \<subseteq> reserved s \<Longrightarrow>
      \<exists>s'. init_memmap b n s = Inr s' \<and> rep s' (F \<union> {b..<b + unat n}) \<and>
           usable s' = usable s \<union> {b..<b + unat n} \<and> reserved s' = reserved s - {b..<b + unat n}"
    and alloc_ok: "rep s F \<Longrightarrow> 0 < n \<Longrightarrow>
      \<exists>r s'. alloc_pages n s = Inr (r, s') \<and> usable s' = usable s \<and> reserved s' = reserved s \<and>
        (case r of None \<Rightarrow> rep s' F
         | Some p \<Rightarrow> {p..<p + unat n} \<subseteq> F \<and> rep s' (F - {p..<p + unat n}))"
    and alloc_one: "rep s F \<Longrightarrow> F \<noteq> {} \<Longrightarrow> \<exists>p s'. alloc_pages 1 s = Inr (Some p, s')"
    and free_ok: "rep s F \<Longrightarrow> 0 < n \<Longrightarrow> {b..<b + unat n} \<subseteq> usable s - F \<Longrightarrow>
      \<exists>s'. free_pages b n s = Inr s' \<and> rep s' (F \<union> {b..<b + unat n}) \<and>
           usable s' = usable s \<and> reserved s' = reserved s"
begin

lemma alloc_some:
  assumes "rep s F" "0 < n" "alloc_pages n s = Inr (Some p, s')"
  shows "{p..<p + unat n} \<subseteq> F" "rep s' (F - {p..<p + unat n})" "usable s' = usable s"
  using alloc_ok [OF assms(1,2)] assms(3) by auto

lemma alloc_none:
  assumes "rep s F" "0 < n" "alloc_pages n s = Inr (None, s')"
  shows "rep s' F" "usable s' = usable s"
  using alloc_ok [OF assms(1,2)] assms(3) by auto

lemma alloc_free_restores:
  assumes rep: "rep s F" "0 < n" and al: "alloc_pages n s = Inr (Some p, s1)"
  shows "\<exists>s2. free_pages p n s1 = Inr s2 \<and> rep s2 F \<and> usable s2 = usable s"
proof -
  note a = alloc_some [OF assms]
  have "{p..<p + unat n} \<subseteq> usable s1 - (F - {p..<p + unat n})"
    using a rep_usable [OF rep(1)] by auto
  from free_ok [OF a(2) rep(2) this] obtain s2 where
    "free_pages p n s1 = Inr s2" "rep s2 (F - {p..<p + unat n} \<union> {p..<p + unat n})" "usable s2 = usable s1"
    by blast
  moreover have "F - {p..<p + unat n} \<union> {p..<p + unat n} = F" using a(1) by auto
  ultimately show ?thesis using a(3) by auto
qed

lemma alloc_twice_disjoint:
  assumes "rep s F" "0 < n" "0 < m"
    and "alloc_pages n s = Inr (Some p, s1)" "alloc_pages m s1 = Inr (Some q, s2)"
  shows "{p..<p + unat n} \<inter> {q..<q + unat m} = {}"
  using alloc_some(1) [OF alloc_some(2) [OF assms(1,2,4)] assms(3,5)] by blast

lemma alloc_counts:
  assumes "rep s F" "0 < n" "alloc_pages n s = Inr (Some p, s')"
  shows "unat (nr_free_pages s') = unat (nr_free_pages s) - unat n"
proof -
  note a = alloc_some [OF assms]
  have "card (F - {p..<p + unat n}) = card F - card {p..<p + unat n}"
    using a(1) by (intro card_Diff_subset) auto
  then show ?thesis using rep_nr [OF assms(1)] rep_nr [OF a(2)] by simp
qed

end

end
