(* ===== verification/First_Fit.thy ===== *)
theory First_Fit
  imports Linked_List Pmm_Manager
begin

text \<open>
  The first-fit physical page allocator of \<open>kern/mm/default_pmm.c\<close>. The state holds the page
  descriptors, the links of the free list and \<open>nr_free\<close>; a pointer to \<open>struct Page\<close> is the
  index of the descriptor in the \<open>pages\<close> array. The free list is a ring of the entries
  \<open>&free_list\<close> and \<open>&page->page_link\<close>; every walk of the code is a walk of this ring.
  An abstract allocator on lists of (start, length) blocks is refined by the four operations.
\<close>

section \<open>Page descriptors and the free area\<close>

datatype entry = Free_list | Page_link nat

record Page =
  ref :: int
  flags :: uint32
  property :: uint32

record kmem =
  page :: "nat \<Rightarrow> Page"
  free_links :: "entry links"
  nr_free :: uint32

definition PG_reserved :: nat where "PG_reserved = 0"
definition PG_property :: nat where "PG_property = 1"

definition update_page :: "nat \<Rightarrow> (Page \<Rightarrow> Page) \<Rightarrow> kmem \<Rightarrow> kmem" where
  "update_page p f s = s\<lparr>page := (page s)(p := f (page s p))\<rparr>"

definition PageReserved :: "nat \<Rightarrow> kmem \<Rightarrow> bool" where
  "PageReserved p s = bit (flags (page s p)) PG_reserved"

definition PageProperty :: "nat \<Rightarrow> kmem \<Rightarrow> bool" where
  "PageProperty p s = bit (flags (page s p)) PG_property"

definition SetPageReserved :: "nat \<Rightarrow> kmem \<Rightarrow> kmem" where
  "SetPageReserved p = update_page p (\<lambda>pg. pg\<lparr>flags := set_bit PG_reserved (flags pg)\<rparr>)"

definition SetPageProperty :: "nat \<Rightarrow> kmem \<Rightarrow> kmem" where
  "SetPageProperty p = update_page p (\<lambda>pg. pg\<lparr>flags := set_bit PG_property (flags pg)\<rparr>)"

definition ClearPageProperty :: "nat \<Rightarrow> kmem \<Rightarrow> kmem" where
  "ClearPageProperty p = update_page p (\<lambda>pg. pg\<lparr>flags := unset_bit PG_property (flags pg)\<rparr>)"

definition set_page_ref :: "nat \<Rightarrow> int \<Rightarrow> kmem \<Rightarrow> kmem" where
  "set_page_ref p v = update_page p (\<lambda>pg. pg\<lparr>ref := v\<rparr>)"

definition set_flags :: "nat \<Rightarrow> uint32 \<Rightarrow> kmem \<Rightarrow> kmem" where
  "set_flags p w = update_page p (\<lambda>pg. pg\<lparr>flags := w\<rparr>)"

definition set_property :: "nat \<Rightarrow> uint32 \<Rightarrow> kmem \<Rightarrow> kmem" where
  "set_property p w = update_page p (\<lambda>pg. pg\<lparr>property := w\<rparr>)"

definition page_property :: "nat \<Rightarrow> kmem \<Rightarrow> uint32" where
  "page_property p s = property (page s p)"

definition on_links :: "(entry links \<Rightarrow> entry links) \<Rightarrow> kmem \<Rightarrow> kmem" where
  "on_links f s = s\<lparr>free_links := f (free_links s)\<rparr>"

section \<open>The operations of default_pmm.c\<close>

definition default_init :: "kmem \<Rightarrow> kmem" where
  "default_init s = (on_links (list_init Free_list) s)\<lparr>nr_free := 0\<rparr>"

fun init_memmap_loop :: "nat \<Rightarrow> size_t \<Rightarrow> nat \<Rightarrow> nat \<Rightarrow> kmem \<Rightarrow> kmem outcome" where
  "init_memmap_loop base n p 0 s = Inr s"
| "init_memmap_loop base n p (Suc k) s =
     (if \<not> PageReserved p s then Inl Assert_failed
      else
        let s1 = set_page_ref p 0 (set_flags p 0 s);
            s2 = (if p = base then SetPageProperty p (set_property p n s1)
                  else set_property p 0 s1)
        in init_memmap_loop base n (p + 1) k s2)"

definition default_init_memmap :: "nat \<Rightarrow> size_t \<Rightarrow> kmem \<Rightarrow> kmem outcome" where
  "default_init_memmap base n s =
     (if \<not> 0 < n then Inl Assert_failed
      else andThen (init_memmap_loop base n base (unat n) s) (\<lambda>s1.
        Inr ((on_links (list_add_before Free_list (Page_link base)) s1)\<lparr>nr_free := nr_free s1 + n\<rparr>)))"

text \<open>The part of \<open>default_alloc_pages\<close> after the search, for the block found at \<open>p\<close>.\<close>

definition take_block :: "nat \<Rightarrow> size_t \<Rightarrow> kmem \<Rightarrow> kmem" where
  "take_block p n s =
     (let s1 = on_links (list_del (Page_link p)) s;
          s2 = (if n < page_property p s1 then
                  let q = p + unat n
                  in on_links (list_add Free_list (Page_link q))
                       (SetPageProperty q (set_property q (page_property p s1 - n) s1))
                else s1);
          s3 = s2\<lparr>nr_free := nr_free s2 - n\<rparr>
      in ClearPageProperty p s3)"

definition default_alloc_pages :: "size_t \<Rightarrow> kmem \<Rightarrow> (nat option \<times> kmem) outcome" where
  "default_alloc_pages n s =
     (if \<not> 0 < n then Inl Assert_failed
      else if nr_free s < n then Inr (None, s)
      else andThen
        (loop_result (ring_search (\<lambda>le. list_next le (free_links s))
          (\<lambda>le. case le of Free_list \<Rightarrow> False | Page_link p \<Rightarrow> n \<le> page_property p s) Free_list Free_list))
        (\<lambda>le. case le of Free_list \<Rightarrow> Inr (None, s) | Page_link p \<Rightarrow> Inr (Some p, take_block p n s)))"

fun free_pages_loop :: "nat \<Rightarrow> nat \<Rightarrow> kmem \<Rightarrow> kmem outcome" where
  "free_pages_loop p 0 s = Inr s"
| "free_pages_loop p (Suc k) s =
     (if \<not> (\<not> PageReserved p s \<and> \<not> PageProperty p s) then Inl Assert_failed
      else free_pages_loop (p + 1) k (set_page_ref p 0 (set_flags p 0 s)))"

text \<open>One round of the merging walk: the free block at \<open>p\<close> against the released block \<open>base\<close>.\<close>

definition merge_step :: "nat \<Rightarrow> nat \<Rightarrow> kmem \<Rightarrow> nat \<times> kmem" where
  "merge_step p base s =
     (if base + unat (page_property base s) = p then
        (base, on_links (list_del (Page_link p))
          (ClearPageProperty p (set_property base (page_property base s + page_property p s) s)))
      else if p + unat (page_property p s) = base then
        (p, on_links (list_del (Page_link p))
          (ClearPageProperty base (set_property p (page_property p s + page_property base s) s)))
      else (base, s))"

partial_function (option) merge_loop :: "entry \<Rightarrow> nat \<Rightarrow> kmem \<Rightarrow> (nat \<times> kmem) option" where
  "merge_loop le base s =
     (case list_next le (free_links s) of
        Free_list \<Rightarrow> Some (base, s)
      | Page_link p \<Rightarrow>
          merge_loop (Page_link p) (fst (merge_step p base s)) (snd (merge_step p base s)))"

definition default_free_pages :: "nat \<Rightarrow> size_t \<Rightarrow> kmem \<Rightarrow> kmem outcome" where
  "default_free_pages base n s =
     (if \<not> 0 < n then Inl Assert_failed
      else andThen (free_pages_loop base (unat n) s) (\<lambda>s1.
        andThen (loop_result (merge_loop Free_list base (SetPageProperty base (set_property base n s1))))
          (\<lambda>(base', s2).
        andThen (loop_result (ring_search (\<lambda>le. list_next le (free_links s2))
            (\<lambda>le. case le of Free_list \<Rightarrow> False | Page_link p \<Rightarrow> base' + unat (page_property base' s2) \<le> p)
            Free_list Free_list))
          (\<lambda>le. Inr (on_links (list_add_before le (Page_link base')) (s2\<lparr>nr_free := nr_free s2 + n\<rparr>))))))"

definition default_nr_free_pages :: "kmem \<Rightarrow> size_t" where
  "default_nr_free_pages s = nr_free s"

section \<open>Fields after each update\<close>

lemmas page_op_defs =
  PageReserved_def PageProperty_def SetPageReserved_def SetPageProperty_def ClearPageProperty_def
  set_page_ref_def set_flags_def set_property_def page_property_def update_page_def on_links_def
  PG_reserved_def PG_property_def

lemma page_property_upd [simp]:
  "page_property q (SetPageProperty p s) = page_property q s"
  "page_property q (ClearPageProperty p s) = page_property q s"
  "page_property q (set_page_ref p v s) = page_property q s"
  "page_property q (set_flags p w s) = page_property q s"
  "page_property q (set_property p w s) = (if q = p then w else page_property q s)"
  "page_property q (on_links f s) = page_property q s"
  "page_property q (s\<lparr>nr_free := m\<rparr>) = page_property q s"
  by (simp_all add: page_op_defs)

lemma reserved_upd [simp]:
  "PageReserved q (SetPageProperty p s) = PageReserved q s"
  "PageReserved q (ClearPageProperty p s) = PageReserved q s"
  "PageReserved q (set_page_ref p v s) = PageReserved q s"
  "PageReserved q (set_flags p 0 s) = (q \<noteq> p \<and> PageReserved q s)"
  "PageReserved q (set_property p w s) = PageReserved q s"
  "PageReserved q (on_links f s) = PageReserved q s"
  "PageReserved q (s\<lparr>nr_free := m\<rparr>) = PageReserved q s"
  by (simp_all add: page_op_defs bit_simps)

lemma property_upd [simp]:
  "PageProperty q (SetPageProperty p s) = (q = p \<or> PageProperty q s)"
  "PageProperty q (ClearPageProperty p s) = (q \<noteq> p \<and> PageProperty q s)"
  "PageProperty q (set_page_ref p v s) = PageProperty q s"
  "PageProperty q (set_flags p 0 s) = (q \<noteq> p \<and> PageProperty q s)"
  "PageProperty q (set_property p w s) = PageProperty q s"
  "PageProperty q (on_links f s) = PageProperty q s"
  "PageProperty q (s\<lparr>nr_free := m\<rparr>) = PageProperty q s"
  by (simp_all add: page_op_defs bit_simps)

lemma links_upd [simp]:
  "free_links (SetPageProperty p s) = free_links s"
  "free_links (ClearPageProperty p s) = free_links s"
  "free_links (set_page_ref p v s) = free_links s"
  "free_links (set_flags p w s) = free_links s"
  "free_links (set_property p w s) = free_links s"
  "free_links (on_links f s) = f (free_links s)"
  by (simp_all add: page_op_defs)

lemma nr_free_upd [simp]:
  "nr_free (SetPageProperty p s) = nr_free s"
  "nr_free (ClearPageProperty p s) = nr_free s"
  "nr_free (set_page_ref p v s) = nr_free s"
  "nr_free (set_flags p w s) = nr_free s"
  "nr_free (set_property p w s) = nr_free s"
  "nr_free (on_links f s) = nr_free s"
  by (simp_all add: page_op_defs)

section \<open>Blocks\<close>

type_synonym block = "nat \<times> nat"

fun block_pages :: "block \<Rightarrow> nat set" where
  "block_pages (p, k) = {p..<p + k}"

fun apart :: "block \<Rightarrow> block \<Rightarrow> bool" where
  "apart (p, k) (q, m) \<longleftrightarrow> p + k \<le> q \<or> q + m \<le> p"

definition pages_of :: "block list \<Rightarrow> nat set" where
  "pages_of bs = (\<Union>b \<in> set bs. block_pages b)"

definition blocks_disjoint :: "block list \<Rightarrow> bool" where
  "blocks_disjoint bs \<longleftrightarrow>
     distinct bs \<and> (\<forall>x \<in> set bs. 0 < snd x) \<and> (\<forall>x \<in> set bs. \<forall>y \<in> set bs. x \<noteq> y \<longrightarrow> apart x y)"

lemma pages_of_simps [simp]:
  "pages_of [] = {}"
  "pages_of (b # bs) = block_pages b \<union> pages_of bs"
  "pages_of (as @ bs) = pages_of as \<union> pages_of bs"
  by (auto simp: pages_of_def)

lemma apart_sym: "apart x y \<longleftrightarrow> apart y x"
  by (cases x; cases y) auto

lemma apart_iff_disjoint: "0 < snd x \<Longrightarrow> 0 < snd y \<Longrightarrow> apart x y \<longleftrightarrow> block_pages x \<inter> block_pages y = {}"
proof -
  assume pos: "0 < snd x" "0 < snd y"
  obtain p k q m where xy: "x = (p, k)" "y = (q, m)" by (cases x; cases y)
  have "\<not> apart x y \<Longrightarrow> max p q \<in> block_pages x \<inter> block_pages y"
    using pos by (auto simp: xy not_le)
  moreover have "apart x y \<Longrightarrow> block_pages x \<inter> block_pages y = {}"
    by (auto simp: xy)
  ultimately show ?thesis by blast
qed

lemma blocks_disjoint_perm: "mset as = mset bs \<Longrightarrow> blocks_disjoint as = blocks_disjoint bs"
  using mset_eq_setD [of as bs] mset_eq_imp_distinct_iff [of as bs]
  by (simp add: blocks_disjoint_def)

lemma pages_of_perm: "mset as = mset bs \<Longrightarrow> pages_of as = pages_of bs"
  using mset_eq_setD [of as bs] by (simp add: pages_of_def)

lemma blocks_disjoint_Cons:
  "blocks_disjoint (x # bs) \<longleftrightarrow>
     0 < snd x \<and> x \<notin> set bs \<and> (\<forall>y \<in> set bs. apart x y) \<and> blocks_disjoint bs"
  by (auto simp: blocks_disjoint_def apart_sym)

lemma blocks_disjoint_sym_split:
  "blocks_disjoint (as @ x # bs) \<longleftrightarrow> blocks_disjoint (x # as @ bs)"
  by (rule blocks_disjoint_perm) simp

lemma blocks_disjoint_starts: "blocks_disjoint bs \<Longrightarrow> distinct (map fst bs)"
proof (induction bs)
  case (Cons x bs)
  have "fst y \<noteq> fst x" if "y \<in> set bs" for y
  proof -
    have "apart x y" "0 < snd x" "0 < snd y"
      using Cons.prems that by (auto simp: blocks_disjoint_def apart_sym)
    then show ?thesis by (cases x; cases y) auto
  qed
  then have "fst x \<notin> fst ` set bs" by force
  with Cons show ?case by (simp add: blocks_disjoint_Cons)
qed simp

lemma starts_in_pages: "blocks_disjoint bs \<Longrightarrow> fst ` set bs \<subseteq> pages_of bs"
proof
  fix p assume d: "blocks_disjoint bs" and "p \<in> fst ` set bs"
  then obtain k where k: "(p, k) \<in> set bs" by force
  moreover have "p \<in> block_pages (p, k)" using d k by (auto simp: blocks_disjoint_def)
  ultimately show "p \<in> pages_of bs" unfolding pages_of_def by blast
qed

lemma apart_block_pages: "0 < snd x \<Longrightarrow> 0 < snd y \<Longrightarrow> apart x y \<Longrightarrow> fst x \<notin> block_pages y"
  by (cases x; cases y) auto

lemma card_pages_of: "blocks_disjoint bs \<Longrightarrow> card (pages_of bs) = sum_list (map snd bs)"
proof (induction bs)
  case (Cons x bs)
  then have d: "blocks_disjoint bs" "\<forall>y \<in> set bs. 0 < snd y \<and> apart x y" "0 < snd x"
    by (auto simp: blocks_disjoint_Cons) (auto simp: blocks_disjoint_def)
  then have "block_pages x \<inter> pages_of bs = {}"
    by (auto simp: pages_of_def dest!: apart_iff_disjoint [THEN iffD1, rotated 2])
  moreover have "finite (block_pages y)" "card (block_pages y) = snd y" for y
    by (cases y; simp)+
  ultimately show ?case
    using Cons.IH d(1) by (simp add: card_Un_disjoint pages_of_def)
qed simp

section \<open>Abstract first fit\<close>

text \<open>
  The allocator on blocks: allocation takes the first block that is long enough and puts what is
  left at the front of the list; release merges the block with its neighbours wherever they
  stand and puts the result before the first block that starts behind it.
\<close>

definition ff_alloc :: "nat \<Rightarrow> block list \<Rightarrow> nat option \<times> block list" where
  "ff_alloc n bs =
     (case find (\<lambda>b. n \<le> snd b) bs of
        None \<Rightarrow> (None, bs)
      | Some (p, k) \<Rightarrow>
          (Some p, (if n < k then [(p + n, k - n)] else []) @ remove1 (p, k) bs))"

fun ff_merge :: "block \<Rightarrow> block list \<Rightarrow> block \<times> block list" where
  "ff_merge c [] = (c, [])"
| "ff_merge (b, k) ((p, m) # rs) =
     (if b + k = p then ff_merge (b, k + m) rs
      else if p + m = b then ff_merge (p, m + k) rs
      else (let (c, ks) = ff_merge (b, k) rs in (c, (p, m) # ks)))"

fun ff_insert :: "block \<Rightarrow> block list \<Rightarrow> block list" where
  "ff_insert c [] = [c]"
| "ff_insert c (x # xs) = (if fst c + snd c \<le> fst x then c # x # xs else x # ff_insert c xs)"

definition ff_free :: "block \<Rightarrow> block list \<Rightarrow> block list" where
  "ff_free b bs = (let (c, ks) = ff_merge b bs in ff_insert c ks)"

lemma mset_ff_insert: "mset (ff_insert c xs) = add_mset c (mset xs)"
  by (induction xs) auto

lemma ff_merge_keeps: "ff_merge c rs = (c', ks) \<Longrightarrow> set ks \<subseteq> set rs"
  by (induction c rs arbitrary: c' ks rule: ff_merge.induct)
    (force split: if_splits prod.splits)+

section \<open>The invariant\<close>

text \<open>
  \<open>pages_ok\<close> relates the descriptors to a set of blocks: the first page of a block carries the
  length and, among the pages that are not reserved, exactly the first pages of blocks carry
  \<open>PG_property\<close>. \<open>ff_inv\<close> adds the free list, which holds the blocks in this order, and the
  counter. \<open>N\<close> bounds the page numbers (\<open>npage\<close>).
\<close>

definition pages_ok :: "nat \<Rightarrow> kmem \<Rightarrow> block list \<Rightarrow> bool" where
  "pages_ok N s bs \<longleftrightarrow>
     blocks_disjoint bs \<and>
     (\<forall>b \<in> set bs. unat (page_property (fst b) s) = snd b) \<and>
     (\<forall>p \<in> pages_of bs. p < N \<and> \<not> PageReserved p s) \<and>
     (\<forall>p < N. \<not> PageReserved p s \<longrightarrow> PageProperty p s \<longleftrightarrow> p \<in> fst ` set bs)"

definition links_ok :: "kmem \<Rightarrow> block list \<Rightarrow> bool" where
  "links_ok s bs \<longleftrightarrow> ring (free_links s) Free_list (map (Page_link \<circ> fst) bs)"

definition ff_inv :: "nat \<Rightarrow> kmem \<Rightarrow> block list \<Rightarrow> bool" where
  "ff_inv N s bs \<longleftrightarrow>
     N < 2 ^ 32 \<and> pages_ok N s bs \<and> links_ok s bs \<and> unat (nr_free s) = sum_list (map snd bs)"

lemma pages_ok_perm: "mset as = mset bs \<Longrightarrow> pages_ok N s as = pages_ok N s bs"
  using mset_eq_setD [of as bs] blocks_disjoint_perm [of as bs] pages_of_perm [of as bs]
  by (simp add: pages_ok_def)

lemma block_bound:
  assumes "pages_ok N s bs" "(p, k) \<in> set bs"
  shows "p + k \<le> N" "0 < k" "unat (page_property p s) = k" "\<not> PageReserved p s" "PageProperty p s"
proof -
  show k: "0 < k" using assms by (auto simp: pages_ok_def blocks_disjoint_def)
  have "block_pages (p, k) \<subseteq> pages_of bs" using assms(2) by (auto simp: pages_of_def)
  then have in_bs: "p + k - 1 \<in> pages_of bs" "p \<in> pages_of bs" using k by auto
  then have "p + k - 1 < N" using assms(1) by (auto simp: pages_ok_def)
  then show "p + k \<le> N" using k by simp
  show "unat (page_property p s) = k" using assms by (force simp: pages_ok_def)
  show r: "\<not> PageReserved p s" using assms(1) in_bs by (auto simp: pages_ok_def)
  have "p \<in> fst ` set bs" "p < N" using assms in_bs by (force simp: pages_ok_def)+
  with r assms(1) show "PageProperty p s" by (simp add: pages_ok_def)
qed

lemma pages_ok_page_cong: "page s = page t \<Longrightarrow> pages_ok N s bs = pages_ok N t bs"
  by (simp add: pages_ok_def page_op_defs)

lemma pages_ok_frame [simp]:
  "pages_ok N (on_links f s) bs = pages_ok N s bs"
  "pages_ok N (s\<lparr>nr_free := m\<rparr>) bs = pages_ok N s bs"
  by (simp_all add: pages_ok_def)

lemma links_ok_frame [simp]:
  "links_ok (SetPageProperty p s) bs = links_ok s bs"
  "links_ok (ClearPageProperty p s) bs = links_ok s bs"
  "links_ok (set_page_ref p v s) bs = links_ok s bs"
  "links_ok (set_flags p w s) bs = links_ok s bs"
  "links_ok (set_property p w s) bs = links_ok s bs"
  "links_ok (s\<lparr>nr_free := m\<rparr>) bs = links_ok s bs"
  by (simp_all add: links_ok_def)

lemma start_notin:
  "blocks_disjoint ((p, k) # bs) \<Longrightarrow> p \<notin> fst ` set bs"
  using blocks_disjoint_starts [of "(p, k) # bs"] by simp

lemma pages_ok_drop:
  assumes "pages_ok N s ((p, k) # bs)"
  shows "pages_ok N (ClearPageProperty p s) bs"
proof -
  have "p \<notin> fst ` set bs" using assms start_notin [of p k bs] by (simp add: pages_ok_def)
  then show ?thesis using assms by (auto simp: pages_ok_def blocks_disjoint_Cons)
qed

lemma apart_suffix: "apart (p, k) y \<Longrightarrow> m < k \<Longrightarrow> apart (p + m, k - m) y"
  by (cases y) auto

lemma pages_ok_shrink:
  assumes ok: "pages_ok N s ((p, k) # bs)" and m: "0 < m" "m < k" and w: "unat w = k - m"
  shows "pages_ok N (ClearPageProperty p (SetPageProperty (p + m) (set_property (p + m) w s)))
     ((p + m, k - m) # bs)"
proof -
  have d: "blocks_disjoint ((p, k) # bs)" using ok by (simp add: pages_ok_def)
  have in_p: "p + m \<in> block_pages (p, k)" using m by simp
  have ap: "\<forall>y \<in> set bs. apart (p + m, k - m) y"
    using d m by (auto simp: blocks_disjoint_Cons intro: apart_suffix)
  have "\<forall>y \<in> set bs. 0 < snd y \<and> apart (p, k) y"
    using d by (auto simp: blocks_disjoint_Cons) (auto simp: blocks_disjoint_def)
  then have fresh: "p + m \<notin> fst ` set bs"
    using in_p apart_block_pages [of _ "(p, k)"] m by (force simp: apart_sym)
  then have notin: "(p + m, k - m) \<notin> set bs" by force
  have "blocks_disjoint ((p + m, k - m) # bs)"
    using d ap notin m by (simp add: blocks_disjoint_Cons)
  moreover have "p \<notin> fst ` set bs" using d by (rule start_notin)
  moreover have "\<forall>b \<in> set bs. fst b \<noteq> p + m" using fresh by force
  ultimately show ?thesis
    using ok m w by (auto simp: pages_ok_def)
qed

section \<open>Allocation refines the abstract allocator\<close>

lemma links_ok_del:
  "links_ok s (as @ (p, k) # bs) \<Longrightarrow> links_ok (on_links (list_del (Page_link p)) s) (as @ bs)"
  by (simp add: links_ok_def lring.rep_remove)

lemma links_ok_push_front:
  "links_ok s bs \<Longrightarrow> q \<notin> fst ` set bs \<Longrightarrow>
     links_ok (on_links (list_add Free_list (Page_link q)) s) ((q, k) # bs)"
  unfolding links_ok_def links_upd list.map comp_def fst_conv
  by (rule lring.push_front) auto

lemma alloc_search:
  assumes "pages_ok N s bs" "links_ok s bs"
  shows "ring_search (\<lambda>le. list_next le (free_links s))
      (\<lambda>le. case le of Free_list \<Rightarrow> False | Page_link p \<Rightarrow> n \<le> page_property p s) Free_list Free_list =
    Some (case find (\<lambda>b. unat n \<le> snd b) bs of None \<Rightarrow> Free_list | Some b \<Rightarrow> Page_link (fst b))"
proof -
  have "find ((\<lambda>le. case le of Free_list \<Rightarrow> False | Page_link p \<Rightarrow> n \<le> page_property p s) \<circ> (Page_link \<circ> fst)) bs
      = find (\<lambda>b. unat n \<le> snd b) bs"
    using assms(1) by (intro find_cong) (auto simp: pages_ok_def word_le_nat_alt)
  then show ?thesis
    using lring.search_ring [OF assms(2) [unfolded links_ok_def]]
    by (simp add: find_map split: option.split)
qed

lemma take_block_inv:
  assumes inv: "ff_inv N s (as @ (p, k) # bs)" and n: "0 < n" "unat n \<le> k"
  shows "ff_inv N (take_block p n s) ((if unat n < k then [(p + unat n, k - unat n)] else []) @ as @ bs)"
proof -
  have ok: "pages_ok N s ((p, k) # as @ bs)" and lk: "links_ok s (as @ (p, k) # bs)"
    and sum: "unat (nr_free s) = k + sum_list (map snd (as @ bs))"
    using inv pages_ok_perm [of "as @ (p, k) # bs" "(p, k) # as @ bs"] by (auto simp: ff_inv_def)
  have pk: "unat (page_property p s) = k" and n0: "0 < unat n"
    using block_bound(3) [OF ok] n by (auto simp: unat_gt_0)
  have "n \<le> nr_free s" using n sum by (simp add: word_le_nat_alt)
  then have nr: "unat (nr_free s - n) = k - unat n + sum_list (map snd (as @ bs))"
    using n sum by (simp add: unat_sub)
  show ?thesis
  proof (cases "unat n < k")
    case True
    let ?q = "p + unat n" and ?w = "page_property p s - n"
    have lt: "n < page_property p s" using True pk by (simp add: word_less_nat_alt)
    have w: "unat ?w = k - unat n" using pk lt by (simp add: unat_sub order.strict_implies_order)
    have ok': "pages_ok N (ClearPageProperty p (SetPageProperty ?q (set_property ?q ?w s)))
        ((?q, k - unat n) # as @ bs)"
      using ok n0 True w by (rule pages_ok_shrink)
    then have "blocks_disjoint ((?q, k - unat n) # as @ bs)" by (simp add: pages_ok_def)
    then have "?q \<notin> fst ` set (as @ bs)" by (rule start_notin)
    from links_ok_push_front [OF links_ok_del [OF lk] this, of "k - unat n"]
    have lk': "links_ok (on_links (list_add Free_list (Page_link ?q)) (on_links (list_del (Page_link p)) s))
        ((?q, k - unat n) # as @ bs)" .
    have pages: "pages_ok N (take_block p n s) ((?q, k - unat n) # as @ bs)"
      by (rule pages_ok_page_cong [THEN iffD1, OF _ ok'])
        (use lt in \<open>simp add: take_block_def Let_def page_op_defs\<close>)
    have "links_ok (take_block p n s) ((?q, k - unat n) # as @ bs)"
      using lk' lt by (simp add: take_block_def Let_def links_ok_def)
    then show ?thesis
      using True inv pages nr lt by (simp add: ff_inv_def take_block_def Let_def)
  next
    case False
    then have eq: "unat n = k" using n by simp
    have lt: "\<not> n < page_property p s" using False pk by (simp add: word_less_nat_alt)
    have pages: "pages_ok N (take_block p n s) (as @ bs)"
      using pages_ok_drop [OF ok] lt by (simp add: take_block_def Let_def pages_ok_def)
    have "links_ok (take_block p n s) (as @ bs)"
      using links_ok_del [OF lk] lt by (simp add: take_block_def Let_def)
    then show ?thesis
      using False inv pages nr lt eq by (simp add: ff_inv_def take_block_def Let_def)
  qed
qed

lemma ff_alloc_None_iff: "fst (ff_alloc n bs) = None \<longleftrightarrow> (\<forall>b \<in> set bs. snd b < n)"
proof -
  have "fst (ff_alloc n bs) = None \<longleftrightarrow> find (\<lambda>b. n \<le> snd b) bs = None"
    by (auto simp: ff_alloc_def split: option.splits)
  then show ?thesis by (auto simp: find_None_iff not_le)
qed

theorem alloc_refines:
  assumes inv: "ff_inv N s bs" and n: "0 < n"
  shows "\<exists>s'. default_alloc_pages n s = Inr (fst (ff_alloc (unat n) bs), s') \<and>
           ff_inv N s' (snd (ff_alloc (unat n) bs)) \<and>
           (\<forall>p. PageReserved p s' = PageReserved p s)"
proof (cases "find (\<lambda>b. unat n \<le> snd b) bs")
  case None
  then have "default_alloc_pages n s = Inr (None, s)"
    using inv n alloc_search [of N s bs n] by (simp add: default_alloc_pages_def ff_inv_def)
  then show ?thesis using inv None by (simp add: ff_alloc_def)
next
  case (Some b)
  obtain p k where b: "b = (p, k)" by (cases b)
  from Some obtain as cs where bs: "bs = as @ b # cs" and k: "unat n \<le> k"
    by (rule find_Some_split) (simp add: b)
  have "distinct bs" using inv by (simp add: ff_inv_def pages_ok_def blocks_disjoint_def)
  then have rem: "remove1 b bs = as @ cs" using bs by (simp add: remove1_split)
  have "k \<le> unat (nr_free s)" using inv bs b by (simp add: ff_inv_def)
  then have "\<not> nr_free s < n" using k by (simp add: word_less_nat_alt)
  then have run: "default_alloc_pages n s = Inr (Some p, take_block p n s)"
    using inv n Some b alloc_search [of N s bs n] by (simp add: default_alloc_pages_def ff_inv_def)
  have "ff_alloc (unat n) bs =
      (Some p, (if unat n < k then [(p + unat n, k - unat n)] else []) @ as @ cs)"
    using Some rem by (simp add: ff_alloc_def b)
  moreover have "PageReserved q (take_block p n s) = PageReserved q s" for q
    by (simp add: take_block_def Let_def)
  ultimately show ?thesis
    using run take_block_inv [of N s as p k cs n] inv n k bs b by auto
qed

section \<open>Release refines the abstract allocator\<close>

lemma free_pages_loop_ok:
  "\<forall>q \<in> {p..<p + k}. \<not> PageReserved q s \<and> \<not> PageProperty q s \<Longrightarrow>
   \<exists>s1. free_pages_loop p k s = Inr s1 \<and> free_links s1 = free_links s \<and> nr_free s1 = nr_free s \<and>
     (\<forall>q. page_property q s1 = page_property q s \<and> PageReserved q s1 = PageReserved q s \<and>
          PageProperty q s1 = PageProperty q s) \<and>
     (\<forall>q. ref (page s1 q) = (if q \<in> {p..<p + k} then 0 else ref (page s q)))"
proof (induction k arbitrary: p s)
  case (Suc k)
  let ?s = "set_page_ref p 0 (set_flags p 0 s)"
  have p: "\<not> PageReserved p s" "\<not> PageProperty p s" using Suc.prems by auto
  have "\<forall>q \<in> {p + 1..<p + 1 + k}. \<not> PageReserved q ?s \<and> \<not> PageProperty q ?s"
    using Suc.prems by auto
  from Suc.IH [OF this] obtain s1 where s1: "free_pages_loop (p + 1) k ?s = Inr s1"
    "free_links s1 = free_links ?s" "nr_free s1 = nr_free ?s"
    "\<forall>q. page_property q s1 = page_property q ?s \<and> PageReserved q s1 = PageReserved q ?s \<and>
       PageProperty q s1 = PageProperty q ?s"
    "\<forall>q. ref (page s1 q) = (if q \<in> {p + 1..<p + 1 + k} then 0 else ref (page ?s q))"
    by blast
  have "ref (page ?s q) = (if q = p then 0 else ref (page s q))" for q
    by (simp add: page_op_defs)
  then show ?case using s1 p by auto
qed simp

lemma free_pages_loop_assert:
  assumes "q \<in> {p..<p + k}" "PageReserved q s \<or> PageProperty q s"
  shows "free_pages_loop p k s = Inl Assert_failed"
  using assms
proof (induction k arbitrary: p s)
  case (Suc k)
  show ?case
  proof (cases "q = p")
    case False
    then have "q \<in> {p + 1..<p + 1 + k}" using Suc.prems by auto
    moreover have "PageReserved q (set_page_ref p 0 (set_flags p 0 s)) \<or>
        PageProperty q (set_page_ref p 0 (set_flags p 0 s))" using Suc.prems False by simp
    ultimately have "free_pages_loop (p + 1) k (set_page_ref p 0 (set_flags p 0 s)) = Inl Assert_failed"
      by (rule Suc.IH)
    then show ?thesis by simp
  qed (use Suc.prems in auto)
qed simp

lemma pages_ok_add:
  assumes ok: "pages_ok N s bs" and k: "0 < k" "unat w = k"
    and new: "{b..<b + k} \<inter> pages_of bs = {}" "\<forall>q \<in> {b..<b + k}. q < N \<and> \<not> PageReserved q s"
  shows "pages_ok N (SetPageProperty b (set_property b w s)) ((b, k) # bs)"
proof -
  have pos: "\<forall>y \<in> set bs. 0 < snd y" using ok by (simp add: pages_ok_def blocks_disjoint_def)
  have sub: "\<forall>y \<in> set bs. block_pages y \<subseteq> pages_of bs" by (auto simp: pages_of_def)
  have ap: "apart (b, k) y \<and> fst y \<noteq> b" if y: "y \<in> set bs" for y
  proof -
    have "block_pages (b, k) \<inter> block_pages y = {}" using sub new(1) y by auto
    then have "apart (b, k) y" using apart_iff_disjoint [of "(b, k)" y] pos y k by simp
    then show ?thesis using pos y k by (cases y) auto
  qed
  then have "(b, k) \<notin> set bs" by force
  then have "blocks_disjoint ((b, k) # bs)"
    using ok k ap by (simp add: blocks_disjoint_Cons pages_ok_def)
  moreover have "\<forall>y \<in> set bs. fst y \<noteq> b" using ap by blast
  ultimately show ?thesis
    using ok k new(2) by (auto simp: pages_ok_def)
qed

lemma apart_join: "apart (b, k) y \<Longrightarrow> apart (b + k, m) y \<Longrightarrow> 0 < snd y \<Longrightarrow> apart (b, k + m) y"
  by (cases y) auto

lemma block_pages_join: "block_pages (b, k) \<union> block_pages (b + k, m) = block_pages (b, k + m)"
  by auto

lemma pages_ok_join:
  assumes ok: "pages_ok N s ((b, k) # (b + k, m) # bs)" and N: "N < 2 ^ 32"
  shows "pages_ok N (ClearPageProperty (b + k)
      (set_property b (page_property b s + page_property (b + k) s) s)) ((b, k + m) # bs)"
proof -
  have d: "blocks_disjoint ((b, k) # (b + k, m) # bs)" using ok by (simp add: pages_ok_def)
  have "b + k + m \<le> N" using block_bound(1) [OF ok, of "b + k" m] by simp
  then have w: "unat (page_property b s + page_property (b + k) s) = k + m"
    using ok N by (simp add: pages_ok_def unat_word_ariths)
  have "\<forall>y \<in> set bs. 0 < snd y \<and> apart (b, k) y \<and> apart (b + k, m) y"
    using d by (auto simp: blocks_disjoint_Cons) (auto simp: blocks_disjoint_def)
  then have "\<forall>y \<in> set bs. apart (b, k + m) y" by (auto intro: apart_join)
  moreover have st: "b \<notin> fst ` set bs" "b + k \<notin> fst ` set bs" "0 < k"
    using blocks_disjoint_starts [OF d] d by (auto simp: blocks_disjoint_Cons)
  moreover have "(b, k + m) \<notin> set bs" using st by force
  ultimately have "blocks_disjoint ((b, k + m) # bs)"
    using d by (simp add: blocks_disjoint_Cons)
  moreover have "\<forall>y \<in> set bs. fst y \<noteq> b" using st by force
  moreover have "pages_of ((b, k + m) # bs) = pages_of ((b, k) # (b + k, m) # bs)"
    by (simp only: pages_of_simps block_pages_join [symmetric] Un_assoc)
  moreover have "\<forall>q < N. \<not> PageReserved q s \<longrightarrow> (q \<noteq> b + k \<and> PageProperty q s) = (q \<in> fst ` set ((b, k + m) # bs))"
  proof -
    define A where "A = fst ` set bs"
    have "\<forall>q < N. \<not> PageReserved q s \<longrightarrow> PageProperty q s \<longleftrightarrow> q = b \<or> q = b + k \<or> q \<in> A"
      using ok by (simp add: pages_ok_def A_def)
    then show ?thesis using st by (auto simp flip: A_def)
  qed
  ultimately show ?thesis
    using ok w unfolding pages_ok_def by simp
qed

lemma ff_merge_sum:
  "ff_merge c rs = (c', ks) \<Longrightarrow> snd c' + sum_list (map snd ks) = snd c + sum_list (map snd rs)"
  by (induction c rs arbitrary: c' ks rule: ff_merge.induct)
    (fastforce split: if_splits prod.splits)+

lemma ff_merge_pages:
  "ff_merge c rs = (c', ks) \<Longrightarrow> pages_of (c' # ks) = pages_of (c # rs)"
proof (induction c rs arbitrary: c' ks rule: ff_merge.induct)
  case (2 b k p m rs)
  consider "b + k = p" | "b + k \<noteq> p" "p + m = b" | "b + k \<noteq> p" "p + m \<noteq> b" by blast
  then show ?case
  proof cases
    case 1
    with "2.IH"(1) "2.prems" have "pages_of (c' # ks) = block_pages (b, k + m) \<union> pages_of rs" by simp
    with 1 show ?thesis by (simp only: pages_of_simps block_pages_join [symmetric] Un_assoc)
  next
    case 2
    with "2.IH"(2) "2.prems" have "pages_of (c' # ks) = block_pages (p, m + k) \<union> pages_of rs" by simp
    with 2 show ?thesis
      by (simp only: pages_of_simps block_pages_join [symmetric] Un_assoc Un_left_commute)
  next
    case 3
    with "2.prems" obtain ks' where "ff_merge (b, k) rs = (c', ks')" "ks = (p, m) # ks'"
      by (auto split: prod.splits)
    with 3 "2.IH"(3) have "pages_of (c' # ks') = pages_of ((b, k) # rs)" by blast
    then show ?thesis using \<open>ks = (p, m) # ks'\<close> by auto
  qed
qed simp

lemma merge_step_next:
  assumes "links_ok s (as @ (p, m) # rs)"
  shows "list_next (Page_link p) (list_del (Page_link p) (free_links s)) =
      hd (map (Page_link \<circ> fst) rs @ [Free_list])"
    and "list_next (Page_link p) (free_links s) = hd (map (Page_link \<circ> fst) rs @ [Free_list])"
  using lring.remove_next [of "free_links s" Free_list "map (Page_link \<circ> fst) as" "Page_link p"
      "map (Page_link \<circ> fst) rs"]
    lring.rep_next [of "free_links s" Free_list "map (Page_link \<circ> fst) as @ [Page_link p]"
      "map (Page_link \<circ> fst) rs"] assms
  by (simp_all add: links_ok_def)

definition merged_to :: "nat \<Rightarrow> kmem \<Rightarrow> block list \<Rightarrow> block \<times> block list \<Rightarrow> nat \<times> kmem \<Rightarrow> bool" where
  "merged_to N s as r t \<longleftrightarrow>
     fst t = fst (fst r) \<and> pages_ok N (snd t) (fst r # as @ snd r) \<and> links_ok (snd t) (as @ snd r) \<and>
     nr_free (snd t) = nr_free s \<and> (\<forall>q. PageReserved q (snd t) = PageReserved q s)"

lemma merge_loop_refines:
  assumes N: "N < 2 ^ 32"
  shows "pages_ok N s ((b, k) # as @ rs) \<Longrightarrow> links_ok s (as @ rs) \<Longrightarrow>
    list_next le (free_links s) = hd (map (Page_link \<circ> fst) rs @ [Free_list]) \<Longrightarrow>
    \<exists>t. merge_loop le b s = Some t \<and> merged_to N s as (ff_merge (b, k) rs) t"
proof (induction rs arbitrary: as le b k s)
  case Nil
  then show ?case by (subst merge_loop.simps) (simp add: merged_to_def)
next
  case (Cons x rs)
  obtain p m where x: "x = (p, m)" by (cases x)
  have ok: "pages_ok N s ((b, k) # (p, m) # as @ rs)"
    using Cons.prems(1) x pages_ok_perm [of "(b, k) # as @ x # rs" "(b, k) # (p, m) # as @ rs"] by simp
  have lk: "links_ok s (as @ (p, m) # rs)" using Cons.prems(2) x by simp
  note bk = block_bound [OF ok, of b k] block_bound [OF ok, of p m]
  have unfold: "merge_loop le b s = merge_loop (Page_link p) (fst (merge_step p b s)) (snd (merge_step p b s))"
    using Cons.prems(3) x by (subst merge_loop.simps) simp
  note nx = merge_step_next [OF lk]
  consider (low) "b + k = p" | (high) "b + k \<noteq> p" "p + m = b" | (none) "b + k \<noteq> p" "p + m \<noteq> b" by blast
  then show ?case
  proof cases
    case low
    let ?s = "on_links (list_del (Page_link p))
      (ClearPageProperty p (set_property b (page_property b s + page_property p s) s))"
    have step: "merge_step p b s = (b, ?s)" using bk low by (simp add: merge_step_def)
    have "pages_ok N ?s ((b, k + m) # as @ rs)"
      using pages_ok_join [of N s b k m "as @ rs"] ok N low by simp
    moreover have "links_ok ?s (as @ rs)" using links_ok_del [OF lk] by (simp add: links_ok_def)
    moreover have nx': "list_next (Page_link p) (free_links ?s) = hd (map (Page_link \<circ> fst) rs @ [Free_list])"
      by (simp only: links_upd nx)
    ultimately obtain t where "merge_loop (Page_link p) b ?s = Some t"
        "merged_to N ?s as (ff_merge (b, k + m) rs) t"
      using Cons.IH [of ?s b "k + m" as "Page_link p"] nx' by blast
    then show ?thesis using unfold step low x by (auto simp: merged_to_def)
  next
    case high
    let ?s = "on_links (list_del (Page_link p))
      (ClearPageProperty b (set_property p (page_property p s + page_property b s) s))"
    have step: "merge_step p b s = (p, ?s)" using bk high by (simp add: merge_step_def)
    have "pages_ok N s ((p, m) # (b, k) # as @ rs)"
      using ok pages_ok_perm [of "(p, m) # (b, k) # as @ rs" "(b, k) # (p, m) # as @ rs"] by simp
    then have "pages_ok N ?s ((p, m + k) # as @ rs)"
      using pages_ok_join [of N s p m k "as @ rs"] N high by simp
    moreover have "links_ok ?s (as @ rs)" using links_ok_del [OF lk] by (simp add: links_ok_def)
    moreover have nx': "list_next (Page_link p) (free_links ?s) = hd (map (Page_link \<circ> fst) rs @ [Free_list])"
      by (simp only: links_upd nx)
    ultimately obtain t where "merge_loop (Page_link p) p ?s = Some t"
        "merged_to N ?s as (ff_merge (p, m + k) rs) t"
      using Cons.IH [of ?s p "m + k" as "Page_link p"] nx' by blast
    then show ?thesis using unfold step high x by (auto simp: merged_to_def)
  next
    case none
    have step: "merge_step p b s = (b, s)" using bk none by (simp add: merge_step_def)
    obtain t where "merge_loop (Page_link p) b s = Some t"
        "merged_to N s (as @ [(p, m)]) (ff_merge (b, k) rs) t"
      using Cons.IH [of s b k "as @ [(p, m)]" "Page_link p", OF _ _ nx(2)] Cons.prems(1,2) x by auto
    then show ?thesis using unfold step none x
      by (auto simp: merged_to_def split: prod.splits)
  qed
qed

section \<open>Insertion position\<close>

lemma ff_insert_split:
  "ff_insert c xs = takeWhile (\<lambda>x. \<not> fst c + snd c \<le> fst x) xs @ c #
     dropWhile (\<lambda>x. \<not> fst c + snd c \<le> fst x) xs"
  by (induction xs) auto

lemma find_dropWhile:
  "find P xs = (case dropWhile (\<lambda>x. \<not> P x) xs of [] \<Rightarrow> None | x # _ \<Rightarrow> Some x)"
  by (induction xs) auto

lemma case_first:
  "(case (case bs of [] \<Rightarrow> None | x # _ \<Rightarrow> Some x) of None \<Rightarrow> r | Some x \<Rightarrow> Page_link (fst x)) =
     hd (map (Page_link \<circ> fst) bs @ [r])"
  by (cases bs) auto

lemma links_ok_insert:
  assumes lk: "links_ok s ks" and c: "fst c \<notin> fst ` set ks"
  shows "links_ok (on_links (list_add_before
      (case find (\<lambda>x. fst c + snd c \<le> fst x) ks of None \<Rightarrow> Free_list | Some x \<Rightarrow> Page_link (fst x))
      (Page_link (fst c))) s) (ff_insert c ks)"
proof -
  let ?as = "takeWhile (\<lambda>x. \<not> fst c + snd c \<le> fst x) ks"
  let ?bs = "dropWhile (\<lambda>x. \<not> fst c + snd c \<le> fst x) ks"
  have "ring (free_links s) Free_list (map (Page_link \<circ> fst) ?as @ map (Page_link \<circ> fst) ?bs)"
    using lk unfolding links_ok_def map_append [symmetric] takeWhile_dropWhile_id .
  moreover have "Page_link (fst c) \<notin> set (Free_list # map (Page_link \<circ> fst) ?as @ map (Page_link \<circ> fst) ?bs)"
    using c unfolding map_append [symmetric] takeWhile_dropWhile_id by auto
  moreover have "(case find (\<lambda>x. fst c + snd c \<le> fst x) ks of None \<Rightarrow> Free_list | Some x \<Rightarrow> Page_link (fst x)) =
      hd (map (Page_link \<circ> fst) ?bs @ [Free_list])"
    by (simp only: find_dropWhile case_first)
  ultimately show ?thesis
    using lring.rep_insert_before [of "free_links s" Free_list "map (Page_link \<circ> fst) ?as"
        "map (Page_link \<circ> fst) ?bs" "Page_link (fst c)"]
    by (simp only: links_ok_def ff_insert_split links_upd map_append list.map comp_apply simp_thms)
qed

lemma free_search:
  assumes "links_ok s ks"
  shows "ring_search (\<lambda>le. list_next le (free_links s))
      (\<lambda>le. case le of Free_list \<Rightarrow> False | Page_link p \<Rightarrow> e \<le> p) Free_list Free_list =
    Some (case find (\<lambda>x. e \<le> fst x) ks of None \<Rightarrow> Free_list | Some x \<Rightarrow> Page_link (fst x))"
proof -
  have "find ((\<lambda>le. case le of Free_list \<Rightarrow> False | Page_link p \<Rightarrow> e \<le> p) \<circ> (Page_link \<circ> fst)) ks
      = find (\<lambda>x. e \<le> fst x) ks"
    by (intro find_cong) auto
  then show ?thesis
    using lring.search_ring [OF assms [unfolded links_ok_def]]
    by (simp add: find_map split: option.split)
qed

lemma sum_bound: "pages_ok N s bs \<Longrightarrow> sum_list (map snd bs) \<le> N"
  using card_pages_of [of bs] card_mono [of "{..<N}" "pages_of bs"] by (auto simp: pages_ok_def)

theorem free_refines:
  assumes inv: "ff_inv N s bs" and n: "0 < n"
    and new: "{base..<base + unat n} \<inter> pages_of bs = {}"
    and usable: "\<forall>q \<in> {base..<base + unat n}. q < N \<and> \<not> PageReserved q s"
  shows "\<exists>s'. default_free_pages base n s = Inr s' \<and> ff_inv N s' (ff_free (base, unat n) bs) \<and>
           (\<forall>q. PageReserved q s' = PageReserved q s)"
proof -
  have N: "N < 2 ^ 32" and ok: "pages_ok N s bs" and lk: "links_ok s bs"
    and sum: "unat (nr_free s) = sum_list (map snd bs)" using inv by (auto simp: ff_inv_def)
  have "fst ` set bs \<subseteq> pages_of bs"
    using ok by (intro starts_in_pages) (simp add: pages_ok_def)
  then have "\<forall>q \<in> {base..<base + unat n}. \<not> PageReserved q s \<and> \<not> PageProperty q s"
    using ok new usable by (auto simp: pages_ok_def disjoint_iff subset_iff)
  from free_pages_loop_ok [OF this] obtain s1 where loop: "free_pages_loop base (unat n) s = Inr s1"
    and s1: "free_links s1 = free_links s" "nr_free s1 = nr_free s"
      "\<forall>q. page_property q s1 = page_property q s \<and> PageReserved q s1 = PageReserved q s \<and>
         PageProperty q s1 = PageProperty q s" by blast
  let ?s2 = "SetPageProperty base (set_property base n s1)"
  have "pages_ok N s1 bs" using ok s1 by (simp add: pages_ok_def)
  then have ok2: "pages_ok N ?s2 ((base, unat n) # [] @ bs)"
    using pages_ok_add [of N s1 bs "unat n" n base] n new usable s1 by (simp add: unat_gt_0)
  have lk2: "links_ok ?s2 ([] @ bs)" using lk s1 by (simp add: links_ok_def)
  have "list_next Free_list (free_links ?s2) = hd (map (Page_link \<circ> fst) bs @ [Free_list])"
    using lring.rep_next [of _ _ "[]"] lk s1 by (simp add: links_ok_def)
  from merge_loop_refines [OF N ok2 lk2 this] obtain b' s3
    where merge: "merge_loop Free_list base ?s2 = Some (b', s3)"
      and to: "merged_to N ?s2 [] (ff_merge (base, unat n) bs) (b', s3)" by auto
  obtain c ks where mg: "ff_merge (base, unat n) bs = (c, ks)" by fastforce
  have c: "b' = fst c" "pages_ok N s3 (c # ks)" "links_ok s3 ks" "nr_free s3 = nr_free s"
    "\<forall>q. PageReserved q s3 = PageReserved q s"
    using to mg s1 by (auto simp: merged_to_def)
  have e: "b' + unat (page_property b' s3) = fst c + snd c" using c by (auto simp: pages_ok_def)
  have search: "ring_search (\<lambda>le. list_next le (free_links s3))
      (\<lambda>le. case le of Free_list \<Rightarrow> False | Page_link p \<Rightarrow> b' + unat (page_property b' s3) \<le> p)
      Free_list Free_list =
    Some (case find (\<lambda>x. fst c + snd c \<le> fst x) ks of None \<Rightarrow> Free_list | Some x \<Rightarrow> Page_link (fst x))"
    using free_search [OF c(3), of "b' + unat (page_property b' s3)"] e by simp
  have "fst c \<notin> fst ` set ks" using c(2) start_notin [of "fst c" "snd c" ks] by (simp add: pages_ok_def)
  note ins = links_ok_insert [OF c(3) this]
  let ?s4 = "s3\<lparr>nr_free := nr_free s3 + n\<rparr>"
  let ?le = "case find (\<lambda>x. fst c + snd c \<le> fst x) ks of None \<Rightarrow> Free_list | Some x \<Rightarrow> Page_link (fst x)"
  let ?s' = "on_links (list_add_before ?le (Page_link b')) ?s4"
  have run: "default_free_pages base n s = Inr ?s'"
    using n by (simp add: default_free_pages_def loop merge search)
  have total: "sum_list (map snd (c # ks)) = unat n + sum_list (map snd bs)"
    using ff_merge_sum [OF mg] by simp
  then have "unat n + sum_list (map snd bs) \<le> N" using sum_bound [OF c(2)] by simp
  then have nr: "unat (nr_free s3 + n) = unat n + sum_list (map snd bs)"
    using N c(4) sum by (simp add: unat_word_ariths)
  have perm: "mset (ff_insert c ks) = mset (c # ks)" by (simp add: mset_ff_insert)
  have "pages_ok N ?s' (ff_insert c ks)" using c(2) pages_ok_perm [OF perm] by simp
  moreover have "links_ok ?s' (ff_insert c ks)" using ins c(1) by (simp add: links_ok_def)
  moreover have "sum_list (map snd (ff_insert c ks)) = unat n + sum_list (map snd bs)"
    using total mset_ff_insert [of c ks] by (metis mset_map perm sum_mset_sum_list)
  ultimately have "ff_inv N ?s' (ff_free (base, unat n) bs)"
    using N nr by (simp add: ff_inv_def ff_free_def mg)
  then show ?thesis using run c(5) by auto
qed

section \<open>Initialisation\<close>

lemma init_memmap_loop_ok:
  "\<forall>q \<in> {p..<p + k}. PageReserved q s \<Longrightarrow>
   \<exists>s1. init_memmap_loop base n p k s = Inr s1 \<and> free_links s1 = free_links s \<and> nr_free s1 = nr_free s \<and>
     (\<forall>q. page_property q s1 =
            (if q \<in> {p..<p + k} then (if q = base then n else 0) else page_property q s) \<and>
          PageReserved q s1 = (q \<notin> {p..<p + k} \<and> PageReserved q s) \<and>
          PageProperty q s1 = (if q \<in> {p..<p + k} then q = base else PageProperty q s))"
proof (induction k arbitrary: p s)
  case (Suc k)
  let ?s1 = "set_page_ref p 0 (set_flags p 0 s)"
  let ?s2 = "if p = base then SetPageProperty p (set_property p n ?s1) else set_property p 0 ?s1"
  have "\<forall>q \<in> {p + 1..<p + 1 + k}. PageReserved q ?s2" using Suc.prems by auto
  from Suc.IH [OF this] obtain s1 where s1: "init_memmap_loop base n (p + 1) k ?s2 = Inr s1"
    "free_links s1 = free_links ?s2" "nr_free s1 = nr_free ?s2"
    "\<forall>q. page_property q s1 =
            (if q \<in> {p + 1..<p + 1 + k} then (if q = base then n else 0) else page_property q ?s2) \<and>
          PageReserved q s1 = (q \<notin> {p + 1..<p + 1 + k} \<and> PageReserved q ?s2) \<and>
          PageProperty q s1 = (if q \<in> {p + 1..<p + 1 + k} then q = base else PageProperty q ?s2)"
    by blast
  have "PageReserved p s" using Suc.prems by auto
  moreover have "q \<in> {p..<p + Suc k} \<longleftrightarrow> q = p \<or> q \<in> {p + 1..<p + 1 + k}" for q by auto
  ultimately show ?case using s1 by (auto simp: Let_def)
qed simp

lemma init_memmap_refines:
  assumes inv: "ff_inv N s bs" and n: "0 < n"
    and res: "\<forall>q \<in> {base..<base + unat n}. q < N \<and> PageReserved q s"
  shows "\<exists>s'. default_init_memmap base n s = Inr s' \<and> ff_inv N s' (bs @ [(base, unat n)]) \<and>
     (\<forall>q. PageReserved q s' = (q \<notin> {base..<base + unat n} \<and> PageReserved q s))"
proof -
  have N: "N < 2 ^ 32" and ok: "pages_ok N s bs" and lk: "links_ok s bs"
    and sum: "unat (nr_free s) = sum_list (map snd bs)" using inv by (auto simp: ff_inv_def)
  let ?k = "unat n" and ?R = "{base..<base + unat n}"
  have k: "0 < ?k" using n by (simp add: unat_gt_0)
  from res have "\<forall>q \<in> ?R. PageReserved q s" by blast
  from init_memmap_loop_ok [OF this, of base n] obtain s1 where
    loop: "init_memmap_loop base n base ?k s = Inr s1" and s1: "free_links s1 = free_links s"
      "nr_free s1 = nr_free s"
      "\<And>q. page_property q s1 = (if q \<in> ?R then (if q = base then n else 0) else page_property q s)"
      "\<And>q. PageReserved q s1 = (q \<notin> ?R \<and> PageReserved q s)"
      "\<And>q. PageProperty q s1 = (if q \<in> ?R then q = base else PageProperty q s)"
    by blast
  have out: "?R \<inter> pages_of bs = {}" using ok res by (auto simp: pages_ok_def)
  have st: "fst ` set bs \<subseteq> pages_of bs"
    using ok by (intro starts_in_pages) (simp add: pages_ok_def)
  have fresh: "fst y \<notin> ?R" if "y \<in> set bs" for y using that st out by blast
  have "pages_ok N s1 ((base, ?k) # bs)"
  proof -
    have pos: "\<forall>y \<in> set bs. 0 < snd y" using ok by (simp add: pages_ok_def blocks_disjoint_def)
    have ap: "apart (base, ?k) y" if y: "y \<in> set bs" for y
    proof -
      have "block_pages y \<subseteq> pages_of bs" using y by (auto simp: pages_of_def)
      then have "block_pages (base, ?k) \<inter> block_pages y = {}" using out by auto
      then show ?thesis using apart_iff_disjoint [of "(base, ?k)" y] pos y k by simp
    qed
    have "(base, ?k) \<notin> set bs" using fresh k by force
    then have d: "blocks_disjoint ((base, ?k) # bs)"
      using ok k ap by (simp add: blocks_disjoint_Cons pages_ok_def)
    have "\<forall>b \<in> set bs. unat (page_property (fst b) s1) = snd b"
    proof
      fix b assume b: "b \<in> set bs"
      then have "page_property (fst b) s1 = page_property (fst b) s"
        using fresh [OF b] by (simp only: s1(3) if_False)
      then show "unat (page_property (fst b) s1) = snd b" using ok b by (simp add: pages_ok_def)
    qed
    moreover have "unat (page_property base s1) = ?k" using k by (simp add: s1)
    moreover have "\<forall>p \<in> pages_of ((base, ?k) # bs). p < N \<and> \<not> PageReserved p s1"
      using ok res by (auto simp: s1 pages_ok_def)
    moreover have "PageProperty q s1 \<longleftrightarrow> q \<in> fst ` set ((base, ?k) # bs)"
      if q: "q < N" "\<not> PageReserved q s1" for q
    proof (cases "q \<in> ?R")
      case True
      then have "q \<notin> fst ` set bs" using st out by blast
      then show ?thesis using True by (simp add: s1)
    next
      case False
      then have "PageProperty q s \<longleftrightarrow> q \<in> fst ` set bs" using q ok by (simp add: s1 pages_ok_def)
      moreover have "q \<noteq> base" using False k by auto
      moreover have "PageProperty q s1 = PageProperty q s" using False by (simp only: s1(5) if_False)
      ultimately show ?thesis by simp
    qed
    ultimately show ?thesis using d unfolding pages_ok_def by simp
  qed
  then have ok': "pages_ok N s1 (bs @ [(base, ?k)])"
    using pages_ok_perm [of "bs @ [(base, ?k)]" "(base, ?k) # bs"] by simp
  have "Page_link base \<notin> set (Free_list # map (Page_link \<circ> fst) bs)" using fresh k by force
  then have lk': "links_ok (on_links (list_add_before Free_list (Page_link base)) s1) (bs @ [(base, ?k)])"
    using lk lring.push_back [of "free_links s" Free_list "map (Page_link \<circ> fst) bs" "Page_link base"]
    by (simp add: links_ok_def s1)
  have "unat (nr_free s1 + n) = sum_list (map snd bs) + ?k"
    using sum_bound [OF ok'] N sum by (simp add: s1 unat_word_ariths)
  then have "ff_inv N ((on_links (list_add_before Free_list (Page_link base)) s1)\<lparr>nr_free := nr_free s1 + n\<rparr>)
      (bs @ [(base, ?k)])"
    using N ok' lk' by (simp add: ff_inv_def)
  then show ?thesis using n by (auto simp: default_init_memmap_def loop s1)
qed

lemma default_init_inv:
  assumes "N < 2 ^ 32" "\<forall>p < N. PageReserved p s"
  shows "ff_inv N (default_init s) []"
proof -
  have "links_ok (default_init s) []"
    by (simp add: links_ok_def default_init_def ring_init)
  moreover have "pages_ok N (default_init s) []"
    using assms(2) by (auto simp: pages_ok_def default_init_def blocks_disjoint_def)
  ultimately show ?thesis using assms(1) by (simp add: ff_inv_def default_init_def)
qed

section \<open>The allocator as a pmm_manager\<close>

definition ff_rep :: "nat \<Rightarrow> kmem \<Rightarrow> nat set \<Rightarrow> bool" where
  "ff_rep N s F \<longleftrightarrow> (\<exists>bs. ff_inv N s bs \<and> F = pages_of bs) \<and> N < 2 ^ 32"

definition usable_pages :: "nat \<Rightarrow> kmem \<Rightarrow> nat set" where
  "usable_pages N s = {p. p < N \<and> \<not> PageReserved p s}"

definition reserved_pages :: "nat \<Rightarrow> kmem \<Rightarrow> nat set" where
  "reserved_pages N s = {p. p < N \<and> PageReserved p s}"

lemma finite_pages_of: "finite (pages_of bs)"
proof -
  have "finite (block_pages b)" for b by (cases b) simp
  then show ?thesis by (simp add: pages_of_def)
qed

lemma pages_of_disjoint_block:
  assumes "blocks_disjoint (as @ (p, k) # bs)"
  shows "pages_of (as @ bs) \<inter> {p..<p + k} = {}"
proof -
  have d: "blocks_disjoint ((p, k) # as @ bs)" using assms by (simp add: blocks_disjoint_sym_split)
  have "block_pages y \<inter> block_pages (p, k) = {}" if "y \<in> set (as @ bs)" for y
  proof -
    have "apart (p, k) y" "0 < k" using d that by (simp_all add: blocks_disjoint_Cons)
    moreover have "0 < snd y" using d that by (auto simp: blocks_disjoint_def)
    ultimately show ?thesis using apart_iff_disjoint [of y "(p, k)"] by (simp add: apart_sym)
  qed
  then show ?thesis by (auto simp: pages_of_def)
qed

lemma ff_alloc_pages:
  assumes d: "blocks_disjoint bs" and n: "0 < n" and r: "ff_alloc n bs = (Some p, bs')"
  shows "{p..<p + n} \<subseteq> pages_of bs" "pages_of bs' = pages_of bs - {p..<p + n}"
proof -
  from r obtain k where f: "find (\<lambda>b. n \<le> snd b) bs = Some (p, k)"
    and bs': "bs' = (if n < k then [(p + n, k - n)] else []) @ remove1 (p, k) bs"
    by (auto simp: ff_alloc_def split: option.splits)
  from f obtain as cs where bs: "bs = as @ (p, k) # cs" and k: "n \<le> k"
    by (rule find_Some_split) simp
  have rem: "remove1 (p, k) bs = as @ cs" using d bs by (simp add: remove1_split blocks_disjoint_def)
  have dis: "pages_of (as @ cs) \<inter> {p..<p + k} = {}" using d bs pages_of_disjoint_block by simp
  show "{p..<p + n} \<subseteq> pages_of bs" using k by (auto simp: bs)
  have "pages_of bs' = {p + n..<p + k} \<union> pages_of (as @ cs)" using k by (auto simp: bs' rem)
  also have "\<dots> = ({p..<p + k} \<union> pages_of (as @ cs)) - {p..<p + n}" using dis k by auto
  finally show "pages_of bs' = pages_of bs - {p..<p + n}" by (auto simp: bs)
qed

lemma ff_free_pages: "pages_of (ff_free (b, k) bs) = pages_of bs \<union> {b..<b + k}"
proof -
  obtain c ks where mg: "ff_merge (b, k) bs = (c, ks)" by fastforce
  have "pages_of (ff_insert c ks) = pages_of (c # ks)"
    by (rule pages_of_perm) (simp add: mset_ff_insert)
  then show ?thesis using ff_merge_pages [OF mg] by (auto simp: ff_free_def mg)
qed

lemma ff_repI: "ff_inv N s bs \<Longrightarrow> ff_rep N s (pages_of bs)"
  by (auto simp: ff_rep_def ff_inv_def)

lemma ff_repE:
  assumes "ff_rep N s F"
  obtains bs where "ff_inv N s bs" "F = pages_of bs" "blocks_disjoint bs"
  using assms by (auto simp: ff_rep_def ff_inv_def pages_ok_def)

lemma ff_rep_init:
  assumes "N < 2 ^ 32" "usable_pages N s = {}"
  shows "ff_rep N (default_init s) {}"
  using ff_repI [OF default_init_inv [of N s]] assms by (auto simp: usable_pages_def)

text \<open>
  The page array of the kernel has at most \<open>KMEMSIZE / PGSIZE\<close> entries (\<open>memlayout.h\<close>), so page
  counts never leave 32 bits.
\<close>

definition max_pages :: nat where "max_pages = 0x38000"

interpretation ff: pmm_manager "ff_rep max_pages" "usable_pages max_pages" "reserved_pages max_pages"
  default_init default_init_memmap default_alloc_pages default_free_pages default_nr_free_pages
proof (unfold_locales, goal_cases)
  case (1 s F)
  then show ?case
    by (elim ff_repE) (auto simp: finite_pages_of ff_inv_def pages_ok_def usable_pages_def)
next
  case (2 s F)
  then show ?case
    by (elim ff_repE) (simp add: default_nr_free_pages_def ff_inv_def card_pages_of)
next
  case (3 s)
  then show ?case using ff_rep_init [of max_pages s]
    by (auto simp: max_pages_def usable_pages_def reserved_pages_def default_init_def)
next
  case (4 s F n b)
  from 4(1) obtain bs where bs: "ff_inv max_pages s bs" "F = pages_of bs" by (rule ff_repE)
  moreover have "\<forall>q \<in> {b..<b + unat n}. q < max_pages \<and> PageReserved q s"
    using 4(3) by (auto simp: reserved_pages_def)
  ultimately obtain s' where s': "default_init_memmap b n s = Inr s'"
    "ff_inv max_pages s' (bs @ [(b, unat n)])"
    "\<forall>q. PageReserved q s' = (q \<notin> {b..<b + unat n} \<and> PageReserved q s)"
    using init_memmap_refines [of max_pages s bs n b] 4(2) by blast
  have "F \<union> {b..<b + unat n} = pages_of (bs @ [(b, unat n)])" by (simp add: bs)
  then have "ff_rep max_pages s' (F \<union> {b..<b + unat n})" using ff_repI [OF s'(2)] by simp
  moreover have "usable_pages max_pages s' = usable_pages max_pages s \<union> {b..<b + unat n}"
    "reserved_pages max_pages s' = reserved_pages max_pages s - {b..<b + unat n}"
    using s'(3) 4(3) by (auto simp: usable_pages_def reserved_pages_def)
  ultimately show ?case using s'(1) by blast
next
  case (5 s F n)
  from 5(1) obtain bs where bs: "ff_inv max_pages s bs" "F = pages_of bs" "blocks_disjoint bs"
    by (rule ff_repE)
  obtain r bs' where al: "ff_alloc (unat n) bs = (r, bs')" by fastforce
  from alloc_refines [OF bs(1) 5(2)] obtain s' where s': "default_alloc_pages n s = Inr (r, s')"
    "ff_inv max_pages s' bs'" "\<forall>p. PageReserved p s' = PageReserved p s" using al by auto
  have "case r of None \<Rightarrow> ff_rep max_pages s' F
      | Some p \<Rightarrow> {p..<p + unat n} \<subseteq> F \<and> ff_rep max_pages s' (F - {p..<p + unat n})"
  proof (cases r)
    case None
    then have "bs' = bs" using al by (auto simp: ff_alloc_def split: option.splits)
    then show ?thesis using None ff_repI [OF s'(2)] bs(2) by simp
  next
    case (Some p)
    then show ?thesis
      using ff_alloc_pages [OF bs(3), of "unat n" p bs'] al 5(2) ff_repI [OF s'(2)] bs(2)
      by (simp add: unat_gt_0)
  qed
  then show ?case using s' by (auto simp: usable_pages_def reserved_pages_def)
next
  case (6 s F)
  from 6(1) obtain bs where bs: "ff_inv max_pages s bs" "F = pages_of bs" "blocks_disjoint bs"
    by (rule ff_repE)
  with 6(2) obtain b where "b \<in> set bs" "0 < snd b"
    by (auto simp: pages_of_def blocks_disjoint_def)
  then have "fst (ff_alloc (unat 1) bs) \<noteq> None" using ff_alloc_None_iff [of 1 bs] by force
  then show ?case using alloc_refines [OF bs(1), of 1] by auto
next
  case (7 s F n b)
  from 7(1) obtain bs where bs: "ff_inv max_pages s bs" "F = pages_of bs" by (rule ff_repE)
  moreover have "\<forall>q \<in> {b..<b + unat n}. q < max_pages \<and> \<not> PageReserved q s"
    "{b..<b + unat n} \<inter> pages_of bs = {}"
    using 7(3) bs by (auto simp: usable_pages_def)
  ultimately obtain s' where s': "default_free_pages b n s = Inr s'"
    "ff_inv max_pages s' (ff_free (b, unat n) bs)" "\<forall>q. PageReserved q s' = PageReserved q s"
    using free_refines [of max_pages s bs n b] 7(2) by blast
  have "ff_rep max_pages s' (F \<union> {b..<b + unat n})"
    using ff_repI [OF s'(2)] by (simp add: ff_free_pages bs)
  then show ?case using s' by (auto simp: usable_pages_def reserved_pages_def)
qed

section \<open>Coalescing\<close>

definition adjacent :: "block \<Rightarrow> block \<Rightarrow> bool" where
  "adjacent x y \<longleftrightarrow> fst x + snd x = fst y \<or> fst y + snd y = fst x"

definition coalesced :: "block list \<Rightarrow> bool" where
  "coalesced bs \<longleftrightarrow> (\<forall>x \<in> set bs. \<forall>y \<in> set bs. x \<noteq> y \<longrightarrow> \<not> adjacent x y)"

lemma coalesced_insert:
  assumes "set bs' = insert c S" "\<forall>y \<in> S. \<not> adjacent c y" "S \<subseteq> set bs" "coalesced bs"
  shows "coalesced bs'"
proof -
  have sym: "adjacent y x \<longleftrightarrow> adjacent x y" for x y by (auto simp: adjacent_def)
  show ?thesis
    unfolding coalesced_def assms(1) using assms(2,3,4) sym unfolding coalesced_def by blast
qed

lemma ff_merge_adjacent:
  assumes "ff_merge c rs = (c', ks)" "\<forall>y \<in> K. \<not> adjacent c y"
    and "\<forall>x \<in> K \<union> set rs. \<forall>y \<in> K \<union> set rs. x \<noteq> y \<longrightarrow> \<not> adjacent x y" "distinct rs" "K \<inter> set rs = {}"
  shows "\<forall>y \<in> K \<union> set ks. \<not> adjacent c' y"
  using assms
proof (induction c rs arbitrary: c' ks K rule: ff_merge.induct)
  case (2 b k p m rs)
  have pm: "\<not> adjacent (p, m) y" if "y \<in> K" for y
    using "2.prems"(3,5) that by (metis Un_iff disjoint_iff list.set_intros(1))
  have rest: "\<forall>x \<in> K \<union> set rs. \<forall>y \<in> K \<union> set rs. x \<noteq> y \<longrightarrow> \<not> adjacent x y"
    using "2.prems"(3) by simp
  have dis: "distinct rs" "K \<inter> set rs = {}" using "2.prems"(4,5) by auto
  consider (low) "b + k = p" | (high) "b + k \<noteq> p" "p + m = b" | (none) "b + k \<noteq> p" "p + m \<noteq> b"
    by blast
  then show ?case
  proof cases
    case low
    have "\<forall>y \<in> K. \<not> adjacent (b, k + m) y"
    proof
      fix y assume "y \<in> K"
      with "2.prems"(2) pm have "\<not> adjacent (b, k) y" "\<not> adjacent (p, m) y" by blast+
      then show "\<not> adjacent (b, k + m) y" using low by (simp add: adjacent_def)
    qed
    from "2.IH"(1) [OF low _ this rest dis] show ?thesis using "2.prems"(1) low by simp
  next
    case high
    have "\<forall>y \<in> K. \<not> adjacent (p, m + k) y"
    proof
      fix y assume "y \<in> K"
      with "2.prems"(2) pm have "\<not> adjacent (b, k) y" "\<not> adjacent (p, m) y" by blast+
      then show "\<not> adjacent (p, m + k) y" using high(2) by (simp add: adjacent_def)
    qed
    from "2.IH"(2) [OF high _ this rest dis] show ?thesis using "2.prems"(1) high by simp
  next
    case none
    with "2.prems"(1) obtain ks' where mg: "ff_merge (b, k) rs = (c', ks')" and ks: "ks = (p, m) # ks'"
      by (auto split: prod.splits)
    let ?K = "insert (p, m) K"
    have "\<forall>y \<in> ?K. \<not> adjacent (b, k) y" using "2.prems"(2) none by (auto simp: adjacent_def)
    moreover have "\<forall>x \<in> ?K \<union> set rs. \<forall>y \<in> ?K \<union> set rs. x \<noteq> y \<longrightarrow> \<not> adjacent x y"
      using "2.prems"(3) by simp
    moreover have "?K \<inter> set rs = {}" using "2.prems"(4) dis by auto
    ultimately have "\<forall>y \<in> ?K \<union> set ks'. \<not> adjacent c' y"
      using "2.IH"(3) [OF none mg] dis(1) by blast
    then show ?thesis by (auto simp: ks)
  qed
qed simp

lemma ff_free_coalesced:
  assumes "coalesced bs" "distinct bs"
  shows "coalesced (ff_free c bs)"
proof -
  obtain c' ks where mg: "ff_merge c bs = (c', ks)" by fastforce
  have sub: "set ks \<subseteq> set bs" by (rule ff_merge_keeps [OF mg])
  have na: "\<forall>y \<in> set ks. \<not> adjacent c' y"
    using ff_merge_adjacent [OF mg, of "{}"] assms by (simp add: coalesced_def)
  have "set (ff_insert c' ks) = insert c' (set ks)"
    using mset_ff_insert [of c' ks] by (metis set_mset_add_mset_insert set_mset_mset)
  from coalesced_insert [OF this na sub assms(1)]
  show ?thesis by (simp add: ff_free_def mg)
qed

lemma ff_alloc_coalesced:
  assumes c: "coalesced bs" and d: "blocks_disjoint bs" and n: "0 < n"
  shows "coalesced (snd (ff_alloc n bs))"
proof (cases "find (\<lambda>b. n \<le> snd b) bs")
  case (Some b)
  obtain p k where b: "b = (p, k)" by (cases b)
  from Some have in_bs: "(p, k) \<in> set bs" and k: "n \<le> k"
    by (rule find_Some_split, simp add: b)+
  have rem: "set (remove1 (p, k) bs) = set bs - {(p, k)}"
    using d by (simp add: blocks_disjoint_def)
  have adj: "\<not> adjacent (p + n, k - n) y" if "y \<in> set bs - {(p, k)}" "n < k" for y
  proof -
    have "apart (p, k) y" "0 < snd y" "\<not> adjacent (p, k) y"
      using that in_bs d c by (auto simp: blocks_disjoint_def coalesced_def)
    then show ?thesis using that(2) n by (cases y) (auto simp: adjacent_def)
  qed
  let ?bs' = "snd (ff_alloc n bs)"
  show ?thesis
  proof (cases "n < k")
    case True
    then have "set ?bs' = insert (p + n, k - n) (set bs - {(p, k)})"
      using rem by (simp add: ff_alloc_def Some b)
    then show ?thesis using adj True c by (rule_tac coalesced_insert) auto
  next
    case False
    then have "set ?bs' \<subseteq> set bs" using rem by (simp add: ff_alloc_def Some b)
    then show ?thesis using c unfolding coalesced_def by blast
  qed
qed (use c in \<open>simp add: ff_alloc_def\<close>)

section \<open>Clients of the allocator\<close>

text \<open>
  The histories of a kernel that allocates and releases blocks: \<open>os\<close> lists the blocks handed out
  and not yet given back. A block is given back with the length it was requested with.
\<close>

inductive pmm_client :: "kmem \<Rightarrow> kmem \<Rightarrow> (nat \<times> size_t) list \<Rightarrow> bool" for s0 where
  start: "pmm_client s0 s0 []"
| got: "pmm_client s0 s os \<Longrightarrow> 0 < n \<Longrightarrow> default_alloc_pages n s = Inr (Some p, s') \<Longrightarrow>
    pmm_client s0 s' ((p, n) # os)"
| refused: "pmm_client s0 s os \<Longrightarrow> 0 < n \<Longrightarrow> default_alloc_pages n s = Inr (None, s') \<Longrightarrow>
    pmm_client s0 s' os"
| released: "pmm_client s0 s (as @ (p, n) # bs) \<Longrightarrow> default_free_pages p n s = Inr s' \<Longrightarrow>
    pmm_client s0 s' (as @ bs)"

inductive_cases pmm_clientE: "pmm_client s0 s os"

definition owned_block :: "nat \<times> size_t \<Rightarrow> block" where
  "owned_block b = (fst b, unat (snd b))"

definition client_inv :: "nat set \<Rightarrow> nat set \<Rightarrow> kmem \<Rightarrow> (nat \<times> size_t) list \<Rightarrow> nat set \<Rightarrow> bool" where
  "client_inv F0 U s os F \<longleftrightarrow>
     ff_rep max_pages s F \<and> usable_pages max_pages s = U \<and> blocks_disjoint (map owned_block os) \<and>
     F \<inter> pages_of (map owned_block os) = {} \<and> F \<union> pages_of (map owned_block os) = F0"

lemma client_inv_alloc:
  assumes inv: "client_inv F0 U s os F" and n: "0 < n" and al: "default_alloc_pages n s = Inr (Some p, s')"
  shows "client_inv F0 U s' ((p, n) # os) (F - {p..<p + unat n})"
proof -
  have rep: "ff_rep max_pages s F" and d: "blocks_disjoint (map owned_block os)"
    and dis: "F \<inter> pages_of (map owned_block os) = {}"
    using inv by (auto simp: client_inv_def)
  note a = ff.alloc_some [OF rep n al]
  have "apart (p, unat n) y \<and> (p, unat n) \<noteq> y" if "y \<in> set (map owned_block os)" for y
  proof -
    have y: "0 < snd y" using d that unfolding blocks_disjoint_def by blast
    have "block_pages y \<subseteq> pages_of (map owned_block os)" using that unfolding pages_of_def by blast
    then have "block_pages (p, unat n) \<inter> block_pages y = {}" using a(1) dis by auto
    moreover have n': "0 < unat n" using n by (simp add: unat_gt_0)
    ultimately have "apart (p, unat n) y" using apart_iff_disjoint [of "(p, unat n)" y] y by simp
    then show ?thesis using y n' by (cases y) auto
  qed
  then have "blocks_disjoint (map owned_block ((p, n) # os))"
    using d n by (auto simp: blocks_disjoint_Cons owned_block_def unat_gt_0)
  then show ?thesis
    using inv a by (auto simp: client_inv_def owned_block_def)
qed

lemma client_inv_free:
  assumes inv: "client_inv F0 U s (as @ (p, n) # bs) F" and U: "F0 \<subseteq> U"
  shows "\<exists>s'. default_free_pages p n s = Inr s' \<and> client_inv F0 U s' (as @ bs) (F \<union> {p..<p + unat n})"
proof -
  let ?as = "map owned_block as" and ?bs = "map owned_block bs"
  have rep: "ff_rep max_pages s F" and u: "usable_pages max_pages s = U"
    and d: "blocks_disjoint (?as @ (p, unat n) # ?bs)"
    and dis: "F \<inter> pages_of (?as @ (p, unat n) # ?bs) = {}"
    and un: "F \<union> pages_of (?as @ (p, unat n) # ?bs) = F0"
    using inv by (auto simp: client_inv_def owned_block_def)
  have "0 < unat n" using d by (simp add: blocks_disjoint_sym_split blocks_disjoint_Cons)
  then have n: "0 < n" by (simp add: unat_gt_0 word_neq_0_conv)
  have "{p..<p + unat n} \<subseteq> usable_pages max_pages s - F" using dis un U u by auto
  from ff.free_ok [OF rep n this] obtain s' where s': "default_free_pages p n s = Inr s'"
    "ff_rep max_pages s' (F \<union> {p..<p + unat n})" "usable_pages max_pages s' = usable_pages max_pages s"
    by blast
  have "pages_of (?as @ ?bs) \<inter> {p..<p + unat n} = {}" using d by (rule pages_of_disjoint_block)
  moreover have "blocks_disjoint (?as @ ?bs)"
    using d by (simp add: blocks_disjoint_sym_split blocks_disjoint_Cons)
  ultimately have "client_inv F0 U s' (as @ bs) (F \<union> {p..<p + unat n})"
    using s' dis un u by (auto simp: client_inv_def)
  then show ?thesis using s'(1) by blast
qed

lemma pmm_client_inv:
  assumes "pmm_client s0 s os" "ff_rep max_pages s0 F0"
  shows "\<exists>F. client_inv F0 (usable_pages max_pages s0) s os F"
  using assms(1)
proof (induction rule: pmm_client.induct)
  case start
  then show ?case using assms(2) by (auto simp: client_inv_def blocks_disjoint_def)
next
  case (got s os n p s')
  then show ?case using client_inv_alloc by blast
next
  case (refused s os n s')
  then obtain F where F: "client_inv F0 (usable_pages max_pages s0) s os F" by blast
  then have "ff_rep max_pages s F" by (simp add: client_inv_def)
  from ff.alloc_none [OF this refused(2,3)] F show ?case unfolding client_inv_def by metis
next
  case (released s as p n bs s')
  moreover have "F0 \<subseteq> usable_pages max_pages s0" using ff.rep_usable [OF assms(2)] by simp
  ultimately show ?case using client_inv_free by fastforce
qed

section \<open>A small machine for the witnesses\<close>

definition demo_mem :: kmem where
  "demo_mem = \<lparr>page = (\<lambda>_. \<lparr>ref = 0, flags = 1, property = 0\<rparr>),
     free_links = \<lparr>prev = (\<lambda>_. Free_list), nxt = (\<lambda>_. Free_list)\<rparr>, nr_free = 0\<rparr>"

lemma demo_reserved: "PageReserved p (default_init demo_mem)"
  by (simp add: default_init_def demo_mem_def page_op_defs)

lemma demo_two_blocks:
  "\<exists>s1 s. default_init_memmap 0 4 (default_init demo_mem) = Inr s1 \<and> default_init_memmap 16 9 s1 = Inr s \<and>
     ff_inv max_pages s [(0, 4), (16, 9)] \<and> (\<forall>q \<in> {0..<4} \<union> {16..<25}. \<not> PageReserved q s) \<and>
     (\<forall>q. PageReserved q s \<longleftrightarrow> q \<notin> {0..<4} \<union> {16..<25})"
proof -
  have i0: "ff_inv max_pages (default_init demo_mem) []"
    using demo_reserved by (intro default_init_inv) (auto simp: max_pages_def default_init_def)
  from init_memmap_refines [OF i0, of 4 0] demo_reserved obtain s1 where
    s1: "default_init_memmap 0 4 (default_init demo_mem) = Inr s1" "ff_inv max_pages s1 [(0, 4)]"
      "\<forall>q. PageReserved q s1 = (q \<notin> {0..<4})"
    unfolding max_pages_def by auto
  from init_memmap_refines [OF s1(2), of 9 16] s1(3) obtain s where
    "default_init_memmap 16 9 s1 = Inr s" "ff_inv max_pages s [(0, 4), (16, 9)]"
      "\<forall>q. PageReserved q s = (q \<notin> {16..<25} \<and> q \<notin> {0..<4})"
    unfolding max_pages_def by auto
  with s1(1) show ?thesis by auto
qed

section \<open>Properties\<close>

text \<open>
  C1. First fit: whenever the free list holds the blocks \<open>bs\<close>, a request for \<open>n > 0\<close> pages
  returns (the walk of the free list ends), it fails exactly when every free block is shorter
  than \<open>n\<close>, and otherwise it returns the start of the first block of the list that is long
  enough, whose first \<open>n\<close> pages leave the free pages; the list, the descriptors and the counter
  are again consistent, and maximal blocks stay maximal.
\<close>

theorem default_alloc_pages_first_fit:
  assumes "ff_inv N s bs" and "0 < n"
  shows "\<exists>r s' bs'. default_alloc_pages n s = Inr (r, s') \<and> ff_inv N s' bs' \<and>
     (coalesced bs \<longrightarrow> coalesced bs') \<and>
     (case r of
        None \<Rightarrow> (\<forall>b \<in> set bs. snd b < unat n) \<and> bs' = bs
      | Some p \<Rightarrow> (\<exists>as k cs. bs = as @ (p, k) # cs \<and> (\<forall>b \<in> set as. snd b < unat n) \<and> unat n \<le> k \<and>
          bs' = (if unat n < k then [(p + unat n, k - unat n)] else []) @ as @ cs) \<and>
          pages_of bs' = pages_of bs - {p..<p + unat n})"
proof -
  have d: "blocks_disjoint bs" using assms by (simp add: ff_inv_def pages_ok_def)
  have n: "0 < unat n" using assms by (simp add: unat_gt_0)
  obtain r bs' where al: "ff_alloc (unat n) bs = (r, bs')" by fastforce
  obtain s' where s': "default_alloc_pages n s = Inr (r, s')" "ff_inv N s' bs'"
    using alloc_refines [OF assms] al by auto
  have co: "coalesced bs \<longrightarrow> coalesced bs'" using ff_alloc_coalesced [OF _ d n] al by auto
  have "case r of
        None \<Rightarrow> (\<forall>b \<in> set bs. snd b < unat n) \<and> bs' = bs
      | Some p \<Rightarrow> (\<exists>as k cs. bs = as @ (p, k) # cs \<and> (\<forall>b \<in> set as. snd b < unat n) \<and> unat n \<le> k \<and>
          bs' = (if unat n < k then [(p + unat n, k - unat n)] else []) @ as @ cs) \<and>
          pages_of bs' = pages_of bs - {p..<p + unat n}"
  proof (cases r)
    case None
    then show ?thesis using al ff_alloc_None_iff [of "unat n" bs]
      by (auto simp: ff_alloc_def split: option.splits)
  next
    case (Some p)
    from al Some obtain k where f: "find (\<lambda>b. unat n \<le> snd b) bs = Some (p, k)"
      and bs': "bs' = (if unat n < k then [(p + unat n, k - unat n)] else []) @ remove1 (p, k) bs"
      by (auto simp: ff_alloc_def split: option.splits)
    from f obtain as cs where bs: "bs = as @ (p, k) # cs" "unat n \<le> k" "\<forall>a \<in> set as. \<not> unat n \<le> snd a"
      by (rule find_Some_split) simp
    have "remove1 (p, k) bs = as @ cs" using d bs by (simp add: remove1_split blocks_disjoint_def)
    moreover have "pages_of bs' = pages_of bs - {p..<p + unat n}"
      using ff_alloc_pages(2) [OF d n] al Some by simp
    ultimately show ?thesis using Some bs bs' by (auto simp: not_le)
  qed
  then show ?thesis using s' co by blast
qed

theorem default_alloc_pages_first_fit_witness:
  "\<exists>s s' bs'. ff_inv max_pages s [(0, 4), (16, 9)] \<and> default_alloc_pages 5 s = Inr (Some 16, s') \<and>
     ff_inv max_pages s' bs'"
proof -
  obtain s where s: "ff_inv max_pages s [(0, 4), (16, 9)]" using demo_two_blocks by blast
  have five: "0 < (5 :: size_t)" by simp
  from default_alloc_pages_first_fit [OF s five]
  obtain r s' bs' where "default_alloc_pages 5 s = Inr (r, s')" "ff_inv max_pages s' bs'"
    "r = Some 16"
    by (fastforce simp: Cons_eq_append_conv split: option.splits)
  then show ?thesis using s by blast
qed

text \<open>
  C2. Release: giving back \<open>n > 0\<close> usable pages that are not free succeeds (no assertion fails and
  both walks of the free list end), the free pages grow by exactly these pages and the counter by
  \<open>n\<close> without wrapping around, and when no two free blocks were adjacent before, none are
  afterwards: one walk over a list in any order merges every neighbour.
\<close>

theorem default_free_pages_coalesces:
  assumes "ff_inv N s bs" and "0 < n"
    and "{base..<base + unat n} \<inter> pages_of bs = {}"
    and "\<forall>q \<in> {base..<base + unat n}. q < N \<and> \<not> PageReserved q s"
  shows "\<exists>s' bs'. default_free_pages base n s = Inr s' \<and> ff_inv N s' bs' \<and>
     pages_of bs' = pages_of bs \<union> {base..<base + unat n} \<and>
     unat (nr_free s') = unat (nr_free s) + unat n \<and>
     (coalesced bs \<longrightarrow> coalesced bs')"
proof -
  obtain s' where s': "default_free_pages base n s = Inr s'" "ff_inv N s' (ff_free (base, unat n) bs)"
    using free_refines [OF assms] by blast
  have d: "blocks_disjoint bs" using assms(1) by (simp add: ff_inv_def pages_ok_def)
  obtain c ks where mg: "ff_merge (base, unat n) bs = (c, ks)" by fastforce
  have "sum_list (map snd (ff_insert c ks)) = snd c + sum_list (map snd ks)"
    by (induction ks) auto
  then have "unat (nr_free s') = unat (nr_free s) + unat n"
    using s'(2) assms(1) ff_merge_sum [OF mg] by (simp add: ff_inv_def ff_free_def mg)
  moreover have "coalesced bs \<longrightarrow> coalesced (ff_free (base, unat n) bs)"
    using ff_free_coalesced d by (simp add: blocks_disjoint_def)
  ultimately show ?thesis using s' ff_free_pages by blast
qed

theorem default_free_pages_coalesces_witness:
  "\<exists>s s1 s'. ff_inv max_pages s [(0, 4), (16, 9)] \<and> default_alloc_pages 5 s = Inr (Some 16, s1) \<and>
     default_free_pages 16 5 s1 = Inr s' \<and> nr_free s' = 13"
proof -
  obtain s where s: "ff_inv max_pages s [(0, 4), (16, 9)]" "\<forall>q \<in> {0..<4} \<union> {16..<25}. \<not> PageReserved q s"
    using demo_two_blocks by blast
  have al: "ff_alloc 5 [(0, 4), (16, 9)] = (Some 16, [(21, 4), (0, 4)])" by (simp add: ff_alloc_def)
  obtain s1 where s1: "default_alloc_pages 5 s = Inr (Some 16, s1)"
    "ff_inv max_pages s1 [(21, 4), (0, 4)]" "\<forall>p. PageReserved p s1 = PageReserved p s"
    using alloc_refines [OF s(1), of 5] al by auto
  have pre: "{16..<16 + unat (5 :: size_t)} \<inter> pages_of [(21, 4), (0, 4)] = {}"
    "\<forall>q \<in> {16..<16 + unat (5 :: size_t)}. q < max_pages \<and> \<not> PageReserved q s1"
    using s(2) s1(3) unfolding max_pages_def by auto
  have five: "0 < (5 :: size_t)" by simp
  obtain s' where s': "default_free_pages 16 5 s1 = Inr s'"
    "unat (nr_free s') = unat (nr_free s1) + unat (5 :: size_t)"
    using default_free_pages_coalesces [OF s1(2) five pre] by blast
  have "unat (nr_free s1) = 8" using s1(2) by (simp add: ff_inv_def)
  then have "nr_free s' = 13" using s'(2) by (simp add: word_unat_eq_iff)
  then show ?thesis using s s1 s' by blast
qed

text \<open>
  C3. No page is handed out twice: in every history of allocations and releases the blocks in the
  hands of clients are pairwise disjoint and disjoint from the free pages, together they are
  exactly the pages that were free at the start, and every client can give its block back.
\<close>

theorem pmm_clients_never_share:
  assumes "ff_rep max_pages s0 F0" and "pmm_client s0 s os"
  shows "blocks_disjoint (map owned_block os) \<and>
     (\<exists>F. ff_rep max_pages s F \<and> F \<inter> pages_of (map owned_block os) = {} \<and>
          F \<union> pages_of (map owned_block os) = F0) \<and>
     (\<forall>(p, n) \<in> set os. \<exists>s'. default_free_pages p n s = Inr s')"
proof -
  obtain F where inv: "client_inv F0 (usable_pages max_pages s0) s os F"
    using pmm_client_inv [OF assms(2,1)] by blast
  have "\<exists>s'. default_free_pages p n s = Inr s'" if "(p, n) \<in> set os" for p n
  proof -
    from that obtain as bs where "os = as @ (p, n) # bs" by (meson split_list)
    with client_inv_free inv ff.rep_usable [OF assms(1)] show ?thesis by blast
  qed
  with inv show ?thesis unfolding client_inv_def by auto
qed

theorem pmm_clients_never_share_witness:
  "\<exists>s0 s os. ff_rep max_pages s0 ({0..<4} \<union> {16..<25}) \<and> pmm_client s0 s os \<and> os = [(16, 5)] \<and>
     blocks_disjoint (map owned_block os)"
proof -
  obtain s0 where s0: "ff_inv max_pages s0 [(0, 4), (16, 9)]" using demo_two_blocks by blast
  have rep: "ff_rep max_pages s0 ({0..<4} \<union> {16..<25})" using ff_repI [OF s0] by simp
  have "ff_alloc 5 [(0, 4), (16, 9)] = (Some 16, [(21, 4), (0, 4)])" by (simp add: ff_alloc_def)
  then obtain s where "default_alloc_pages 5 s0 = Inr (Some 16, s)"
    using alloc_refines [OF s0, of 5] by auto
  then have c: "pmm_client s0 s [(16, 5)]" by (intro pmm_client.got [OF pmm_client.start]) auto
  show ?thesis using pmm_clients_never_share [OF rep c] rep c by blast
qed

text \<open>
  The release assertions: giving back a block of length 0, or one that contains a reserved page
  or the first page of a free block, stops with a failed assertion instead of corrupting the list.
\<close>

theorem default_free_pages_asserts:
  assumes "ff_inv N s bs"
    and "n = 0 \<or> (\<exists>q \<in> {base..<base + unat n}. PageReserved q s \<or> q \<in> fst ` set bs)"
  shows "default_free_pages base n s = Inl Assert_failed"
proof (cases "n = 0")
  case True
  then show ?thesis by (simp add: default_free_pages_def)
next
  case False
  then obtain q where q: "q \<in> {base..<base + unat n}" "PageReserved q s \<or> q \<in> fst ` set bs"
    using assms(2) by blast
  have "PageProperty q s" if "q \<in> fst ` set bs"
  proof -
    from that obtain k where "(q, k) \<in> set bs" by force
    then show ?thesis using block_bound(5) [of N s bs q k] assms(1) by (simp add: ff_inv_def)
  qed
  with q have "free_pages_loop base (unat n) s = Inl Assert_failed"
    using free_pages_loop_assert by blast
  then show ?thesis by (simp add: default_free_pages_def)
qed

theorem default_free_pages_asserts_witness:
  "\<exists>s. ff_inv max_pages s [(0, 4), (16, 9)] \<and> default_free_pages 15 3 s = Inl Assert_failed"
proof -
  obtain s where s: "ff_inv max_pages s [(0, 4), (16, 9)]" using demo_two_blocks by blast
  then have "default_free_pages 15 3 s = Inl Assert_failed"
    by (rule default_free_pages_asserts) auto
  with s show ?thesis by blast
qed

text \<open>
  The free list does not stay in address order: \<open>default_alloc_pages\<close> puts the rest of a split
  block at the front of the list, so after the kernel registers the blocks \<open>0..3\<close> and \<open>16..24\<close> and
  takes five pages, the next search meets page 21 before page 0, and a request for one page is
  served from page 21 although page 0 is free.
\<close>

theorem alloc_breaks_address_order:
  "\<exists>s1 s s' s''. default_init_memmap 0 4 (default_init demo_mem) = Inr s1 \<and>
     default_init_memmap 16 9 s1 = Inr s \<and> ff_inv max_pages s [(0, 4), (16, 9)] \<and>
     default_alloc_pages 5 s = Inr (Some 16, s') \<and> ff_inv max_pages s' [(21, 4), (0, 4)] \<and>
     default_alloc_pages 1 s' = Inr (Some 21, s'')"
proof -
  obtain s1 s where s: "default_init_memmap 0 4 (default_init demo_mem) = Inr s1"
    "default_init_memmap 16 9 s1 = Inr s" "ff_inv max_pages s [(0, 4), (16, 9)]"
    using demo_two_blocks by blast
  have "ff_alloc 5 [(0, 4), (16, 9)] = (Some 16, [(21, 4), (0, 4)])" by (simp add: ff_alloc_def)
  then obtain s' where s': "default_alloc_pages 5 s = Inr (Some 16, s')" "ff_inv max_pages s' [(21, 4), (0, 4)]"
    using alloc_refines [OF s(3), of 5] by auto
  have "fst (ff_alloc 1 [(21, 4), (0, 4)]) = Some 21" by (simp add: ff_alloc_def)
  then obtain s'' where "default_alloc_pages 1 s' = Inr (Some 21, s'')"
    using alloc_refines [OF s'(2), of 1] by auto
  with s s' show ?thesis by blast
qed

end
