(* ===== verification/Bankers.thy ===== *)
theory Bankers
  imports Prelude
begin

text \<open>
  The banker's algorithm of \<open>Labweek15/alg.17-1-bankers-5.c\<close>: the global arrays are a record, the
  nested loops of \<open>safecheck\<close> are recursive functions that return the value of the loop
  variable, and a run of \<open>main\<close> is driven by the list of inputs read by \<open>scanf\<close>. The greedy
  check is proved sound and complete against the existence of a safe order.
\<close>

section \<open>State and operations\<close>

definition N_procs :: nat where "N_procs = 5"
definition M_types :: nat where "M_types = 3"

definition resource :: "int list" where "resource = [10, 5, 7]"

definition max_claim :: "int list list" where
  "max_claim = [[7, 5, 3], [3, 2, 2], [9, 0, 2], [2, 2, 2], [4, 3, 3]]"

record bank =
  available :: "int list"
  need :: "int list list"
  allocation :: "int list list"
  request :: "int list"
  work :: "int list"

text \<open>Need and allocation as the check pretends them, with the request of \<open>pro_i\<close> granted.\<close>

definition pretend_need :: "bank \<Rightarrow> nat \<Rightarrow> nat \<Rightarrow> nat \<Rightarrow> int" where
  "pretend_need b pro_i j k =
     (if j = pro_i then need b ! pro_i ! k - request b ! k else need b ! j ! k)"

definition pretend_allocation :: "bank \<Rightarrow> nat \<Rightarrow> nat \<Rightarrow> nat \<Rightarrow> int" where
  "pretend_allocation b pro_i j k =
     (if j = pro_i then allocation b ! pro_i ! k + request b ! k else allocation b ! j ! k)"

function need_loop :: "bank \<Rightarrow> nat \<Rightarrow> nat \<Rightarrow> nat \<Rightarrow> nat" where
  "need_loop b pro_i j k =
     (if k < M_types then
        (if pretend_need b pro_i j k > work b ! k then k else need_loop b pro_i j (k + 1))
      else k)"
  by pat_completeness auto
termination
  by (relation "measure (\<lambda>(b, p, j, k). M_types - k)") auto

function select_loop :: "bank \<Rightarrow> nat \<Rightarrow> bool list \<Rightarrow> nat \<Rightarrow> nat" where
  "select_loop b pro_i finish j =
     (if j < N_procs then
        (if \<not> finish ! j \<and> need_loop b pro_i j 0 = M_types then j
         else select_loop b pro_i finish (j + 1))
      else j)"
  by pat_completeness auto
termination
  by (relation "measure (\<lambda>(b, p, f, j). N_procs - j)") auto

declare need_loop.simps [simp del] select_loop.simps [simp del]

definition release :: "bank \<Rightarrow> nat \<Rightarrow> nat \<Rightarrow> bank" where
  "release b pro_i j =
     b\<lparr>work := map (\<lambda>l. work b ! l + pretend_allocation b pro_i j l) [0..<M_types]\<rparr>"

text \<open>
  The selecting loop with \<open>k\<close> rounds to go; \<open>Some seq\<close> when the counter reaches \<open>N_procs\<close>.
\<close>

fun safe_loop :: "nat \<Rightarrow> bank \<Rightarrow> nat \<Rightarrow> bool list \<Rightarrow> nat list \<Rightarrow> bank \<times> nat list option" where
  "safe_loop 0 b pro_i finish seq = (b, Some seq)"
| "safe_loop (Suc k) b pro_i finish seq =
     (let j = select_loop b pro_i finish 0
      in if j = N_procs then (b, None)
         else safe_loop k (release b pro_i j) pro_i (finish[j := True]) (seq @ [j]))"

definition safecheck :: "bank \<Rightarrow> nat \<Rightarrow> bank \<times> nat list option" where
  "safecheck b pro_i = safe_loop N_procs b pro_i (replicate N_procs False) []"

definition resource_request :: "bank \<Rightarrow> nat \<Rightarrow> bank \<times> bool" where
  "resource_request b pro_i =
     (if \<exists>k \<in> set [0..<M_types]. request b ! k > need b ! pro_i ! k then (b, False)
      else if \<exists>k \<in> set [0..<M_types]. request b ! k > available b ! k then (b, False)
      else
        let b1 = b\<lparr>work := map (\<lambda>k. available b ! k - request b ! k) [0..<M_types]\<rparr>;
            (b2, ret) = safecheck b1 pro_i
        in if ret \<noteq> None then
             (b2\<lparr>available := map (\<lambda>k. available b2 ! k - request b2 ! k) [0..<M_types],
                 need := (need b2)[pro_i := map (\<lambda>k. need b2 ! pro_i ! k - request b2 ! k) [0..<M_types]],
                 allocation := (allocation b2)[pro_i :=
                   map (\<lambda>k. allocation b2 ! pro_i ! k + request b2 ! k) [0..<M_types]]\<rparr>, True)
           else (b2, False))"

text \<open>The initialisation in \<open>main\<close> and one round of its input loop.\<close>

definition bank_init :: bank where
  "bank_init =
     (let alloc = replicate N_procs (replicate M_types 0)
      in \<lparr>available = map (\<lambda>k. resource ! k - (\<Sum>j \<leftarrow> [0..<N_procs]. alloc ! j ! k)) [0..<M_types],
          need = map (\<lambda>j. map (\<lambda>k. max_claim ! j ! k - alloc ! j ! k) [0..<M_types]) [0..<N_procs],
          allocation = alloc, request = [0, 0, 0], work = [0, 0, 0]\<rparr>)"

fun bank_main :: "(int \<times> int \<times> int \<times> int) list \<Rightarrow> bank \<Rightarrow> bank" where
  "bank_main [] b = b"
| "bank_main ((pro_i, r0, r1, r2) # inputs) b =
     (if pro_i < 0 then b
      else if pro_i \<ge> int N_procs then bank_main inputs b
      else bank_main inputs (fst (resource_request (b\<lparr>request := [r0, r1, r2]\<rparr>) (nat pro_i))))"

section \<open>Safe orders\<close>

fun runs :: "(nat \<Rightarrow> nat \<Rightarrow> int) \<Rightarrow> (nat \<Rightarrow> nat \<Rightarrow> int) \<Rightarrow> (nat \<Rightarrow> int) \<Rightarrow> nat list \<Rightarrow> bool" where
  "runs nd al w [] = True"
| "runs nd al w (j # js) = ((\<forall>k < M_types. nd j k \<le> w k) \<and> runs nd al (\<lambda>k. w k + al j k) js)"

definition safe_for :: "(nat \<Rightarrow> nat \<Rightarrow> int) \<Rightarrow> (nat \<Rightarrow> nat \<Rightarrow> int) \<Rightarrow> (nat \<Rightarrow> int) \<Rightarrow> nat set \<Rightarrow> bool" where
  "safe_for nd al w R \<longleftrightarrow> (\<exists>order. distinct order \<and> set order = R \<and> runs nd al w order)"

lemma runs_cong:
  "(\<And>j k. j \<in> set js \<Longrightarrow> k < M_types \<Longrightarrow> nd j k = nd' j k \<and> al j k = al' j k) \<Longrightarrow>
   (\<And>k. k < M_types \<Longrightarrow> w k = w' k) \<Longrightarrow> runs nd al w js = runs nd' al' w' js"
  by (induction js arbitrary: w w') auto

lemma safe_for_cong:
  assumes "\<And>j k. j \<in> R \<Longrightarrow> k < M_types \<Longrightarrow> nd j k = nd' j k \<and> al j k = al' j k"
    and "\<And>k. k < M_types \<Longrightarrow> w k = w' k"
  shows "safe_for nd al w R = safe_for nd' al' w' R"
proof -
  have "runs nd al w order = runs nd' al' w' order" if "set order = R" for order
    by (rule runs_cong) (use assms that in simp_all)
  then show ?thesis unfolding safe_for_def by (intro arg_cong [of _ _ Ex] ext) auto
qed

lemma runs_pull:
  assumes "runs nd al w (as @ j # bs)" "\<forall>k < M_types. 0 \<le> al j k"
  shows "runs nd al (\<lambda>k. w k + al j k) (as @ bs)"
  using assms(1)
proof (induction as arbitrary: w)
  case (Cons a as)
  then have "runs nd al (\<lambda>k. (w k + al a k) + al j k) (as @ bs)" by simp
  then have "runs nd al (\<lambda>k. (w k + al j k) + al a k) (as @ bs)" by (simp add: add.commute add.left_commute)
  moreover have "\<forall>k < M_types. nd a k \<le> w k + al j k" using Cons.prems assms(2) by fastforce
  ultimately show ?case by simp
qed simp

text \<open>Running any process that can finish now never loses safety; a stuck set is unsafe.\<close>

lemma safe_for_step:
  assumes "j \<in> R" "\<forall>k < M_types. nd j k \<le> w k" "\<forall>k < M_types. 0 \<le> al j k"
  shows "safe_for nd al w R \<longleftrightarrow> safe_for nd al (\<lambda>k. w k + al j k) (R - {j})"
proof
  assume "safe_for nd al w R"
  then obtain order where o: "distinct order" "set order = R" "runs nd al w order"
    by (auto simp: safe_for_def)
  then obtain as bs where ab: "order = as @ j # bs" using assms(1) by (metis split_list)
  have "runs nd al (\<lambda>k. w k + al j k) (as @ bs)" using runs_pull o(3) assms(3) by (simp add: ab)
  moreover have "set (as @ bs) = R - {j}" using o ab by auto
  ultimately show "safe_for nd al (\<lambda>k. w k + al j k) (R - {j})"
    using o(1) ab unfolding safe_for_def by (intro exI [of _ "as @ bs"]) auto
next
  assume "safe_for nd al (\<lambda>k. w k + al j k) (R - {j})"
  then obtain order where o: "distinct order" "set order = R - {j}"
    "runs nd al (\<lambda>k. w k + al j k) order" by (auto simp: safe_for_def)
  then show "safe_for nd al w R"
    using assms unfolding safe_for_def by (intro exI [of _ "j # order"]) auto
qed

lemma safe_for_stuck:
  assumes "R \<noteq> {}" "\<forall>j \<in> R. \<not> (\<forall>k < M_types. nd j k \<le> w k)"
  shows "\<not> safe_for nd al w R"
proof
  assume "safe_for nd al w R"
  then obtain order where "set order = R" "runs nd al w order" by (auto simp: safe_for_def)
  with assms show False by (cases order) auto
qed

section \<open>The loops\<close>

lemma need_loop_iff:
  "k \<le> M_types \<Longrightarrow> need_loop b p j k = M_types \<longleftrightarrow> (\<forall>i. k \<le> i \<and> i < M_types \<longrightarrow> pretend_need b p j i \<le> work b ! i)"
proof (induction b p j k rule: need_loop.induct)
  case (1 b p j k)
  show ?case
  proof (cases "k < M_types \<and> pretend_need b p j k \<le> work b ! k")
    case True
    then have "need_loop b p j k = need_loop b p j (k + 1)" by (subst need_loop.simps) simp
    moreover have "(\<forall>i. k \<le> i \<and> i < M_types \<longrightarrow> pretend_need b p j i \<le> work b ! i) \<longleftrightarrow>
        (\<forall>i. k + 1 \<le> i \<and> i < M_types \<longrightarrow> pretend_need b p j i \<le> work b ! i)"
      using True by (metis Suc_eq_plus1 Suc_leD Suc_leI le_eq_less_or_eq)
    ultimately show ?thesis using "1.IH" True by simp
  next
    case False
    then show ?thesis using "1.prems" by (subst need_loop.simps) auto
  qed
qed

lemma need_loop_fits:
  "need_loop b p j 0 = M_types \<longleftrightarrow> (\<forall>k < M_types. pretend_need b p j k \<le> work b ! k)"
  using need_loop_iff [of 0 b p j] by simp

definition fits :: "bank \<Rightarrow> nat \<Rightarrow> bool list \<Rightarrow> nat \<Rightarrow> bool" where
  "fits b p finish j \<longleftrightarrow> \<not> finish ! j \<and> (\<forall>k < M_types. pretend_need b p j k \<le> work b ! k)"

lemma select_loop_unfold:
  "select_loop b p finish j =
     (if j < N_procs then (if fits b p finish j then j else select_loop b p finish (j + 1)) else j)"
  by (subst select_loop.simps) (simp add: need_loop_fits fits_def)

lemma select_loop_found:
  "j \<le> N_procs \<Longrightarrow> select_loop b p finish j \<noteq> N_procs \<Longrightarrow>
     select_loop b p finish j < N_procs \<and> fits b p finish (select_loop b p finish j)"
proof (induction "N_procs - j" arbitrary: j)
  case (Suc n)
  then show ?case
    using Suc.hyps(1) [of "j + 1"] by (cases "fits b p finish j") (auto simp: select_loop_unfold [of b p finish j])
qed (simp add: select_loop_unfold [of b p finish])

lemma select_loop_none:
  "j \<le> N_procs \<Longrightarrow> select_loop b p finish j = N_procs \<Longrightarrow> j \<le> i \<Longrightarrow> i < N_procs \<Longrightarrow> \<not> fits b p finish i"
proof (induction "N_procs - j" arbitrary: j)
  case (Suc n)
  then have j: "j < N_procs" by simp
  then have "\<not> fits b p finish j \<and> select_loop b p finish (j + 1) = N_procs"
    using Suc.prems by (cases "fits b p finish j") (simp_all add: select_loop_unfold [of b p finish j])
  with Suc.hyps(1) [of "j + 1"] Suc.hyps(2) Suc.prems j show ?case by (cases "i = j") auto
qed simp

section \<open>Shape of the arrays\<close>

definition bank_shape :: "bank \<Rightarrow> bool" where
  "bank_shape b \<longleftrightarrow> length (available b) = M_types \<and> length (request b) = M_types \<and> length (work b) = M_types \<and>
     length (need b) = N_procs \<and> length (allocation b) = N_procs"

lemma release_fields [simp]:
  "available (release b p j) = available b" "need (release b p j) = need b"
  "allocation (release b p j) = allocation b" "request (release b p j) = request b"
  "pretend_need (release b p j) = pretend_need b" "pretend_allocation (release b p j) = pretend_allocation b"
  "k < M_types \<Longrightarrow> work (release b p j) ! k = work b ! k + pretend_allocation b p j k"
  "length (work (release b p j)) = M_types"
  by (intro ext | simp add: release_def pretend_need_def pretend_allocation_def cong: if_cong)+

lemma safe_loop_fields:
  "safe_loop k b p finish seq = (b', r) \<Longrightarrow>
     available b' = available b \<and> need b' = need b \<and> allocation b' = allocation b \<and> request b' = request b \<and>
     (length (work b) = M_types \<longrightarrow> length (work b') = M_types)"
proof (induction k arbitrary: b finish seq)
  case (Suc k)
  then show ?case by (cases "select_loop b p finish 0 = N_procs") (auto simp: Let_def)
qed simp

definition todo :: "bool list \<Rightarrow> nat set" where
  "todo finish = {j. j < N_procs \<and> \<not> finish ! j}"

lemma todo_update:
  "length finish = N_procs \<Longrightarrow> j < N_procs \<Longrightarrow> todo (finish[j := True]) = todo finish - {j}"
  by (auto simp: todo_def nth_list_update)

section \<open>Soundness and completeness of safecheck\<close>

lemma safe_loop_correct:
  assumes "length finish = N_procs" "card (todo finish) = k"
    and "\<forall>j < N_procs. \<forall>i < M_types. 0 \<le> pretend_allocation b p j i"
  shows "snd (safe_loop k b p finish seq) \<noteq> None \<longleftrightarrow>
      safe_for (pretend_need b p) (pretend_allocation b p) (\<lambda>i. work b ! i) (todo finish)"
  using assms
proof (induction k arbitrary: b finish seq)
  case 0
  then have "todo finish = {}" by (auto simp: todo_def)
  then show ?case by (simp add: safe_for_def)
next
  case (Suc k)
  let ?j = "select_loop b p finish 0"
  show ?case
  proof (cases "?j = N_procs")
    case True
    have "\<forall>j \<in> todo finish. \<not> (\<forall>i < M_types. pretend_need b p j i \<le> work b ! i)"
      using select_loop_none [OF _ True] by (auto simp: todo_def fits_def)
    moreover have "todo finish \<noteq> {}" using Suc.prems(2) by auto
    ultimately show ?thesis using True safe_for_stuck by (simp add: Let_def)
  next
    case False
    then have j: "?j < N_procs" "fits b p finish ?j" using select_loop_found [of 0 b p finish] by auto
    then have jt: "?j \<in> todo finish" by (simp add: todo_def fits_def)
    have td: "todo (finish[?j := True]) = todo finish - {?j}" using Suc.prems(1) j by (simp add: todo_update)
    then have card: "card (todo (finish[?j := True])) = k" using Suc.prems(2) jt by simp
    have "snd (safe_loop (Suc k) b p finish seq) \<noteq> None \<longleftrightarrow>
        safe_for (pretend_need b p) (pretend_allocation b p) (\<lambda>i. work (release b p ?j) ! i)
          (todo finish - {?j})"
      using Suc.IH [of "finish[?j := True]" "release b p ?j" "seq @ [?j]"] Suc.prems card False
      by (simp add: Let_def td)
    also have "\<dots> \<longleftrightarrow> safe_for (pretend_need b p) (pretend_allocation b p)
        (\<lambda>i. work b ! i + pretend_allocation b p ?j i) (todo finish - {?j})"
      by (rule safe_for_cong) auto
    also have "\<dots> \<longleftrightarrow> safe_for (pretend_need b p) (pretend_allocation b p) (\<lambda>i. work b ! i) (todo finish)"
      using safe_for_step [OF jt] j Suc.prems(3) by (simp add: fits_def)
    finally show ?thesis .
  qed
qed

lemma safe_loop_order:
  assumes "safe_loop k b p finish seq = (b', Some r)" "length finish = N_procs" "card (todo finish) = k"
  shows "\<exists>s. r = seq @ s \<and> distinct s \<and> set s = todo finish \<and>
     runs (pretend_need b p) (pretend_allocation b p) (\<lambda>i. work b ! i) s"
  using assms
proof (induction k arbitrary: b finish seq)
  case 0
  then have "todo finish = {}" by (auto simp: todo_def)
  with 0 show ?case by auto
next
  case (Suc k)
  let ?j = "select_loop b p finish 0"
  have nj: "?j \<noteq> N_procs" using Suc.prems(1) by (auto simp: Let_def)
  then have j: "?j < N_procs" "fits b p finish ?j" using select_loop_found [of 0 b p finish] by auto
  then have jt: "?j \<in> todo finish" by (simp add: todo_def fits_def)
  have td: "todo (finish[?j := True]) = todo finish - {?j}" using Suc.prems(2) j by (simp add: todo_update)
  then have card: "card (todo (finish[?j := True])) = k" using Suc.prems(3) jt by simp
  have "safe_loop k (release b p ?j) p (finish[?j := True]) (seq @ [?j]) = (b', Some r)"
    using Suc.prems(1) nj by (simp add: Let_def)
  from Suc.IH [OF this _ card] Suc.prems(2) obtain s where s: "r = (seq @ [?j]) @ s" "distinct s"
    "set s = todo finish - {?j}"
    "runs (pretend_need b p) (pretend_allocation b p) (\<lambda>i. work (release b p ?j) ! i) s"
    by (auto simp: td)
  have "runs (pretend_need b p) (pretend_allocation b p) (\<lambda>i. work b ! i + pretend_allocation b p ?j i) s"
    using s(4) runs_cong [of s "pretend_need b p" "pretend_need b p" "pretend_allocation b p"
        "pretend_allocation b p" "\<lambda>i. work (release b p ?j) ! i"] by simp
  then show ?case using s j jt by (intro exI [of _ "?j # s"]) (auto simp: fits_def)
qed

lemma todo_start: "todo (replicate N_procs False) = {..<N_procs}"
  by (auto simp: todo_def)

section \<open>The invariant of the bank\<close>

definition alloc_at :: "bank \<Rightarrow> nat \<Rightarrow> nat \<Rightarrow> int" where "alloc_at b j k = allocation b ! j ! k"
definition need_at :: "bank \<Rightarrow> nat \<Rightarrow> nat \<Rightarrow> int" where "need_at b j k = need b ! j ! k"

definition bank_safe :: "bank \<Rightarrow> bool" where
  "bank_safe b \<longleftrightarrow> safe_for (need_at b) (alloc_at b) (\<lambda>k. available b ! k) {..<N_procs}"

definition bank_ok :: "bank \<Rightarrow> bool" where
  "bank_ok b \<longleftrightarrow> bank_shape b \<and>
     (\<forall>k < M_types. 0 \<le> available b ! k \<and>
        available b ! k + (\<Sum>j < N_procs. alloc_at b j k) = resource ! k) \<and>
     (\<forall>j < N_procs. \<forall>k < M_types. 0 \<le> need_at b j k \<and> 0 \<le> alloc_at b j k \<and>
        need_at b j k + alloc_at b j k = max_claim ! j ! k)"

definition grant :: "bank \<Rightarrow> nat \<Rightarrow> bank" where
  "grant b p = b\<lparr>available := map (\<lambda>k. available b ! k - request b ! k) [0..<M_types],
     need := (need b)[p := map (\<lambda>k. need b ! p ! k - request b ! k) [0..<M_types]],
     allocation := (allocation b)[p := map (\<lambda>k. allocation b ! p ! k + request b ! k) [0..<M_types]]\<rparr>"

lemma grant_at:
  assumes "bank_shape b" "p < N_procs" "k < M_types"
  shows "available (grant b p) ! k = available b ! k - request b ! k"
    "need_at (grant b p) j k = pretend_need b p j k"
    "alloc_at (grant b p) j k = pretend_allocation b p j k"
  using assms
  by (auto simp: grant_def need_at_def alloc_at_def pretend_need_def pretend_allocation_def bank_shape_def
      nth_list_update)

lemma grant_ok:
  assumes ok: "bank_ok b" and p: "p < N_procs"
    and r: "\<forall>k < M_types. 0 \<le> request b ! k \<and> request b ! k \<le> need b ! p ! k \<and> request b ! k \<le> available b ! k"
  shows "bank_ok (grant b p)"
proof -
  have sh: "bank_shape b" using ok by (simp add: bank_ok_def)
  have "(\<Sum>j < N_procs. pretend_allocation b p j k) = (\<Sum>j < N_procs. alloc_at b j k) + request b ! k" for k
  proof -
    have "(\<Sum>j < N_procs. pretend_allocation b p j k) =
        (\<Sum>j < N_procs. alloc_at b j k + (if j = p then request b ! k else 0))"
      by (rule sum.cong) (auto simp: pretend_allocation_def alloc_at_def)
    then show ?thesis using p by (simp add: sum.distrib)
  qed
  moreover have "bank_shape (grant b p)" using sh by (simp add: bank_shape_def grant_def)
  ultimately show ?thesis
    using ok p r grant_at [OF sh p]
    by (auto simp: bank_ok_def pretend_need_def pretend_allocation_def need_at_def alloc_at_def)
qed

lemma bank_ok_frame:
  assumes "available b' = available b" "need b' = need b" "allocation b' = allocation b"
    "length (request b') = M_types" "length (work b') = M_types"
  shows "bank_ok b \<Longrightarrow> bank_ok b'" "bank_safe b \<longleftrightarrow> bank_safe b'"
  using assms by (auto simp: bank_ok_def bank_safe_def bank_shape_def need_at_def [abs_def] alloc_at_def [abs_def])

text \<open>What a request does, branch by branch.\<close>

lemma resource_request_cases:
  assumes ok: "bank_ok b" and p: "p < N_procs" and r0: "\<forall>k < M_types. 0 \<le> request b ! k"
  shows "let (b', granted) = resource_request b p
    in request b' = request b \<and> length (work b') = M_types \<and>
       (granted \<longleftrightarrow> (\<forall>k < M_types. request b ! k \<le> need b ! p ! k \<and> request b ! k \<le> available b ! k) \<and>
          bank_safe (grant b p)) \<and>
       (if granted then available b' = available (grant b p) \<and> need b' = need (grant b p) \<and>
            allocation b' = allocation (grant b p)
        else available b' = available b \<and> need b' = need b \<and> allocation b' = allocation b)"
proof -
  have sh: "bank_shape b" using ok by (simp add: bank_ok_def)
  let ?b1 = "b\<lparr>work := map (\<lambda>k. available b ! k - request b ! k) [0..<M_types]\<rparr>"
  show ?thesis
  proof (cases "\<forall>k < M_types. request b ! k \<le> need b ! p ! k \<and> request b ! k \<le> available b ! k")
    case False
    then show ?thesis using sh by (auto simp: resource_request_def Let_def bank_shape_def not_le)
  next
    case True
    obtain b2 ret where sc: "safecheck ?b1 p = (b2, ret)" by fastforce
    have f: "available b2 = available b" "need b2 = need b" "allocation b2 = allocation b"
      "request b2 = request b" "length (work b2) = M_types"
      using safe_loop_fields [of N_procs ?b1 p _ "[]" b2 ret] sc by (simp_all add: safecheck_def)
    have pre: "pretend_need ?b1 p = pretend_need b p" "pretend_allocation ?b1 p = pretend_allocation b p"
      by (auto simp: pretend_need_def pretend_allocation_def fun_eq_iff)
    have "\<forall>j < N_procs. \<forall>i < M_types. 0 \<le> pretend_allocation ?b1 p j i"
      using ok p r0 by (auto simp: pretend_allocation_def bank_ok_def alloc_at_def)
    then have "ret \<noteq> None \<longleftrightarrow>
        safe_for (pretend_need b p) (pretend_allocation b p) (\<lambda>i. work ?b1 ! i) {..<N_procs}"
      using safe_loop_correct [of "replicate N_procs False" N_procs ?b1 p "[]"] sc
      by (simp add: safecheck_def todo_start pre)
    also have "\<dots> \<longleftrightarrow> bank_safe (grant b p)"
      unfolding bank_safe_def using grant_at [OF sh p] by (intro safe_for_cong) auto
    finally show ?thesis
      using True sc f by (auto simp: resource_request_def Let_def grant_def not_le)
  qed
qed

lemma bank_init_ok: "bank_ok bank_init"
  by (simp add: bank_ok_def bank_shape_def bank_init_def need_at_def alloc_at_def N_procs_def M_types_def resource_def
      max_claim_def All_less_Suc upt_rec lessThan_Suc numeral_eq_Suc)

lemma bank_init_safe: "bank_safe bank_init"
proof -
  have "runs (need_at bank_init) (alloc_at bank_init) (\<lambda>k. available bank_init ! k) [0, 1, 2, 3, 4]"
    by (simp add: bank_init_def need_at_def alloc_at_def N_procs_def M_types_def resource_def max_claim_def
      upt_rec All_less_Suc numeral_eq_Suc)
  then show ?thesis unfolding bank_safe_def safe_for_def
    by (intro exI [of _ "[0, 1, 2, 3, 4]"]) (auto simp: N_procs_def)
qed

lemma resource_request_keeps:
  assumes "bank_ok b" "bank_safe b" "p < N_procs" "\<forall>k < M_types. 0 \<le> request b ! k"
  shows "bank_ok (fst (resource_request b p)) \<and> bank_safe (fst (resource_request b p))"
proof -
  obtain b' g where rr: "resource_request b p = (b', g)" by fastforce
  have sh: "length (request b) = M_types" using assms(1) by (simp add: bank_ok_def bank_shape_def)
  note c = resource_request_cases [OF assms(1,3,4), unfolded rr Let_def prod.case]
  show ?thesis
  proof (cases g)
    case True
    with c assms have "bank_ok (grant b p)" by (intro grant_ok) auto
    then show ?thesis using c True sh bank_ok_frame [of b' "grant b p"] by (simp add: rr)
  next
    case False
    then show ?thesis using c sh assms bank_ok_frame [of b' b] by (simp add: rr)
  qed
qed

section \<open>Properties\<close>

text \<open>
  C4. The safety check is exact: starting from \<open>work = available - request\<close>, \<open>safecheck\<close>
  succeeds iff the processes can be run to completion in some order once the request is granted,
  and the sequence it prints is such an order.
\<close>

theorem safecheck_exact:
  assumes "bank_ok b" "p < N_procs" "\<forall>k < M_types. 0 \<le> request b ! k"
    and "work b = map (\<lambda>k. available b ! k - request b ! k) [0..<M_types]"
  shows "(snd (safecheck b p) \<noteq> None \<longleftrightarrow> bank_safe (grant b p)) \<and>
    (case snd (safecheck b p) of None \<Rightarrow> True
     | Some order \<Rightarrow> distinct order \<and> set order = {..<N_procs} \<and>
         runs (need_at (grant b p)) (alloc_at (grant b p)) (\<lambda>k. available (grant b p) ! k) order)"
proof -
  have sh: "bank_shape b" using assms(1) by (simp add: bank_ok_def)
  note at = grant_at [OF sh assms(2)]
  have w: "k < M_types \<Longrightarrow> work b ! k = available (grant b p) ! k" for k using at assms(4) by simp
  have "\<forall>j < N_procs. \<forall>i < M_types. 0 \<le> pretend_allocation b p j i"
    using assms by (auto simp: pretend_allocation_def bank_ok_def alloc_at_def)
  then have "snd (safecheck b p) \<noteq> None \<longleftrightarrow>
      safe_for (pretend_need b p) (pretend_allocation b p) (\<lambda>i. work b ! i) {..<N_procs}"
    using safe_loop_correct [of "replicate N_procs False" N_procs b p "[]"]
    by (simp add: safecheck_def todo_start)
  also have "\<dots> \<longleftrightarrow> bank_safe (grant b p)"
    unfolding bank_safe_def by (rule safe_for_cong) (simp_all add: at w)
  finally have "snd (safecheck b p) \<noteq> None \<longleftrightarrow> bank_safe (grant b p)" .
  moreover have "distinct order \<and> set order = {..<N_procs} \<and>
      runs (need_at (grant b p)) (alloc_at (grant b p)) (\<lambda>k. available (grant b p) ! k) order"
    if "snd (safecheck b p) = Some order" for order
  proof -
    have "safe_loop N_procs b p (replicate N_procs False) [] = (fst (safecheck b p), Some order)"
      using that by (simp add: safecheck_def prod_eq_iff)
    from safe_loop_order [OF this] have s: "distinct order" "set order = {..<N_procs}"
      "runs (pretend_need b p) (pretend_allocation b p) (\<lambda>i. work b ! i) order"
      by (auto simp: todo_start)
    have "runs (pretend_need b p) (pretend_allocation b p) (\<lambda>i. work b ! i) order =
      runs (need_at (grant b p)) (alloc_at (grant b p)) (\<lambda>k. available (grant b p) ! k) order"
      by (rule runs_cong) (simp_all add: at w)
    with s show ?thesis by simp
  qed
  ultimately show ?thesis by (auto split: option.split)
qed

text \<open>
  C5. A request is granted exactly when it stays within the declared need and what is available and
  leaves a safe state; granting moves the requested units from \<open>available\<close> and \<open>need\<close> to
  \<open>allocation\<close>, and a denied request changes none of the three.
\<close>

theorem resource_request_exact:
  assumes "bank_ok b" "p < N_procs" "\<forall>k < M_types. 0 \<le> request b ! k"
  shows "let (b', granted) = resource_request b p
    in (granted \<longleftrightarrow> (\<forall>k < M_types. request b ! k \<le> need b ! p ! k \<and> request b ! k \<le> available b ! k) \<and>
          bank_safe (grant b p)) \<and>
       (if granted then available b' = available (grant b p) \<and> need b' = need (grant b p) \<and>
            allocation b' = allocation (grant b p)
        else available b' = available b \<and> need b' = need b \<and> allocation b' = allocation b)"
  using resource_request_cases [OF assms] by (auto simp: Let_def split: prod.splits)

text \<open>
  C6. The banker avoids deadlock: after any session of non-negative requests from the initial state no
  resource is created or lost, no process exceeds its claim, and all processes can still run to
  completion in some order.
\<close>

theorem bank_never_deadlocks:
  assumes "\<forall>(i, r0, r1, r2) \<in> set inputs. 0 \<le> r0 \<and> 0 \<le> r1 \<and> 0 \<le> r2"
  shows "bank_ok (bank_main inputs bank_init) \<and> bank_safe (bank_main inputs bank_init)"
proof -
  have "bank_ok b \<and> bank_safe b \<Longrightarrow> bank_ok (bank_main inputs b) \<and> bank_safe (bank_main inputs b)" for b
    using assms
  proof (induction inputs b rule: bank_main.induct)
    case (2 i r0 r1 r2 inputs b)
    let ?b = "b\<lparr>request := [r0, r1, r2]\<rparr>"
    have "bank_ok ?b \<and> bank_safe ?b"
      using "2.prems" bank_ok_frame [of ?b b] by (auto simp: M_types_def bank_ok_def bank_shape_def)
    moreover have "\<forall>k < M_types. 0 \<le> request ?b ! k"
      using "2.prems" by (simp add: M_types_def All_less_Suc numeral_eq_Suc)
    ultimately have "0 \<le> i \<Longrightarrow> i < int N_procs \<Longrightarrow>
        bank_ok (fst (resource_request ?b (nat i))) \<and> bank_safe (fst (resource_request ?b (nat i)))"
      using resource_request_keeps [of ?b "nat i"] by simp
    then show ?case using 2 by auto
  qed simp
  then show ?thesis using bank_init_ok bank_init_safe by blast
qed

text \<open>
  The input is not checked for negative numbers: asking for \<open>-1\<close> unit of a resource is
  granted and leaves more units available than the system owns.
\<close>

theorem negative_request_creates_resources:
  "available (bank_main [(0, -1, 0, 0)] bank_init) ! 0 = 11 \<and> resource ! 0 = 10 \<and>
   allocation (bank_main [(0, -1, 0, 0)] bank_init) ! 0 ! 0 = -1"
  by code_simp

section \<open>Witnesses\<close>

definition bank_first_request :: bank where
  "bank_first_request = bank_init\<lparr>request := [0, 1, 0], work := [10, 4, 7]\<rparr>"

lemma bank_first_request_ok: "bank_ok bank_first_request"
  using bank_init_ok
  by (simp add: bank_ok_def bank_shape_def bank_first_request_def need_at_def alloc_at_def M_types_def)

theorem safecheck_exact_witness:
  "snd (safecheck bank_first_request 0) = Some [0, 1, 2, 3, 4] \<and> bank_safe (grant bank_first_request 0)"
proof -
  have "\<forall>k < M_types. 0 \<le> request bank_first_request ! k"
    by (simp add: bank_first_request_def M_types_def All_less_Suc numeral_eq_Suc)
  moreover have "work bank_first_request = map (\<lambda>k. available bank_first_request ! k - request bank_first_request ! k) [0..<M_types]"
    by code_simp
  moreover have "snd (safecheck bank_first_request 0) = Some [0, 1, 2, 3, 4]" by code_simp
  ultimately show ?thesis
    using safecheck_exact [of bank_first_request 0] bank_first_request_ok by (simp add: N_procs_def)
qed

theorem resource_request_exact_witness:
  "snd (resource_request bank_first_request 0) \<and> bank_safe (grant bank_first_request 0)"
proof -
  have "\<forall>k < M_types. 0 \<le> request bank_first_request ! k"
    by (simp add: bank_first_request_def M_types_def All_less_Suc numeral_eq_Suc)
  moreover have "snd (resource_request bank_first_request 0)" by code_simp
  ultimately show ?thesis
    using resource_request_exact [of bank_first_request 0] bank_first_request_ok
    by (auto simp: N_procs_def Let_def split: prod.splits)
qed

theorem bank_never_deadlocks_witness:
  "bank_safe (bank_main [(1, 2, 0, 0), (3, 0, 1, 1)] bank_init)"
  using bank_never_deadlocks [of "[(1, 2, 0, 0), (3, 0, 1, 1)]"] by simp

end
