(* ===== verification/HDD_Scheduling.thy ===== *)
theory HDD_Scheduling
  imports Prelude
begin

text \<open>
  The disk-head schedulers of \<open>Labweek18/HDD_scheduling.c\<close>. The local variables of a scheduling
  function are a record; an access to \<open>cylinders\<close> outside the array is a fault; the program's
  output is the list \<open>printed\<close>, where a position printed because a request is served there is
  \<open>Served\<close> and any other printed position is \<open>Passed\<close>. The array \<open>cylinder_req\<close> of
  \<open>CYLINDER_REQ_NUM\<close> entries is a list, and a \<open>for\<close> loop over it recurses on that list.
\<close>

section \<open>State and loops\<close>

definition CYLINDER_NUM :: int where "CYLINDER_NUM = 200"
definition CYLINDER_REQ_NUM :: nat where "CYLINDER_REQ_NUM = 8"

datatype event = Passed int | Served int

record disk =
  cylinders :: "int list"
  printed :: "event list"
  head_move_sum :: int
  cylinder_head :: int
  pre_cylinder_head :: int

definition abs_int :: "int \<Rightarrow> int" where
  "abs_int num = (if num \<ge> 0 then num else - num)"

definition print_pos :: "event \<Rightarrow> disk \<Rightarrow> disk" where
  "print_pos e d = d\<lparr>printed := printed d @ [e]\<rparr>"

definition decrement :: "int list \<Rightarrow> int \<Rightarrow> int list outcome" where
  "decrement c i = andThen (array_get c i) (\<lambda>n. array_set c i (n - 1))"

fun set_cylinders :: "int list \<Rightarrow> int list \<Rightarrow> int list outcome" where
  "set_cylinders c [] = Inr c"
| "set_cylinders c (cylinder_id # cylinder_req) =
     andThen (array_get c cylinder_id) (\<lambda>n.
     andThen (array_set c cylinder_id (n + 1)) (\<lambda>c'. set_cylinders c' cylinder_req))"

text \<open>
  The opening that all six schedulers share: \<open>memset\<close>, \<open>set_cylinders\<close>, and the starting
  position is printed unless a request is served there at once.
\<close>

definition start_disk :: "int list \<Rightarrow> int \<Rightarrow> disk outcome" where
  "start_disk cylinder_req head =
     andThen (set_cylinders (replicate (nat CYLINDER_NUM) 0) cylinder_req) (\<lambda>c.
     andThen (array_get c head) (\<lambda>n.
       let d = \<lparr>cylinders = c, printed = [], head_move_sum = 0, cylinder_head = head,
                pre_cylinder_head = head\<rparr>
       in Inr (if n = 0 then print_pos (Passed head) d else d)))"

text \<open>One request of FCFS or SSTF: print, decrement, add the distance, move.\<close>

definition serve_request :: "disk \<Rightarrow> int \<Rightarrow> disk outcome" where
  "serve_request d cylinder_id =
     andThen (decrement (cylinders d) cylinder_id) (\<lambda>c.
       Inr (d\<lparr>printed := printed d @ [Served cylinder_id], cylinders := c,
              head_move_sum := head_move_sum d + abs_int (cylinder_head d - cylinder_id),
              cylinder_head := cylinder_id\<rparr>))"

fun FCFS_loop :: "disk \<Rightarrow> int list \<Rightarrow> disk outcome" where
  "FCFS_loop d [] = Inr d"
| "FCFS_loop d (cylinder_id # cylinder_req) =
     andThen (serve_request d cylinder_id) (\<lambda>d'. FCFS_loop d' cylinder_req)"

definition FCFS :: "int list \<Rightarrow> int \<Rightarrow> disk outcome" where
  "FCFS cylinder_req head = andThen (start_disk cylinder_req head) (\<lambda>d. FCFS_loop d cylinder_req)"

function seek_loop :: "int list \<Rightarrow> int \<Rightarrow> int \<Rightarrow> int outcome" where
  "seek_loop c find_head_dir0 find_head_dir1 =
     (if find_head_dir0 \<ge> 0 \<or> find_head_dir1 < CYLINDER_NUM then
        case (if find_head_dir0 \<ge> 0 then array_get c find_head_dir0 else Inr 0) of
          Inl e \<Rightarrow> Inl e
        | Inr n0 \<Rightarrow>
            if n0 > 0 then Inr find_head_dir0
            else (case (if find_head_dir1 < CYLINDER_NUM then array_get c find_head_dir1 else Inr 0) of
                Inl e \<Rightarrow> Inl e
              | Inr n1 \<Rightarrow>
                  if n1 > 0 then Inr find_head_dir1
                  else seek_loop c (if find_head_dir0 \<ge> 0 then find_head_dir0 - 1 else find_head_dir0)
                         (if find_head_dir1 < CYLINDER_NUM then find_head_dir1 + 1 else find_head_dir1))
      else Inr (- 1))"
  by pat_completeness auto
termination
  by (relation "measure (\<lambda>(c, i, j). nat (i + 1) + nat (CYLINDER_NUM - j))") auto

declare seek_loop.simps [simp del]

definition find_cylinder_min_seek_dis :: "int list \<Rightarrow> int \<Rightarrow> int outcome" where
  "find_cylinder_min_seek_dis c head = seek_loop c head head"

fun SSTF_loop :: "nat \<Rightarrow> disk \<Rightarrow> disk outcome" where
  "SSTF_loop 0 d = Inr d"
| "SSTF_loop (Suc n) d =
     andThen (find_cylinder_min_seek_dis (cylinders d) (cylinder_head d)) (\<lambda>cylinder_id.
     andThen (serve_request d cylinder_id) (\<lambda>d'. SSTF_loop n d'))"

definition SSTF :: "int list \<Rightarrow> int \<Rightarrow> disk outcome" where
  "SSTF cylinder_req head =
     andThen (start_disk cylinder_req head) (\<lambda>d. SSTF_loop (length cylinder_req) d)"

text \<open>The inner loop of the sweeping schedulers serves every request at the position of the head.\<close>

function serve_here :: "disk \<Rightarrow> disk outcome" where
  "serve_here d =
     (case array_get (cylinders d) (cylinder_head d) of
        Inl e \<Rightarrow> Inl e
      | Inr n \<Rightarrow>
          if n > 0 then
            serve_here (d\<lparr>printed := printed d @ [Served (cylinder_head d)],
              head_move_sum := head_move_sum d + abs_int (cylinder_head d - pre_cylinder_head d),
              pre_cylinder_head := cylinder_head d,
              cylinders := (cylinders d)[nat (cylinder_head d) := n - 1]\<rparr>)
          else Inr d)"
  by pat_completeness auto
termination
  by (relation "measure (\<lambda>d. nat (cylinders d ! nat (cylinder_head d)))")
    (auto simp: array_get_def split: if_splits)

declare serve_here.simps [simp del]

definition move_head :: "int \<Rightarrow> disk \<Rightarrow> disk" where
  "move_head head_dir d = d\<lparr>cylinder_head := (if head_dir = 0 then cylinder_head d - 1 else cylinder_head d + 1)\<rparr>"

text \<open>
  The outer loop while \<open>lo \<le> cylinder_head \<le> hi\<close>: the whole disk for SCAN and C_SCAN, the
  outermost requests for LOOK and C_LOOK.
\<close>

lemma serve_here_head: "serve_here d = Inr d' \<Longrightarrow> cylinder_head d' = cylinder_head d"
proof (induction d rule: serve_here.induct)
  case (1 d)
  then show ?case
    by (subst (asm) serve_here.simps) (auto split: sum.splits if_splits)
qed

function sweep :: "int \<Rightarrow> int \<Rightarrow> int \<Rightarrow> disk \<Rightarrow> disk outcome" where
  "sweep lo hi head_dir d =
     (if lo \<le> cylinder_head d \<and> cylinder_head d \<le> hi then
        case serve_here d of Inl e \<Rightarrow> Inl e | Inr d' \<Rightarrow> sweep lo hi head_dir (move_head head_dir d')
      else Inr d)"
  by pat_completeness auto
termination
  by (relation "measure (\<lambda>(lo, hi, head_dir, d). if head_dir = 0 then nat (cylinder_head d - lo + 1)
        else nat (hi - cylinder_head d + 1))")
    (auto simp: move_head_def dest: serve_here_head)

declare sweep.simps [simp del]

text \<open>Putting the head back on the disk when a sweep has run past an end, and printing that end.\<close>

definition reach_end :: "disk \<Rightarrow> disk" where
  "reach_end d =
     (let d1 = (if cylinder_head d = - 1 then d\<lparr>cylinder_head := cylinder_head d + 1\<rparr> else d);
          d2 = (if cylinder_head d1 = CYLINDER_NUM then d1\<lparr>cylinder_head := cylinder_head d1 - 1\<rparr> else d1)
      in if pre_cylinder_head d2 \<noteq> cylinder_head d2
         then (print_pos (Passed (cylinder_head d2)) d2)
           \<lparr>head_move_sum := head_move_sum d2 + abs_int (cylinder_head d2 - pre_cylinder_head d2),
            pre_cylinder_head := cylinder_head d2\<rparr>
         else d2)"

definition SCAN :: "int list \<Rightarrow> int \<Rightarrow> int \<Rightarrow> disk outcome" where
  "SCAN cylinder_req head head_dir =
     andThen (start_disk cylinder_req head) (\<lambda>d.
     andThen (sweep 0 (CYLINDER_NUM - 1) head_dir d) (\<lambda>d.
       sweep 0 (CYLINDER_NUM - 1) (if head_dir = 0 then 1 else 0) (reach_end d)))"

text \<open>The jump of C_SCAN to the other end of the disk.\<close>

definition jump_end :: "disk \<Rightarrow> disk outcome" where
  "jump_end d =
     (let d1 = (if cylinder_head d = 0 then d\<lparr>cylinder_head := CYLINDER_NUM - 1\<rparr>
                else if cylinder_head d = CYLINDER_NUM - 1 then d\<lparr>cylinder_head := 0\<rparr> else d);
          d2 = d1\<lparr>pre_cylinder_head := cylinder_head d1,
                  head_move_sum := head_move_sum d1 + (CYLINDER_NUM - 1)\<rparr>
      in andThen (array_get (cylinders d2) (cylinder_head d2)) (\<lambda>n.
           Inr (if n = 0 then print_pos (Passed (cylinder_head d2)) d2 else d2)))"

definition C_SCAN :: "int list \<Rightarrow> int \<Rightarrow> int \<Rightarrow> disk outcome" where
  "C_SCAN cylinder_req head head_dir =
     andThen (start_disk cylinder_req head) (\<lambda>d.
     andThen (sweep 0 (CYLINDER_NUM - 1) head_dir d) (\<lambda>d.
     andThen (jump_end (reach_end d)) (\<lambda>d.
       sweep 0 (CYLINDER_NUM - 1) head_dir d)))"

text \<open>The outermost requests, found by the loop of LOOK and C_LOOK.\<close>

fun outermost :: "int \<Rightarrow> int \<Rightarrow> int list \<Rightarrow> int \<times> int" where
  "outermost mi ma [] = (mi, ma)"
| "outermost mi ma (cylinder_id # cylinder_req) =
     outermost (if mi > cylinder_id then cylinder_id else mi)
       (if ma < cylinder_id then cylinder_id else ma) cylinder_req"

text \<open>A head outside the outermost requests is first put on the nearest of them.\<close>

definition enter_range :: "int \<Rightarrow> int \<Rightarrow> disk \<Rightarrow> disk" where
  "enter_range mi ma d =
     (if cylinder_head d < mi then
        let d1 = d\<lparr>cylinder_head := mi\<rparr>
        in d1\<lparr>head_move_sum := head_move_sum d1 + (mi - cylinder_head d1)\<rparr>
      else if cylinder_head d > ma then
        let d1 = d\<lparr>cylinder_head := ma\<rparr>
        in d1\<lparr>head_move_sum := head_move_sum d1 + (ma - mi)\<rparr>
      else d)"

definition reach_outermost :: "int \<Rightarrow> int \<Rightarrow> disk \<Rightarrow> disk" where
  "reach_outermost mi ma d =
     (let d1 = (if cylinder_head d = mi - 1 then d\<lparr>cylinder_head := mi\<rparr> else d)
      in if cylinder_head d1 = ma + 1 then d1\<lparr>cylinder_head := ma\<rparr> else d1)"

definition LOOK :: "int list \<Rightarrow> int \<Rightarrow> int \<Rightarrow> disk outcome" where
  "LOOK cylinder_req head head_dir =
     andThen (start_disk cylinder_req head) (\<lambda>d.
     andThen (array_get cylinder_req 0) (\<lambda>r0.
       let (mi, ma) = outermost r0 r0 cylinder_req
       in andThen (sweep mi ma head_dir (enter_range mi ma d)) (\<lambda>d.
            sweep mi ma (if head_dir = 0 then 1 else 0) (reach_outermost mi ma d))))"

definition jump_outermost :: "int \<Rightarrow> int \<Rightarrow> disk \<Rightarrow> disk" where
  "jump_outermost mi ma d =
     (let d1 = d\<lparr>head_move_sum := head_move_sum d + (ma - mi)\<rparr>;
          d2 = (if cylinder_head d1 = mi - 1 then d1\<lparr>cylinder_head := ma\<rparr> else d1);
          d3 = (if cylinder_head d2 = ma + 1 then d2\<lparr>cylinder_head := mi\<rparr> else d2)
      in d3\<lparr>pre_cylinder_head := cylinder_head d3\<rparr>)"

definition C_LOOK :: "int list \<Rightarrow> int \<Rightarrow> int \<Rightarrow> disk outcome" where
  "C_LOOK cylinder_req head head_dir =
     andThen (start_disk cylinder_req head) (\<lambda>d.
     andThen (array_get cylinder_req 0) (\<lambda>r0.
       let (mi, ma) = outermost r0 r0 cylinder_req
       in andThen (sweep mi ma head_dir (enter_range mi ma d)) (\<lambda>d.
            sweep mi ma head_dir (jump_outermost mi ma d))))"

text \<open>The six reports of \<open>main\<close> for one input, in order.\<close>

definition hdd_main :: "int list \<Rightarrow> int \<Rightarrow> int \<Rightarrow> disk list outcome" where
  "hdd_main cylinder_req head head_dir =
     andThen (FCFS cylinder_req head) (\<lambda>d1.
     andThen (SSTF cylinder_req head) (\<lambda>d2.
     andThen (SCAN cylinder_req head head_dir) (\<lambda>d3.
     andThen (C_SCAN cylinder_req head head_dir) (\<lambda>d4.
     andThen (LOOK cylinder_req head head_dir) (\<lambda>d5.
     andThen (C_LOOK cylinder_req head head_dir) (\<lambda>d6. Inr [d1, d2, d3, d4, d5, d6]))))))"

section \<open>The cylinder array as a multiset of requests\<close>

definition holds :: "int list \<Rightarrow> int multiset \<Rightarrow> bool" where
  "holds c M \<longleftrightarrow> length c = nat CYLINDER_NUM \<and> set_mset M \<subseteq> {0..<CYLINDER_NUM} \<and>
     (\<forall>i. 0 \<le> i \<and> i < CYLINDER_NUM \<longrightarrow> c ! nat i = int (count M i))"

lemma holds_get [bounds_simps]:
  "holds c M \<Longrightarrow> 0 \<le> i \<Longrightarrow> i < CYLINDER_NUM \<Longrightarrow> array_get c i = Inr (int (count M i))"
  by (simp add: holds_def array_get_def)

lemma holds_set:
  assumes "holds c M" "0 \<le> i" "i < CYLINDER_NUM" "set_mset M' \<subseteq> {0..<CYLINDER_NUM}"
    and "\<And>j. count M' j = (if j = i then n else count M j)"
  shows "array_set c i (int n) = Inr (c[nat i := int n]) \<and> holds (c[nat i := int n]) M'"
  using assms by (auto simp: holds_def array_set_def nth_list_update eq_nat_nat_iff)

lemma holds_empty: "holds (replicate (nat CYLINDER_NUM) 0) {#}"
  by (auto simp: holds_def)

lemma set_cylinders_holds:
  "holds c M \<Longrightarrow> set reqs \<subseteq> {0..<CYLINDER_NUM} \<Longrightarrow>
     \<exists>c'. set_cylinders c reqs = Inr c' \<and> holds c' (M + mset reqs)"
proof (induction reqs arbitrary: c M)
  case (Cons r reqs)
  have "array_set c r (int (Suc (count M r))) = Inr (c[nat r := int (Suc (count M r))]) \<and>
      holds (c[nat r := int (Suc (count M r))]) (add_mset r M)"
    using Cons.prems by (intro holds_set) (auto simp: holds_def)
  then show ?case using Cons.IH [of _ "add_mset r M"] Cons.prems
    by (auto simp: bounds_simps add.commute)
qed simp

lemma decrement_holds:
  assumes "holds c M" "i \<in># M"
  shows "\<exists>c'. decrement c i = Inr c' \<and> holds c' (M - {#i#})"
proof -
  have i: "0 \<le> i" "i < CYLINDER_NUM" using assms by (auto simp: holds_def)
  have "int (count M i) - 1 = int (count M i - 1)" using assms(2) by (cases "count M i") (auto simp: count_eq_zero_iff)
  moreover have "array_set c i (int (count M i - 1)) = Inr (c[nat i := int (count M i - 1)]) \<and>
      holds (c[nat i := int (count M i - 1)]) (M - {#i#})"
    using assms i by (intro holds_set [where M = M]) (auto simp: holds_def dest: in_diffD)
  ultimately show ?thesis using assms i by (auto simp: decrement_def bounds_simps)
qed

section \<open>Order of service and distance travelled\<close>

fun event_pos :: "event \<Rightarrow> int" where
  "event_pos (Passed p) = p"
| "event_pos (Served p) = p"

definition positions :: "disk \<Rightarrow> int list" where
  "positions d = map event_pos (printed d)"

fun served_of :: "event list \<Rightarrow> int list" where
  "served_of [] = []"
| "served_of (Passed p # es) = served_of es"
| "served_of (Served p # es) = p # served_of es"

definition served :: "disk \<Rightarrow> int list" where
  "served d = served_of (printed d)"

fun path_len :: "int \<Rightarrow> int list \<Rightarrow> int" where
  "path_len h [] = 0"
| "path_len h (x # xs) = \<bar>x - h\<bar> + path_len x xs"

lemma served_of_append [simp]: "served_of (es @ es') = served_of es @ served_of es'"
  by (induction es rule: served_of.induct) auto

lemma served_of_Served [simp]: "served_of (map Served xs) = xs"
  by (induction xs) auto

lemma path_len_append: "path_len h (xs @ ys) = path_len h xs + path_len (last (h # xs)) ys"
  by (induction xs arbitrary: h) auto

lemma path_len_nonneg: "0 \<le> path_len h xs"
  by (induction xs arbitrary: h) (auto intro: add_nonneg_nonneg)

lemma path_len_reaches: "r \<in> set xs \<Longrightarrow> \<bar>h - r\<bar> \<le> path_len h xs"
proof (induction xs arbitrary: h)
  case (Cons x xs)
  then consider "r = x" | "\<bar>x - r\<bar> \<le> path_len x xs" by auto
  then show ?case using path_len_nonneg [of x xs] by cases auto
qed simp

lemma abs_int_abs [simp]: "abs_int n = \<bar>n\<bar>"
  by (simp add: abs_int_def)

text \<open>Serving the requests \<open>xs\<close> one after the other, as the inner loops do.\<close>

fun visits :: "disk \<Rightarrow> int list \<Rightarrow> disk" where
  "visits d [] = d"
| "visits d (x # xs) = visits (d\<lparr>printed := printed d @ [Served x],
     head_move_sum := head_move_sum d + \<bar>x - pre_cylinder_head d\<bar>, pre_cylinder_head := x\<rparr>) xs"

lemma visits_append: "visits d (xs @ ys) = visits (visits d xs) ys"
  by (induction xs arbitrary: d) auto

lemma visits_fields [simp]:
  "cylinder_head (visits d xs) = cylinder_head d"
  "cylinders (visits d xs) = cylinders d"
  "printed (visits d xs) = printed d @ map Served xs"
  "pre_cylinder_head (visits d xs) = last (pre_cylinder_head d # xs)"
  "head_move_sum (visits d xs) = head_move_sum d + path_len (pre_cylinder_head d) xs"
  by (induction xs arbitrary: d) auto

lemma visits_update [simp]:
  "visits (d\<lparr>cylinders := c\<rparr>) xs = (visits d xs)\<lparr>cylinders := c\<rparr>"
  "visits (d\<lparr>cylinder_head := h\<rparr>) xs = (visits d xs)\<lparr>cylinder_head := h\<rparr>"
  by (rule disk.equality; simp)+

section \<open>The sweeps\<close>

lemma serve_here_spec:
  "holds (cylinders d) M \<Longrightarrow> 0 \<le> cylinder_head d \<Longrightarrow> cylinder_head d < CYLINDER_NUM \<Longrightarrow>
     \<exists>c. serve_here d = Inr ((visits d (replicate (count M (cylinder_head d)) (cylinder_head d)))\<lparr>cylinders := c\<rparr>) \<and>
       holds c (filter_mset (\<lambda>x. x \<noteq> cylinder_head d) M)"
proof (induction "count M (cylinder_head d)" arbitrary: d M)
  case 0
  then have "filter_mset (\<lambda>x. x \<noteq> cylinder_head d) M = M" by (intro multiset_eqI) auto
  with 0 show ?case by (subst serve_here.simps) (auto simp: bounds_simps intro!: exI [of _ "cylinders d"])
next
  case (Suc n)
  let ?h = "cylinder_head d"
  let ?c = "(cylinders d)[nat ?h := int n]"
  let ?d = "d\<lparr>printed := printed d @ [Served ?h],
    head_move_sum := head_move_sum d + \<bar>?h - pre_cylinder_head d\<bar>, pre_cylinder_head := ?h, cylinders := ?c\<rparr>"
  have "holds ?c (M - {#?h#})"
    using Suc.prems Suc.hyps(2) [symmetric] holds_set [of "cylinders d" M ?h "M - {#?h#}" n]
    by (auto simp: holds_def dest: in_diffD)
  moreover have n: "n = count (M - {#?h#}) ?h" using Suc.hyps(2) by simp
  ultimately obtain c where c: "serve_here ?d = Inr ((visits ?d (replicate n ?h))\<lparr>cylinders := c\<rparr>)"
    "holds c (filter_mset (\<lambda>x. x \<noteq> ?h) (M - {#?h#}))"
    using Suc.hyps(1) [of "M - {#?h#}" ?d] Suc.prems by auto
  have "serve_here d = serve_here ?d"
    using Suc.prems Suc.hyps(2) [symmetric] by (subst serve_here.simps) (simp add: bounds_simps)
  also have "\<dots> = Inr ((visits d (replicate (Suc n) ?h))\<lparr>cylinders := c\<rparr>)"
    using c(1) by simp
  finally show ?case using c(2) Suc.hyps(2) [symmetric] by (auto simp: filter_diff_mset)
qed

lemma sorted_list_split_top:
  "sorted_list_of_multiset (filter_mset (\<lambda>x. lo \<le> x \<and> x \<le> h) M) =
     sorted_list_of_multiset (filter_mset (\<lambda>x. lo \<le> x \<and> x \<le> h - 1) M) @ replicate (count M h) h"
  if "lo \<le> h" for h :: int
proof -
  let ?r = "sorted_list_of_multiset (filter_mset (\<lambda>x. lo \<le> x \<and> x \<le> h - 1) M) @ replicate (count M h) h"
  have "mset ?r = filter_mset (\<lambda>x. lo \<le> x \<and> x \<le> h) M"
    using that by (auto intro!: multiset_eqI simp: count_eq_zero_iff)
  moreover have "sorted ?r" by (auto simp: sorted_append)
  ultimately show ?thesis using sorted_list_of_multiset_mset [of ?r] by (simp add: sort_key_id_if_sorted)
qed

lemma sorted_list_split_bottom:
  "sorted_list_of_multiset (filter_mset (\<lambda>x. h \<le> x \<and> x \<le> hi) M) =
     replicate (count M h) h @ sorted_list_of_multiset (filter_mset (\<lambda>x. h + 1 \<le> x \<and> x \<le> hi) M)"
  if "h \<le> hi" for h :: int
proof -
  let ?r = "replicate (count M h) h @ sorted_list_of_multiset (filter_mset (\<lambda>x. h + 1 \<le> x \<and> x \<le> hi) M)"
  have "mset ?r = filter_mset (\<lambda>x. h \<le> x \<and> x \<le> hi) M"
    using that by (auto intro!: multiset_eqI simp: count_eq_zero_iff)
  moreover have "sorted ?r" by (auto simp: sorted_append)
  ultimately show ?thesis using sorted_list_of_multiset_mset [of ?r] by (simp add: sort_key_id_if_sorted)
qed

lemma sorted_list_filter: "sorted_list_of_multiset (filter_mset P (mset xs)) = sort (filter P xs)"
  by (simp flip: mset_filter add: sorted_list_of_multiset_mset)

text \<open>A sweep towards cylinder 0 serves what lies below the head in descending order.\<close>

lemma sweep_down:
  "holds (cylinders d) M \<Longrightarrow> 0 \<le> lo \<Longrightarrow> hi < CYLINDER_NUM \<Longrightarrow> lo - 1 \<le> cylinder_head d \<Longrightarrow>
   cylinder_head d \<le> hi \<Longrightarrow>
   \<exists>c. sweep lo hi 0 d = Inr ((visits d (rev (sorted_list_of_multiset
          (filter_mset (\<lambda>x. lo \<le> x \<and> x \<le> cylinder_head d) M))))\<lparr>cylinders := c, cylinder_head := lo - 1\<rparr>) \<and>
       holds c (filter_mset (\<lambda>x. \<not> (lo \<le> x \<and> x \<le> cylinder_head d)) M)"
proof (induction "nat (cylinder_head d - lo + 1)" arbitrary: d M)
  case 0
  then have h: "cylinder_head d = lo - 1" by simp
  then have e: "filter_mset (\<lambda>x. lo \<le> x \<and> x \<le> cylinder_head d) M = {#}"
    by (auto simp: filter_mset_eq_mempty_iff)
  have m: "filter_mset (\<lambda>x. \<not> (lo \<le> x \<and> x \<le> cylinder_head d)) M = M"
    by (auto simp: h filter_mset_eq_conv)
  have "sweep lo hi 0 d = Inr d" by (subst sweep.simps) (simp add: h)
  moreover have "d\<lparr>cylinders := cylinders d, cylinder_head := lo - 1\<rparr> = d" by (rule disk.equality) (simp_all add: h)
  ultimately show ?case unfolding e m using 0 by (intro exI [of _ "cylinders d"]) simp
next
  case (Suc n)
  let ?h = "cylinder_head d"
  have h: "lo \<le> ?h" "0 \<le> ?h" "?h < CYLINDER_NUM" using Suc.hyps(2) Suc.prems by linarith+
  obtain c where c: "serve_here d = Inr ((visits d (replicate (count M ?h) ?h))\<lparr>cylinders := c\<rparr>)"
    "holds c (filter_mset (\<lambda>x. x \<noteq> ?h) M)"
    using serve_here_spec [OF Suc.prems(1) h(2,3)] by auto
  let ?d = "(visits d (replicate (count M ?h) ?h))\<lparr>cylinders := c, cylinder_head := ?h - 1\<rparr>"
  have f: "filter_mset P (filter_mset (\<lambda>x. x \<noteq> ?h) M) = filter_mset (\<lambda>x. P x \<and> x \<noteq> ?h) M" for P
    by (simp add: filter_filter_mset conj_commute)
  have g: "filter_mset (\<lambda>x. (lo \<le> x \<and> x \<le> ?h - 1) \<and> x \<noteq> ?h) M = filter_mset (\<lambda>x. lo \<le> x \<and> x \<le> ?h - 1) M"
    "filter_mset (\<lambda>x. \<not> (lo \<le> x \<and> x \<le> ?h - 1) \<and> x \<noteq> ?h) M = filter_mset (\<lambda>x. \<not> (lo \<le> x \<and> x \<le> ?h)) M"
    using h by (auto intro!: filter_mset_cong)
  have hd: "cylinder_head ?d = ?h - 1" by simp
  have ih: "\<exists>c'. sweep lo hi 0 ?d = Inr ((visits ?d (rev (sorted_list_of_multiset
          (filter_mset (\<lambda>x. lo \<le> x \<and> x \<le> cylinder_head ?d) (filter_mset (\<lambda>x. x \<noteq> ?h) M)))))\<lparr>cylinders := c', cylinder_head := lo - 1\<rparr>) \<and>
      holds c' (filter_mset (\<lambda>x. \<not> (lo \<le> x \<and> x \<le> cylinder_head ?d)) (filter_mset (\<lambda>x. x \<noteq> ?h) M))"
    by (rule Suc.hyps(1)) (use Suc.hyps(2) Suc.prems c(2) h in auto)
  from ih obtain c' where c': "sweep lo hi 0 ?d = Inr ((visits ?d (rev (sorted_list_of_multiset
          (filter_mset (\<lambda>x. lo \<le> x \<and> x \<le> ?h - 1) M))))\<lparr>cylinders := c', cylinder_head := lo - 1\<rparr>)"
    "holds c' (filter_mset (\<lambda>x. \<not> (lo \<le> x \<and> x \<le> ?h)) M)"
    unfolding hd f g by blast
  have "sweep lo hi 0 d = sweep lo hi 0 ?d"
    using h Suc.prems c(1) by (subst sweep.simps) (simp add: move_head_def)
  then show ?case using c' sorted_list_split_top [OF h(1), of M] by (auto simp: visits_append)
qed

text \<open>A sweep away from cylinder 0 serves what lies above the head in ascending order.\<close>

lemma sweep_up:
  "holds (cylinders d) M \<Longrightarrow> 0 \<le> lo \<Longrightarrow> hi < CYLINDER_NUM \<Longrightarrow> lo \<le> cylinder_head d \<Longrightarrow>
   cylinder_head d \<le> hi + 1 \<Longrightarrow> dir \<noteq> 0 \<Longrightarrow>
   \<exists>c. sweep lo hi dir d = Inr ((visits d (sorted_list_of_multiset
          (filter_mset (\<lambda>x. cylinder_head d \<le> x \<and> x \<le> hi) M)))\<lparr>cylinders := c, cylinder_head := hi + 1\<rparr>) \<and>
       holds c (filter_mset (\<lambda>x. \<not> (cylinder_head d \<le> x \<and> x \<le> hi)) M)"
proof (induction "nat (hi - cylinder_head d + 1)" arbitrary: d M)
  case 0
  then have h: "cylinder_head d = hi + 1" by simp
  then have e: "filter_mset (\<lambda>x. cylinder_head d \<le> x \<and> x \<le> hi) M = {#}"
    by (auto simp: filter_mset_eq_mempty_iff)
  have m: "filter_mset (\<lambda>x. \<not> (cylinder_head d \<le> x \<and> x \<le> hi)) M = M"
    by (auto simp: h filter_mset_eq_conv)
  have "sweep lo hi dir d = Inr d" by (subst sweep.simps) (simp add: h)
  moreover have "d\<lparr>cylinders := cylinders d, cylinder_head := hi + 1\<rparr> = d" by (rule disk.equality) (simp_all add: h)
  ultimately show ?case unfolding e m using 0 by (intro exI [of _ "cylinders d"]) simp
next
  case (Suc n)
  let ?h = "cylinder_head d"
  have h: "?h \<le> hi" "0 \<le> ?h" "?h < CYLINDER_NUM" using Suc.hyps(2) Suc.prems by linarith+
  obtain c where c: "serve_here d = Inr ((visits d (replicate (count M ?h) ?h))\<lparr>cylinders := c\<rparr>)"
    "holds c (filter_mset (\<lambda>x. x \<noteq> ?h) M)"
    using serve_here_spec [OF Suc.prems(1) h(2,3)] by auto
  let ?d = "(visits d (replicate (count M ?h) ?h))\<lparr>cylinders := c, cylinder_head := ?h + 1\<rparr>"
  have f: "filter_mset P (filter_mset (\<lambda>x. x \<noteq> ?h) M) = filter_mset (\<lambda>x. P x \<and> x \<noteq> ?h) M" for P
    by (simp add: filter_filter_mset conj_commute)
  have g: "filter_mset (\<lambda>x. (?h + 1 \<le> x \<and> x \<le> hi) \<and> x \<noteq> ?h) M = filter_mset (\<lambda>x. ?h + 1 \<le> x \<and> x \<le> hi) M"
    "filter_mset (\<lambda>x. \<not> (?h + 1 \<le> x \<and> x \<le> hi) \<and> x \<noteq> ?h) M = filter_mset (\<lambda>x. \<not> (?h \<le> x \<and> x \<le> hi)) M"
    using h by (auto intro!: filter_mset_cong)
  have hd: "cylinder_head ?d = ?h + 1" by simp
  have ih: "\<exists>c'. sweep lo hi dir ?d = Inr ((visits ?d (sorted_list_of_multiset
          (filter_mset (\<lambda>x. cylinder_head ?d \<le> x \<and> x \<le> hi) (filter_mset (\<lambda>x. x \<noteq> ?h) M))))\<lparr>cylinders := c', cylinder_head := hi + 1\<rparr>) \<and>
      holds c' (filter_mset (\<lambda>x. \<not> (cylinder_head ?d \<le> x \<and> x \<le> hi)) (filter_mset (\<lambda>x. x \<noteq> ?h) M))"
    by (rule Suc.hyps(1)) (use Suc.hyps(2) Suc.prems c(2) h in auto)
  from ih obtain c' where c': "sweep lo hi dir ?d = Inr ((visits ?d (sorted_list_of_multiset
          (filter_mset (\<lambda>x. ?h + 1 \<le> x \<and> x \<le> hi) M)))\<lparr>cylinders := c', cylinder_head := hi + 1\<rparr>)"
    "holds c' (filter_mset (\<lambda>x. \<not> (?h \<le> x \<and> x \<le> hi)) M)"
    unfolding hd f g by blast
  have "sweep lo hi dir d = sweep lo hi dir ?d"
    using h Suc.prems c(1) by (subst sweep.simps) (simp add: move_head_def)
  then show ?case using c' sorted_list_split_bottom [OF h(1), of M] by (auto simp: visits_append)
qed

section \<open>Valid inputs and the start\<close>

definition valid_input :: "int list \<Rightarrow> int \<Rightarrow> bool" where
  "valid_input cylinder_req head \<longleftrightarrow> length cylinder_req = CYLINDER_REQ_NUM \<and>
     set cylinder_req \<subseteq> {0..<CYLINDER_NUM} \<and> head \<in> {0..<CYLINDER_NUM}"

text \<open>The reported total is the length of the printed path.\<close>

definition tracks :: "int \<Rightarrow> disk \<Rightarrow> bool" where
  "tracks h d \<longleftrightarrow> head_move_sum d = path_len h (positions d) \<and> pre_cylinder_head d = last (h # positions d)"

lemma tracks_visits: "tracks h d \<Longrightarrow> tracks h (visits d xs)"
  by (cases "xs = []") (auto simp: tracks_def positions_def path_len_append comp_def)

lemma tracks_update [simp]:
  "tracks h (d\<lparr>cylinders := c\<rparr>) = tracks h d"
  "tracks h (d\<lparr>cylinder_head := h1\<rparr>) = tracks h d"
  by (simp_all add: tracks_def positions_def)

lemma served_update [simp]:
  "served (d\<lparr>cylinders := c\<rparr>) = served d"
  "served (d\<lparr>cylinder_head := h\<rparr>) = served d"
  "served (visits d xs) = served d @ xs"
  by (simp_all add: served_def)

lemma start_disk_spec:
  assumes "valid_input reqs head"
  obtains d where "start_disk reqs head = Inr d" "holds (cylinders d) (mset reqs)" "served d = []"
    "tracks head d" "cylinder_head d = head" "pre_cylinder_head d = head" "head_move_sum d = 0"
proof -
  obtain c where c: "set_cylinders (replicate (nat CYLINDER_NUM) 0) reqs = Inr c" "holds c (mset reqs)"
    using set_cylinders_holds [OF holds_empty] assms by (auto simp: valid_input_def)
  then show thesis using assms
    by (intro that [OF _ _ _ _ _ _]) (auto simp: start_disk_def valid_input_def bounds_simps Let_def print_pos_def
        served_def tracks_def positions_def)
qed

lemma reach_end_spec:
  assumes "tracks h d" "cylinder_head d = -1 \<or> cylinder_head d = CYLINDER_NUM"
  shows "tracks h (reach_end d)" "served (reach_end d) = served d" "cylinders (reach_end d) = cylinders d"
    "cylinder_head (reach_end d) = (if cylinder_head d = -1 then 0 else CYLINDER_NUM - 1)"
    "pre_cylinder_head (reach_end d) = cylinder_head (reach_end d)"
  using assms
  by (auto simp: reach_end_def Let_def print_pos_def tracks_def served_def positions_def path_len_append
      CYLINDER_NUM_def)

section \<open>SCAN and C_SCAN\<close>

lemma holds_filter_none: "holds c (filter_mset P M) \<Longrightarrow> (\<And>x. x \<in># M \<Longrightarrow> \<not> P x) \<Longrightarrow> holds c {#}"
  by (subgoal_tac "filter_mset P M = {#}") (auto simp: filter_mset_eq_mempty_iff)

text \<open>A sweep of either direction inside a range that holds all requests.\<close>

lemma range_sweep:
  assumes "holds (cylinders d) M" "0 \<le> lo" "hi < CYLINDER_NUM" "\<forall>x \<in># M. lo \<le> x \<and> x \<le> hi"
    and "lo \<le> cylinder_head d" "cylinder_head d \<le> hi"
  obtains c where "sweep lo hi dir d = Inr ((visits d (if dir = 0
        then rev (sorted_list_of_multiset (filter_mset (\<lambda>x. x \<le> cylinder_head d) M))
        else sorted_list_of_multiset (filter_mset (\<lambda>x. cylinder_head d \<le> x) M)))
          \<lparr>cylinders := c, cylinder_head := (if dir = 0 then lo - 1 else hi + 1)\<rparr>)"
    "holds c (if dir = 0 then filter_mset (\<lambda>x. \<not> x \<le> cylinder_head d) M
        else filter_mset (\<lambda>x. \<not> cylinder_head d \<le> x) M)"
proof (cases "dir = 0")
  case True
  have m: "filter_mset (\<lambda>x. lo \<le> x \<and> x \<le> cylinder_head d) M = filter_mset (\<lambda>x. x \<le> cylinder_head d) M"
    "filter_mset (\<lambda>x. \<not> (lo \<le> x \<and> x \<le> cylinder_head d)) M = filter_mset (\<lambda>x. \<not> x \<le> cylinder_head d) M"
    using assms(4) by (auto intro!: filter_mset_cong)
  show thesis using sweep_down [OF assms(1,2,3)] assms(5,6) True unfolding m by (auto intro: that)
next
  case False
  have m: "filter_mset (\<lambda>x. cylinder_head d \<le> x \<and> x \<le> hi) M = filter_mset (\<lambda>x. cylinder_head d \<le> x) M"
    "filter_mset (\<lambda>x. \<not> (cylinder_head d \<le> x \<and> x \<le> hi)) M = filter_mset (\<lambda>x. \<not> cylinder_head d \<le> x) M"
    using assms(4) by (auto intro!: filter_mset_cong)
  obtain c where "sweep lo hi dir d = Inr ((visits d (sorted_list_of_multiset
        (filter_mset (\<lambda>x. cylinder_head d \<le> x) M)))\<lparr>cylinders := c, cylinder_head := hi + 1\<rparr>)"
    "holds c (filter_mset (\<lambda>x. \<not> cylinder_head d \<le> x) M)"
    using sweep_up [OF assms(1,2,3,5) _ False] assms(6) unfolding m by auto
  then show thesis using False by (intro that [of c]) simp_all
qed

lemma range_sweep_all:
  assumes "holds (cylinders d) M" "0 \<le> lo" "hi < CYLINDER_NUM" "\<forall>x \<in># M. lo \<le> x \<and> x \<le> hi" "lo \<le> hi"
    and "cylinder_head d = (if dir = 0 then hi else lo)"
  obtains c h where "sweep lo hi dir d = Inr ((visits d (if dir = 0 then rev (sorted_list_of_multiset M)
      else sorted_list_of_multiset M))\<lparr>cylinders := c, cylinder_head := h\<rparr>)" "holds c {#}"
proof -
  have m: "dir = 0 \<Longrightarrow> filter_mset (\<lambda>x. x \<le> cylinder_head d) M = M"
    "dir = 0 \<Longrightarrow> filter_mset (\<lambda>x. \<not> x \<le> cylinder_head d) M = {#}"
    "dir \<noteq> 0 \<Longrightarrow> filter_mset (\<lambda>x. cylinder_head d \<le> x) M = M"
    "dir \<noteq> 0 \<Longrightarrow> filter_mset (\<lambda>x. \<not> cylinder_head d \<le> x) M = {#}"
    using assms(4,6) by (auto simp: filter_mset_eq_conv filter_mset_eq_mempty_iff)
  show thesis
    by (cases "dir = 0"; rule_tac range_sweep [OF assms(1-4), of dir])
      (use assms(5,6) that in \<open>auto simp: m\<close>)
qed

definition elevator_order :: "int list \<Rightarrow> int \<Rightarrow> int \<Rightarrow> int list" where
  "elevator_order reqs head head_dir =
     (if head_dir = 0 then rev (sort (filter (\<lambda>x. x \<le> head) reqs)) @ sort (filter (\<lambda>x. \<not> x \<le> head) reqs)
      else sort (filter (\<lambda>x. head \<le> x) reqs) @ rev (sort (filter (\<lambda>x. \<not> head \<le> x) reqs)))"

definition circular_order :: "int list \<Rightarrow> int \<Rightarrow> int \<Rightarrow> int list" where
  "circular_order reqs head head_dir =
     (if head_dir = 0 then rev (sort (filter (\<lambda>x. x \<le> head) reqs)) @ rev (sort (filter (\<lambda>x. \<not> x \<le> head) reqs))
      else sort (filter (\<lambda>x. head \<le> x) reqs) @ sort (filter (\<lambda>x. \<not> head \<le> x) reqs))"

lemma mset_filter_split: "mset (filter P xs) + mset (filter (\<lambda>x. \<not> P x) xs) = mset xs"
  by simp

lemma mset_elevator_order: "mset (elevator_order reqs head head_dir) = mset reqs"
  using mset_filter_split [of "\<lambda>x. x \<le> head" reqs] mset_filter_split [of "\<lambda>x. head \<le> x" reqs]
  by (simp add: elevator_order_def del: mset_filter)

lemma mset_circular_order: "mset (circular_order reqs head head_dir) = mset reqs"
  using mset_filter_split [of "\<lambda>x. x \<le> head" reqs] mset_filter_split [of "\<lambda>x. head \<le> x" reqs]
  by (simp add: circular_order_def del: mset_filter)

lemma CYLINDER_NUM_pos: "0 < CYLINDER_NUM"
  by (simp add: CYLINDER_NUM_def)

text \<open>A sweep over the whole disk from one of its ends serves all that is left.\<close>

lemma scan_all_visits:
  assumes "holds (cylinders d) M"
    and "if dir = 0 then cylinder_head d = CYLINDER_NUM - 1 else cylinder_head d = 0"
  obtains c h where "sweep 0 (CYLINDER_NUM - 1) dir d = Inr ((visits d (if dir = 0 then rev (sorted_list_of_multiset M)
      else sorted_list_of_multiset M))\<lparr>cylinders := c, cylinder_head := h\<rparr>)" "holds c {#}"
proof -
  have "\<forall>x \<in># M. 0 \<le> x \<and> x \<le> CYLINDER_NUM - 1" using assms(1) by (auto simp: holds_def)
  then show thesis
    by (rule_tac range_sweep_all [OF assms(1), of 0 "CYLINDER_NUM - 1" dir])
      (use assms(2) CYLINDER_NUM_pos that in \<open>auto split: if_splits\<close>)
qed

lemma scan_all:
  assumes "holds (cylinders d) M" "tracks h0 d"
    and "if dir = 0 then cylinder_head d = CYLINDER_NUM - 1 else cylinder_head d = 0"
  obtains d' where "sweep 0 (CYLINDER_NUM - 1) dir d = Inr d'" "tracks h0 d'" "holds (cylinders d') {#}"
    "served d' = served d @ (if dir = 0 then rev (sorted_list_of_multiset M) else sorted_list_of_multiset M)"
proof (rule scan_all_visits [OF assms(1,3)])
  fix c h
  let ?d = "(visits d (if dir = 0 then rev (sorted_list_of_multiset M) else sorted_list_of_multiset M))
    \<lparr>cylinders := c, cylinder_head := h\<rparr>"
  assume "sweep 0 (CYLINDER_NUM - 1) dir d = Inr ?d" "holds c {#}"
  then show thesis by (rule_tac that [of ?d]) (simp_all add: tracks_visits [OF assms(2)])
qed

lemma first_sweep:
  assumes "valid_input reqs head"
  obtains d0 d1 where "start_disk reqs head = Inr d0" "sweep 0 (CYLINDER_NUM - 1) dir d0 = Inr d1" "tracks head d1"
    "cylinder_head d1 = (if dir = 0 then -1 else CYLINDER_NUM)"
    "served d1 = (if dir = 0 then rev (sort (filter (\<lambda>x. x \<le> head) reqs)) else sort (filter (\<lambda>x. head \<le> x) reqs))"
    "holds (cylinders d1) (mset (if dir = 0 then filter (\<lambda>x. \<not> x \<le> head) reqs else filter (\<lambda>x. \<not> head \<le> x) reqs))"
proof -
  obtain d0 where d0: "start_disk reqs head = Inr d0" "holds (cylinders d0) (mset reqs)" "served d0 = []"
    "tracks head d0" "cylinder_head d0 = head" by (rule start_disk_spec [OF assms])
  have h: "0 \<le> head" "head \<le> CYLINDER_NUM - 1" "\<forall>x \<in># mset reqs. 0 \<le> x \<and> x \<le> CYLINDER_NUM - 1"
    using assms by (auto simp: valid_input_def)
  obtain c where c: "sweep 0 (CYLINDER_NUM - 1) dir d0 = Inr ((visits d0 (if dir = 0
        then rev (sort (filter (\<lambda>x. x \<le> head) reqs)) else sort (filter (\<lambda>x. head \<le> x) reqs)))
          \<lparr>cylinders := c, cylinder_head := (if dir = 0 then 0 - 1 else CYLINDER_NUM - 1 + 1)\<rparr>)"
    "holds c (if dir = 0 then mset (filter (\<lambda>x. \<not> x \<le> head) reqs) else mset (filter (\<lambda>x. \<not> head \<le> x) reqs))"
    by (rule range_sweep [OF d0(2) _ _ h(3), of dir])
      (use h d0(5) in \<open>auto simp: sorted_list_filter mset_filter [symmetric] simp del: mset_filter cong: if_cong\<close>)
  show thesis using c(2) d0 by (cases "dir = 0"; rule_tac that [OF d0(1) c(1)]) (simp_all add: tracks_visits)
qed

definition finished :: "disk \<Rightarrow> bool" where
  "finished d \<longleftrightarrow> holds (cylinders d) {#}"

lemma SCAN_spec:
  assumes "valid_input reqs head"
  obtains d where "SCAN reqs head dir = Inr d" "finished d" "tracks head d"
    "served d = elevator_order reqs head dir"
proof (rule first_sweep [OF assms, of dir])
  fix d0 d1
  assume d: "start_disk reqs head = Inr d0" "sweep 0 (CYLINDER_NUM - 1) dir d0 = Inr d1" "tracks head d1"
    "cylinder_head d1 = (if dir = 0 then -1 else CYLINDER_NUM)"
    "served d1 = (if dir = 0 then rev (sort (filter (\<lambda>x. x \<le> head) reqs)) else sort (filter (\<lambda>x. head \<le> x) reqs))"
    "holds (cylinders d1) (mset (if dir = 0 then filter (\<lambda>x. \<not> x \<le> head) reqs else filter (\<lambda>x. \<not> head \<le> x) reqs))"
  have e: "cylinder_head d1 = -1 \<or> cylinder_head d1 = CYLINDER_NUM" using d(4) by simp
  note re = reach_end_spec [OF d(3) e]
  show thesis
    by (rule scan_all [of "reach_end d1" _ head "if dir = 0 then 1 else 0"])
      (use re d CYLINDER_NUM_pos in \<open>auto intro!: that simp: SCAN_def finished_def elevator_order_def
        sorted_list_of_multiset_mset simp del: mset_filter\<close>)
qed

lemma jump_end_spec:
  assumes "holds (cylinders d) M" "tracks h0 d" "pre_cylinder_head d = cylinder_head d"
    and "cylinder_head d = 0 \<or> cylinder_head d = CYLINDER_NUM - 1"
  obtains d2 where "jump_end d = Inr d2" "cylinders d2 = cylinders d" "served d2 = served d"
    "cylinder_head d2 = CYLINDER_NUM - 1 - cylinder_head d"
    "\<And>xs. (CYLINDER_NUM - 1 - cylinder_head d) \<in># M \<Longrightarrow>
        tracks h0 (visits d2 ((CYLINDER_NUM - 1 - cylinder_head d) # xs))"
    "(CYLINDER_NUM - 1 - cylinder_head d) \<notin># M \<Longrightarrow> tracks h0 d2"
proof -
  let ?o = "CYLINDER_NUM - 1 - cylinder_head d"
  let ?d2 = "d\<lparr>cylinder_head := ?o, pre_cylinder_head := ?o, head_move_sum := head_move_sum d + (CYLINDER_NUM - 1)\<rparr>"
  have j: "jump_end d = Inr (if ?o \<in># M then ?d2 else print_pos (Passed ?o) ?d2)"
    using assms CYLINDER_NUM_pos holds_get [OF assms(1), of ?o]
    by (auto simp: jump_end_def Let_def count_eq_zero_iff)
  have "\<bar>?o - cylinder_head d\<bar> = CYLINDER_NUM - 1" using assms(4) CYLINDER_NUM_pos by auto
  then have "tracks h0 (visits ?d2 [?o])" "tracks h0 (print_pos (Passed ?o) ?d2)"
    using assms(2,3) by (simp_all add: tracks_def positions_def print_pos_def path_len_append)
  then have "tracks h0 (visits (visits ?d2 [?o]) xs)" "tracks h0 (print_pos (Passed ?o) ?d2)" for xs
    by (simp_all add: tracks_visits del: visits.simps)
  then show thesis using j that [of "if ?o \<in># M then ?d2 else print_pos (Passed ?o) ?d2"]
    by (auto simp: print_pos_def served_def)
qed

lemma sorted_list_ends:
  fixes lo hi :: int
  assumes "\<forall>x \<in># M. lo \<le> x \<and> x \<le> hi"
  shows "hi \<in># M \<Longrightarrow> \<exists>xs. rev (sorted_list_of_multiset M) = hi # xs"
    and "lo \<in># M \<Longrightarrow> \<exists>xs. sorted_list_of_multiset M = lo # xs"
proof -
  have m: "filter_mset (\<lambda>x. lo \<le> x \<and> x \<le> hi) M = M" using assms by (simp add: filter_mset_eq_conv)
  show "\<exists>xs. rev (sorted_list_of_multiset M) = hi # xs" if "hi \<in># M"
  proof -
    have "lo \<le> hi" "count M hi \<noteq> 0" using that assms by (auto simp: count_eq_zero_iff)
    then show ?thesis using sorted_list_split_top [of lo hi M] m
      by (cases "count M hi") (auto simp: replicate_app_Cons_same)
  qed
  show "\<exists>xs. sorted_list_of_multiset M = lo # xs" if "lo \<in># M"
  proof -
    have "lo \<le> hi" "count M lo \<noteq> 0" using that assms by (auto simp: count_eq_zero_iff)
    then show ?thesis using sorted_list_split_bottom [of lo hi M] m by (cases "count M lo") auto
  qed
qed

lemma C_SCAN_spec:
  assumes "valid_input reqs head"
  obtains d where "C_SCAN reqs head dir = Inr d" "finished d" "tracks head d"
    "served d = circular_order reqs head dir"
proof (rule first_sweep [OF assms, of dir])
  fix d0 d1
  let ?left = "mset (if dir = 0 then filter (\<lambda>x. \<not> x \<le> head) reqs else filter (\<lambda>x. \<not> head \<le> x) reqs)"
  let ?xs = "if dir = 0 then rev (sorted_list_of_multiset ?left) else sorted_list_of_multiset ?left"
  let ?o = "if dir = 0 then CYLINDER_NUM - 1 else 0"
  assume d: "start_disk reqs head = Inr d0" "sweep 0 (CYLINDER_NUM - 1) dir d0 = Inr d1" "tracks head d1"
    "cylinder_head d1 = (if dir = 0 then -1 else CYLINDER_NUM)"
    "served d1 = (if dir = 0 then rev (sort (filter (\<lambda>x. x \<le> head) reqs)) else sort (filter (\<lambda>x. head \<le> x) reqs))"
    "holds (cylinders d1) ?left"
  have e: "cylinder_head d1 = -1 \<or> cylinder_head d1 = CYLINDER_NUM" using d(4) by simp
  note re = reach_end_spec [OF d(3) e]
  have h: "cylinder_head (reach_end d1) = CYLINDER_NUM - 1 - ?o"
    using re(4) d(4) CYLINDER_NUM_pos by (simp split: if_splits)
  obtain d2 where d2: "jump_end (reach_end d1) = Inr d2" "cylinders d2 = cylinders d1" "served d2 = served d1"
      "cylinder_head d2 = ?o" "\<And>xs. ?o \<in># ?left \<Longrightarrow> tracks head (visits d2 (?o # xs))"
      "?o \<notin># ?left \<Longrightarrow> tracks head d2"
    by (rule jump_end_spec [of "reach_end d1" ?left head])
      (use re d(6) h in \<open>simp_all split: if_splits del: mset_filter set_mset_mset\<close>)
  obtain c h' where c: "sweep 0 (CYLINDER_NUM - 1) dir d2 = Inr ((visits d2 ?xs)\<lparr>cylinders := c, cylinder_head := h'\<rparr>)"
    "holds c {#}"
    by (rule scan_all_visits [of d2 ?left dir]) (use d2(2,4) d(6) in simp_all)
  have "\<forall>x \<in># ?left. 0 \<le> x \<and> x \<le> CYLINDER_NUM - 1" using d(6) by (auto simp: holds_def)
  from sorted_list_ends [OF this] have ex: "?o \<in># ?left \<Longrightarrow> \<exists>ys. ?xs = ?o # ys"
    by (cases "dir = 0") auto
  have "tracks head (visits d2 ?xs)"
  proof (cases "?o \<in># ?left")
    case True
    with ex obtain ys where "?xs = ?o # ys" by blast
    then show ?thesis using d2(5) [OF True] by simp
  qed (use d2(6) tracks_visits in blast)
  then show thesis using that c d d2 by (simp add: C_SCAN_def finished_def circular_order_def
        sorted_list_of_multiset_mset split: if_splits del: mset_filter)
qed

section \<open>LOOK and C_LOOK\<close>

lemma outermost_spec:
  "outermost mi ma reqs = (Min (insert mi (set reqs)), Max (insert ma (set reqs)))"
proof (induction reqs arbitrary: mi ma)
  case (Cons r reqs)
  have "Min (insert (min mi r) (set reqs)) = Min (insert mi (set (r # reqs)))"
    "Max (insert (max ma r) (set reqs)) = Max (insert ma (set (r # reqs)))"
    by (cases "reqs = []"; simp add: min.assoc max.assoc)+
  moreover have "(if mi > r then r else mi) = min mi r" "(if ma < r then r else ma) = max ma r" by auto
  ultimately show ?case using Cons.IH by simp
qed simp

definition lowest :: "int list \<Rightarrow> int" where "lowest reqs = Min (set reqs)"
definition highest :: "int list \<Rightarrow> int" where "highest reqs = Max (set reqs)"

definition clamp :: "int list \<Rightarrow> int \<Rightarrow> int" where
  "clamp reqs head = (if head < lowest reqs then lowest reqs else if head > highest reqs then highest reqs else head)"

lemma outermost_bounds:
  assumes "valid_input reqs head"
  shows "array_get reqs 0 = Inr (hd reqs)" "outermost (hd reqs) (hd reqs) reqs = (lowest reqs, highest reqs)"
    "0 \<le> lowest reqs" "highest reqs < CYLINDER_NUM" "\<forall>x \<in># mset reqs. lowest reqs \<le> x \<and> x \<le> highest reqs"
    "lowest reqs \<le> clamp reqs head" "clamp reqs head \<le> highest reqs" "lowest reqs \<in> set reqs" "highest reqs \<in> set reqs"
proof -
  have ne: "reqs \<noteq> []" using assms by (auto simp: valid_input_def CYLINDER_REQ_NUM_def)
  then show "array_get reqs 0 = Inr (hd reqs)" by (simp add: array_get_def hd_conv_nth)
  show "outermost (hd reqs) (hd reqs) reqs = (lowest reqs, highest reqs)"
    using ne by (simp add: outermost_spec lowest_def highest_def insert_absorb)
  show m: "lowest reqs \<in> set reqs" "highest reqs \<in> set reqs" using ne by (simp_all add: lowest_def highest_def)
  show b: "\<forall>x \<in># mset reqs. lowest reqs \<le> x \<and> x \<le> highest reqs" by (simp add: lowest_def highest_def)
  show "0 \<le> lowest reqs" "highest reqs < CYLINDER_NUM" using m assms by (auto simp: valid_input_def)
  have "lowest reqs \<le> highest reqs" using m b by auto
  then show "lowest reqs \<le> clamp reqs head" "clamp reqs head \<le> highest reqs" by (auto simp: clamp_def)
qed

text \<open>The reported total exceeds the length of the printed path by \<open>e\<close>.\<close>

definition overcounts :: "int \<Rightarrow> int \<Rightarrow> disk \<Rightarrow> bool" where
  "overcounts e h d \<longleftrightarrow> head_move_sum d = path_len h (positions d) + e \<and> pre_cylinder_head d = last (h # positions d)"

lemma overcounts_visits: "overcounts e h d \<Longrightarrow> overcounts e h (visits d xs)"
  by (cases "xs = []") (auto simp: overcounts_def positions_def path_len_append comp_def)

lemma overcounts_update [simp]:
  "overcounts e h (d\<lparr>cylinders := c\<rparr>) = overcounts e h d"
  "overcounts e h (d\<lparr>cylinder_head := h1\<rparr>) = overcounts e h d"
  by (simp_all add: overcounts_def positions_def)

definition detour :: "int list \<Rightarrow> int \<Rightarrow> int" where
  "detour reqs head = (if head > highest reqs then highest reqs - lowest reqs else 0)"

lemma enter_range_spec:
  assumes "tracks head d" "cylinder_head d = head" "lowest reqs \<le> highest reqs"
  shows "overcounts (detour reqs head) head (enter_range (lowest reqs) (highest reqs) d)"
    "cylinder_head (enter_range (lowest reqs) (highest reqs) d) = clamp reqs head"
    "cylinders (enter_range (lowest reqs) (highest reqs) d) = cylinders d"
    "served (enter_range (lowest reqs) (highest reqs) d) = served d"
  using assms by (auto simp: enter_range_def overcounts_def detour_def clamp_def tracks_def positions_def served_def)

lemma first_look:
  assumes "valid_input reqs head"
  obtains d0 d1 where "start_disk reqs head = Inr d0"
    "sweep (lowest reqs) (highest reqs) dir (enter_range (lowest reqs) (highest reqs) d0) = Inr d1"
    "overcounts (detour reqs head) head d1" "cylinder_head d1 = (if dir = 0 then lowest reqs - 1 else highest reqs + 1)"
    "pre_cylinder_head d1 = (if dir = 0 then lowest reqs else highest reqs)"
    "served d1 = (if dir = 0 then rev (sort (filter (\<lambda>x. x \<le> clamp reqs head) reqs))
       else sort (filter (\<lambda>x. clamp reqs head \<le> x) reqs))"
    "holds (cylinders d1) (mset (if dir = 0 then filter (\<lambda>x. \<not> x \<le> clamp reqs head) reqs
       else filter (\<lambda>x. \<not> clamp reqs head \<le> x) reqs))"
proof -
  note ob = outermost_bounds [OF assms]
  obtain d0 where d0: "start_disk reqs head = Inr d0" "holds (cylinders d0) (mset reqs)" "served d0 = []"
    "tracks head d0" "cylinder_head d0 = head" by (rule start_disk_spec [OF assms])
  let ?d = "enter_range (lowest reqs) (highest reqs) d0"
  note er = enter_range_spec [OF d0(4,5) order_trans [OF ob(6,7)]]
  let ?lo = "filter (\<lambda>x. x \<le> clamp reqs head) reqs" and ?hi = "filter (\<lambda>x. clamp reqs head \<le> x) reqs"
  obtain c where c: "sweep (lowest reqs) (highest reqs) dir ?d = Inr ((visits ?d (if dir = 0 then rev (sort ?lo) else sort ?hi))
          \<lparr>cylinders := c, cylinder_head := (if dir = 0 then lowest reqs - 1 else highest reqs + 1)\<rparr>)"
    "holds c (if dir = 0 then mset (filter (\<lambda>x. \<not> x \<le> clamp reqs head) reqs)
       else mset (filter (\<lambda>x. \<not> clamp reqs head \<le> x) reqs))"
    by (rule range_sweep [of ?d, OF _ ob(3,4,5), of dir])
      (use d0 er ob in \<open>auto simp: sorted_list_filter mset_filter [symmetric] simp del: mset_filter cong: if_cong\<close>)
  have "\<exists>ys. sort ?lo = lowest reqs # ys" "\<exists>ys. rev (sort ?hi) = highest reqs # ys"
    using sorted_list_ends(2) [of "mset ?lo" "lowest reqs" "highest reqs"]
      sorted_list_ends(1) [of "mset ?hi" "lowest reqs" "highest reqs"] ob
    by (auto simp: sorted_list_of_multiset_mset simp del: mset_filter)
  then have "last (h # rev (sort ?lo)) = lowest reqs" "last (h # sort ?hi) = highest reqs" for h
    by (auto simp: rev_eq_Cons_iff)
  then show thesis using c(2) d0 er
    by (cases "dir = 0"; rule_tac that [OF d0(1) c(1)]) (simp_all add: overcounts_visits)
qed

definition unserved :: "int list \<Rightarrow> int \<Rightarrow> int \<Rightarrow> int list" where
  "unserved reqs h dir = (if dir = 0 then filter (\<lambda>x. \<not> x \<le> h) reqs else filter (\<lambda>x. \<not> h \<le> x) reqs)"

lemma LOOK_spec:
  assumes "valid_input reqs head"
  obtains d where "LOOK reqs head dir = Inr d" "finished d" "overcounts (detour reqs head) head d"
    "served d = elevator_order reqs (clamp reqs head) dir"
proof (rule first_look [OF assms, of dir])
  note ob = outermost_bounds [OF assms]
  fix d0 d1
  let ?lo = "lowest reqs" and ?hi = "highest reqs" and ?h = "clamp reqs head"
  let ?left = "mset (unserved reqs ?h dir)" and ?turn = "if dir = 0 then 1 else 0 :: int"
  assume d: "start_disk reqs head = Inr d0" "sweep ?lo ?hi dir (enter_range ?lo ?hi d0) = Inr d1"
    "overcounts (detour reqs head) head d1" "cylinder_head d1 = (if dir = 0 then ?lo - 1 else ?hi + 1)"
    "pre_cylinder_head d1 = (if dir = 0 then ?lo else ?hi)"
    "served d1 = (if dir = 0 then rev (sort (filter (\<lambda>x. x \<le> ?h) reqs)) else sort (filter (\<lambda>x. ?h \<le> x) reqs))"
    "holds (cylinders d1) (mset (if dir = 0 then filter (\<lambda>x. \<not> x \<le> ?h) reqs else filter (\<lambda>x. \<not> ?h \<le> x) reqs))"
  have lh: "?lo \<le> ?hi" using ob(6,7) by simp
  have r: "reach_outermost ?lo ?hi d1 = d1\<lparr>cylinder_head := (if dir = 0 then ?lo else ?hi)\<rparr>"
    using d(4) lh by (auto simp: reach_outermost_def)
  obtain c h where c: "sweep ?lo ?hi ?turn (reach_outermost ?lo ?hi d1) =
      Inr ((visits (reach_outermost ?lo ?hi d1) (if ?turn = 0 then rev (sorted_list_of_multiset ?left)
        else sorted_list_of_multiset ?left))\<lparr>cylinders := c, cylinder_head := h\<rparr>)" "holds c {#}"
    by (rule range_sweep_all [of "reach_outermost ?lo ?hi d1" ?left ?lo ?hi ?turn])
      (use ob d(7) lh in \<open>auto simp: r unserved_def split: if_splits\<close>)
  show thesis
    by (rule that, simp add: LOOK_def d(1,2) ob(1,2) c(1) del: fun_upd_apply)
      (use c(2) d(3,6) in \<open>simp_all add: finished_def r overcounts_visits elevator_order_def unserved_def
        sorted_list_of_multiset_mset del: mset_filter\<close>)
qed

text \<open>C_LOOK always counts the return to the other outermost request, even when nothing is left there.\<close>

lemma C_LOOK_spec:
  assumes "valid_input reqs head"
  obtains d where "C_LOOK reqs head dir = Inr d" "finished d" "served d = circular_order reqs (clamp reqs head) dir"
    "head_move_sum d = path_len head (positions d) + detour reqs head +
       (if unserved reqs (clamp reqs head) dir = [] then highest reqs - lowest reqs else 0)"
proof (rule first_look [OF assms, of dir])
  note ob = outermost_bounds [OF assms]
  fix d0 d1
  let ?lo = "lowest reqs" and ?hi = "highest reqs" and ?h = "clamp reqs head"
  let ?left = "mset (unserved reqs ?h dir)"
  let ?xs = "if dir = 0 then rev (sorted_list_of_multiset ?left) else sorted_list_of_multiset ?left"
  let ?o = "if dir = 0 then ?hi else ?lo"
  assume d: "start_disk reqs head = Inr d0" "sweep ?lo ?hi dir (enter_range ?lo ?hi d0) = Inr d1"
    "overcounts (detour reqs head) head d1" "cylinder_head d1 = (if dir = 0 then ?lo - 1 else ?hi + 1)"
    "pre_cylinder_head d1 = (if dir = 0 then ?lo else ?hi)"
    "served d1 = (if dir = 0 then rev (sort (filter (\<lambda>x. x \<le> ?h) reqs)) else sort (filter (\<lambda>x. ?h \<le> x) reqs))"
    "holds (cylinders d1) (mset (if dir = 0 then filter (\<lambda>x. \<not> x \<le> ?h) reqs else filter (\<lambda>x. \<not> ?h \<le> x) reqs))"
  have lh: "?lo \<le> ?hi" using ob(6,7) by simp
  have r: "jump_outermost ?lo ?hi d1 =
      d1\<lparr>cylinder_head := ?o, pre_cylinder_head := ?o, head_move_sum := head_move_sum d1 + (?hi - ?lo)\<rparr>"
    using d(4) lh by (auto simp: jump_outermost_def)
  obtain c h where c: "sweep ?lo ?hi dir (jump_outermost ?lo ?hi d1) =
      Inr ((visits (jump_outermost ?lo ?hi d1) ?xs)\<lparr>cylinders := c, cylinder_head := h\<rparr>)" "holds c {#}"
    by (rule range_sweep_all [of "jump_outermost ?lo ?hi d1" ?left ?lo ?hi dir])
      (use ob d(7) lh in \<open>auto simp: r unserved_def split: if_splits\<close>)
  have left: "\<forall>x \<in># ?left. ?lo \<le> x \<and> x \<le> ?hi" using ob(5) by (auto simp: unserved_def)
  have "unserved reqs ?h dir \<noteq> [] \<Longrightarrow> ?o \<in># ?left" using left ob(6-9) 
    by (auto simp: unserved_def filter_empty_conv split: if_splits)
  then have xs: "\<exists>ys. ?xs = ?o # ys" if "unserved reqs ?h dir \<noteq> []"
    using sorted_list_ends [OF left] that by (cases "dir = 0") auto
  have sum: "head_move_sum (visits (jump_outermost ?lo ?hi d1) ?xs) =
      path_len head (positions d1 @ ?xs) + detour reqs head + (if unserved reqs ?h dir = [] then ?hi - ?lo else 0)"
  proof (cases "unserved reqs ?h dir = []")
    case True
    then have "?xs = []" by (cases "dir = 0") simp_all
    then show ?thesis unfolding \<open>?xs = []\<close> using d(3) True by (simp add: r overcounts_def)
  next
    case False
    with xs obtain ys where ys: "?xs = ?o # ys" by blast
    show ?thesis unfolding ys using d(3,5) lh False by (auto simp: r overcounts_def path_len_append)
  qed
  show thesis
    by (rule that, simp add: C_LOOK_def d(1,2) ob(1,2) c(1) del: fun_upd_apply)
      (use c(2) d(6) sum in \<open>simp_all add: finished_def r circular_order_def unserved_def served_def
        positions_def comp_def sorted_list_of_multiset_mset del: mset_filter\<close>)
qed

section \<open>FCFS and SSTF\<close>

text \<open>Here the distance is taken from \<open>cylinder_head\<close> itself.\<close>

definition at_head :: "int \<Rightarrow> disk \<Rightarrow> bool" where
  "at_head h d \<longleftrightarrow> head_move_sum d = path_len h (positions d) \<and> cylinder_head d = last (h # positions d)"

lemma serve_request_spec:
  assumes "holds (cylinders d) M" "x \<in># M" "at_head h d"
  obtains d' where "serve_request d x = Inr d'" "holds (cylinders d') (M - {#x#})" "at_head h d'"
    "served d' = served d @ [x]" "cylinder_head d' = x"
proof -
  obtain c where c: "decrement (cylinders d) x = Inr c" "holds c (M - {#x#})"
    using decrement_holds [OF assms(1,2)] by blast
  let ?d = "d\<lparr>printed := printed d @ [Served x], cylinders := c,
    head_move_sum := head_move_sum d + abs_int (cylinder_head d - x), cylinder_head := x\<rparr>"
  show thesis using assms(3) c
    by (intro that [of ?d])
      (simp_all add: serve_request_def at_head_def served_def positions_def path_len_append abs_minus_commute)
qed

lemma start_at_head: "tracks h d \<Longrightarrow> cylinder_head d = h \<Longrightarrow> pre_cylinder_head d = h \<Longrightarrow> at_head h d"
  by (simp add: tracks_def at_head_def)

lemma FCFS_loop_spec:
  "holds (cylinders d) (mset reqs) \<Longrightarrow> at_head h d \<Longrightarrow>
   \<exists>d'. FCFS_loop d reqs = Inr d' \<and> holds (cylinders d') {#} \<and> at_head h d' \<and> served d' = served d @ reqs"
proof (induction reqs arbitrary: d)
  case (Cons r reqs)
  obtain d' where d': "serve_request d r = Inr d'" "holds (cylinders d') (mset (r # reqs) - {#r#})" "at_head h d'"
    "served d' = served d @ [r]"
    by (rule serve_request_spec [OF Cons.prems(1) _ Cons.prems(2), of r]) simp_all
  then show ?case using Cons.IH [of d'] by auto
qed auto

lemma FCFS_spec:
  assumes "valid_input reqs head"
  obtains d where "FCFS reqs head = Inr d" "finished d" "at_head head d" "served d = reqs"
proof -
  obtain d0 where d0: "start_disk reqs head = Inr d0" "holds (cylinders d0) (mset reqs)" "served d0 = []"
    "tracks head d0" "cylinder_head d0 = head" "pre_cylinder_head d0 = head" by (rule start_disk_spec [OF assms])
  with FCFS_loop_spec [OF d0(2) start_at_head [OF d0(4,5,6)]] that show thesis
    by (auto simp: FCFS_def finished_def)
qed

text \<open>The nearest pending request, the lower one of two equally near ones.\<close>

definition nearest :: "int \<Rightarrow> int multiset \<Rightarrow> int \<Rightarrow> bool" where
  "nearest h M x \<longleftrightarrow> x \<in># M \<and> (\<forall>y \<in># M. \<bar>x - h\<bar> < \<bar>y - h\<bar> \<or> (\<bar>x - h\<bar> = \<bar>y - h\<bar> \<and> x \<le> y))"

lemma seek_loop_skip:
  assumes "0 \<le> i \<Longrightarrow> array_get c i = Inr 0" "j < CYLINDER_NUM \<Longrightarrow> array_get c j = Inr 0"
    and "i' = (if 0 \<le> i then i - 1 else i)" "j' = (if j < CYLINDER_NUM then j + 1 else j)"
  shows "seek_loop c i j = seek_loop c i' j'"
proof (cases "0 \<le> i \<or> j < CYLINDER_NUM")
  case True
  then show ?thesis using assms by (subst seek_loop.simps) auto
qed (use assms in simp)

lemma seek_loop_spec:
  assumes "holds c M" "0 \<le> h" "h < CYLINDER_NUM"
  shows "0 \<le> k \<Longrightarrow> \<forall>y \<in># M. k \<le> \<bar>y - h\<bar> \<Longrightarrow>
    \<exists>x. seek_loop c (max (-1) (h - k)) (min CYLINDER_NUM (h + k)) = Inr x \<and>
        (if M = {#} then x = -1 else nearest h M x)"
proof (induction "nat (CYLINDER_NUM - k)" arbitrary: k)
  case 0
  then have "M = {#}" using assms by (cases "M = {#}") (force simp: holds_def multiset_eq_iff)+
  with 0 assms show ?case by (subst seek_loop.simps) auto
next
  case (Suc n)
  have get: "0 \<le> i \<Longrightarrow> i < CYLINDER_NUM \<Longrightarrow> array_get c i = Inr (int (count M i))" for i
    by (rule holds_get [OF assms(1)])
  show ?case
  proof (cases "0 \<le> h - k \<and> h - k \<in># M")
    case True
    then have "nearest h M (h - k)" using Suc.prems by (force simp: nearest_def)
    then show ?thesis using True Suc.prems assms get [of "h - k"] by (subst seek_loop.simps) auto
  next
    case lo: False
    show ?thesis
    proof (cases "h + k < CYLINDER_NUM \<and> h + k \<in># M")
      case True
      have "\<bar>y - h\<bar> \<noteq> k \<or> h + k \<le> y" if "y \<in># M" for y
      proof (cases "h + k \<le> y")
        case False
        have "0 \<le> y" using that assms(1) by (auto simp: holds_def)
        with lo that have "y \<noteq> h - k" by auto
        with False show ?thesis by linarith
      qed simp
      then have "nearest h M (h + k)" using Suc.prems True by (force simp: nearest_def)
      then show ?thesis using True lo Suc.prems assms get [of "h - k"] get [of "h + k"]
        by (subst seek_loop.simps) (auto simp: count_eq_zero_iff)
    next
      case hi: False
      have "\<forall>y \<in># M. k + 1 \<le> \<bar>y - h\<bar>"
      proof
        fix y assume y: "y \<in># M"
        then have "y \<noteq> h - k" "y \<noteq> h + k" "k \<le> \<bar>y - h\<bar>" using lo hi assms(1) Suc.prems by (auto simp: holds_def)
        then show "k + 1 \<le> \<bar>y - h\<bar>" by linarith
      qed
      then have "\<exists>x. seek_loop c (max (-1) (h - (k + 1))) (min CYLINDER_NUM (h + (k + 1))) = Inr x \<and>
          (if M = {#} then x = -1 else nearest h M x)"
        using Suc.hyps Suc.prems by (intro Suc.hyps(1)) auto
      moreover have "seek_loop c (max (-1) (h - k)) (min CYLINDER_NUM (h + k)) =
          seek_loop c (max (-1) (h - (k + 1))) (min CYLINDER_NUM (h + (k + 1)))"
      proof (rule seek_loop_skip)
        show "0 \<le> max (-1) (h - k) \<Longrightarrow> array_get c (max (-1) (h - k)) = Inr 0"
          using lo Suc.prems(1) assms get [of "h - k"] by (auto simp: count_eq_zero_iff max_def)
        show "min CYLINDER_NUM (h + k) < CYLINDER_NUM \<Longrightarrow> array_get c (min CYLINDER_NUM (h + k)) = Inr 0"
          using hi Suc.prems(1) assms get [of "h + k"] by (auto simp: count_eq_zero_iff min_def)
      qed (use Suc.prems(1) in \<open>auto simp: max_def min_def\<close>)
      ultimately show ?thesis by simp
    qed
  qed
qed

lemma find_nearest:
  assumes "holds c M" "0 \<le> h" "h < CYLINDER_NUM"
  obtains x where "find_cylinder_min_seek_dis c h = Inr x" "if M = {#} then x = -1 else nearest h M x"
proof -
  have "max (-1) (h - 0) = h" "min CYLINDER_NUM (h + 0) = h" using assms by auto
  then show thesis using seek_loop_spec [OF assms, of 0] that by (auto simp: find_cylinder_min_seek_dis_def)
qed

fun nearest_first :: "int \<Rightarrow> int multiset \<Rightarrow> int list \<Rightarrow> bool" where
  "nearest_first h M [] \<longleftrightarrow> M = {#}"
| "nearest_first h M (x # xs) \<longleftrightarrow> nearest h M x \<and> nearest_first x (M - {#x#}) xs"

lemma nearest_first_mset: "nearest_first h M xs \<Longrightarrow> mset xs = M"
  by (induction h M xs rule: nearest_first.induct) (auto simp: nearest_def)

lemma SSTF_loop_spec:
  "holds (cylinders d) M \<Longrightarrow> at_head h d \<Longrightarrow> 0 \<le> cylinder_head d \<Longrightarrow> cylinder_head d < CYLINDER_NUM \<Longrightarrow>
   size M = n \<Longrightarrow>
   \<exists>d' xs. SSTF_loop n d = Inr d' \<and> holds (cylinders d') {#} \<and> at_head h d' \<and> served d' = served d @ xs \<and>
     nearest_first (cylinder_head d) M xs"
proof (induction n arbitrary: d M)
  case 0
  then show ?case by (auto intro!: exI [of _ "[]"])
next
  case (Suc n)
  have ne: "M \<noteq> {#}" using Suc.prems(5) by auto
  obtain x where x: "find_cylinder_min_seek_dis (cylinders d) (cylinder_head d) = Inr x" "nearest (cylinder_head d) M x"
    using find_nearest [OF Suc.prems(1,3,4)] ne by metis
  then have xM: "x \<in># M" by (simp add: nearest_def)
  obtain d' where d': "serve_request d x = Inr d'" "holds (cylinders d') (M - {#x#})" "at_head h d'"
    "served d' = served d @ [x]" "cylinder_head d' = x"
    by (rule serve_request_spec [OF Suc.prems(1) xM Suc.prems(2)])
  have "0 \<le> x" "x < CYLINDER_NUM" using xM Suc.prems(1) by (auto simp: holds_def)
  with Suc.IH [OF d'(2,3)] d'(5) Suc.prems(5) xM obtain d2 xs where
    "SSTF_loop n d' = Inr d2" "holds (cylinders d2) {#}" "at_head h d2" "served d2 = served d' @ xs"
    "nearest_first x (M - {#x#}) xs" by (auto simp: size_Diff_singleton)
  then show ?case using x d' by (intro exI [of _ d2] exI [of _ "x # xs"]) simp
qed

lemma SSTF_spec:
  assumes "valid_input reqs head"
  obtains d where "SSTF reqs head = Inr d" "finished d" "at_head head d" "nearest_first head (mset reqs) (served d)"
proof -
  obtain d0 where d0: "start_disk reqs head = Inr d0" "holds (cylinders d0) (mset reqs)" "served d0 = []"
    "tracks head d0" "cylinder_head d0 = head" "pre_cylinder_head d0 = head" by (rule start_disk_spec [OF assms])
  have "0 \<le> cylinder_head d0" "cylinder_head d0 < CYLINDER_NUM" using assms d0(5) by (auto simp: valid_input_def)
  from SSTF_loop_spec [OF d0(2) start_at_head [OF d0(4,5,6)] this refl] d0(1,3,5) that show thesis
    by (auto simp: SSTF_def finished_def)
qed

section \<open>What every scheduler promises\<close>

text \<open>
  The contract of a head scheduler: on a valid input it returns, it serves each request exactly once and
  leaves no request behind, and it never reports less than the path it has printed.
\<close>

locale head_scheduler =
  fixes run :: "int list \<Rightarrow> int \<Rightarrow> int \<Rightarrow> disk outcome"
  assumes returns: "valid_input reqs head \<Longrightarrow> \<exists>d. run reqs head dir = Inr d"
    and serves_all: "valid_input reqs head \<Longrightarrow> run reqs head dir = Inr d \<Longrightarrow> mset (served d) = mset reqs \<and> finished d"
    and reports_path: "valid_input reqs head \<Longrightarrow> run reqs head dir = Inr d \<Longrightarrow> path_len head (positions d) \<le> head_move_sum d"
begin

lemma report_ok:
  assumes "valid_input reqs head"
  shows "\<exists>d. run reqs head dir = Inr d \<and> mset (served d) = mset reqs \<and> finished d \<and>
    (\<forall>r \<in> set reqs. \<bar>head - r\<bar> \<le> head_move_sum d)"
proof -
  obtain d where d: "run reqs head dir = Inr d" using returns [OF assms] by blast
  have s: "mset (served d) = mset reqs" "finished d" using serves_all [OF assms d] by auto
  have sub: "set (served_of es) \<subseteq> set (map event_pos es)" for es
    by (induction es rule: served_of.induct) auto
  have "\<bar>head - r\<bar> \<le> head_move_sum d" if "r \<in> set reqs" for r
  proof -
    have "r \<in> set (served d)" using that s(1) by (metis set_mset_mset)
    then have "r \<in> set (positions d)" using sub by (auto simp: served_def positions_def)
    then have "\<bar>head - r\<bar> \<le> path_len head (positions d)" by (rule path_len_reaches)
    then show ?thesis using reports_path [OF assms d] by simp
  qed
  with d s show ?thesis by blast
qed

end

interpretation fcfs: head_scheduler "\<lambda>reqs head dir. FCFS reqs head"
proof
  fix reqs head and dir :: int and d
  assume v: "valid_input reqs head"
  obtain d' where d': "FCFS reqs head = Inr d'" "finished d'" "at_head head d'" "served d' = reqs"
    by (rule FCFS_spec [OF v])
  then show "\<exists>d. FCFS reqs head = Inr d" by blast
  assume "FCFS reqs head = Inr d"
  then show "mset (served d) = mset reqs \<and> finished d" "path_len head (positions d) \<le> head_move_sum d"
    using d' by (auto simp: at_head_def)
qed

interpretation sstf: head_scheduler "\<lambda>reqs head dir. SSTF reqs head"
proof
  fix reqs head and dir :: int and d
  assume v: "valid_input reqs head"
  obtain d' where d': "SSTF reqs head = Inr d'" "finished d'" "at_head head d'"
    "nearest_first head (mset reqs) (served d')" by (rule SSTF_spec [OF v])
  then show "\<exists>d. SSTF reqs head = Inr d" by blast
  assume "SSTF reqs head = Inr d"
  then show "mset (served d) = mset reqs \<and> finished d" "path_len head (positions d) \<le> head_move_sum d"
    using d' nearest_first_mset by (auto simp: at_head_def)
qed

interpretation scan: head_scheduler SCAN
proof
  fix reqs head dir d
  assume v: "valid_input reqs head"
  obtain d' where d': "SCAN reqs head dir = Inr d'" "finished d'" "tracks head d'"
    "served d' = elevator_order reqs head dir" by (rule SCAN_spec [OF v])
  then show "\<exists>d. SCAN reqs head dir = Inr d" by blast
  assume "SCAN reqs head dir = Inr d"
  then show "mset (served d) = mset reqs \<and> finished d" "path_len head (positions d) \<le> head_move_sum d"
    using d' by (auto simp: tracks_def mset_elevator_order)
qed

interpretation c_scan: head_scheduler C_SCAN
proof
  fix reqs head dir d
  assume v: "valid_input reqs head"
  obtain d' where d': "C_SCAN reqs head dir = Inr d'" "finished d'" "tracks head d'"
    "served d' = circular_order reqs head dir" by (rule C_SCAN_spec [OF v])
  then show "\<exists>d. C_SCAN reqs head dir = Inr d" by blast
  assume "C_SCAN reqs head dir = Inr d"
  then show "mset (served d) = mset reqs \<and> finished d" "path_len head (positions d) \<le> head_move_sum d"
    using d' by (auto simp: tracks_def mset_circular_order)
qed

lemma detour_nonneg:
  assumes "valid_input reqs head"
  shows "0 \<le> detour reqs head" "lowest reqs \<le> highest reqs"
  using outermost_bounds(6,7) [OF assms] by (auto simp: detour_def)

interpretation look: head_scheduler LOOK
proof
  fix reqs head dir d
  assume v: "valid_input reqs head"
  obtain d' where d': "LOOK reqs head dir = Inr d'" "finished d'" "overcounts (detour reqs head) head d'"
    "served d' = elevator_order reqs (clamp reqs head) dir" by (rule LOOK_spec [OF v])
  then show "\<exists>d. LOOK reqs head dir = Inr d" by blast
  assume "LOOK reqs head dir = Inr d"
  then show "mset (served d) = mset reqs \<and> finished d" "path_len head (positions d) \<le> head_move_sum d"
    using d' detour_nonneg [OF v] by (auto simp: overcounts_def mset_elevator_order)
qed

interpretation c_look: head_scheduler C_LOOK
proof
  fix reqs head dir d
  assume v: "valid_input reqs head"
  obtain d' where d': "C_LOOK reqs head dir = Inr d'" "finished d'"
    "served d' = circular_order reqs (clamp reqs head) dir"
    "head_move_sum d' = path_len head (positions d') + detour reqs head +
       (if unserved reqs (clamp reqs head) dir = [] then highest reqs - lowest reqs else 0)" by (rule C_LOOK_spec [OF v])
  then show "\<exists>d. C_LOOK reqs head dir = Inr d" by blast
  assume "C_LOOK reqs head dir = Inr d"
  then show "mset (served d) = mset reqs \<and> finished d" "path_len head (positions d) \<le> head_move_sum d"
    using d' detour_nonneg [OF v] by (auto simp: mset_circular_order)
qed

lemma set_cylinders_faults:
  "length c = nat CYLINDER_NUM \<Longrightarrow> \<not> set reqs \<subseteq> {0..<CYLINDER_NUM} \<Longrightarrow> set_cylinders c reqs = Inl Out_of_bounds"
proof (induction reqs arbitrary: c)
  case (Cons r reqs)
  then show ?case by (cases "r \<in> {0..<CYLINDER_NUM}") (auto simp: array_get_def array_set_def)
qed simp

lemma set_cylinders_length: "set_cylinders c reqs = Inr c' \<Longrightarrow> length c' = length c"
  by (induction c reqs rule: set_cylinders.induct) (auto simp: andThen_eq_Inr array_set_def split: if_splits)

lemma start_disk_faults:
  assumes "\<not> (set reqs \<subseteq> {0..<CYLINDER_NUM} \<and> head \<in> {0..<CYLINDER_NUM})"
  shows "start_disk reqs head = Inl Out_of_bounds"
proof (cases "set reqs \<subseteq> {0..<CYLINDER_NUM}")
  case True
  obtain c where c: "set_cylinders (replicate (nat CYLINDER_NUM) 0) reqs = Inr c"
    using set_cylinders_holds [OF holds_empty True] by blast
  then have "array_get c head = Inl Out_of_bounds"
    using set_cylinders_length [OF c] assms True by (auto simp: array_get_def)
  with c show ?thesis by (simp add: start_disk_def)
qed (simp add: start_disk_def set_cylinders_faults)

section \<open>Properties\<close>

text \<open>
  C7. On a valid input all six schedulers return; each serves every request exactly once, leaves no request in the
  cylinder array, and reports a total at least as long as the way to the farthest request.
\<close>

theorem hdd_main_serves_all:
  assumes "valid_input reqs head"
  shows "\<exists>ds. hdd_main reqs head dir = Inr ds \<and> length ds = 6 \<and>
    (\<forall>d \<in> set ds. mset (served d) = mset reqs \<and> finished d \<and> (\<forall>r \<in> set reqs. \<bar>head - r\<bar> \<le> head_move_sum d))"
proof -
  note ok = fcfs.report_ok [OF assms] sstf.report_ok [OF assms] scan.report_ok [OF assms, of dir]
    c_scan.report_ok [OF assms, of dir] look.report_ok [OF assms, of dir] c_look.report_ok [OF assms, of dir]
  from ok(1) obtain d1 where 1: "FCFS reqs head = Inr d1 \<and> mset (served d1) = mset reqs \<and> finished d1 \<and>
    (\<forall>r \<in> set reqs. \<bar>head - r\<bar> \<le> head_move_sum d1)" by blast
  from ok(2) obtain d2 where 2: "SSTF reqs head = Inr d2 \<and> mset (served d2) = mset reqs \<and> finished d2 \<and>
    (\<forall>r \<in> set reqs. \<bar>head - r\<bar> \<le> head_move_sum d2)" by blast
  from ok(3) obtain d3 where 3: "SCAN reqs head dir = Inr d3 \<and> mset (served d3) = mset reqs \<and> finished d3 \<and>
    (\<forall>r \<in> set reqs. \<bar>head - r\<bar> \<le> head_move_sum d3)" by blast
  from ok(4) obtain d4 where 4: "C_SCAN reqs head dir = Inr d4 \<and> mset (served d4) = mset reqs \<and> finished d4 \<and>
    (\<forall>r \<in> set reqs. \<bar>head - r\<bar> \<le> head_move_sum d4)" by blast
  from ok(5) obtain d5 where 5: "LOOK reqs head dir = Inr d5 \<and> mset (served d5) = mset reqs \<and> finished d5 \<and>
    (\<forall>r \<in> set reqs. \<bar>head - r\<bar> \<le> head_move_sum d5)" by blast
  from ok(6) obtain d6 where 6: "C_LOOK reqs head dir = Inr d6 \<and> mset (served d6) = mset reqs \<and> finished d6 \<and>
    (\<forall>r \<in> set reqs. \<bar>head - r\<bar> \<le> head_move_sum d6)" by blast
  show ?thesis using 1 2 3 4 5 6 by (intro exI [of _ "[d1, d2, d3, d4, d5, d6]"]) (simp add: hdd_main_def)
qed

text \<open>
  SSTF serves at every step a pending request nearest to the head (the lower one on a tie), and reports the length
  of the path it prints.
\<close>

theorem SSTF_serves_nearest:
  assumes "valid_input reqs head"
  shows "\<exists>d. SSTF reqs head = Inr d \<and> nearest_first head (mset reqs) (served d) \<and>
    head_move_sum d = path_len head (positions d)"
  by (rule SSTF_spec [OF assms]) (auto simp: at_head_def)

text \<open>
  SCAN serves in elevator order and C_SCAN in circular order from the starting position, and both report the length
  of the path they print, the ends of the disk included.
\<close>

theorem SCAN_orders:
  assumes "valid_input reqs head"
  shows "(\<exists>d. SCAN reqs head dir = Inr d \<and> served d = elevator_order reqs head dir \<and>
      head_move_sum d = path_len head (positions d)) \<and>
    (\<exists>d. C_SCAN reqs head dir = Inr d \<and> served d = circular_order reqs head dir \<and>
      head_move_sum d = path_len head (positions d))"
proof
  show "\<exists>d. SCAN reqs head dir = Inr d \<and> served d = elevator_order reqs head dir \<and>
      head_move_sum d = path_len head (positions d)"
    by (rule SCAN_spec [OF assms, of dir]) (auto simp: tracks_def)
  show "\<exists>d. C_SCAN reqs head dir = Inr d \<and> served d = circular_order reqs head dir \<and>
      head_move_sum d = path_len head (positions d)"
    by (rule C_SCAN_spec [OF assms, of dir]) (auto simp: tracks_def)
qed

text \<open>
  C8. LOOK and C_LOOK serve in elevator and circular order from the position clamped to the outermost requests. Their
  reported totals are too large by exactly the distance between the outermost requests when the head starts above the
  highest one, and C_LOOK also counts the return when nothing is left to serve.
\<close>

theorem LOOK_orders:
  assumes "valid_input reqs head"
  shows "(\<exists>d. LOOK reqs head dir = Inr d \<and> served d = elevator_order reqs (clamp reqs head) dir \<and>
      head_move_sum d = path_len head (positions d) +
        (if head > highest reqs then highest reqs - lowest reqs else 0)) \<and>
    (\<exists>d. C_LOOK reqs head dir = Inr d \<and> served d = circular_order reqs (clamp reqs head) dir \<and>
      head_move_sum d = path_len head (positions d) +
        (if head > highest reqs then highest reqs - lowest reqs else 0) +
        (if unserved reqs (clamp reqs head) dir = [] then highest reqs - lowest reqs else 0))"
proof
  show "\<exists>d. LOOK reqs head dir = Inr d \<and> served d = elevator_order reqs (clamp reqs head) dir \<and>
      head_move_sum d = path_len head (positions d) +
        (if head > highest reqs then highest reqs - lowest reqs else 0)"
    by (rule LOOK_spec [OF assms, of dir]) (auto simp: overcounts_def detour_def)
  show "\<exists>d. C_LOOK reqs head dir = Inr d \<and> served d = circular_order reqs (clamp reqs head) dir \<and>
      head_move_sum d = path_len head (positions d) +
        (if head > highest reqs then highest reqs - lowest reqs else 0) +
        (if unserved reqs (clamp reqs head) dir = [] then highest reqs - lowest reqs else 0)"
    by (rule C_LOOK_spec [OF assms, of dir]) (auto simp: detour_def)
qed

text \<open>
  The input is not validated: a request or a head position outside the disk makes the first scheduler access the
  array out of bounds, and every valid input is handled.
\<close>

theorem hdd_main_bounds:
  assumes "length reqs = CYLINDER_REQ_NUM"
  shows "(\<exists>ds. hdd_main reqs head dir = Inr ds) \<longleftrightarrow> set reqs \<subseteq> {0..<CYLINDER_NUM} \<and> head \<in> {0..<CYLINDER_NUM}"
proof (cases "set reqs \<subseteq> {0..<CYLINDER_NUM} \<and> head \<in> {0..<CYLINDER_NUM}")
  case True
  then have v: "valid_input reqs head" using assms by (simp add: valid_input_def)
  obtain d1 d2 d3 d4 d5 d6 where "FCFS reqs head = Inr d1" "SSTF reqs head = Inr d2" "SCAN reqs head dir = Inr d3"
    "C_SCAN reqs head dir = Inr d4" "LOOK reqs head dir = Inr d5" "C_LOOK reqs head dir = Inr d6"
    using fcfs.returns [OF v] sstf.returns [OF v] scan.returns [OF v, of dir] c_scan.returns [OF v, of dir]
      look.returns [OF v, of dir] c_look.returns [OF v, of dir] by blast
  with True show ?thesis by (simp add: hdd_main_def)
qed (simp add: hdd_main_def FCFS_def start_disk_faults)

section \<open>Witnesses\<close>

definition sample_requests :: "int list" where
  "sample_requests = [98, 183, 37, 122, 14, 124, 65, 67]"

lemma sample_valid: "valid_input sample_requests 53" "valid_input sample_requests 190"
  by (simp_all add: valid_input_def sample_requests_def CYLINDER_NUM_def CYLINDER_REQ_NUM_def)

theorem hdd_main_serves_all_witness:
  "valid_input sample_requests 53 \<and> (\<exists>ds. hdd_main sample_requests 53 1 = Inr ds \<and> length ds = 6)"
  using hdd_main_serves_all [OF sample_valid(1), of 1] sample_valid(1) by auto

theorem SSTF_serves_nearest_witness:
  "valid_input sample_requests 53 \<and> (\<exists>d. SSTF sample_requests 53 = Inr d \<and>
     nearest_first 53 (mset sample_requests) (served d))"
  using SSTF_serves_nearest [OF sample_valid(1)] sample_valid(1) by auto

theorem SCAN_orders_witness:
  "\<exists>d. SCAN sample_requests 53 0 = Inr d \<and> served d = [37, 14, 65, 67, 98, 122, 124, 183]"
proof -
  have "elevator_order sample_requests 53 0 = [37, 14, 65, 67, 98, 122, 124, 183]"
    by (simp add: elevator_order_def sample_requests_def)
  then show ?thesis using SCAN_orders [OF sample_valid(1), of 0] by auto
qed

theorem LOOK_orders_witness:
  "\<exists>d. LOOK sample_requests 190 0 = Inr d \<and> head_move_sum d = path_len 190 (positions d) + 169"
proof -
  have "highest sample_requests = 183" "lowest sample_requests = 14"
    by (simp_all add: highest_def lowest_def sample_requests_def)
  then show ?thesis using LOOK_orders [OF sample_valid(2), of 0] by auto
qed

theorem hdd_main_bounds_witness:
  "\<not> (\<exists>ds. hdd_main sample_requests 200 0 = Inr ds)"
  using hdd_main_bounds [of sample_requests 200 0]
  by (simp add: sample_requests_def CYLINDER_REQ_NUM_def CYLINDER_NUM_def)

end
