(* ===== verification/Page_Replacement.thy ===== *)
theory Page_Replacement
  imports Prelude
begin

text \<open>
  The page-replacement simulations of \<open>Labweek17/page_replacement.c\<close>: FIFO, LRU with a doubly
  linked stack, LRU with a matrix, and second chance with a circular queue. Each is a state and a
  step that handles one entry of the reference string and says whether it was a page fault. The
  linked structures are kept at the level of pointers: a node is an address, the fields of the
  nodes are maps from addresses.
\<close>

section \<open>FIFO\<close>

definition FRAME_SIZE :: nat where "FRAME_SIZE = 5"

text \<open>The search loop over the frames; it ends with \<open>FRAME_SIZE\<close> when the page is not there.\<close>

function frame_loop :: "int list \<Rightarrow> int \<Rightarrow> nat \<Rightarrow> nat" where
  "frame_loop page_frame page_num j =
     (if j < FRAME_SIZE then (if page_frame ! j = page_num then j else frame_loop page_frame page_num (j + 1)) else j)"
  by pat_completeness auto
termination
  by (relation "measure (\<lambda>(f, p, j). FRAME_SIZE - j)") auto

declare frame_loop.simps [simp del]

record fifo =
  fifo_frame :: "int list"
  replace_index :: nat

definition FIFO_init :: fifo where
  "FIFO_init = \<lparr>fifo_frame = replicate FRAME_SIZE (-1), replace_index = 0\<rparr>"

definition FIFO_step :: "fifo \<Rightarrow> int \<Rightarrow> fifo \<times> bool" where
  "FIFO_step s page_num =
     (if frame_loop (fifo_frame s) page_num 0 = FRAME_SIZE
      then (s\<lparr>fifo_frame := (fifo_frame s)[replace_index s := page_num],
              replace_index := (replace_index s + 1) mod FRAME_SIZE\<rparr>, True)
      else (s, False))"

section \<open>LRU with a stack\<close>

record lru =
  page_num :: "nat \<Rightarrow> int"
  page_index :: "nat \<Rightarrow> nat"
  pre :: "nat \<Rightarrow> nat option"
  nxt :: "nat \<Rightarrow> nat option"
  head :: "nat option"
  tail :: "nat option"
  lru_frame :: "int list"

definition creat_PageNode_LRU :: "lru \<Rightarrow> nat \<Rightarrow> int \<Rightarrow> nat \<Rightarrow> lru" where
  "creat_PageNode_LRU s a num index =
     s\<lparr>pre := (pre s)(a := None), nxt := (nxt s)(a := None), page_num := (page_num s)(a := num),
       page_index := (page_index s)(a := index)\<rparr>"

text \<open>The \<open>i\<close>-th call of \<open>malloc\<close> returns the address \<open>i\<close>.\<close>

function init_stack_loop :: "lru \<Rightarrow> nat \<Rightarrow> nat \<Rightarrow> lru \<times> nat" where
  "init_stack_loop s cur_node i =
     (if i < FRAME_SIZE then
        let s1 = creat_PageNode_LRU s i (-1) i;
            s2 = s1\<lparr>nxt := (nxt s1)(cur_node := Some i)\<rparr>;
            s3 = s2\<lparr>pre := (pre s2)(i := Some cur_node)\<rparr>
        in init_stack_loop s3 i (i + 1)
      else (s, cur_node))"
  by pat_completeness auto
termination
  by (relation "measure (\<lambda>(s, c, i). FRAME_SIZE - i)") auto

declare init_stack_loop.simps [simp del]

definition init_PageStack :: "lru \<Rightarrow> lru" where
  "init_PageStack s =
     (let s1 = (creat_PageNode_LRU s 0 (-1) 0)\<lparr>head := Some 0\<rparr>;
          (s2, cur_node) = init_stack_loop s1 0 1
      in s2\<lparr>tail := Some cur_node\<rparr>)"

definition LRU_stack_init :: lru where
  "LRU_stack_init =
     init_PageStack \<lparr>page_num = (\<lambda>_. 0), page_index = (\<lambda>_. 0), pre = (\<lambda>_. None), nxt = (\<lambda>_. None),
       head = None, tail = None, lru_frame = replicate FRAME_SIZE (-1)\<rparr>"

text \<open>The search from the head; \<open>Some None\<close> when it has reached \<open>NULL\<close>.\<close>

partial_function (option) stack_loop :: "lru \<Rightarrow> int \<Rightarrow> nat option \<Rightarrow> nat option option" where
  "stack_loop s num cur_node =
     (case cur_node of None \<Rightarrow> Some None
      | Some a \<Rightarrow> if page_num s a = num then Some (Some a) else stack_loop s num (nxt s a))"

declare stack_loop.simps [code]

text \<open>A referenced page moves to the tail of the list, the top of the stack.\<close>

definition move_to_top :: "lru \<Rightarrow> nat \<Rightarrow> lru outcome" where
  "move_to_top s a =
     (if tail s = Some a then Inr s
      else
        let s1 = (case pre s a of None \<Rightarrow> s | Some b \<Rightarrow> s\<lparr>nxt := (nxt s)(b := nxt s a)\<rparr>);
            s2 = (case nxt s1 a of None \<Rightarrow> s1 | Some b \<Rightarrow> s1\<lparr>pre := (pre s1)(b := pre s1 a)\<rparr>)
        in andThen (deref (tail s2)) (\<lambda>t.
             let s3 = s2\<lparr>nxt := (nxt s2)(t := Some a)\<rparr>;
                 s4 = s3\<lparr>pre := (pre s3)(a := tail s3)\<rparr>;
                 s5 = (if head s4 = Some a then s4\<lparr>head := nxt s4 a\<rparr> else s4);
                 s6 = s5\<lparr>nxt := (nxt s5)(a := None)\<rparr>
             in Inr (s6\<lparr>tail := Some a\<rparr>)))"

text \<open>On a fault the bottom of the stack is the victim; its node takes the new page to the top.\<close>

definition replace_bottom :: "lru \<Rightarrow> int \<Rightarrow> lru outcome" where
  "replace_bottom s num =
     andThen (deref (head s)) (\<lambda>old_head.
       let s1 = s\<lparr>head := nxt s old_head\<rparr>
       in andThen (deref (head s1)) (\<lambda>h.
          let s2 = s1\<lparr>pre := (pre s1)(h := None)\<rparr>;
              s3 = s2\<lparr>page_num := (page_num s2)(old_head := num)\<rparr>
          in andThen (array_set (lru_frame s3) (int (page_index s3 old_head)) num) (\<lambda>f.
             let s4 = s3\<lparr>lru_frame := f\<rparr>
             in andThen (deref (tail s4)) (\<lambda>t.
                let s5 = s4\<lparr>nxt := (nxt s4)(t := Some old_head)\<rparr>;
                    s6 = s5\<lparr>pre := (pre s5)(old_head := tail s5)\<rparr>;
                    s7 = s6\<lparr>nxt := (nxt s6)(old_head := None)\<rparr>
                in Inr (s7\<lparr>tail := Some old_head\<rparr>)))))"

definition LRU_stack_step :: "lru \<Rightarrow> int \<Rightarrow> (lru \<times> bool) outcome" where
  "LRU_stack_step s num =
     andThen (loop_result (stack_loop s num (head s))) (\<lambda>cur_node.
       case cur_node of
         Some a \<Rightarrow> andThen (move_to_top s a) (\<lambda>s'. Inr (s', False))
       | None \<Rightarrow> andThen (replace_bottom s num) (\<lambda>s'. Inr (s', True)))"

section \<open>LRU with a matrix\<close>

record lrum =
  lrum_frame :: "int list"
  matrix :: "int list list"

definition LRU_matrix_init :: lrum where
  "LRU_matrix_init = \<lparr>lrum_frame = replicate FRAME_SIZE (-1), matrix = replicate FRAME_SIZE (replicate FRAME_SIZE 0)\<rparr>"

definition setrow1 :: "int list list \<Rightarrow> nat \<Rightarrow> int list list" where
  "setrow1 m row = m[row := fold (\<lambda>i r. r[i := 1]) [0..<FRAME_SIZE] (m ! row)]"

definition setcolumn0 :: "int list list \<Rightarrow> nat \<Rightarrow> int list list" where
  "setcolumn0 m column =
     fold (\<lambda>i m. if i \<noteq> column then m[i := (m ! i)[column := 0]] else m) [0..<FRAME_SIZE] m"

definition one_sum :: "int list \<Rightarrow> nat" where
  "one_sum row = fold (\<lambda>j n. if row ! j = 1 then n + 1 else n) [0..<FRAME_SIZE] 0"

definition find_least_row :: "int list list \<Rightarrow> nat" where
  "find_least_row m =
     snd (fold (\<lambda>i (least_one_sum, least_row).
            if one_sum (m ! i) < least_one_sum then (one_sum (m ! i), i) else (least_one_sum, least_row))
          [0..<FRAME_SIZE] (FRAME_SIZE, 0))"

definition LRU_matrix_step :: "lrum \<Rightarrow> int \<Rightarrow> lrum \<times> bool" where
  "LRU_matrix_step s num =
     (let j = frame_loop (lrum_frame s) num 0
      in if j = FRAME_SIZE then
           let r = find_least_row (matrix s)
           in (s\<lparr>lrum_frame := (lrum_frame s)[r := num], matrix := setcolumn0 (setrow1 (matrix s) r) r\<rparr>, True)
         else (s\<lparr>matrix := setcolumn0 (setrow1 (matrix s) j) j\<rparr>, False))"

section \<open>Second chance\<close>

record clock =
  c_page_num :: "nat \<Rightarrow> int"
  c_page_index :: "nat \<Rightarrow> nat"
  reference_bit :: "nat \<Rightarrow> int"
  c_next :: "nat \<Rightarrow> nat"
  c_head :: nat
  clock_pointer :: nat
  clock_frame :: "int list"

definition creat_PageNode_Second_Chance :: "clock \<Rightarrow> nat \<Rightarrow> int \<Rightarrow> nat \<Rightarrow> clock" where
  "creat_PageNode_Second_Chance s a num index =
     s\<lparr>c_page_num := (c_page_num s)(a := num), c_page_index := (c_page_index s)(a := index),
       reference_bit := (reference_bit s)(a := 0)\<rparr>"

function init_queue_loop :: "clock \<Rightarrow> nat \<Rightarrow> nat \<Rightarrow> clock \<times> nat" where
  "init_queue_loop s cur_node i =
     (if i < FRAME_SIZE then
        let s1 = creat_PageNode_Second_Chance s i (-1) i
        in init_queue_loop (s1\<lparr>c_next := (c_next s1)(cur_node := i)\<rparr>) i (i + 1)
      else (s, cur_node))"
  by pat_completeness auto
termination
  by (relation "measure (\<lambda>(s, c, i). FRAME_SIZE - i)") auto

declare init_queue_loop.simps [simp del]

definition init_PageQueue :: "clock \<Rightarrow> clock" where
  "init_PageQueue s =
     (let s1 = (creat_PageNode_Second_Chance s 0 (-1) 0)\<lparr>c_head := 0\<rparr>;
          (s2, cur_node) = init_queue_loop s1 0 1
      in s2\<lparr>c_next := (c_next s2)(cur_node := c_head s2), clock_pointer := c_head s2\<rparr>)"

definition Second_Chance_init :: clock where
  "Second_Chance_init =
     init_PageQueue \<lparr>c_page_num = (\<lambda>_. 0), c_page_index = (\<lambda>_. 0), reference_bit = (\<lambda>_. 0), c_next = (\<lambda>_. 0),
       c_head = 0, clock_pointer = 0, clock_frame = replicate FRAME_SIZE (-1)\<rparr>"

text \<open>The search through the queue for at most \<open>n\<close> nodes; \<open>None\<close> when no node has the page.\<close>

fun queue_loop :: "clock \<Rightarrow> int \<Rightarrow> nat \<Rightarrow> nat \<Rightarrow> nat option" where
  "queue_loop s num cur_node 0 = None"
| "queue_loop s num cur_node (Suc n) =
     (if c_page_num s cur_node = num then Some cur_node else queue_loop s num (c_next s cur_node) n)"

partial_function (option) clock_loop :: "clock \<Rightarrow> clock option" where
  "clock_loop s =
     (if reference_bit s (clock_pointer s) \<noteq> 0
      then clock_loop (s\<lparr>reference_bit := (reference_bit s)(clock_pointer s := 0),
             clock_pointer := c_next s (clock_pointer s)\<rparr>)
      else Some s)"

declare clock_loop.simps [code]

definition Second_Chance_step :: "clock \<Rightarrow> int \<Rightarrow> (clock \<times> bool) outcome" where
  "Second_Chance_step s num =
     (case queue_loop s num (c_head s) FRAME_SIZE of
        Some a \<Rightarrow> Inr (s\<lparr>reference_bit := (reference_bit s)(a := 1)\<rparr>, False)
      | None \<Rightarrow>
          andThen (loop_result (clock_loop s)) (\<lambda>s1.
          andThen (array_set (clock_frame s1) (int (c_page_index s1 (clock_pointer s1))) num) (\<lambda>f.
            let s2 = s1\<lparr>clock_frame := f, c_page_num := (c_page_num s1)(clock_pointer s1 := num),
                        reference_bit := (reference_bit s1)(clock_pointer s1 := 1)\<rparr>
            in Inr (s2\<lparr>clock_pointer := c_next s2 (clock_pointer s2)\<rparr>, True))))"

section \<open>Running a reference string\<close>

text \<open>
  One line of output per reference: the frames after it and whether it faulted. The \<open>for\<close> loop over
  \<open>reference_string\<close> recurses on the list.
\<close>

fun run_refs :: "('s \<Rightarrow> int \<Rightarrow> ('s \<times> bool) outcome) \<Rightarrow> ('s \<Rightarrow> int list) \<Rightarrow> 's \<Rightarrow> int list \<Rightarrow> (int list \<times> bool) list outcome" where
  "run_refs step frames s [] = Inr []"
| "run_refs step frames s (r # rs) =
     andThen (step s r) (\<lambda>(s', fault).
     andThen (run_refs step frames s' rs) (\<lambda>out. Inr ((frames s', fault) # out)))"

definition FIFO :: "int list \<Rightarrow> (int list \<times> bool) list outcome" where
  "FIFO reference_string = run_refs (\<lambda>s r. Inr (FIFO_step s r)) fifo_frame FIFO_init reference_string"

definition LRU_stack :: "int list \<Rightarrow> (int list \<times> bool) list outcome" where
  "LRU_stack reference_string = run_refs LRU_stack_step lru_frame LRU_stack_init reference_string"

definition LRU_matrix :: "int list \<Rightarrow> (int list \<times> bool) list outcome" where
  "LRU_matrix reference_string = run_refs (\<lambda>s r. Inr (LRU_matrix_step s r)) lrum_frame LRU_matrix_init reference_string"

definition Second_Chance :: "int list \<Rightarrow> (int list \<times> bool) list outcome" where
  "Second_Chance reference_string = run_refs Second_Chance_step clock_frame Second_Chance_init reference_string"

section \<open>What every policy does to the frames\<close>

definition frames_step :: "int list \<Rightarrow> int \<Rightarrow> bool \<Rightarrow> int list \<Rightarrow> bool" where
  "frames_step fs p fault fs' \<longleftrightarrow> (fault \<longleftrightarrow> p \<notin> set fs) \<and>
     (if fault then \<exists>k < FRAME_SIZE. (-1 \<in> set fs \<longrightarrow> fs ! k = -1) \<and> fs' = fs[k := p] else fs' = fs)"

text \<open>
  A correct report: a reference faults iff its page is in no frame; a fault loads the page into one frame,
  an empty one as long as there is one, and changes no other frame.
\<close>

fun valid_trace :: "int list \<Rightarrow> int list \<Rightarrow> (int list \<times> bool) list \<Rightarrow> bool" where
  "valid_trace fs [] out \<longleftrightarrow> out = []"
| "valid_trace fs (r # rs) out \<longleftrightarrow>
     (case out of [] \<Rightarrow> False | (fs', fault) # out' \<Rightarrow> frames_step fs r fault fs' \<and> valid_trace fs' rs out')"

definition faults :: "(int list \<times> bool) list \<Rightarrow> nat" where
  "faults out = length (filter snd out)"

definition pages :: "int list \<Rightarrow> int set" where
  "pages fs = set fs - {-1}"

definition frames_ok :: "int list \<Rightarrow> bool" where
  "frames_ok fs \<longleftrightarrow> length fs = FRAME_SIZE \<and>
     (\<forall>i < FRAME_SIZE. \<forall>j < FRAME_SIZE. fs ! i = fs ! j \<and> fs ! i \<noteq> -1 \<longrightarrow> i = j)"

lemma frames_ok_load:
  assumes "frames_ok fs" "p \<notin> set fs" "k < FRAME_SIZE"
  shows "frames_ok (fs[k := p])"
proof -
  have "i < FRAME_SIZE \<Longrightarrow> fs ! i \<noteq> p" for i using assms by (auto simp: frames_ok_def)
  then show ?thesis using assms by (auto simp: frames_ok_def nth_list_update)
qed

lemma frames_step_ok: "frames_ok fs \<Longrightarrow> frames_step fs p f fs' \<Longrightarrow> frames_ok fs' \<and> (p \<in> set fs')"
  using frames_ok_load [of fs p] by (cases f) (auto simp: frames_step_def frames_ok_def [of fs] set_update_memI)

text \<open>While some frame is empty, a load keeps every resident page.\<close>

lemma pages_load:
  assumes "frames_ok fs" "k < FRAME_SIZE" "fs ! k = -1" "0 \<le> p"
  shows "pages (fs[k := p]) = insert p (pages fs)"
  using assms by (force simp: pages_def frames_ok_def in_set_conv_nth nth_list_update)

lemma pages_full:
  assumes "frames_ok fs" "-1 \<notin> set fs"
  shows "card (pages fs) = FRAME_SIZE"
proof -
  have "fs ! i \<noteq> -1" if "i < length fs" for i using assms(2) that by (metis nth_mem)
  then have "distinct fs" using assms(1) by (auto simp: frames_ok_def distinct_conv_nth)
  moreover have "pages fs = set fs" using assms(2) by (auto simp: pages_def)
  ultimately show ?thesis using assms(1) by (simp add: distinct_card frames_ok_def)
qed

lemma pages_step_subset: "frames_step fs p f fs' \<Longrightarrow> pages fs' \<subseteq> insert p (pages fs)"
  using set_update_subset_insert by (fastforce simp: frames_step_def pages_def split: if_splits)

lemma faults_lower:
  "valid_trace fs rs out \<Longrightarrow> \<forall>r \<in> set rs. 0 \<le> r \<Longrightarrow> card (set rs - pages fs) \<le> faults out"
proof (induction rs arbitrary: fs out)
  case (Cons r rs)
  then obtain fs' f out' where o: "out = (fs', f) # out'" "frames_step fs r f fs'" "valid_trace fs' rs out'"
    by (auto split: list.splits)
  have ih: "card (set rs - pages fs') \<le> faults out'" using Cons o by simp
  have "set (r # rs) - pages fs \<subseteq> (if f then {r} else {}) \<union> (set rs - pages fs')"
    using pages_step_subset [OF o(2)] o(2) Cons.prems(2) by (auto simp: frames_step_def pages_def split: if_splits)
  then have "card (set (r # rs) - pages fs) \<le> card ((if f then {r} else {}) \<union> (set rs - pages fs'))"
    by (intro card_mono) auto
  also have "\<dots> \<le> card (if f then {r} else {}) + card (set rs - pages fs')" by (rule card_Un_le)
  finally show ?case using ih o(1) by (auto simp: faults_def split: if_splits)
qed (simp add: faults_def)

text \<open>If all pages fit into the frames, every page faults once.\<close>

lemma faults_exact:
  "valid_trace fs rs out \<Longrightarrow> frames_ok fs \<Longrightarrow> \<forall>r \<in> set rs. 0 \<le> r \<Longrightarrow> card (pages fs \<union> set rs) \<le> FRAME_SIZE \<Longrightarrow>
   faults out = card (set rs - pages fs)"
proof (induction rs arbitrary: fs out)
  case (Cons r rs)
  then obtain fs' f out' where o: "out = (fs', f) # out'" "frames_step fs r f fs'" "valid_trace fs' rs out'"
    by (auto split: list.splits)
  have r: "r \<in> pages fs \<longleftrightarrow> \<not> f" using o(2) Cons.prems(3) by (auto simp: frames_step_def pages_def)
  have p: "pages fs' = insert r (pages fs)"
  proof (cases f)
    case True
    have "-1 \<in> set fs"
    proof (rule ccontr)
      assume "-1 \<notin> set fs"
      then have "card (pages fs) = FRAME_SIZE" using Cons.prems(2) by (rule pages_full [rotated])
      moreover have "finite (pages fs)" "r \<notin> pages fs" using r True by (auto simp: pages_def)
      then have "card (insert r (pages fs)) = Suc (card (pages fs))" by simp
      moreover have "card (insert r (pages fs)) \<le> card (pages fs \<union> set (r # rs))"
        by (rule card_mono) (auto simp: pages_def)
      ultimately show False using Cons.prems(4) by simp
    qed
    with o(2) True obtain k where "k < FRAME_SIZE" "fs ! k = -1" "fs' = fs[k := r]" by (auto simp: frames_step_def)
    then show ?thesis using pages_load Cons.prems by simp
  next
    case False
    then show ?thesis using o(2) r by (auto simp: frames_step_def)
  qed
  have "pages fs' \<union> set rs = pages fs \<union> set (r # rs)" by (auto simp: p)
  then have "faults out' = card (set rs - pages fs')"
    using Cons.IH [OF o(3)] frames_step_ok [OF Cons.prems(2) o(2)] Cons.prems by simp
  moreover have "set (r # rs) - pages fs = (if f then insert r (set rs - pages fs') else set rs - pages fs')"
    using r by (auto simp: p)
  ultimately show ?case using o(1) by (auto simp: faults_def p)
qed (simp add: faults_def)

text \<open>The contract of a policy, and what a client may rely on.\<close>

locale replacement_policy =
  fixes step :: "'s \<Rightarrow> int \<Rightarrow> ('s \<times> bool) outcome" and frames :: "'s \<Rightarrow> int list" and start :: 's and ok :: "'s \<Rightarrow> bool"
  assumes start_ok: "ok start" and start_frames: "frames start = replicate FRAME_SIZE (-1)"
    and step_ok: "ok s \<Longrightarrow> 0 \<le> p \<Longrightarrow>
      \<exists>s' fault. step s p = Inr (s', fault) \<and> ok s' \<and> frames_step (frames s) p fault (frames s')"
begin

lemma run_valid:
  "ok s \<Longrightarrow> \<forall>r \<in> set rs. 0 \<le> r \<Longrightarrow> \<exists>out. run_refs step frames s rs = Inr out \<and> valid_trace (frames s) rs out"
proof (induction rs arbitrary: s)
  case (Cons r rs)
  obtain s' fault where s': "step s r = Inr (s', fault)" "ok s'" "frames_step (frames s) r fault (frames s')"
    using step_ok [of s r] Cons.prems by auto
  then show ?case using Cons.IH [OF s'(2)] Cons.prems(2) by auto
qed simp

lemma report_valid:
  assumes "\<forall>r \<in> set rs. 0 \<le> r"
  shows "\<exists>out. run_refs step frames start rs = Inr out \<and> valid_trace (replicate FRAME_SIZE (-1)) rs out \<and>
    card (set rs) \<le> faults out \<and> (card (set rs) \<le> FRAME_SIZE \<longrightarrow> faults out = card (set rs))"
proof -
  obtain out where out: "run_refs step frames start rs = Inr out" "valid_trace (replicate FRAME_SIZE (-1)) rs out"
    using run_valid [OF start_ok assms] by (auto simp: start_frames)
  have e: "pages (replicate FRAME_SIZE (-1)) = {}" "frames_ok (replicate FRAME_SIZE (-1))"
    by (auto simp: pages_def frames_ok_def)
  show ?thesis using out faults_lower [OF out(2) assms] faults_exact [OF out(2) e(2) assms] by (auto simp: e(1))
qed

end

section \<open>FIFO keeps the pages loaded last\<close>

lemma frame_loop_spec:
  assumes "length fs = FRAME_SIZE"
  shows "j \<le> FRAME_SIZE \<Longrightarrow> \<forall>i < j. fs ! i \<noteq> p \<Longrightarrow>
     (p \<in> set fs \<longrightarrow> frame_loop fs p j < FRAME_SIZE \<and> fs ! frame_loop fs p j = p) \<and>
     (p \<notin> set fs \<longrightarrow> frame_loop fs p j = FRAME_SIZE)"
proof (induction "FRAME_SIZE - j" arbitrary: j)
  case 0
  then have "p \<notin> set fs" using assms by (auto simp: in_set_conv_nth)
  with 0 show ?case by (subst frame_loop.simps) simp
next
  case (Suc n)
  show ?case
  proof (cases "fs ! j = p")
    case True
    then have "frame_loop fs p j = j" "p \<in> set fs" using Suc.hyps(2) assms by (subst frame_loop.simps, auto)
    with True Suc.hyps(2) show ?thesis by simp
  next
    case False
    have "j < FRAME_SIZE" using Suc.hyps(2) by simp
    with False have "frame_loop fs p j = frame_loop fs p (j + 1)" by (subst frame_loop.simps) simp
    moreover have "\<forall>i < j + 1. fs ! i \<noteq> p" using Suc.prems(2) False by (auto simp: less_Suc_eq)
    ultimately show ?thesis using Suc.hyps(1) [of "j + 1"] Suc.hyps(2) by simp
  qed
qed

lemma frame_loop_found: "length fs = FRAME_SIZE \<Longrightarrow> frame_loop fs p 0 = FRAME_SIZE \<longleftrightarrow> p \<notin> set fs"
  "length fs = FRAME_SIZE \<Longrightarrow> p \<in> set fs \<Longrightarrow> frame_loop fs p 0 < FRAME_SIZE \<and> fs ! frame_loop fs p 0 = p"
  using frame_loop_spec [of fs 0 p] by auto

lemma FRAME_SIZE_pos: "0 < FRAME_SIZE"
  by (simp add: FRAME_SIZE_def)

definition fifo_inv :: "fifo \<Rightarrow> int list \<Rightarrow> bool" where
  "fifo_inv s loads \<longleftrightarrow> frames_ok (fifo_frame s) \<and> replace_index s = length loads mod FRAME_SIZE \<and>
     (\<forall>k. length loads \<le> k + FRAME_SIZE \<and> k < length loads \<longrightarrow> fifo_frame s ! (k mod FRAME_SIZE) = loads ! k) \<and>
     (\<forall>i. length loads \<le> i \<and> i < FRAME_SIZE \<longrightarrow> fifo_frame s ! i = -1) \<and> (\<forall>p \<in> set loads. 0 \<le> p)"

lemma mod_window:
  fixes k n m :: nat
  assumes "n \<le> k + m" "k < n" "n < k + m"
  shows "k mod m \<noteq> n mod m"
proof
  assume "k mod m = n mod m"
  then have "m dvd n - k" using assms(2) by (metis mod_eq_dvd_iff_nat less_imp_le)
  moreover have "0 < n - k" "n - k < m" using assms by auto
  ultimately show False by (simp add: nat_dvd_not_less)
qed

lemma mod_hit:
  fixes i m n :: nat
  assumes "i < m" "m \<le> n"
  shows "\<exists>k. n \<le> k + m \<and> k < n \<and> k mod m = i"
proof -
  obtain d where d: "n div m = Suc d" using assms div_greater_zero_iff [of n m] by (metis gr0_implies_Suc not_less_zero not_gr_zero)
  have n: "n = m * d + m + n mod m" using mult_div_mod_eq [of m n] by (simp add: d)
  have r: "n mod m < m" using assms by simp
  show ?thesis
  proof (cases "i < n mod m")
    case True
    have "(m * Suc d + i) mod m = i" using assms(1) by (subst mod_mult_self4) simp
    with True n r show ?thesis by (intro exI [of _ "m * Suc d + i"]) simp
  next
    case False
    have "(m * d + i) mod m = i" using assms(1) by (subst mod_mult_self4) simp
    with False n r assms(1) show ?thesis by (intro exI [of _ "m * d + i"]) auto
  qed
qed

lemma fifo_empty_slot:
  assumes inv: "fifo_inv s loads" and e: "-1 \<in> set (fifo_frame s)"
  shows "fifo_frame s ! replace_index s = -1"
proof -
  obtain i where i: "i < FRAME_SIZE" "fifo_frame s ! i = -1"
    using e inv by (auto simp: fifo_inv_def frames_ok_def in_set_conv_nth)
  have "length loads < FRAME_SIZE"
  proof (rule ccontr)
    assume "\<not> length loads < FRAME_SIZE"
    then obtain k where k: "length loads \<le> k + FRAME_SIZE" "k < length loads" "k mod FRAME_SIZE = i"
      using mod_hit [OF i(1), of "length loads"] by auto
    then have "loads ! k = -1" using inv i(2) by (auto simp: fifo_inv_def)
    moreover have "0 \<le> loads ! k" using inv k(2) by (auto simp: fifo_inv_def)
    ultimately show False by simp
  qed
  then show ?thesis using inv by (auto simp: fifo_inv_def)
qed

lemma FIFO_step_inv:
  assumes inv: "fifo_inv s loads" and p: "0 \<le> p"
  shows "fifo_inv (fst (FIFO_step s p)) (loads @ (if snd (FIFO_step s p) then [p] else []))"
    "frames_step (fifo_frame s) p (snd (FIFO_step s p)) (fifo_frame (fst (FIFO_step s p)))"
proof -
  have len: "length (fifo_frame s) = FRAME_SIZE" "replace_index s < FRAME_SIZE"
    using inv FRAME_SIZE_pos by (auto simp: fifo_inv_def frames_ok_def)
  note fl = frame_loop_found(1) [OF len(1), of p]
  show "frames_step (fifo_frame s) p (snd (FIFO_step s p)) (fifo_frame (fst (FIFO_step s p)))"
    using fl fifo_empty_slot [OF inv] len(2) by (auto simp: FIFO_step_def frames_step_def)
  show "fifo_inv (fst (FIFO_step s p)) (loads @ (if snd (FIFO_step s p) then [p] else []))"
  proof (cases "p \<in> set (fifo_frame s)")
    case True
    then show ?thesis using fl inv by (simp add: FIFO_step_def)
  next
    case False
    let ?n = "length loads"
    have "(fifo_frame s)[?n mod FRAME_SIZE := p] ! (k mod FRAME_SIZE) = (loads @ [p]) ! k"
      if "Suc ?n \<le> k + FRAME_SIZE" "k < Suc ?n" for k
    proof (cases "k = ?n")
      case True
      then show ?thesis using len inv by (simp add: fifo_inv_def)
    next
      case F: False
      then have "k mod FRAME_SIZE \<noteq> ?n mod FRAME_SIZE" using that by (intro mod_window) auto
      then show ?thesis using F that inv by (simp add: fifo_inv_def nth_append)
    qed
    moreover have "frames_ok ((fifo_frame s)[?n mod FRAME_SIZE := p])"
      using frames_ok_load [OF _ False] inv FRAME_SIZE_pos by (simp add: fifo_inv_def)
    moreover have "(fifo_frame s)[?n mod FRAME_SIZE := p] ! i = -1" if "Suc ?n \<le> i" "i < FRAME_SIZE" for i
      using inv that by (simp add: fifo_inv_def)
    ultimately show ?thesis using False fl inv p by (simp add: FIFO_step_def fifo_inv_def mod_Suc_eq)
  qed
qed

lemma FIFO_init_inv: "fifo_inv FIFO_init []"
  by (simp add: fifo_inv_def FIFO_init_def frames_ok_def)

interpretation fifo: replacement_policy "\<lambda>s r. Inr (FIFO_step s r)" fifo_frame FIFO_init "\<lambda>s. \<exists>loads. fifo_inv s loads"
proof
  show "\<exists>loads. fifo_inv FIFO_init loads" using FIFO_init_inv by blast
  show "fifo_frame FIFO_init = replicate FRAME_SIZE (- 1)" by (simp add: FIFO_init_def)
  fix s p assume "\<exists>loads. fifo_inv s loads" "(0::int) \<le> p"
  then show "\<exists>s' fault. Inr (FIFO_step s p) = Inr (s', fault) \<and> (\<exists>loads. fifo_inv s' loads) \<and>
      frames_step (fifo_frame s) p fault (fifo_frame s')"
    using FIFO_step_inv by (metis prod.collapse)
qed

text \<open>The pages loaded by a run, in order, and the frames it ends with.\<close>

fun loads_of :: "int list \<Rightarrow> (int list \<times> bool) list \<Rightarrow> int list" where
  "loads_of (r # rs) ((fs, fault) # out) = (if fault then r # loads_of rs out else loads_of rs out)"
| "loads_of _ _ = []"

fun final_frames :: "int list \<Rightarrow> (int list \<times> bool) list \<Rightarrow> int list" where
  "final_frames fs [] = fs"
| "final_frames fs ((fs', fault) # out) = final_frames fs' out"

lemma FIFO_run_inv:
  "fifo_inv s loads \<Longrightarrow> \<forall>r \<in> set rs. 0 \<le> r \<Longrightarrow> run_refs (\<lambda>s r. Inr (FIFO_step s r)) fifo_frame s rs = Inr out \<Longrightarrow>
   \<exists>s'. fifo_inv s' (loads @ loads_of rs out) \<and> final_frames (fifo_frame s) out = fifo_frame s'"
proof (induction rs arbitrary: s loads out)
  case Nil
  then show ?case by auto
next
  case (Cons r rs)
  obtain s' f where st: "FIFO_step s r = (s', f)" by fastforce
  then obtain out' where out: "run_refs (\<lambda>s r. Inr (FIFO_step s r)) fifo_frame s' rs = Inr out'"
    "out = (fifo_frame s', f) # out'" using Cons.prems(3) by (auto simp: andThen_eq_Inr)
  have "fifo_inv s' (loads @ (if f then [r] else []))" using FIFO_step_inv(1) [OF Cons.prems(1), of r] Cons.prems(2) st by simp
  from Cons.IH [OF this _ out(1)] Cons.prems(2) show ?case by (auto simp: out(2) split: if_splits)
qed

section \<open>The LRU stack as a list of frames\<close>

text \<open>
  The abstract LRU machine: the frames and the order in which they were used, least recently used first.
\<close>

definition lru_spec :: "int list \<times> nat list \<Rightarrow> int \<Rightarrow> (int list \<times> nat list) \<times> bool" where
  "lru_spec st p =
     (let (fs, order) = st
      in if p \<in> set fs then let i = frame_loop fs p 0 in ((fs, remove1 i order @ [i]), False)
         else ((fs[hd order := p], tl order @ [hd order]), True))"

text \<open>A segment of the doubly linked list between \<open>p\<close> and \<open>n\<close>.\<close>

fun seg :: "(nat \<Rightarrow> nat option) \<Rightarrow> (nat \<Rightarrow> nat option) \<Rightarrow> nat option \<Rightarrow> nat list \<Rightarrow> nat option \<Rightarrow> bool" where
  "seg pr nx p [] n = True"
| "seg pr nx p (x # xs) n \<longleftrightarrow> pr x = p \<and> nx x = (if xs = [] then n else Some (hd xs)) \<and> seg pr nx (Some x) xs n"

lemma seg_append:
  "seg pr nx p (xs @ ys) n \<longleftrightarrow>
     seg pr nx p xs (if ys = [] then n else Some (hd ys)) \<and>
     seg pr nx (if xs = [] then p else Some (last xs)) ys n"
  by (induction xs arbitrary: p) auto

lemma seg_frame:
  "seg pr nx p xs n \<Longrightarrow> \<forall>x \<in> set xs. pr' x = pr x \<and> nx' x = nx x \<Longrightarrow> seg pr' nx' p xs n"
  by (induction xs arbitrary: p) auto

lemma seg_set_last:
  assumes "seg pr nx p xs n" "xs \<noteq> []" "distinct xs" "nx' = nx(last xs := n')"
  shows "seg pr nx' p xs n'"
proof -
  obtain ys y where xs: "xs = ys @ [y]" using assms(2) by (metis rev_exhaust)
  have ys: "seg pr nx p ys (Some y)" "y \<notin> set ys" using assms(1,3) by (auto simp: xs seg_append)
  then have "seg pr nx' p ys (Some y)" by (rule_tac seg_frame [OF ys(1)]) (auto simp: assms(4) xs)
  then show ?thesis using assms(1,4) by (simp add: xs seg_append)
qed

lemma seg_set_first:
  assumes "seg pr nx p xs n" "xs \<noteq> []" "distinct xs" "pr' = pr(hd xs := p')"
  shows "seg pr' nx p' xs n"
proof -
  obtain y ys where xs: "xs = y # ys" using assms(2) by (cases xs) auto
  have ys: "seg pr nx (Some y) ys n" "y \<notin> set ys" using assms(1,3) by (auto simp: xs)
  then have "seg pr' nx (Some y) ys n" by (rule_tac seg_frame [OF ys(1)]) (auto simp: assms(4) xs)
  then show ?thesis using assms by (simp add: xs)
qed

definition stack_rep :: "lru \<Rightarrow> int list \<Rightarrow> nat list \<Rightarrow> bool" where
  "stack_rep s fs order \<longleftrightarrow> lru_frame s = fs \<and> frames_ok fs \<and> distinct order \<and> set order = {..<FRAME_SIZE} \<and>
     seg (pre s) (nxt s) None order None \<and> head s = Some (hd order) \<and> tail s = Some (last order) \<and>
     (\<forall>i < FRAME_SIZE. page_index s i = i \<and> page_num s i = fs ! i)"

lemma stack_loop_seg:
  "seg (pre s) (nxt s) q xs None \<Longrightarrow>
     stack_loop s num (if xs = [] then None else Some (hd xs)) = Some (find (\<lambda>a. page_num s a = num) xs)"
proof (induction xs arbitrary: q)
  case Nil
  then show ?case by (simp add: stack_loop.simps)
next
  case (Cons x xs)
  then show ?case by (subst stack_loop.simps) auto
qed

lemma stack_order_nonempty:
  assumes "stack_rep s fs order" shows "order \<noteq> []" "tl order \<noteq> []" "length order = FRAME_SIZE"
proof -
  show len: "length order = FRAME_SIZE" using assms distinct_card [of order] by (auto simp: stack_rep_def)
  then show "order \<noteq> []" "tl order \<noteq> []" by (auto simp: FRAME_SIZE_def simp flip: length_0_conv)
qed

lemma stack_search:
  assumes "stack_rep s fs order"
  shows "stack_loop s num (head s) = Some (if num = -1 \<or> num \<notin> set fs then
      find (\<lambda>a. page_num s a = num) order else Some (frame_loop fs num 0))"
proof -
  have ne: "order \<noteq> []" by (rule stack_order_nonempty [OF assms])
  have len: "length fs = FRAME_SIZE" using assms by (simp add: stack_rep_def frames_ok_def)
  have l: "stack_loop s num (head s) = Some (find (\<lambda>a. page_num s a = num) order)"
    using stack_loop_seg [of s None order num] assms ne by (simp add: stack_rep_def)
  moreover have "find (\<lambda>a. page_num s a = num) order = Some (frame_loop fs num 0)" if "num \<noteq> -1" "num \<in> set fs"
  proof -
    let ?j = "frame_loop fs num 0"
    have j: "?j < FRAME_SIZE" "fs ! ?j = num" using frame_loop_found(2) [OF len that(2)] by auto
    have u: "i < FRAME_SIZE \<Longrightarrow> fs ! i = num \<Longrightarrow> i = ?j" for i
      using j assms that(1) by (auto simp: stack_rep_def frames_ok_def)
    have "?j \<in> set order" using j assms by (simp add: stack_rep_def)
    then obtain as bs where ab: "order = as @ ?j # bs" "?j \<notin> set as" by (metis split_list_first)
    have "a \<in> set as \<Longrightarrow> page_num s a \<noteq> num" for a
    proof -
      assume a: "a \<in> set as"
      then have "a \<in> set order" by (simp add: ab(1))
      then have "a < FRAME_SIZE" "page_num s a = fs ! a" using assms by (auto simp: stack_rep_def)
      then show ?thesis using u [of a] a ab(2) by auto
    qed
    moreover have "page_num s ?j = num" using assms j by (simp add: stack_rep_def)
    ultimately have "find (\<lambda>a. page_num s a = num) (as @ ?j # bs) = Some ?j"
      by (induction as) auto
    then show ?thesis by (simp flip: ab(1))
  qed
  ultimately show ?thesis by auto
qed

lemma move_to_top_rep:
  assumes rep: "stack_rep s fs order" and a: "a < FRAME_SIZE"
  shows "\<exists>s'. move_to_top s a = Inr s' \<and> stack_rep s' fs (remove1 a order @ [a])"
proof -
  have "a \<in> set order" using assms by (simp add: stack_rep_def)
  then obtain as bs where o: "order = as @ a # bs" by (metis split_list)
  have d: "distinct (as @ a # bs)" using rep by (simp add: stack_rep_def flip: o)
  have r: "remove1 a order = as @ bs" using d by (simp add: o remove1_append)
  show ?thesis
  proof (cases "bs = []")
    case True
    then have "remove1 a order @ [a] = order" using o r by simp
    moreover have "tail s = Some a" using rep by (simp add: stack_rep_def o True)
    ultimately show ?thesis using rep by (simp add: move_to_top_def)
  next
    case False
    let ?p = "if as = [] then None else Some (last as)"
    have sg: "seg (pre s) (nxt s) None as (Some a)" "pre s a = ?p" "nxt s a = Some (hd bs)"
      "seg (pre s) (nxt s) (Some a) bs None"
      using rep False by (auto simp: stack_rep_def o seg_append)
    have tl: "tail s = Some (last bs)" "last bs \<noteq> a" "hd bs \<noteq> a" using rep False d by (auto simp: stack_rep_def o)
    define nx where "nx = (if as = [] then nxt s else (nxt s)(last as := Some (hd bs)))"
    define pr where "pr = (pre s)(hd bs := ?p)"
    let ?s = "s\<lparr>nxt := (nx(last bs := Some a))(a := None), pre := pr(a := Some (last bs)),
      head := (if as = [] then Some (hd bs) else head s), tail := Some a\<rparr>"
    have hd0: "head s = Some a \<longleftrightarrow> as = []" using rep d by (cases as) (auto simp: stack_rep_def o)
    have "last as \<noteq> a" if "as \<noteq> []" using d that by auto
    then have "move_to_top s a = Inr ?s"
      using sg tl hd0 False d
      by (cases "as = []") (auto simp: move_to_top_def Let_def nx_def pr_def fun_upd_twist)
    moreover have "seg (pr(a := Some (last bs))) ((nx(last bs := Some a))(a := None)) None (as @ bs @ [a]) None"
    proof -
      let ?pr = "pr(a := Some (last bs))" and ?nx = "(nx(last bs := Some a))(a := None)"
      have as: "seg (pre s) nx None as (Some (hd bs))"
        using seg_set_last [OF sg(1)] d by (cases "as = []") (auto simp: nx_def)
      have 1: "seg ?pr ?nx None as (Some (hd bs))"
        by (rule seg_frame [OF as]) (use d False hd_in_set [OF False] last_in_set [OF False] in \<open>auto simp: pr_def\<close>)
      have b1: "seg pr (nxt s) ?p bs None" using seg_set_first [OF sg(4) False] d by (simp add: pr_def)
      have b2: "seg pr nx ?p bs None"
        by (rule seg_frame [OF b1]) (use d in \<open>cases as rule: rev_cases; auto simp: nx_def\<close>)
      have b3: "seg pr (nx(last bs := Some a)) ?p bs (Some a)" using seg_set_last [OF b2 False] d by simp
      have 2: "seg ?pr ?nx ?p bs (Some a)" by (rule seg_frame [OF b3]) (use d in auto)
      show ?thesis using 1 2 False by (simp add: seg_append)
    qed
    ultimately show ?thesis
      using rep False d unfolding r by (intro exI [of _ ?s]) (auto simp: stack_rep_def o)
  qed
qed

lemma replace_bottom_rep:
  assumes rep: "stack_rep s fs order" and p: "p \<notin> set fs"
  shows "\<exists>s'. replace_bottom s p = Inr s' \<and> stack_rep s' (fs[hd order := p]) (tl order @ [hd order])"
proof -
  note ne = stack_order_nonempty [OF rep]
  obtain a bs where o: "order = a # bs" and bs: "bs \<noteq> []" using ne(1,2) by (cases order) auto
  have d: "a \<notin> set bs" "distinct bs" using rep by (auto simp: stack_rep_def o)
  have sg: "seg (pre s) (nxt s) (Some a) bs None" "nxt s a = Some (hd bs)" using rep bs by (auto simp: stack_rep_def o)
  have st: "head s = Some a" "tail s = Some (last bs)" "page_index s a = a" "length (lru_frame s) = FRAME_SIZE"
    "lru_frame s = fs" "a < FRAME_SIZE"
    using rep bs by (auto simp: stack_rep_def o frames_ok_def)
  let ?pr = "((pre s)(hd bs := None))(a := Some (last bs))" and ?nx = "((nxt s)(last bs := Some a))(a := None)"
  let ?s = "s\<lparr>head := Some (hd bs), pre := ?pr, page_num := (page_num s)(a := p), lru_frame := fs[a := p],
    nxt := ?nx, tail := Some a\<rparr>"
  have "replace_bottom s p = Inr ?s"
    using st sg(2) by (simp add: replace_bottom_def Let_def array_set_def)
  moreover have "seg ?pr ?nx None (bs @ [a]) None"
  proof -
    have b1: "seg ((pre s)(hd bs := None)) (nxt s) None bs None" using seg_set_first [OF sg(1) bs d(2)] by simp
    have b2: "seg ((pre s)(hd bs := None)) ((nxt s)(last bs := Some a)) None bs (Some a)"
      using seg_set_last [OF b1 bs d(2)] by simp
    have "seg ?pr ?nx None bs (Some a)" by (rule seg_frame [OF b2]) (use d in auto)
    then show ?thesis using bs by (simp add: seg_append)
  qed
  moreover have "frames_ok (fs[a := p])" using rep p st(6) frames_ok_load by (simp add: stack_rep_def)
  ultimately show ?thesis using rep bs st
    by (intro exI [of _ ?s]) (auto simp: stack_rep_def o nth_list_update)
qed

lemma LRU_stack_init_rep: "stack_rep LRU_stack_init (replicate FRAME_SIZE (-1)) [0..<FRAME_SIZE]"
proof -
  have init: "LRU_stack_init = \<lparr>page_num = (\<lambda>_. 0)(0 := -1, 1 := -1, 2 := -1, 3 := -1, 4 := -1),
      page_index = (\<lambda>_. 0)(0 := 0, 1 := 1, 2 := 2, 3 := 3, 4 := 4),
      pre = (\<lambda>_. None)(0 := None, 1 := Some 0, 2 := Some 1, 3 := Some 2, 4 := Some 3),
      nxt = (\<lambda>_. None)(0 := Some 1, 1 := Some 2, 2 := Some 3, 3 := Some 4, 4 := None),
      head = Some 0, tail = Some 4, lru_frame = replicate FRAME_SIZE (-1)\<rparr>"
    by (simp add: LRU_stack_init_def init_PageStack_def creat_PageNode_LRU_def Let_def init_stack_loop.simps
        FRAME_SIZE_def fun_eq_iff)
  have "set [0..<FRAME_SIZE] = {..<FRAME_SIZE}" by auto
  moreover have "[0..<FRAME_SIZE] = [0, 1, 2, 3, 4]" by (simp add: FRAME_SIZE_def upt_rec)
  moreover have "\<forall>i < FRAME_SIZE. page_index LRU_stack_init i = i \<and> page_num LRU_stack_init i = replicate FRAME_SIZE (-1) ! i"
    by (simp add: init FRAME_SIZE_def All_less_Suc numeral_eq_Suc)
  ultimately show ?thesis by (simp add: stack_rep_def frames_ok_def init)
qed

text \<open>The pointer program implements the abstract LRU machine.\<close>

lemma LRU_stack_step_refines:
  assumes rep: "stack_rep s fs order" and p: "0 \<le> p"
  shows "\<exists>s' fs' order' fault. LRU_stack_step s p = Inr (s', fault) \<and> lru_spec (fs, order) p = ((fs', order'), fault) \<and>
    stack_rep s' fs' order'"
proof (cases "p \<in> set fs")
  case True
  have len: "length fs = FRAME_SIZE" using rep by (simp add: stack_rep_def frames_ok_def)
  have "frame_loop fs p 0 < FRAME_SIZE" using frame_loop_found(2) [OF len True] by simp
  then obtain s' where "move_to_top s (frame_loop fs p 0) = Inr s'"
    "stack_rep s' fs (remove1 (frame_loop fs p 0) order @ [frame_loop fs p 0])"
    using move_to_top_rep [OF rep] by blast
  then show ?thesis using stack_search [OF rep, of p] True p
    by (intro exI [of _ s'] exI [of _ fs] exI [of _ "remove1 (frame_loop fs p 0) order @ [frame_loop fs p 0]"]
        exI [of _ False]) (simp add: LRU_stack_step_def lru_spec_def Let_def)
next
  case False
  have "page_num s a \<noteq> p" if "a \<in> set order" for a
  proof -
    have "a < FRAME_SIZE" "page_num s a = fs ! a" "length fs = FRAME_SIZE"
      using that rep by (auto simp: stack_rep_def frames_ok_def)
    then show ?thesis using False by (metis nth_mem)
  qed
  then have "find (\<lambda>a. page_num s a = p) order = None" by (simp add: find_None_iff)
  then have "stack_loop s p (head s) = Some None" using stack_search [OF rep, of p] False by simp
  then show ?thesis using replace_bottom_rep [OF rep False] False by (auto simp: LRU_stack_step_def lru_spec_def)
qed

section \<open>The LRU matrix\<close>

text \<open>
  Row \<open>i\<close> has a 1 in column \<open>j\<close> iff frame \<open>i\<close> has been used and frame \<open>j\<close> has not been used after it.
  In the order of use, the first \<open>u\<close> frames are those never used.
\<close>

definition used_matrix :: "nat list \<Rightarrow> nat \<Rightarrow> int list list" where
  "used_matrix order u =
     map (\<lambda>i. map (\<lambda>j. if i \<notin> set (take u order) \<and> j \<in> set (takeWhile (\<lambda>x. x \<noteq> i) order @ [i]) then 1 else 0)
       [0..<FRAME_SIZE]) [0..<FRAME_SIZE]"

definition order_ok :: "nat list \<Rightarrow> nat \<Rightarrow> bool" where
  "order_ok order u \<longleftrightarrow> distinct order \<and> set order = {..<FRAME_SIZE} \<and> u \<le> FRAME_SIZE \<and> sorted (take u order)"

lemma order_length: "order_ok order u \<Longrightarrow> length order = FRAME_SIZE"
  using distinct_card [of order] by (simp add: order_ok_def)

lemma fold_update_const:
  "length r = n \<Longrightarrow> m \<le> n \<Longrightarrow> fold (\<lambda>i r. r[i := c]) [0..<m] r = map (\<lambda>i. if i < m then c else r ! i) [0..<n]"
proof (induction m)
  case 0
  then show ?case using map_nth [of r] by simp
next
  case (Suc m)
  then show ?case by (auto simp: nth_list_update intro!: nth_equalityI)
qed

lemma setrow1_spec:
  assumes "row < FRAME_SIZE" "length m = FRAME_SIZE" "\<forall>r \<in> set m. length r = FRAME_SIZE"
  shows "setrow1 m row = m[row := replicate FRAME_SIZE 1]"
proof -
  have "length (m ! row) = FRAME_SIZE" using assms by simp
  then have "fold (\<lambda>i r. r[i := 1]) [0..<FRAME_SIZE] (m ! row) = replicate FRAME_SIZE 1"
    using fold_update_const [of "m ! row" FRAME_SIZE FRAME_SIZE 1] by (auto intro!: nth_equalityI)
  then show ?thesis by (simp add: setrow1_def)
qed

lemma setcolumn0_spec:
  assumes "length m = FRAME_SIZE" "n \<le> FRAME_SIZE"
  shows "fold (\<lambda>i m. if i \<noteq> c then m[i := (m ! i)[c := 0]] else m) [0..<n] m =
     map (\<lambda>i. if i < n \<and> i \<noteq> c then (m ! i)[c := 0] else m ! i) [0..<FRAME_SIZE]"
  using assms(2)
proof (induction n)
  case 0
  then show ?case using assms(1) by (simp add: map_nth [of m, unfolded assms(1)])
next
  case (Suc n)
  then show ?case by (auto simp: nth_list_update intro!: nth_equalityI)
qed

lemma one_sum_spec:
  assumes "length row = FRAME_SIZE"
  shows "one_sum row = card {j. j < FRAME_SIZE \<and> row ! j = 1}"
proof -
  have "fold (\<lambda>j n. if row ! j = 1 then n + 1 else n) [0..<m] 0 = card {j. j < m \<and> row ! j = 1}" for m
  proof (induction m)
    case (Suc m)
    have "{j. j < Suc m \<and> row ! j = 1} = {j. j < m \<and> row ! j = 1} \<union> (if row ! m = 1 then {m} else {})"
      by (auto simp: less_Suc_eq)
    then show ?case using Suc by simp
  qed simp
  then show ?thesis by (simp add: one_sum_def)
qed

text \<open>The search for the first row with the fewest ones.\<close>

lemma find_least_row_spec:
  assumes "i < FRAME_SIZE" "one_sum (m ! i) < FRAME_SIZE"
    and "\<forall>j < FRAME_SIZE. one_sum (m ! i) < one_sum (m ! j) \<or> (one_sum (m ! j) = one_sum (m ! i) \<and> i \<le> j)"
  shows "find_least_row m = i"
proof -
  let ?f = "\<lambda>i (least_one_sum, least_row). if one_sum (m ! i) < least_one_sum then (one_sum (m ! i), i)
     else (least_one_sum, least_row)"
  have "n \<le> FRAME_SIZE \<Longrightarrow> (if i < n then fold ?f [0..<n] (FRAME_SIZE, 0) = (one_sum (m ! i), i)
      else fst (fold ?f [0..<n] (FRAME_SIZE, 0)) > one_sum (m ! i))" for n
  proof (induction n)
    case (Suc n)
    obtain a b where ab: "fold ?f [0..<n] (FRAME_SIZE, 0) = (a, b)" by fastforce
    have n: "one_sum (m ! i) < one_sum (m ! n) \<or> (one_sum (m ! n) = one_sum (m ! i) \<and> i \<le> n)"
      using assms(3) Suc.prems by simp
    show ?case using Suc ab n by (cases "i < n"; cases "i = n") auto
  qed (use assms(2) in simp)
  from this [of FRAME_SIZE] show ?thesis using assms(1) by (simp add: find_least_row_def)
qed

definition touched :: "nat list \<Rightarrow> nat \<Rightarrow> nat \<Rightarrow> nat" where
  "touched order u i = (if i \<in> set (take u order) then u - 1 else u)"

lemma take_touch:
  assumes "order_ok (xs @ i # ys) u"
  shows "set (take (touched (xs @ i # ys) u i) (xs @ ys @ [i])) = set (take u (xs @ i # ys)) - {i}"
proof -
  have d: "i \<notin> set xs" "i \<notin> set ys" "set xs \<inter> set ys = {}" using assms by (auto simp: order_ok_def)
  have u: "u \<le> Suc (length xs + length ys)" using order_length [OF assms] assms by (simp add: order_ok_def)
  show ?thesis
  proof (cases "length xs < u")
    case True
    then obtain v where v: "u = Suc (length xs + v)" by (metis add_Suc_right less_imp_Suc_add)
    then have "touched (xs @ i # ys) u i = length xs + v" by (simp add: touched_def)
    then show ?thesis using v u d by (auto dest: in_set_takeD)
  next
    case False
    then have "i \<notin> set (take u (xs @ i # ys))" using d by (auto dest: in_set_takeD)
    then show ?thesis using False by (simp add: touched_def)
  qed
qed

lemma before_touch:
  assumes "distinct (xs @ i # ys)" "a \<in> set (xs @ ys)"
  shows "set (takeWhile (\<lambda>x. x \<noteq> a) (xs @ ys @ [i])) = set (takeWhile (\<lambda>x. x \<noteq> a) (xs @ i # ys)) - {i}"
proof (cases "a \<in> set xs")
  case True
  then have "takeWhile (\<lambda>x. x \<noteq> a) (xs @ zs) = takeWhile (\<lambda>x. x \<noteq> a) xs" for zs
    by (intro takeWhile_append1 [of a]) auto
  then show ?thesis using assms(1) by (auto dest: set_takeWhileD)
next
  case False
  then have xs: "takeWhile (\<lambda>x. x \<noteq> a) (xs @ zs) = xs @ takeWhile (\<lambda>x. x \<noteq> a) zs" for zs
    by (intro takeWhile_append2) auto
  have "a \<in> set ys" using False assms(2) by simp
  then have "takeWhile (\<lambda>x. x \<noteq> a) (ys @ [i]) = takeWhile (\<lambda>x. x \<noteq> a) ys"
    by (intro takeWhile_append1 [of a]) auto
  then show ?thesis using assms xs False by (auto dest: set_takeWhileD)
qed

lemma used_matrix_nth:
  "i < FRAME_SIZE \<Longrightarrow> j < FRAME_SIZE \<Longrightarrow> used_matrix order u ! i ! j =
     (if i \<notin> set (take u order) \<and> j \<in> set (takeWhile (\<lambda>x. x \<noteq> i) order @ [i]) then 1 else 0)"
  by (simp add: used_matrix_def)

lemma touch_matrix:
  assumes ok: "order_ok (xs @ i # ys) u"
  shows "setcolumn0 (setrow1 (used_matrix (xs @ i # ys) u) i) i =
    used_matrix (xs @ ys @ [i]) (touched (xs @ i # ys) u i)" (is "?l = ?r")
proof -
  have i: "i < FRAME_SIZE" and d: "distinct (xs @ i # ys)" and st: "set (xs @ i # ys) = {..<FRAME_SIZE}"
    using ok by (auto simp: order_ok_def)
  let ?m = "used_matrix (xs @ i # ys) u"
  have m: "length ?m = FRAME_SIZE" "\<forall>r \<in> set ?m. length r = FRAME_SIZE" by (auto simp: used_matrix_def)
  have l: "?l = map (\<lambda>a. if a \<noteq> i then (?m[i := replicate FRAME_SIZE 1] ! a)[i := 0]
      else ?m[i := replicate FRAME_SIZE 1] ! a) [0..<FRAME_SIZE]"
    unfolding setcolumn0_def setrow1_spec [OF i m] using m(1) by (subst setcolumn0_spec) (auto intro!: map_cong)
  show ?thesis
  proof (rule nth_equalityI)
    show "length ?l = length ?r" unfolding l by (simp add: used_matrix_def)
    fix a assume "a < length ?l"
    then have a: "a < FRAME_SIZE" by (simp add: l)
    have ma: "length (?m ! a) = FRAME_SIZE" using a by (simp add: used_matrix_def)
    have la: "length (?l ! a) = FRAME_SIZE" unfolding l using a ma m(1) i by (simp add: nth_list_update)
    have ra: "length (?r ! a) = FRAME_SIZE" using a by (simp add: used_matrix_def)
    show "?l ! a = ?r ! a"
    proof (rule nth_equalityI)
      fix b assume "b < length (?l ! a)"
      then have b: "b < FRAME_SIZE" using la by simp
      note r = used_matrix_nth [OF a b, of "xs @ ys @ [i]" "touched (xs @ i # ys) u i"] take_touch [OF ok]
      show "?l ! a ! b = ?r ! a ! b"
      proof (cases "a = i")
        case True
        have "takeWhile (\<lambda>x. x \<noteq> i) (xs @ ys @ [i]) = xs @ ys"
          by (subst append_assoc [symmetric], subst takeWhile_append2) (use d in auto)
        moreover have "b \<in> set (xs @ ys @ [i])" using st b by auto
        ultimately show ?thesis using True a b m r by (simp add: l del: take_append)
      next
        case False
        then have ain: "a \<in> set (xs @ ys)" using st a by auto
        have "?l ! a ! b = (if b = i then 0 else ?m ! a ! b)" using False a b i m by (simp add: l nth_list_update)
        also have "\<dots> = ?r ! a ! b"
          using used_matrix_nth [OF a b, of "xs @ i # ys" u] r before_touch [OF d ain] False by auto
        finally show ?thesis .
      qed
    qed (use la ra in simp)
  qed
qed

lemma used_matrix_ones:
  assumes ok: "order_ok order u" and i: "i < FRAME_SIZE"
  shows "one_sum (used_matrix order u ! i) =
    (if i \<in> set (take u order) then 0 else Suc (length (takeWhile (\<lambda>x. x \<noteq> i) order)))"
proof -
  let ?before = "takeWhile (\<lambda>x. x \<noteq> i) order @ [i]"
  have "distinct ?before" "set ?before \<subseteq> {..<FRAME_SIZE}"
    using ok i by (auto simp: order_ok_def dest: set_takeWhileD)
  moreover from this have "{j. j < FRAME_SIZE \<and> j \<in> set ?before} = set ?before" by blast
  ultimately have c: "card {j. j < FRAME_SIZE \<and> j \<in> set ?before} = length ?before" by (simp only: distinct_card)
  have len: "length (used_matrix order u ! i) = FRAME_SIZE" using i by (simp add: used_matrix_def)
  have "{j. j < FRAME_SIZE \<and> used_matrix order u ! i ! j = 1} =
      (if i \<in> set (take u order) then {} else {j. j < FRAME_SIZE \<and> j \<in> set ?before})"
    using used_matrix_nth [OF i, of _ order u] by (auto split: if_splits)
  then have "card {j. j < FRAME_SIZE \<and> used_matrix order u ! i ! j = 1} =
      (if i \<in> set (take u order) then 0 else length ?before)" 
    by (cases "i \<in> set (take u order)") (simp_all only: c if_True if_False card.empty simp_thms)
  then show ?thesis by (simp add: one_sum_spec [OF len])
qed

lemma find_least_row_bottom:
  assumes ok: "order_ok order u"
  shows "find_least_row (used_matrix order u) = hd order"
proof (rule find_least_row_spec)
  have ne: "order \<noteq> []" using order_length [OF ok] FRAME_SIZE_pos by auto
  obtain a bs where o: "order = a # bs" using ne by (cases order) auto
  show hd: "hd order < FRAME_SIZE" using ok hd_in_set [OF ne] by (simp add: order_ok_def)
  have s1: "one_sum (used_matrix order u ! hd order) = (if u = 0 then 1 else 0)"
    using used_matrix_ones [OF ok hd] by (cases u) (auto simp: o)
  then show "one_sum (used_matrix order u ! hd order) < FRAME_SIZE" by (simp add: FRAME_SIZE_def)
  show "\<forall>j < FRAME_SIZE. one_sum (used_matrix order u ! hd order) < one_sum (used_matrix order u ! j) \<or>
      (one_sum (used_matrix order u ! j) = one_sum (used_matrix order u ! hd order) \<and> hd order \<le> j)"
  proof (intro allI impI)
    fix j assume j: "j < FRAME_SIZE"
    note s2 = used_matrix_ones [OF ok j]
    show "one_sum (used_matrix order u ! hd order) < one_sum (used_matrix order u ! j) \<or>
      (one_sum (used_matrix order u ! j) = one_sum (used_matrix order u ! hd order) \<and> hd order \<le> j)"
    proof (cases "j \<in> set (take u order)")
      case True
      then obtain v where v: "u = Suc v" by (cases u) auto
      have "sorted (a # take v bs)" "j \<in> set (a # take v bs)" using ok True by (auto simp: order_ok_def o v)
      then have "hd order \<le> j" by (auto simp: o)
      then show ?thesis using s1 s2 True v by simp
    next
      case False
      then show ?thesis using s1 s2 by (cases "j = a") (auto simp: o)
    qed
  qed
qed

definition matrix_rep :: "lrum \<Rightarrow> int list \<Rightarrow> nat list \<Rightarrow> bool" where
  "matrix_rep s fs order \<longleftrightarrow> lrum_frame s = fs \<and> frames_ok fs \<and>
     (\<exists>u. order_ok order u \<and> matrix s = used_matrix order u \<and> (\<forall>i < FRAME_SIZE. i \<in> set (take u order) \<longleftrightarrow> fs ! i = -1))"

lemma order_ok_touch:
  assumes ok: "order_ok (xs @ i # ys) u" and i: "i \<in> set (take u (xs @ i # ys)) \<Longrightarrow> xs = []"
  shows "order_ok (xs @ ys @ [i]) (touched (xs @ i # ys) u i)"
proof -
  have u: "u \<le> Suc (length xs + length ys)" using order_length [OF ok] ok by (simp add: order_ok_def)
  have "sorted (take (touched (xs @ i # ys) u i) (xs @ ys @ [i]))"
  proof (cases "i \<in> set (take u (xs @ i # ys))")
    case True
    then have "xs = []" by (rule i)
    with True ok u show ?thesis by (cases u) (auto simp: touched_def order_ok_def)
  next
    case False
    then have "u \<le> length xs" by (cases "u - length xs") auto
    then show ?thesis using False ok by (simp add: touched_def order_ok_def)
  qed
  then show ?thesis using ok by (auto simp: order_ok_def touched_def)
qed

lemma LRU_matrix_init_rep: "matrix_rep LRU_matrix_init (replicate FRAME_SIZE (-1)) [0..<FRAME_SIZE]"
  unfolding matrix_rep_def
proof (intro conjI exI [of _ FRAME_SIZE])
  show "matrix LRU_matrix_init = used_matrix [0..<FRAME_SIZE] FRAME_SIZE"
    by (auto simp: LRU_matrix_init_def used_matrix_def intro!: nth_equalityI)
qed (auto simp: LRU_matrix_init_def frames_ok_def order_ok_def)

lemma LRU_matrix_step_refines:
  assumes rep: "matrix_rep s fs order" and p: "0 \<le> p"
  shows "\<exists>s' fs' order' fault. LRU_matrix_step s p = (s', fault) \<and> lru_spec (fs, order) p = ((fs', order'), fault) \<and>
    matrix_rep s' fs' order'"
proof -
  obtain u where u: "order_ok order u" "matrix s = used_matrix order u"
    "\<forall>i < FRAME_SIZE. i \<in> set (take u order) \<longleftrightarrow> fs ! i = -1" using rep by (auto simp: matrix_rep_def)
  have fs: "lrum_frame s = fs" "frames_ok fs" "length fs = FRAME_SIZE" using rep by (auto simp: matrix_rep_def frames_ok_def)
  have touch: "matrix_rep (s\<lparr>lrum_frame := fs', matrix := setcolumn0 (setrow1 (matrix s) i) i\<rparr>) fs' (xs @ ys @ [i])"
    if o: "order = xs @ i # ys" and i: "i \<in> set (take u order) \<Longrightarrow> xs = []" and fs': "fs' = fs[i := p]" "frames_ok fs'"
    for xs ys i fs'
  proof -
    have ok: "order_ok (xs @ i # ys) u" using u(1) by (simp add: o)
    have "order_ok (xs @ ys @ [i]) (touched order u i)"
      unfolding o by (rule order_ok_touch [OF ok]) (use i in \<open>simp only: o\<close>)
    moreover have "k \<in> set (take (touched order u i) (xs @ ys @ [i])) \<longleftrightarrow> fs' ! k = -1" if k: "k < FRAME_SIZE" for k
    proof -
      have "k \<in> set (take (touched order u i) (xs @ ys @ [i])) \<longleftrightarrow> k \<in> set (take u order) \<and> k \<noteq> i"
        unfolding o by (simp only: take_touch [OF ok]) blast
      then show ?thesis using u(3) k fs(3) fs'(1) p by (cases "k = i") simp_all
    qed
    ultimately show ?thesis using touch_matrix [OF ok] u(2) fs'(2)
      unfolding matrix_rep_def by (auto simp: o simp del: take_append)
  qed
  show ?thesis
  proof (cases "p \<in> set fs")
    case True
    let ?i = "frame_loop fs p 0"
    have i: "?i < FRAME_SIZE" "fs ! ?i = p" using frame_loop_found(2) [OF fs(3) True] by auto
    then have "?i \<in> set order" using u(1) by (simp add: order_ok_def)
    then obtain xs ys where o: "order = xs @ ?i # ys" by (metis split_list)
    have "?i \<notin> set (take u order)" using u(3) i p by auto
    moreover have "fs[?i := p] = fs" using i(2) by (metis list_update_id)
    ultimately have "matrix_rep (s\<lparr>lrum_frame := fs, matrix := setcolumn0 (setrow1 (matrix s) ?i) ?i\<rparr>) fs (xs @ ys @ [?i])"
      using touch [OF o] fs(2) by simp
    moreover have "remove1 ?i order @ [?i] = xs @ ys @ [?i]"
    proof -
      have "?i \<notin> set xs" using u(1) o by (metis distinct_append order_ok_def not_distinct_conv_prefix distinct.simps(2) Int_iff
            disjoint_iff list.set_intros(1))
      then show ?thesis by (subst o) (simp add: remove1_append)
    qed
    moreover have "s\<lparr>lrum_frame := fs\<rparr> = s" using fs(1) by simp
    ultimately show ?thesis using True i fs
      by (intro exI [of _ "s\<lparr>matrix := setcolumn0 (setrow1 (matrix s) ?i) ?i\<rparr>"] exI [of _ fs] exI [of _ "xs @ ys @ [?i]"] exI [of _ False])
        (simp add: LRU_matrix_step_def lru_spec_def Let_def)
  next
    case False
    obtain i ys where o: "order = i # ys" using order_length [OF u(1)] FRAME_SIZE_pos by (cases order) auto
    have "i < FRAME_SIZE" using u(1) by (auto simp: order_ok_def o)
    then have "frames_ok (fs[i := p])" using frames_ok_load [OF fs(2) False] by simp
    then have "matrix_rep (s\<lparr>lrum_frame := fs[i := p], matrix := setcolumn0 (setrow1 (matrix s) i) i\<rparr>) (fs[i := p]) (ys @ [i])"
      using touch [of "[]" i ys "fs[i := p]"] o by simp
    then show ?thesis using False fs frame_loop_found(1) [OF fs(3), of p] find_least_row_bottom [OF u(1)] u(2)
      by (auto simp: LRU_matrix_step_def lru_spec_def Let_def o)
  qed
qed

section \<open>The abstract LRU machine\<close>

text \<open>
  The frames in the order of use hold the empty frames first and then the most recently used pages, least
  recently used first.
\<close>

definition recency :: "int list \<Rightarrow> int list" where
  "recency rs = fold (\<lambda>p ps. p # removeAll p ps) rs []"

definition lru_state :: "int list \<Rightarrow> nat list \<Rightarrow> int list \<Rightarrow> bool" where
  "lru_state fs order recent \<longleftrightarrow> frames_ok fs \<and> distinct order \<and> set order = {..<FRAME_SIZE} \<and>
     (\<exists>n. rev (map (\<lambda>i. fs ! i) order) = take FRAME_SIZE recent @ replicate n (-1))"

lemma lru_state_length:
  assumes "lru_state fs order recent" shows "length order = FRAME_SIZE" "order \<noteq> []"
proof -
  show len: "length order = FRAME_SIZE" using assms distinct_card [of order] by (auto simp: lru_state_def)
  then show "order \<noteq> []" using FRAME_SIZE_pos by auto
qed

lemma removeAll_take:
  assumes "distinct xs" "p \<in> set (take n xs)"
  shows "removeAll p (take n xs) = take (n - 1) (removeAll p xs)"
proof -
  obtain as bs where s: "take n xs = as @ p # bs" "p \<notin> set as" using assms(2) by (metis split_list_first)
  have d: "distinct (take n xs)" using assms(1) by simp
  then have nb: "p \<notin> set bs" by (simp add: s)
  have xs: "xs = as @ p # bs @ drop n xs" using s(1) by (metis append_Cons append_assoc append_take_drop_id)
  have nd: "p \<notin> set (drop n xs)" using assms(1) xs by (metis distinct_append distinct.simps(2) in_set_conv_decomp Un_iff set_append)
  have "removeAll p xs = as @ bs @ drop n xs" using s(2) nb nd by (subst xs) simp
  moreover have "length (as @ bs) = n - 1 \<or> drop n xs = []"
  proof (cases "n \<le> length xs")
    case True
    then have "length (take n xs) = n" by simp
    then show ?thesis by (auto simp: s(1))
  qed simp
  moreover have "length (as @ bs) \<le> n - 1" using length_take [of n xs] unfolding s(1) by simp
  ultimately show ?thesis using s nb by auto
qed

lemma take_removeAll_absent:
  assumes "p \<notin> set (take n xs)"
  shows "take n (removeAll p xs) = take n xs"
proof -
  have "removeAll p (take n xs @ drop n xs) = take n xs @ removeAll p (drop n xs)"
    using removeAll_id [OF assms] by (simp only: removeAll_append)
  then have "removeAll p xs = take n xs @ removeAll p (drop n xs)" by simp
  then show ?thesis by (cases "length xs \<le> n") simp_all
qed

lemma butlast_replicate_Suc: "butlast (replicate (Suc n) x) = replicate n x"
  by (induction n) auto

lemma set_map_nth: "set order = {..<length fs} \<Longrightarrow> set (map (\<lambda>i. fs ! i) order) = set fs"
  by (simp add: set_conv_nth [of fs] image_def) blast

lemma nonneg_take: "\<forall>r \<in> set xs. 0 \<le> (r::int) \<Longrightarrow> -1 \<notin> set (take n xs)"
  by (metis in_set_takeD neg_0_le_iff_le not_one_le_zero)

lemma lru_spec_state:
  assumes st: "lru_state fs order recent" and p: "0 \<le> p" and rec: "distinct recent" "\<forall>r \<in> set recent. 0 \<le> r"
    and sp: "lru_spec (fs, order) p = ((fs', order'), fault)"
  shows "lru_state fs' order' (p # removeAll p recent)" "frames_step fs p fault fs'"
proof -
  obtain n where n: "rev (map (\<lambda>i. fs ! i) order) = take FRAME_SIZE recent @ replicate n (-1)"
    and o: "frames_ok fs" "distinct order" "set order = {..<FRAME_SIZE}" using st by (auto simp: lru_state_def)
  have len: "length fs = FRAME_SIZE" using o(1) by (simp add: frames_ok_def)
  have "set (map (\<lambda>i. fs ! i) order) = set fs" using o(3) len by (intro set_map_nth) simp
  then have set_fs: "set fs = set (take FRAME_SIZE recent @ replicate n (-1))" by (metis n set_rev)
  then have pin: "p \<in> set fs \<longleftrightarrow> p \<in> set (take FRAME_SIZE recent)" using p by auto
  obtain m where m: "FRAME_SIZE = Suc m" using FRAME_SIZE_pos gr0_conv_Suc by blast
  obtain i ys where oi: "order = i # ys" using lru_state_length [OF st] by (cases order) auto
  have "lru_state fs' order' (p # removeAll p recent) \<and> frames_step fs p fault fs'"
  proof (cases "p \<in> set fs")
    case True
    let ?j = "frame_loop fs p 0"
    have j: "?j < FRAME_SIZE" "fs ! ?j = p" using frame_loop_found(2) [OF len True] by auto
    then obtain as bs where ab: "order = as @ ?j # bs" using o(3) by (metis lessThan_iff split_list)
    have d: "?j \<notin> set as" "?j \<notin> set bs" using o(2) by (subst (asm) ab, simp)+
    have sp': "fs' = fs" "order' = as @ bs @ [?j]" "\<not> fault"
      using sp True d by (subst (asm) ab, simp add: lru_spec_def Let_def remove1_append)+
    have np: "k \<in> set as \<union> set bs \<Longrightarrow> fs ! k \<noteq> p" for k
    proof -
      assume k: "k \<in> set as \<union> set bs"
      then have "k \<in> set order" by (subst ab) auto
      then show "fs ! k \<noteq> p" using k d o(1,3) j p by (auto simp: frames_ok_def)
    qed
    have "rev (map (\<lambda>i. fs ! i) order') = p # removeAll p (rev (map (\<lambda>i. fs ! i) order))"
    proof -
      have "p \<notin> set (map (\<lambda>i. fs ! i) as)" "p \<notin> set (map (\<lambda>i. fs ! i) bs)" using np by auto
      then have "removeAll p (rev (map (\<lambda>i. fs ! i) (as @ ?j # bs))) = rev (map (\<lambda>i. fs ! i) (as @ bs))" using j by simp
      then show ?thesis unfolding ab [symmetric] using sp' j by simp
    qed
    also have "\<dots> = p # take m (removeAll p recent) @ replicate n (-1)"
      using removeAll_take [OF rec(1), of p FRAME_SIZE] True pin p unfolding n by (simp add: m)
    finally have "rev (map (\<lambda>i. fs ! i) order') = take FRAME_SIZE (p # removeAll p recent) @ replicate n (-1)" by (simp add: m)
    moreover have "distinct order'" using o(2) [unfolded ab] by (auto simp: sp')
    moreover have "set order' = set order" by (subst ab) (auto simp: sp')
    ultimately show ?thesis using o sp' True by (auto simp: lru_state_def frames_step_def)
  next
    case False
    have sp': "fs' = fs[i := p]" "order' = ys @ [i]" "fault" using sp False by (simp_all add: lru_spec_def oi)
    have i: "i < FRAME_SIZE" "i \<notin> set ys" using o(2,3) by (auto simp: oi)
    have "map (\<lambda>k. fs' ! k) ys = map (\<lambda>k. fs ! k) ys"
      using i(2) sp'(1) by (auto intro!: nth_list_update_neq)
    then have r: "rev (map (\<lambda>k. fs' ! k) order') = p # butlast (rev (map (\<lambda>k. fs ! k) order))"
      using i len sp' by (simp add: oi butlast_append)
    have l: "length (take FRAME_SIZE recent) + n = FRAME_SIZE"
      using arg_cong [OF n, of length] lru_state_length(1) [OF st] by simp
    have abs: "take FRAME_SIZE (removeAll p recent) = take FRAME_SIZE recent"
      using False pin by (intro take_removeAll_absent) simp
    have "\<exists>n'. p # butlast (rev (map (\<lambda>k. fs ! k) order)) = take FRAME_SIZE (p # removeAll p recent) @ replicate n' (-1)"
    proof (cases n)
      case 0
      have "take m (removeAll p recent) = take m (take FRAME_SIZE (removeAll p recent))" by (simp add: m)
      also have "\<dots> = butlast (take FRAME_SIZE recent)" unfolding abs using l 0 by (simp add: butlast_take m)
      finally show ?thesis using n 0 by (intro exI [of _ 0]) (simp add: m)
    next
      case (Suc n')
      then have "length recent < FRAME_SIZE" using l by auto
      then have tr: "take FRAME_SIZE recent = recent" "take m recent = recent" by (simp_all add: m)
      then have "removeAll p recent = recent" using False pin by (intro removeAll_id) simp
      with tr show ?thesis using n Suc by (intro exI [of _ n']) (simp add: m butlast_append butlast_replicate_Suc del: replicate.simps)
    qed
    moreover have "fs ! i = -1" if "-1 \<in> set fs"
    proof -
      have "n \<noteq> 0" using that set_fs nonneg_take [OF rec(2)] by (cases n) simp_all
      then have "last (rev (map (\<lambda>k. fs ! k) order)) = -1" unfolding n by (cases n) auto
      then show ?thesis by (simp add: oi)
    qed
    ultimately have e: "\<exists>n'. rev (map (\<lambda>k. fs' ! k) order') = take FRAME_SIZE (p # removeAll p recent) @ replicate n' (-1)"
      and f: "frames_step fs p fault fs'" using r i(1) sp' False by (auto simp: frames_step_def)
    have "frames_ok fs'" "distinct order'" "set order' = {..<FRAME_SIZE}"
      using frames_ok_load [OF o(1) False i(1)] o(2,3) sp' by (auto simp: oi)
    with e f show ?thesis by (simp add: lru_state_def)
  qed
  then show "lru_state fs' order' (p # removeAll p recent)" "frames_step fs p fault fs'" by auto
qed

fun spec_run :: "int list \<times> nat list \<Rightarrow> int list \<Rightarrow> (int list \<times> bool) list" where
  "spec_run st [] = []"
| "spec_run st (r # rs) = (let (st', fault) = lru_spec st r in (fst st', fault) # spec_run st' rs)"

definition lru_ok :: "int list \<Rightarrow> nat list \<Rightarrow> int list \<Rightarrow> bool" where
  "lru_ok fs order recent \<longleftrightarrow> lru_state fs order recent \<and> distinct recent \<and> (\<forall>r \<in> set recent. 0 \<le> r)"

lemma lru_ok_step:
  assumes "lru_ok fs order recent" "0 \<le> p" "lru_spec (fs, order) p = ((fs', order'), fault)"
  shows "lru_ok fs' order' (p # removeAll p recent)" "frames_step fs p fault fs'"
  using assms lru_spec_state [of fs order recent p fs' order' fault]
  by (auto simp: lru_ok_def distinct_removeAll)

lemma lru_ok_start: "lru_ok (replicate FRAME_SIZE (-1)) [0..<FRAME_SIZE] []"
proof -
  have "rev (map (\<lambda>i. replicate FRAME_SIZE (-1) ! i) [0..<FRAME_SIZE]) = (replicate FRAME_SIZE (-1) :: int list)"
    using map_nth [of "replicate FRAME_SIZE (-1) :: int list"] by simp
  then show ?thesis by (auto simp: lru_ok_def lru_state_def frames_ok_def)
qed

lemma lru_ok_residents: "lru_ok fs order recent \<Longrightarrow> pages fs = set (take FRAME_SIZE recent)"
proof -
  assume ok: "lru_ok fs order recent"
  then obtain n where n: "rev (map (\<lambda>i. fs ! i) order) = take FRAME_SIZE recent @ replicate n (-1)"
    and o: "set order = {..<length fs}" by (auto simp: lru_ok_def lru_state_def frames_ok_def)
  have "set fs = set (rev (map (\<lambda>i. fs ! i) order))" using set_map_nth [OF o] by simp
  then have "pages fs = set (take FRAME_SIZE recent @ replicate n (-1)) - {-1}" by (simp only: pages_def n)
  moreover have "-1 \<notin> set (take FRAME_SIZE recent)" using ok nonneg_take by (simp add: lru_ok_def)
  moreover have "set (replicate n (-1)) \<subseteq> {-1 :: int}" by auto
  ultimately show ?thesis unfolding set_append by blast
qed

lemma spec_run_residents:
  "lru_ok fs order recent \<Longrightarrow> \<forall>r \<in> set rs. 0 \<le> r \<Longrightarrow>
     pages (final_frames fs (spec_run (fs, order) rs)) =
     set (take FRAME_SIZE (fold (\<lambda>p ps. p # removeAll p ps) rs recent))"
proof (induction rs arbitrary: fs order recent)
  case Nil
  then show ?case by (simp add: lru_ok_residents)
next
  case (Cons r rs)
  obtain fs' order' fault where sp: "lru_spec (fs, order) r = ((fs', order'), fault)" by (metis prod.collapse)
  then show ?case using Cons.IH [OF lru_ok_step(1) [OF Cons.prems(1) _ sp]] Cons.prems(2) by simp
qed

text \<open>An implementation of the LRU machine; every such implementation is a correct policy.\<close>

locale lru_implementation =
  fixes step :: "'s \<Rightarrow> int \<Rightarrow> ('s \<times> bool) outcome" and frames :: "'s \<Rightarrow> int list" and start :: 's
    and rep :: "'s \<Rightarrow> int list \<Rightarrow> nat list \<Rightarrow> bool"
  assumes start_rep: "rep start (replicate FRAME_SIZE (-1)) [0..<FRAME_SIZE]"
    and rep_frames: "rep s fs order \<Longrightarrow> frames s = fs"
    and step_refines: "rep s fs order \<Longrightarrow> 0 \<le> p \<Longrightarrow>
      \<exists>s' fs' order' fault. step s p = Inr (s', fault) \<and> lru_spec (fs, order) p = ((fs', order'), fault) \<and> rep s' fs' order'"
begin

lemma run_refines:
  "rep s fs order \<Longrightarrow> \<forall>r \<in> set rs. 0 \<le> r \<Longrightarrow> run_refs step frames s rs = Inr (spec_run (fs, order) rs)"
proof (induction rs arbitrary: s fs order)
  case (Cons r rs)
  obtain s' fs' order' fault where st: "step s r = Inr (s', fault)" "lru_spec (fs, order) r = ((fs', order'), fault)"
    "rep s' fs' order'" using step_refines [OF Cons.prems(1), of r] Cons.prems(2) by auto
  then show ?case using Cons.IH [OF st(3)] Cons.prems(2) rep_frames [OF st(3)] by simp
qed simp

lemma run_from_start:
  "\<forall>r \<in> set rs. 0 \<le> r \<Longrightarrow>
     run_refs step frames start rs = Inr (spec_run (replicate FRAME_SIZE (-1), [0..<FRAME_SIZE]) rs)"
  by (rule run_refines [OF start_rep])

end

sublocale lru_implementation \<subseteq> policy: replacement_policy step frames start
  "\<lambda>s. \<exists>fs order recent. rep s fs order \<and> lru_ok fs order recent"
proof
  show "\<exists>fs order recent. rep start fs order \<and> lru_ok fs order recent" using start_rep lru_ok_start by blast
  show "frames start = replicate FRAME_SIZE (- 1)" by (rule rep_frames [OF start_rep])
  fix s p assume "\<exists>fs order recent. rep s fs order \<and> lru_ok fs order recent" and p: "0 \<le> (p::int)"
  then obtain fs order recent where r: "rep s fs order" "lru_ok fs order recent" by blast
  obtain s' fs' order' fault where st: "step s p = Inr (s', fault)" "lru_spec (fs, order) p = ((fs', order'), fault)"
    "rep s' fs' order'" using step_refines [OF r(1) p] by blast
  then show "\<exists>s' fault. step s p = Inr (s', fault) \<and> (\<exists>fs order recent. rep s' fs order \<and> lru_ok fs order recent) \<and>
      frames_step (frames s) p fault (frames s')"
    using lru_ok_step [OF r(2) p st(2)] rep_frames [OF r(1)] rep_frames [OF st(3)] by blast
qed

interpretation stack: lru_implementation LRU_stack_step lru_frame LRU_stack_init stack_rep
proof
  show "stack_rep s fs order \<Longrightarrow> lru_frame s = fs" for s fs order by (simp add: stack_rep_def)
qed (use LRU_stack_init_rep LRU_stack_step_refines in blast)+

interpretation mat: lru_implementation "\<lambda>s r. Inr (LRU_matrix_step s r)" lrum_frame LRU_matrix_init matrix_rep
proof
  show "matrix_rep s fs order \<Longrightarrow> lrum_frame s = fs" for s fs order by (simp add: matrix_rep_def)
  show "matrix_rep s fs order \<Longrightarrow> 0 \<le> p \<Longrightarrow> \<exists>s' fs' order' fault. Inr (LRU_matrix_step s p) = Inr (s', fault) \<and>
      lru_spec (fs, order) p = ((fs', order'), fault) \<and> matrix_rep s' fs' order'" for s fs order p
    using LRU_matrix_step_refines [of s fs order p] by auto
qed (rule LRU_matrix_init_rep)

section \<open>Second chance\<close>

definition clock_rep :: "clock \<Rightarrow> bool" where
  "clock_rep s \<longleftrightarrow> frames_ok (clock_frame s) \<and> c_head s = 0 \<and> clock_pointer s < FRAME_SIZE \<and>
     (\<forall>i < FRAME_SIZE. c_next s i = (i + 1) mod FRAME_SIZE \<and> c_page_index s i = i \<and> c_page_num s i = clock_frame s ! i \<and>
        reference_bit s i \<in> {0, 1})"

text \<open>
  While some frame is empty, the empty frames are the ones from the clock pointer to the end, and their
  reference bits are 0.
\<close>

definition clock_inv :: "clock \<Rightarrow> bool" where
  "clock_inv s \<longleftrightarrow> clock_rep s \<and>
     (-1 \<in> set (clock_frame s) \<longrightarrow> clock_frame s ! clock_pointer s = -1 \<and> reference_bit s (clock_pointer s) = 0 \<and>
        (\<forall>i < FRAME_SIZE. clock_frame s ! i = -1 \<longleftrightarrow> clock_pointer s \<le> i) \<and>
        (\<forall>i < FRAME_SIZE. clock_pointer s \<le> i \<longrightarrow> reference_bit s i = 0))"

lemma queue_loop_spec:
  assumes rep: "clock_rep s"
  shows "a + n = FRAME_SIZE \<Longrightarrow> n \<noteq> 0 \<Longrightarrow>
    (case queue_loop s p a n of None \<Rightarrow> \<forall>i. a \<le> i \<and> i < FRAME_SIZE \<longrightarrow> clock_frame s ! i \<noteq> p
     | Some b \<Rightarrow> b < FRAME_SIZE \<and> clock_frame s ! b = p)"
proof (induction n arbitrary: a)
  case (Suc n)
  then have a: "a < FRAME_SIZE" by simp
  then have f: "c_page_num s a = clock_frame s ! a" "c_next s a = (a + 1) mod FRAME_SIZE"
    using rep by (auto simp: clock_rep_def)
  show ?case
  proof (cases "n = 0 \<or> clock_frame s ! a = p")
    case True
    then show ?thesis using f a Suc.prems by (cases "clock_frame s ! a = p") (auto dest!: le_less_Suc_eq)
  next
    case False
    then have "c_next s a = Suc a" using f(2) Suc.prems by simp
    moreover have "a \<le> i \<longleftrightarrow> i = a \<or> Suc a \<le> i" for i by auto
    ultimately show ?thesis using Suc.IH [of "Suc a"] Suc.prems f False by (auto split: option.splits)
  qed
qed simp

lemma queue_search:
  assumes rep: "clock_rep s"
  obtains "p \<notin> set (clock_frame s)" "queue_loop s p (c_head s) FRAME_SIZE = None"
  | b where "p \<in> set (clock_frame s)" "b < FRAME_SIZE" "clock_frame s ! b = p" "queue_loop s p (c_head s) FRAME_SIZE = Some b"
proof -
  have len: "length (clock_frame s) = FRAME_SIZE" "c_head s = 0" using rep by (auto simp: clock_rep_def frames_ok_def)
  show thesis
    using queue_loop_spec [OF rep, of 0 FRAME_SIZE p] FRAME_SIZE_pos that len
    by (cases "queue_loop s p (c_head s) FRAME_SIZE") (auto simp: in_set_conv_nth)
qed

text \<open>The clock hand passes the frames with reference bit 1, clearing them, and stops at the first bit 0.\<close>

definition passes :: "clock \<Rightarrow> nat \<Rightarrow> clock" where
  "passes s n = s\<lparr>clock_pointer := (clock_pointer s + n) mod FRAME_SIZE,
     reference_bit := (\<lambda>i. if \<exists>k < n. i = (clock_pointer s + k) mod FRAME_SIZE then 0 else reference_bit s i)\<rparr>"

lemma passes_step:
  assumes "clock_rep s"
  shows "passes (s\<lparr>reference_bit := (reference_bit s)(clock_pointer s := 0), clock_pointer := c_next s (clock_pointer s)\<rparr>) n =
    passes s (Suc n)" (is "passes ?s n = _")
proof -
  have cp: "clock_pointer s < FRAME_SIZE" "c_next s (clock_pointer s) = (clock_pointer s + 1) mod FRAME_SIZE"
    using assms by (auto simp: clock_rep_def)
  have "(\<exists>k < Suc n. i = (clock_pointer s + k) mod FRAME_SIZE) \<longleftrightarrow>
      i = clock_pointer s \<or> (\<exists>k < n. i = ((clock_pointer s + 1) mod FRAME_SIZE + k) mod FRAME_SIZE)" for i
    using cp(1) by (auto simp: Ex_less_Suc2 mod_simps)
  then show ?thesis using cp(2) by (intro clock.equality) (auto simp: passes_def fun_eq_iff mod_simps)
qed

lemma clock_loop_passes:
  "clock_rep s \<Longrightarrow> \<forall>k < n. reference_bit s ((clock_pointer s + k) mod FRAME_SIZE) \<noteq> 0 \<Longrightarrow> n < FRAME_SIZE \<Longrightarrow>
   reference_bit s ((clock_pointer s + n) mod FRAME_SIZE) = 0 \<Longrightarrow> clock_loop s = Some (passes s n)"
proof (induction n arbitrary: s)
  case 0
  then have "clock_pointer s < FRAME_SIZE" by (simp add: clock_rep_def)
  with 0 show ?case by (subst clock_loop.simps) (simp add: passes_def)
next
  case (Suc n)
  let ?s = "s\<lparr>reference_bit := (reference_bit s)(clock_pointer s := 0), clock_pointer := c_next s (clock_pointer s)\<rparr>"
  have cp: "clock_pointer s < FRAME_SIZE" "c_next s (clock_pointer s) = (clock_pointer s + 1) mod FRAME_SIZE"
    using Suc.prems(1) by (auto simp: clock_rep_def)
  have bit: "reference_bit s (clock_pointer s) \<noteq> 0" using Suc.prems(2) cp(1) by fastforce
  have far: "(clock_pointer s + Suc k) mod FRAME_SIZE \<noteq> clock_pointer s" if "k \<le> n" for k
    using mod_window [of "clock_pointer s + Suc k" "clock_pointer s" FRAME_SIZE] that Suc.prems(3) cp(1) by auto
  have "clock_loop ?s = Some (passes ?s n)"
  proof (rule Suc.IH)
    show "clock_rep ?s" using Suc.prems(1) FRAME_SIZE_pos cp by (auto simp: clock_rep_def)
    show "\<forall>k < n. reference_bit ?s ((clock_pointer ?s + k) mod FRAME_SIZE) \<noteq> 0"
      using Suc.prems(2) far cp(2) by (auto simp: mod_simps)
    show "reference_bit ?s ((clock_pointer ?s + n) mod FRAME_SIZE) = 0"
      using Suc.prems(4) cp(2) by (simp add: mod_simps)
  qed (use Suc.prems in simp)
  then show ?case using passes_step [OF Suc.prems(1), of n] bit by (subst clock_loop.simps) simp
qed

lemma clock_loop_ends:
  assumes "clock_rep s"
  obtains n where "n \<le> FRAME_SIZE" "\<forall>k < n. reference_bit s ((clock_pointer s + k) mod FRAME_SIZE) \<noteq> 0"
    "clock_loop s = Some (passes s n)"
    "n < FRAME_SIZE \<longrightarrow> reference_bit s ((clock_pointer s + n) mod FRAME_SIZE) = 0"
proof (cases "\<exists>n < FRAME_SIZE. reference_bit s ((clock_pointer s + n) mod FRAME_SIZE) = 0")
  case True
  define n where "n = (LEAST n. n < FRAME_SIZE \<and> reference_bit s ((clock_pointer s + n) mod FRAME_SIZE) = 0)"
  have n: "n < FRAME_SIZE" "reference_bit s ((clock_pointer s + n) mod FRAME_SIZE) = 0"
    using LeastI_ex [OF True] by (simp_all add: n_def)
  have "\<forall>k < n. reference_bit s ((clock_pointer s + k) mod FRAME_SIZE) \<noteq> 0"
  proof (intro allI impI)
    fix k assume k: "k < n"
    then show "reference_bit s ((clock_pointer s + k) mod FRAME_SIZE) \<noteq> 0"
      using n(1) not_less_Least [of k "\<lambda>n. n < FRAME_SIZE \<and> reference_bit s ((clock_pointer s + n) mod FRAME_SIZE) = 0"]
      by (simp add: n_def)
  qed
  then show thesis using that [of n] n clock_loop_passes [OF assms _ n] by simp
next
  case False
  obtain m where m: "FRAME_SIZE = Suc m" using FRAME_SIZE_pos gr0_conv_Suc by blast
  have cp: "clock_pointer s < FRAME_SIZE" "c_next s (clock_pointer s) = (clock_pointer s + 1) mod FRAME_SIZE"
    using assms by (auto simp: clock_rep_def)
  let ?s = "s\<lparr>reference_bit := (reference_bit s)(clock_pointer s := 0), clock_pointer := c_next s (clock_pointer s)\<rparr>"
  have bit: "reference_bit s (clock_pointer s) \<noteq> 0" using False cp(1) FRAME_SIZE_pos by fastforce
  have "clock_loop ?s = Some (passes ?s m)"
  proof (rule clock_loop_passes)
    show "clock_rep ?s" using assms FRAME_SIZE_pos cp by (auto simp: clock_rep_def)
    show "m < FRAME_SIZE" by (simp add: m)
    have "(clock_pointer s + 1 + k) mod FRAME_SIZE \<noteq> clock_pointer s" if "k < m" for k
      using mod_window [of "clock_pointer s + 1 + k" "clock_pointer s" FRAME_SIZE] that cp(1) by (auto simp: m)
    then show "\<forall>k < m. reference_bit ?s ((clock_pointer ?s + k) mod FRAME_SIZE) \<noteq> 0"
      using False cp(2) by (auto simp: mod_simps) (metis Suc_less_eq add_Suc_right m)
    have eq: "clock_pointer s + 1 + m = clock_pointer s + FRAME_SIZE" by (simp add: m)
    have "(clock_pointer s + 1 + m) mod FRAME_SIZE = clock_pointer s" unfolding eq using cp(1) by simp
    then show "reference_bit ?s ((clock_pointer ?s + m) mod FRAME_SIZE) = 0" using cp(2) by (simp add: mod_simps)
  qed
  then have "clock_loop s = Some (passes s FRAME_SIZE)"
    using passes_step [OF assms, of m] bit by (subst clock_loop.simps) (simp add: m)
  then show thesis using that [of FRAME_SIZE] False by auto
qed

text \<open>One reference: a hit sets the bit; a fault replaces the first frame with bit 0 from the clock hand on.\<close>

lemma Second_Chance_step_spec:
  assumes rep: "clock_rep s" and p: "0 \<le> p"
  obtains b where "p \<in> set (clock_frame s)" "b < FRAME_SIZE" "clock_frame s ! b = p"
      "Second_Chance_step s p = Inr (s\<lparr>reference_bit := (reference_bit s)(b := 1)\<rparr>, False)"
  | n v s' where "p \<notin> set (clock_frame s)" "n \<le> FRAME_SIZE" "v = (clock_pointer s + n) mod FRAME_SIZE"
      "\<forall>k < n. reference_bit s ((clock_pointer s + k) mod FRAME_SIZE) \<noteq> 0"
      "n < FRAME_SIZE \<longrightarrow> reference_bit s v = 0" "Second_Chance_step s p = Inr (s', True)"
      "s' = (passes s n)\<lparr>clock_frame := (clock_frame s)[v := p], c_page_num := (c_page_num s)(v := p),
         reference_bit := (reference_bit (passes s n))(v := 1), clock_pointer := (v + 1) mod FRAME_SIZE\<rparr>"
proof (rule queue_search [OF rep, of p])
  fix b assume "p \<in> set (clock_frame s)" "b < FRAME_SIZE" "clock_frame s ! b = p"
    "queue_loop s p (c_head s) FRAME_SIZE = Some b"
  then show thesis by (intro that(1) [of b]) (simp_all add: Second_Chance_step_def)
next
  assume q: "p \<notin> set (clock_frame s)" "queue_loop s p (c_head s) FRAME_SIZE = None"
  obtain n where n: "n \<le> FRAME_SIZE" "\<forall>k < n. reference_bit s ((clock_pointer s + k) mod FRAME_SIZE) \<noteq> 0"
    "clock_loop s = Some (passes s n)" "n < FRAME_SIZE \<longrightarrow> reference_bit s ((clock_pointer s + n) mod FRAME_SIZE) = 0"
    by (rule clock_loop_ends [OF rep])
  let ?v = "(clock_pointer s + n) mod FRAME_SIZE"
  have v: "?v < FRAME_SIZE" using FRAME_SIZE_pos by simp
  then have "c_page_index s ?v = ?v" "c_next s ?v = (?v + 1) mod FRAME_SIZE" "length (clock_frame s) = FRAME_SIZE"
    using rep by (auto simp: clock_rep_def frames_ok_def)
  then have "Second_Chance_step s p = Inr ((passes s n)\<lparr>clock_frame := (clock_frame s)[?v := p],
      c_page_num := (c_page_num s)(?v := p), reference_bit := (reference_bit (passes s n))(?v := 1),
      clock_pointer := (?v + 1) mod FRAME_SIZE\<rparr>, True)"
    using q(2) n(3) v by (simp add: Second_Chance_step_def Let_def array_set_def) (simp add: passes_def)
  then show thesis using that(2) [OF q(1) n(1) refl n(2,4)] by blast
qed

definition second_chance_effect :: "clock \<Rightarrow> int \<Rightarrow> clock \<Rightarrow> bool \<Rightarrow> bool" where
  "second_chance_effect s p s' fault \<longleftrightarrow> (fault \<longleftrightarrow> p \<notin> set (clock_frame s)) \<and>
     (if fault then
        \<exists>n v. n \<le> FRAME_SIZE \<and> v = (clock_pointer s + n) mod FRAME_SIZE \<and>
          (\<forall>k < n. reference_bit s ((clock_pointer s + k) mod FRAME_SIZE) \<noteq> 0) \<and>
          (n < FRAME_SIZE \<longrightarrow> reference_bit s v = 0) \<and>
          clock_frame s' = (clock_frame s)[v := p] \<and> clock_pointer s' = (v + 1) mod FRAME_SIZE \<and>
          reference_bit s' = (reference_bit (passes s n))(v := 1)
      else clock_frame s' = clock_frame s \<and> clock_pointer s' = clock_pointer s \<and>
        (\<exists>b < FRAME_SIZE. clock_frame s ! b = p \<and> reference_bit s' = (reference_bit s)(b := 1)))"

lemma Second_Chance_step_rep:
  assumes rep: "clock_rep s" and p: "0 \<le> p"
  shows "\<exists>s' fault. Second_Chance_step s p = Inr (s', fault) \<and> clock_rep s' \<and> second_chance_effect s p s' fault"
proof (rule Second_Chance_step_spec [OF rep p])
  fix b assume b: "p \<in> set (clock_frame s)" "b < FRAME_SIZE" "clock_frame s ! b = p"
      "Second_Chance_step s p = Inr (s\<lparr>reference_bit := (reference_bit s)(b := 1)\<rparr>, False)"
  then show ?thesis using rep by (auto simp: clock_rep_def second_chance_effect_def)
next
  fix n v s' assume m: "p \<notin> set (clock_frame s)" "n \<le> FRAME_SIZE" "v = (clock_pointer s + n) mod FRAME_SIZE"
      "\<forall>k < n. reference_bit s ((clock_pointer s + k) mod FRAME_SIZE) \<noteq> 0"
      "n < FRAME_SIZE \<longrightarrow> reference_bit s v = 0" "Second_Chance_step s p = Inr (s', True)"
      "s' = (passes s n)\<lparr>clock_frame := (clock_frame s)[v := p], c_page_num := (c_page_num s)(v := p),
         reference_bit := (reference_bit (passes s n))(v := 1), clock_pointer := (v + 1) mod FRAME_SIZE\<rparr>"
  have v: "v < FRAME_SIZE" using m(3) FRAME_SIZE_pos by simp
  have "frames_ok ((clock_frame s)[v := p])" "length (clock_frame s) = FRAME_SIZE"
    using rep frames_ok_load [OF _ m(1) v] by (auto simp: clock_rep_def frames_ok_def [of "clock_frame s"])
  then have "clock_rep s'" using rep v FRAME_SIZE_pos unfolding m(7) by (auto simp: clock_rep_def passes_def nth_list_update)
  moreover have "second_chance_effect s p s' True"
    unfolding second_chance_effect_def using m by (auto intro!: exI [of _ n])
  ultimately show ?thesis using m(6) by blast
qed

lemma Second_Chance_step_inv:
  assumes inv: "clock_inv s" and p: "0 \<le> p"
  shows "\<exists>s' fault. Second_Chance_step s p = Inr (s', fault) \<and> clock_inv s' \<and>
    frames_step (clock_frame s) p fault (clock_frame s')"
proof -
  have rep: "clock_rep s" using inv by (simp add: clock_inv_def)
  then have len: "length (clock_frame s) = FRAME_SIZE" and cp: "clock_pointer s < FRAME_SIZE"
    by (auto simp: clock_rep_def frames_ok_def)
  obtain s' fault where st: "Second_Chance_step s p = Inr (s', fault)" "clock_rep s'" "second_chance_effect s p s' fault"
    using Second_Chance_step_rep [OF rep p] by blast
  have flt: "fault \<longleftrightarrow> p \<notin> set (clock_frame s)" using st(3) by (simp add: second_chance_effect_def)
  show ?thesis
  proof (cases fault)
    case False
    with st(3) obtain b where b: "b < FRAME_SIZE" "clock_frame s ! b = p" "clock_frame s' = clock_frame s"
      "clock_pointer s' = clock_pointer s" "reference_bit s' = (reference_bit s)(b := 1)"
      by (auto simp: second_chance_effect_def)
    have "clock_inv s'" using inv st(2) b p by (auto simp: clock_inv_def)
    then show ?thesis using st(1) flt b False by (auto simp: frames_step_def)
  next
    case True
    with st(3) obtain n v where m: "n \<le> FRAME_SIZE" "v = (clock_pointer s + n) mod FRAME_SIZE"
      "\<forall>k < n. reference_bit s ((clock_pointer s + k) mod FRAME_SIZE) \<noteq> 0"
      "clock_frame s' = (clock_frame s)[v := p]" "clock_pointer s' = (v + 1) mod FRAME_SIZE"
      "reference_bit s' = (reference_bit (passes s n))(v := 1)" by (auto simp: second_chance_effect_def)
    have v: "v < FRAME_SIZE" using m(2) FRAME_SIZE_pos by simp
    show ?thesis
    proof (cases "-1 \<in> set (clock_frame s)")
      case empty: True
      then have z: "clock_frame s ! clock_pointer s = -1" "reference_bit s (clock_pointer s) = 0"
        "\<forall>i < FRAME_SIZE. clock_frame s ! i = -1 \<longleftrightarrow> clock_pointer s \<le> i"
        "\<forall>i < FRAME_SIZE. clock_pointer s \<le> i \<longrightarrow> reference_bit s i = 0" using inv by (auto simp: clock_inv_def)
      have n: "n = 0"
      proof (rule ccontr)
        assume "n \<noteq> 0"
        then have "reference_bit s ((clock_pointer s + 0) mod FRAME_SIZE) \<noteq> 0" using m(3) by blast
        then show False using z(2) cp by simp
      qed
      have vp: "v = clock_pointer s" using m(2) n cp by simp
      have r: "reference_bit s' = (reference_bit s)(v := 1)" using m(6) n by (simp add: passes_def)
      have "clock_inv s'"
      proof (cases "Suc v < FRAME_SIZE")
        case True
        then have "clock_pointer s' = Suc v" using m(5) by simp
        then show ?thesis using st(2) z m(4) r vp p len True by (auto simp: clock_inv_def nth_list_update)
      next
        case False
        have "-1 \<notin> set (clock_frame s')"
        proof
          assume "-1 \<in> set (clock_frame s')"
          then obtain i where "i < FRAME_SIZE" "(clock_frame s)[v := p] ! i = -1" using m(4) len by (auto simp: in_set_conv_nth)
          then show False using z(3) vp p len False v by (cases "i = v") auto
        qed
        then show ?thesis using st(2) by (simp add: clock_inv_def)
      qed
      then show ?thesis using st(1) flt True m(4) v vp z(1) by (auto simp: frames_step_def)
    next
      case full: False
      then have "-1 \<notin> set (clock_frame s')" using m(4) p set_update_subset_insert [of "clock_frame s" v p] by auto
      then have "clock_inv s'" using st(2) by (simp add: clock_inv_def)
      then show ?thesis using st(1) flt True m(4) v full by (auto simp: frames_step_def)
    qed
  qed
qed

lemma Second_Chance_init_inv: "clock_inv Second_Chance_init" "clock_frame Second_Chance_init = replicate FRAME_SIZE (-1)"
proof -
  have init: "Second_Chance_init = \<lparr>c_page_num = (\<lambda>_. 0)(0 := -1, 1 := -1, 2 := -1, 3 := -1, 4 := -1),
      c_page_index = (\<lambda>_. 0)(0 := 0, 1 := 1, 2 := 2, 3 := 3, 4 := 4), reference_bit = (\<lambda>_. 0),
      c_next = (\<lambda>_. 0)(0 := 1, 1 := 2, 2 := 3, 3 := 4, 4 := 0), c_head = 0, clock_pointer = 0,
      clock_frame = replicate FRAME_SIZE (-1)\<rparr>"
    by (simp add: Second_Chance_init_def init_PageQueue_def creat_PageNode_Second_Chance_def Let_def init_queue_loop.simps
        FRAME_SIZE_def fun_eq_iff)
  show "clock_frame Second_Chance_init = replicate FRAME_SIZE (-1)" by (simp add: init)
  have "\<forall>i < FRAME_SIZE. c_next Second_Chance_init i = (i + 1) mod FRAME_SIZE \<and> c_page_index Second_Chance_init i = i \<and>
      c_page_num Second_Chance_init i = clock_frame Second_Chance_init ! i \<and> reference_bit Second_Chance_init i \<in> {0, 1}"
  proof (intro allI impI)
    fix i assume "i < FRAME_SIZE"
    then consider "i = 0" | "i = 1" | "i = 2" | "i = 3" | "i = 4" unfolding FRAME_SIZE_def by linarith
    then show "c_next Second_Chance_init i = (i + 1) mod FRAME_SIZE \<and> c_page_index Second_Chance_init i = i \<and>
      c_page_num Second_Chance_init i = clock_frame Second_Chance_init ! i \<and> reference_bit Second_Chance_init i \<in> {0, 1}"
      by cases (simp_all add: init FRAME_SIZE_def)
  qed
  moreover have "frames_ok (clock_frame Second_Chance_init)" by (simp add: init frames_ok_def)
  ultimately show "clock_inv Second_Chance_init" using FRAME_SIZE_pos by (simp add: clock_inv_def clock_rep_def) (simp add: init)
qed

interpretation second: replacement_policy Second_Chance_step clock_frame Second_Chance_init clock_inv
  by unfold_locales (rule Second_Chance_init_inv Second_Chance_step_inv; assumption?)+

section \<open>Properties\<close>

text \<open>
  C9. All four programs handle every reference string of page numbers: a reference faults iff its page is in no
  frame, a fault loads it into one frame (an empty one first) and changes no other, there are at least as many
  faults as different pages, and exactly as many when the pages fit into the frames.
\<close>

theorem replacement_programs_correct:
  assumes "\<forall>r \<in> set refs. 0 \<le> r"
  shows "\<forall>program \<in> {FIFO, LRU_stack, LRU_matrix, Second_Chance}. \<exists>out. program refs = Inr out \<and>
    valid_trace (replicate FRAME_SIZE (-1)) refs out \<and> card (set refs) \<le> faults out \<and>
    (card (set refs) \<le> FRAME_SIZE \<longrightarrow> faults out = card (set refs))"
  using fifo.report_valid [OF assms] stack.policy.report_valid [OF assms] mat.policy.report_valid [OF assms]
    second.report_valid [OF assms]
  by (simp add: FIFO_def LRU_stack_def LRU_matrix_def Second_Chance_def)

text \<open>C10. The linked stack and the matrix are the same policy: they print the same frames and the same faults.\<close>

theorem LRU_stack_matrix_agree:
  assumes "\<forall>r \<in> set refs. 0 \<le> r"
  shows "LRU_stack refs = LRU_matrix refs \<and> (\<exists>out. LRU_stack refs = Inr out)"
  using stack.run_from_start [OF assms] mat.run_from_start [OF assms] by (simp add: LRU_stack_def LRU_matrix_def)

text \<open>LRU keeps exactly the \<open>FRAME_SIZE\<close> most recently used pages.\<close>

theorem LRU_keeps_most_recent:
  assumes "\<forall>r \<in> set refs. 0 \<le> r"
  shows "\<exists>out. LRU_stack refs = Inr out \<and>
    pages (final_frames (replicate FRAME_SIZE (-1)) out) = set (take FRAME_SIZE (recency refs))"
  using stack.run_from_start [OF assms] spec_run_residents [OF lru_ok_start assms]
  by (simp add: LRU_stack_def recency_def)

text \<open>
  FIFO evicts in the order of loading: the frames hold exactly the last \<open>FRAME_SIZE\<close> pages that were loaded,
  the \<open>k\<close>-th load in frame \<open>k mod FRAME_SIZE\<close>.
\<close>

theorem FIFO_keeps_last_loads:
  assumes "\<forall>r \<in> set refs. 0 \<le> r"
  shows "\<exists>out. FIFO refs = Inr out \<and> (let loads = loads_of refs out; fs = final_frames (replicate FRAME_SIZE (-1)) out in
    length loads = faults out \<and>
    (\<forall>k. length loads \<le> k + FRAME_SIZE \<and> k < length loads \<longrightarrow> fs ! (k mod FRAME_SIZE) = loads ! k) \<and>
    (\<forall>i. length loads \<le> i \<and> i < FRAME_SIZE \<longrightarrow> fs ! i = -1))"
proof -
  obtain out where out: "FIFO refs = Inr out" "valid_trace (replicate FRAME_SIZE (-1)) refs out"
    using fifo.report_valid [OF assms] by (auto simp: FIFO_def)
  have "valid_trace fs rs out \<Longrightarrow> length (loads_of rs out) = faults out" for fs rs out
    by (induction rs out arbitrary: fs rule: loads_of.induct) (auto simp: faults_def neq_Nil_conv split: list.splits)
  then have "length (loads_of refs out) = faults out" using out(2) by blast
  moreover obtain s' where "fifo_inv s' (loads_of refs out)" "final_frames (replicate FRAME_SIZE (-1)) out = fifo_frame s'"
    using FIFO_run_inv [OF FIFO_init_inv assms] out(1) by (auto simp: FIFO_def FIFO_init_def)
  ultimately show ?thesis using out(1) by (simp add: Let_def fifo_inv_def)
qed

text \<open>
  C11. Second chance: in every state of the clock a reference is handled; the hand stops after at most one round, clears
  the bits of the frames it passes, and the victim is the first frame from the hand on whose bit is 0.
\<close>

theorem Second_Chance_victim:
  assumes "clock_inv s" "0 \<le> p"
  shows "\<exists>s' fault. Second_Chance_step s p = Inr (s', fault) \<and> clock_inv s' \<and> second_chance_effect s p s' fault"
proof -
  have "clock_rep s" using assms(1) by (simp add: clock_inv_def)
  then show ?thesis using Second_Chance_step_rep [OF _ assms(2)] Second_Chance_step_inv [OF assms] by fastforce
qed

section \<open>Witnesses\<close>

definition sample_refs :: "int list" where
  "sample_refs = [7, 0, 1, 2, 0, 3, 0, 4, 2, 3, 0, 3, 5, 6, 7, 8, 0, 0, 1, 2]"

lemma sample_refs_pages: "\<forall>r \<in> set sample_refs. 0 \<le> r"
  by (simp add: sample_refs_def)

theorem replacement_programs_correct_witness:
  "\<exists>out. LRU_matrix sample_refs = Inr out \<and> valid_trace (replicate FRAME_SIZE (-1)) sample_refs out"
  using replacement_programs_correct [OF sample_refs_pages] by auto

theorem LRU_stack_matrix_agree_witness:
  "LRU_stack sample_refs = LRU_matrix sample_refs"
  using LRU_stack_matrix_agree [OF sample_refs_pages] by simp

theorem LRU_keeps_most_recent_witness:
  "\<exists>out. LRU_stack sample_refs = Inr out \<and>
     pages (final_frames (replicate FRAME_SIZE (-1)) out) = {2, 1, 0, 8, 7}"
proof -
  have "take FRAME_SIZE (recency sample_refs) = [2, 1, 0, 8, 7]"
    by (simp add: recency_def sample_refs_def FRAME_SIZE_def)
  then show ?thesis using LRU_keeps_most_recent [OF sample_refs_pages] by simp
qed

theorem FIFO_keeps_last_loads_witness:
  "\<exists>out. FIFO sample_refs = Inr out \<and> length (loads_of sample_refs out) = faults out"
  using FIFO_keeps_last_loads [OF sample_refs_pages] by (auto simp: Let_def)

theorem Second_Chance_victim_witness:
  "\<exists>s' fault. Second_Chance_step Second_Chance_init 3 = Inr (s', fault) \<and> clock_inv s' \<and> second_chance_effect Second_Chance_init 3 s' fault"
  using Second_Chance_victim [OF Second_Chance_init_inv(1), of 3] by simp

end
