(* ===== verification/Scheduler.thy ===== *)
theory Scheduler
  imports Prelude
begin

text \<open>
  The task scheduler of \<open>Labweek16/scheduler.c\<close>: its state, and the ready queue with the five policies. The queue
  is a singly linked list of task nodes: a node is an address and its fields are maps from addresses. The threads and the
  signals between them are in \<open>Scheduler_Threads\<close>.
\<close>

section \<open>State\<close>

definition STATUS_RUNNING :: int where "STATUS_RUNNING = 1"
definition STATUS_READY :: int where "STATUS_READY = 2"
definition STATUS_WAITING :: int where "STATUS_WAITING = 3"

datatype policy = FCFS | SJF_PEM | SJF_NOT_PEM | PRIORITY_PEM | PRIORITY_NOT_PEM

text \<open>
  Where the thread of a task is in \<open>task_runner\<close>, one program point for every access to what the threads share. In
  \<open>add_task\<close>: before the lock, at the test of the head and \<open>SIGUSR1\<close>, at the status of the head, at its own status, at the
  insertion, at \<open>SIGUSR2\<close>, at the unlock. Then \<open>sem_wait\<close>: not yet blocked, and blocked; the \<open>nanosleep\<close> loop. In
  \<open>delete_task\<close>: before the lock, at the unlinking of the head, at \<open>free\<close>, at \<open>SIGCONT\<close>, at the unlock. Then the load
  and the store of \<open>finished_task++\<close>, and the exit.
\<close>

datatype location =
    Arriving | Stopping | Readying | Marking | Inserting | Calling | Releasing
  | Before_sem | In_sem | Executing
  | Ending | Unlinking | Freeing nat | Waking | Leaving
  | Counting | Adding nat | Finished

text \<open>
  The handler of the scheduler thread reads \<open>sched.head\<close> again for each use of it. A use is two steps, since the queue
  may change in between: the load of the pointer, and the access to the node.
\<close>

datatype access = Test_waiting | Set_ready | Set_running | Post | Show | Test_ready | Resume | Continue

datatype schedule_loc = Spinning | Load access | Use access nat | Exited

text \<open>
  The fields of the nodes, which of them have not been freed, the scheduler; then the threads: the holder of the mutex,
  where each task thread is, whether it is inside the \<open>sigsuspend\<close> of its handler, the signals that are pending for it, and
  the scheduler thread with its pending \<open>SIGUSR2\<close>.
\<close>

record sched =
  WCT :: "nat \<Rightarrow> int"
  priority :: "nat \<Rightarrow> int"
  schedule_status :: "nat \<Rightarrow> int"
  nxt :: "nat \<Rightarrow> nat option"
  wait_sem :: "nat \<Rightarrow> nat"
  live :: "nat \<Rightarrow> bool"
  head :: "nat option"
  finished_task :: nat
  sched_mutex :: "nat option"
  loc :: "nat \<Rightarrow> location"
  suspended :: "nat \<Rightarrow> bool"
  sigusr1 :: "nat \<Rightarrow> bool"
  sigcont :: "nat \<Rightarrow> bool"
  sigusr2 :: bool
  schedule_at :: schedule_loc

section \<open>Inserting into the queue\<close>

partial_function (option) last_loop :: "sched \<Rightarrow> nat \<Rightarrow> nat option" where
  "last_loop s cur_node =
     (case nxt s cur_node of None \<Rightarrow> Some cur_node | Some b \<Rightarrow> last_loop s b)"

declare last_loop.simps [code]

definition fcfs :: "sched \<Rightarrow> nat \<Rightarrow> sched outcome" where
  "fcfs s new_node =
     (case head s of
        None \<Rightarrow> Inr (s\<lparr>head := Some new_node\<rparr>)
      | Some h \<Rightarrow> andThen (loop_result (last_loop s h)) (\<lambda>cur_node.
          Inr (s\<lparr>nxt := (nxt s)(cur_node := Some new_node)\<rparr>)))"

text \<open>The loop of the four sorted policies: the last node passed and the first node that stops it.\<close>

partial_function (option) place_loop ::
  "sched \<Rightarrow> (nat \<Rightarrow> bool) \<Rightarrow> nat option \<Rightarrow> nat option \<Rightarrow> (nat option \<times> nat option) option" where
  "place_loop s goes_first pre_node cur_node =
     (case cur_node of
        None \<Rightarrow> Some (pre_node, None)
      | Some c \<Rightarrow> (if goes_first c then place_loop s goes_first cur_node (nxt s c) else Some (pre_node, cur_node)))"

declare place_loop.simps [code]

definition link_between :: "sched \<Rightarrow> nat \<Rightarrow> nat option \<Rightarrow> nat option \<Rightarrow> sched outcome" where
  "link_between s new_node pre_node cur_node =
     andThen (deref pre_node) (\<lambda>p.
       let s1 = s\<lparr>nxt := (nxt s)(p := Some new_node)\<rparr>
       in Inr (s1\<lparr>nxt := (nxt s1)(new_node := cur_node)\<rparr>))"

definition sjf_pem :: "sched \<Rightarrow> nat \<Rightarrow> sched outcome" where
  "sjf_pem s new_node =
     (case head s of
        None \<Rightarrow> Inr (s\<lparr>head := Some new_node\<rparr>)
      | Some h \<Rightarrow>
          if WCT s new_node < WCT s h
          then Inr (s\<lparr>nxt := (nxt s)(new_node := head s), head := Some new_node\<rparr>)
          else andThen (loop_result (place_loop s (\<lambda>c. WCT s new_node \<ge> WCT s c) None (head s))) (\<lambda>(pre_node, cur_node).
                 link_between s new_node pre_node cur_node))"

definition sjf_not_pem :: "sched \<Rightarrow> nat \<Rightarrow> sched outcome" where
  "sjf_not_pem s new_node =
     (case head s of
        None \<Rightarrow> Inr (s\<lparr>head := Some new_node\<rparr>)
      | Some h \<Rightarrow>
          andThen (loop_result (place_loop s (\<lambda>c. WCT s new_node \<ge> WCT s c) (head s) (nxt s h))) (\<lambda>(pre_node, cur_node).
            link_between s new_node pre_node cur_node))"

definition priority_pem :: "sched \<Rightarrow> nat \<Rightarrow> sched outcome" where
  "priority_pem s new_node =
     (case head s of
        None \<Rightarrow> Inr (s\<lparr>head := Some new_node\<rparr>)
      | Some h \<Rightarrow>
          if priority s new_node > priority s h
          then Inr (s\<lparr>nxt := (nxt s)(new_node := head s), head := Some new_node\<rparr>)
          else andThen (loop_result (place_loop s (\<lambda>c. priority s new_node \<le> priority s c) None (head s))) (\<lambda>(pre_node, cur_node).
                 link_between s new_node pre_node cur_node))"

definition priority_not_pem :: "sched \<Rightarrow> nat \<Rightarrow> sched outcome" where
  "priority_not_pem s new_node =
     (case head s of
        None \<Rightarrow> Inr (s\<lparr>head := Some new_node\<rparr>)
      | Some h \<Rightarrow>
          andThen (loop_result (place_loop s (\<lambda>c. priority s new_node \<le> priority s c) (head s) (nxt s h))) (\<lambda>(pre_node, cur_node).
            link_between s new_node pre_node cur_node))"

definition insert_task :: "policy \<Rightarrow> sched \<Rightarrow> nat \<Rightarrow> sched outcome" where
  "insert_task sched_policy s node =
     (case sched_policy of
        FCFS \<Rightarrow> fcfs s node
      | SJF_PEM \<Rightarrow> sjf_pem s node
      | SJF_NOT_PEM \<Rightarrow> sjf_not_pem s node
      | PRIORITY_PEM \<Rightarrow> priority_pem s node
      | PRIORITY_NOT_PEM \<Rightarrow> priority_not_pem s node)"

section \<open>The tasks of a run\<close>

text \<open>The node as \<open>creat_thread_node\<close> makes it, and the thread that runs it.\<close>

definition creat_thread_node :: "sched \<Rightarrow> nat \<Rightarrow> int \<Rightarrow> int \<Rightarrow> sched" where
  "creat_thread_node s t wct prio =
     s\<lparr>WCT := (WCT s)(t := wct), priority := (priority s)(t := prio), nxt := (nxt s)(t := None),
       wait_sem := (wait_sem s)(t := 0), live := (live s)(t := True), loc := (loc s)(t := Arriving)\<rparr>"

definition init_scheduler :: sched where
  "init_scheduler =
     \<lparr>WCT = (\<lambda>_. 0), priority = (\<lambda>_. 0), schedule_status = (\<lambda>_. 0), nxt = (\<lambda>_. None), wait_sem = (\<lambda>_. 0),
      live = (\<lambda>_. False), head = None, finished_task = 0, sched_mutex = None, loc = (\<lambda>_. Finished),
      suspended = (\<lambda>_. False), sigusr1 = (\<lambda>_. False), sigcont = (\<lambda>_. False), sigusr2 = False, schedule_at = Spinning\<rparr>"

text \<open>
  The tasks of a run are created one by one. A task that is still to be created is like one that has not arrived: nothing
  refers to its node.
\<close>

fun create_tasks :: "sched \<Rightarrow> nat \<Rightarrow> (int \<times> int) list \<Rightarrow> sched" where
  "create_tasks s t [] = s"
| "create_tasks s t ((wct, prio) # ts) = create_tasks (creat_thread_node s t wct prio) (t + 1) ts"

text \<open>
  The start of a run of \<open>cal_aver_wait_time\<close>: the queue is empty, and the runs of the policies before it have counted
  some finished tasks.
\<close>

definition tasks :: "nat \<Rightarrow> (int \<times> int) list \<Rightarrow> sched" where
  "tasks done_tasks ts = create_tasks (init_scheduler\<lparr>finished_task := done_tasks\<rparr>) 0 ts"

section \<open>The queue as a list\<close>

fun chain :: "(nat \<Rightarrow> nat option) \<Rightarrow> nat option \<Rightarrow> nat list \<Rightarrow> bool" where
  "chain nx p [] \<longleftrightarrow> p = None"
| "chain nx p (x # xs) \<longleftrightarrow> p = Some x \<and> chain nx (nx x) xs"

definition first_of :: "nat list \<Rightarrow> nat option" where
  "first_of q = (case q of [] \<Rightarrow> None | x # xs \<Rightarrow> Some x)"

lemma chain_first: "chain nx p q \<Longrightarrow> p = first_of q"
  by (cases q) (auto simp: first_of_def)

lemma chain_frame: "chain nx p q \<Longrightarrow> \<forall>x \<in> set q. nx' x = nx x \<Longrightarrow> chain nx' p q"
  by (induction q arbitrary: p) auto

lemma chain_append:
  "chain nx p (xs @ y # ys) \<longleftrightarrow>
     (if xs = [] then p = Some y else chain (nx(last xs := None)) p xs \<and> nx (last xs) = Some y) \<and> chain nx (nx y) ys"
  if "distinct xs"
  using that
proof (induction xs arbitrary: p)
  case (Cons x xs)
  show ?case
  proof (cases "xs = []")
    case False
    then have "last xs \<noteq> x" using Cons.prems by auto
    then show ?thesis using Cons False by auto
  qed auto
qed simp

text \<open>Inserting after the longest prefix whose nodes go first.\<close>

definition place :: "(nat \<Rightarrow> bool) \<Rightarrow> nat \<Rightarrow> nat list \<Rightarrow> nat list" where
  "place P n q = takeWhile P q @ n # dropWhile P q"

lemma last_loop_chain: "chain (nxt s) (nxt s h) q \<Longrightarrow> last_loop s h = Some (last (h # q))"
proof (induction q arbitrary: h)
  case Nil
  then show ?case by (subst last_loop.simps) simp
next
  case (Cons x q)
  then show ?case by (subst last_loop.simps) simp
qed

lemma place_loop_chain:
  "chain (nxt s) p q \<Longrightarrow> place_loop s P pr p =
     Some (if takeWhile P q = [] then pr else Some (last (takeWhile P q)), first_of (dropWhile P q))"
proof (induction q arbitrary: p pr)
  case Nil
  then show ?case by (subst place_loop.simps) (simp add: first_of_def)
next
  case (Cons x q)
  then show ?case by (subst place_loop.simps) (auto simp: first_of_def)
qed

lemma chain_last_None: "chain nx p xs \<Longrightarrow> xs \<noteq> [] \<Longrightarrow> nx (last xs) = None"
  by (induction xs arbitrary: p) auto

text \<open>Splicing a node between two parts of the queue.\<close>

lemma chain_splice:
  assumes "chain nx p (xs @ ys)" "distinct (xs @ ys)" "n \<notin> set (xs @ ys)" "xs \<noteq> []"
  shows "chain ((nx(last xs := Some n))(n := first_of ys)) p (xs @ n # ys)"
proof -
  let ?nx = "(nx(last xs := Some n))(n := first_of ys)"
  have lx: "last xs \<in> set xs" "last xs \<noteq> n" using assms(3,4) by auto
  have ys: "chain nx (first_of ys) ys"
  proof (cases ys)
    case (Cons y zs)
    then show ?thesis using assms(1,2) by (simp add: chain_append first_of_def)
  qed (simp add: first_of_def)
  have "chain ?nx (first_of ys) ys" by (rule chain_frame [OF ys]) (use assms(2,3) lx in auto)
  moreover have "chain (?nx(last xs := None)) p xs"
  proof -
    have "chain (nx(last xs := None)) p xs"
    proof (cases ys)
      case Nil
      then have c: "chain nx p xs" using assms(1) by simp
      then show ?thesis using chain_last_None [OF c assms(4)] by (simp add: fun_upd_idem)
    qed (use assms(1,2,4) in \<open>simp add: chain_append\<close>)
    then show ?thesis by (rule chain_frame) (use assms(3) in auto)
  qed
  ultimately show ?thesis using assms(2,4) lx by (simp add: chain_append)
qed

text \<open>What each policy does to the queue.\<close>

definition insert_spec :: "policy \<Rightarrow> sched \<Rightarrow> nat \<Rightarrow> nat list \<Rightarrow> nat list" where
  "insert_spec pol s n q =
     (case pol of
        FCFS \<Rightarrow> q @ [n]
      | SJF_PEM \<Rightarrow> place (\<lambda>c. WCT s c \<le> WCT s n) n q
      | SJF_NOT_PEM \<Rightarrow> (case q of [] \<Rightarrow> [n] | h # t \<Rightarrow> h # place (\<lambda>c. WCT s c \<le> WCT s n) n t)
      | PRIORITY_PEM \<Rightarrow> place (\<lambda>c. priority s n \<le> priority s c) n q
      | PRIORITY_NOT_PEM \<Rightarrow> (case q of [] \<Rightarrow> [n] | h # t \<Rightarrow> h # place (\<lambda>c. priority s n \<le> priority s c) n t))"

definition queue_of :: "sched \<Rightarrow> nat list \<Rightarrow> bool" where
  "queue_of s q \<longleftrightarrow> chain (nxt s) (head s) q \<and> distinct q"

lemma queue_of_unfold: "queue_of s q \<Longrightarrow> head s = first_of q \<and> distinct q \<and> (q \<noteq> [] \<longrightarrow> chain (nxt s) (nxt s (hd q)) (tl q))"
  by (cases q) (auto simp: queue_of_def first_of_def)

text \<open>The links after an insertion, and that nothing else has changed.\<close>

definition inserted :: "sched \<Rightarrow> nat \<Rightarrow> nat list \<Rightarrow> sched \<Rightarrow> bool" where
  "inserted s n q' s' \<longleftrightarrow> chain (nxt s') (head s') q' \<and>
     (\<exists>nx hd. s' = s\<lparr>nxt := nx, head := hd\<rparr> \<and> (\<forall>x. x \<notin> set q' \<longrightarrow> nx x = nxt s x))"

lemma insert_first:
  assumes "queue_of s q" "n \<notin> set q" "nxt s n = None"
  shows "q = [] \<Longrightarrow> inserted s n [n] (s\<lparr>head := Some n\<rparr>)"
    and "inserted s n (n # q) (s\<lparr>nxt := (nxt s)(n := head s), head := Some n\<rparr>)"
proof -
  show "inserted s n [n] (s\<lparr>head := Some n\<rparr>)" using assms(3)
    unfolding inserted_def by (auto intro!: exI [of _ "nxt s"] exI [of _ "Some n"])
  have "chain ((nxt s)(n := head s)) (head s) q"
    using assms(1,2) chain_frame [of "nxt s" "head s" q] by (auto simp: queue_of_def)
  then show "inserted s n (n # q) (s\<lparr>nxt := (nxt s)(n := head s), head := Some n\<rparr>)"
    unfolding inserted_def by (auto intro!: exI [of _ "(nxt s)(n := head s)"] exI [of _ "Some n"])
qed

lemma insert_between:
  assumes "queue_of s (xs @ ys)" "n \<notin> set (xs @ ys)" "xs \<noteq> []"
  shows "\<exists>s'. link_between s n (Some (last xs)) (first_of ys) = Inr s' \<and> inserted s n (xs @ n # ys) s'"
proof -
  let ?nx = "((nxt s)(last xs := Some n))(n := first_of ys)"
  have "chain ?nx (head s) (xs @ n # ys)" using chain_splice assms by (simp add: queue_of_def)
  moreover have "last xs \<in> set xs" using assms(3) by simp
  ultimately have "inserted s n (xs @ n # ys) (s\<lparr>nxt := ?nx\<rparr>)"
    unfolding inserted_def by (auto intro!: exI [of _ ?nx] exI [of _ "head s"])
  then show ?thesis by (simp add: link_between_def Let_def)
qed

lemma insert_fcfs:
  assumes "queue_of s q" "n \<notin> set q" "nxt s n = None"
  shows "\<exists>s'. fcfs s n = Inr s' \<and> inserted s n (q @ [n]) s'"
proof (cases q)
  case Nil
  then show ?thesis using insert_first(1) [OF assms] queue_of_unfold [OF assms(1)] by (simp add: fcfs_def first_of_def)
next
  case (Cons h t)
  have "last_loop s h = Some (last q)"
    using last_loop_chain [of s h t] queue_of_unfold [OF assms(1)] Cons by simp
  moreover have "link_between s n (Some (last q)) None = Inr (s\<lparr>nxt := (nxt s)(last q := Some n)\<rparr>)"
  proof -
    have "last q \<noteq> n" using assms(2) Cons by (metis last_in_set list.distinct(1))
    then have "((nxt s)(last q := Some n))(n := None) = (nxt s)(last q := Some n)" using assms(3) by (simp add: fun_upd_idem)
    then show ?thesis by (simp add: link_between_def Let_def)
  qed
  ultimately show ?thesis using insert_between [of s q "[]" n] assms Cons queue_of_unfold [OF assms(1)]
    by (simp add: fcfs_def first_of_def)
qed

lemma insert_place_all:
  assumes "queue_of s q" "n \<notin> set q" "q \<noteq> []" "P (hd q)"
  shows "\<exists>s'. andThen (loop_result (place_loop s P None (head s))) (\<lambda>(pre_node, cur_node).
      link_between s n pre_node cur_node) = Inr s' \<and> inserted s n (place P n q) s'"
proof -
  have "takeWhile P q \<noteq> []" using assms(3,4) by (cases q) auto
  moreover have "place_loop s P None (head s) = Some (Some (last (takeWhile P q)), first_of (dropWhile P q))"
    using place_loop_chain [of s "head s" q P None] assms(1) calculation by (simp add: queue_of_def)
  moreover have "queue_of s (takeWhile P q @ dropWhile P q)" "n \<notin> set (takeWhile P q @ dropWhile P q)"
    using assms by simp_all
  ultimately show ?thesis using insert_between [of s "takeWhile P q" "dropWhile P q" n] by (simp add: place_def)
qed

lemma insert_place_tail:
  assumes "queue_of s (h # t)" "n \<notin> set (h # t)"
  shows "\<exists>s'. andThen (loop_result (place_loop s P (head s) (nxt s h))) (\<lambda>(pre_node, cur_node).
      link_between s n pre_node cur_node) = Inr s' \<and> inserted s n (h # place P n t) s'"
proof -
  have u: "head s = Some h" "chain (nxt s) (nxt s h) t" using queue_of_unfold [OF assms(1)] by (auto simp: first_of_def)
  have "place_loop s P (head s) (nxt s h) = Some (Some (last (h # takeWhile P t)), first_of (dropWhile P t))"
    using place_loop_chain [OF u(2), of P "head s"] u(1) by auto
  moreover have "queue_of s ((h # takeWhile P t) @ dropWhile P t)" "n \<notin> set ((h # takeWhile P t) @ dropWhile P t)"
    using assms by simp_all
  ultimately show ?thesis using insert_between [of s "h # takeWhile P t" "dropWhile P t" n] by (simp add: place_def)
qed

lemma insert_task_inserted:
  assumes "queue_of s q" "n \<notin> set q" "nxt s n = None"
  shows "\<exists>s'. insert_task pol s n = Inr s' \<and> inserted s n (insert_spec pol s n q) s'"
proof (cases "q = []")
  case True
  then have "head s = None" using queue_of_unfold [OF assms(1)] by (simp add: first_of_def)
  then show ?thesis using insert_first(1) [OF assms True] True insert_fcfs [OF assms]
    by (cases pol) (simp_all add: insert_task_def insert_spec_def fcfs_def sjf_pem_def sjf_not_pem_def priority_pem_def
        priority_not_pem_def place_def)
next
  case False
  then obtain h t where q: "q = h # t" by (cases q) auto
  have h: "head s = Some h" using queue_of_unfold [OF assms(1)] by (simp add: q first_of_def)
  note all = insert_place_all [OF assms(1,2) False] and tl = insert_place_tail [OF assms(1,2) [unfolded q]]
  show ?thesis
  proof (cases pol)
    case SJF_PEM
    show ?thesis
    proof (cases "WCT s n < WCT s h")
      case True
      then have "place (\<lambda>c. WCT s c \<le> WCT s n) n q = n # q" by (simp add: place_def q)
      then show ?thesis using insert_first(2) [OF assms] True h by (simp add: insert_task_def insert_spec_def SJF_PEM sjf_pem_def)
    next
      case False
      then show ?thesis using all [of "\<lambda>c. WCT s c \<le> WCT s n"] h
        by (simp add: insert_task_def insert_spec_def SJF_PEM sjf_pem_def q)
    qed
  next
    case PRIORITY_PEM
    show ?thesis
    proof (cases "priority s n > priority s h")
      case True
      then have "place (\<lambda>c. priority s n \<le> priority s c) n q = n # q" by (simp add: place_def q)
      then show ?thesis using insert_first(2) [OF assms] True h
        by (simp add: insert_task_def insert_spec_def PRIORITY_PEM priority_pem_def)
    next
      case False
      then show ?thesis using all [of "\<lambda>c. priority s n \<le> priority s c"] h
        by (simp add: insert_task_def insert_spec_def PRIORITY_PEM priority_pem_def q)
    qed
  qed (use insert_fcfs [OF assms] tl h in \<open>simp_all add: insert_task_def insert_spec_def sjf_not_pem_def priority_not_pem_def q\<close>)
qed

lemma set_place [simp]: "set (place P n q) = insert n (set q)"
  unfolding place_def by (auto dest: set_takeWhileD set_dropWhileD) (metis Un_iff set_append takeWhile_dropWhile_id)

lemma distinct_place: "distinct q \<Longrightarrow> n \<notin> set q \<Longrightarrow> distinct (place P n q)"
  unfolding place_def
  by (auto dest: set_takeWhileD set_dropWhileD) (metis IntI append_Nil2 distinct_append empty_iff takeWhile_dropWhile_id)

lemma insert_spec_set [simp]: "set (insert_spec pol s n q) = insert n (set q)"
  by (cases pol) (auto simp: insert_spec_def split: list.splits)

lemma insert_spec_distinct: "distinct q \<Longrightarrow> n \<notin> set q \<Longrightarrow> distinct (insert_spec pol s n q)"
  by (cases pol) (auto simp: insert_spec_def distinct_place split: list.splits)

lemma length_place [simp]: "length (place P n q) = Suc (length q)"
  unfolding place_def by (simp, metis length_append takeWhile_dropWhile_id)

lemma insert_spec_length [simp]: "length (insert_spec pol s n q) = Suc (length q)"
  by (cases pol) (auto simp: insert_spec_def split: list.splits)

section \<open>Properties\<close>

text \<open>
  C12. The insertion routines work on the linked list as their policies say: FCFS appends; the preemptive policies
  insert behind the last task that goes first; the others do the same behind the running head. They never follow a null
  pointer and always end.
\<close>

theorem insert_task_refines:
  assumes "queue_of s q" "n \<notin> set q" "nxt s n = None"
  shows "\<exists>s'. insert_task pol s n = Inr s' \<and> queue_of s' (insert_spec pol s n q)"
  using insert_task_inserted [OF assms, of pol] insert_spec_distinct [of q n pol s] assms
  by (auto simp: inserted_def queue_of_def)

section \<open>Witnesses\<close>

theorem insert_task_refines_witness:
  "\<exists>s'. insert_task SJF_PEM (tasks 0 [(5, 1), (3, 2)]) 1 = Inr s' \<and> queue_of s' [1]"
proof -
  have "queue_of (tasks 0 [(5, 1), (3, 2)]) []" "nxt (tasks 0 [(5, 1), (3, 2)]) 1 = None"
    by (simp_all add: queue_of_def tasks_def creat_thread_node_def init_scheduler_def)
  then show ?thesis using insert_task_refines [of "tasks 0 [(5, 1), (3, 2)]" "[]" 1 SJF_PEM]
    by (simp add: insert_spec_def place_def)
qed

end
