(* ===== verification/Scheduler_Threads.thy ===== *)
theory Scheduler_Threads
  imports Scheduler
begin

text \<open>
  The threads of \<open>Labweek16/scheduler.c\<close> and the signals between them. A signal that is sent is pending until the thread
  it is sent to handles it; pending signals are handled at any later time and in any order, and the same signal sent twice
  is pending once. The interleavings of the threads and of the deliveries are the runs of a step relation. In each of them
  the queue behaves like the abstract queue of its policy, and the theory says which accesses can go wrong.
\<close>

section \<open>Task threads\<close>

text \<open>An access to a node that may have been freed.\<close>

definition access_node :: "sched \<Rightarrow> nat \<Rightarrow> sched \<Rightarrow> sched outcome" where
  "access_node s p s' = (if live s p then Inr s' else Inl Use_after_free)"

definition pthread_mutex_lock :: "sched \<Rightarrow> nat \<Rightarrow> location \<Rightarrow> sched outcome option" where
  "pthread_mutex_lock s t l =
     (if sched_mutex s = None then Some (Inr (s\<lparr>sched_mutex := Some t, loc := (loc s)(t := l)\<rparr>)) else None)"

definition pthread_mutex_unlock :: "sched \<Rightarrow> nat \<Rightarrow> location \<Rightarrow> sched outcome option" where
  "pthread_mutex_unlock s t l = Some (Inr (s\<lparr>sched_mutex := None, loc := (loc s)(t := l)\<rparr>))"

definition sem_try :: "sched \<Rightarrow> nat \<Rightarrow> sched" where
  "sem_try s t = s\<lparr>wait_sem := (wait_sem s)(t := wait_sem s t - 1), loc := (loc s)(t := Executing)\<rparr>"

text \<open>A step of \<open>add_task\<close> in the thread of task \<open>t\<close>.\<close>

definition add_task :: "policy \<Rightarrow> sched \<Rightarrow> nat \<Rightarrow> sched outcome option" where
  "add_task sched_policy s t =
     (case loc s t of
        Arriving \<Rightarrow> pthread_mutex_lock s t Stopping
      | Stopping \<Rightarrow> Some (case head s of
          None \<Rightarrow> Inr (s\<lparr>loc := (loc s)(t := Marking)\<rparr>)
        | Some h \<Rightarrow> access_node s h (s\<lparr>sigusr1 := (sigusr1 s)(h := True), loc := (loc s)(t := Readying)\<rparr>))
      | Readying \<Rightarrow> Some (andThen (deref (head s)) (\<lambda>h. access_node s h
          (s\<lparr>schedule_status := (schedule_status s)(h := STATUS_READY), loc := (loc s)(t := Marking)\<rparr>)))
      | Marking \<Rightarrow> Some (access_node s t
          (s\<lparr>schedule_status := (schedule_status s)(t := STATUS_WAITING), loc := (loc s)(t := Inserting)\<rparr>))
      | Inserting \<Rightarrow> Some (andThen (insert_task sched_policy s t) (\<lambda>s'. Inr (s'\<lparr>loc := (loc s')(t := Calling)\<rparr>)))
      | Calling \<Rightarrow> Some (Inr (s\<lparr>sigusr2 := True, loc := (loc s)(t := Releasing)\<rparr>))
      | Releasing \<Rightarrow> pthread_mutex_unlock s t Before_sem
      | _ \<Rightarrow> None)"

text \<open>A step of \<open>delete_task\<close>. It works on the head of the queue, whatever task calls it.\<close>

definition delete_task :: "sched \<Rightarrow> nat \<Rightarrow> sched outcome option" where
  "delete_task s t =
     (case loc s t of
        Ending \<Rightarrow> pthread_mutex_lock s t Unlinking
      | Unlinking \<Rightarrow> Some (andThen (deref (head s)) (\<lambda>temp. access_node s temp
          (s\<lparr>head := nxt s temp, loc := (loc s)(t := Freeing temp)\<rparr>)))
      | Freeing temp \<Rightarrow> Some (access_node s temp (s\<lparr>live := (live s)(temp := False), loc := (loc s)(t := Waking)\<rparr>))
      | Waking \<Rightarrow> Some (case head s of
          None \<Rightarrow> Inr (s\<lparr>loc := (loc s)(t := Leaving)\<rparr>)
        | Some h \<Rightarrow> access_node s h (s\<lparr>sigcont := (sigcont s)(h := True), loc := (loc s)(t := Leaving)\<rparr>))
      | Leaving \<Rightarrow> pthread_mutex_unlock s t Counting
      | _ \<Rightarrow> None)"

text \<open>
  A step of \<open>task_runner\<close>. \<open>sem_wait\<close> takes the semaphore at once when it is positive, and blocks otherwise. The
  \<open>nanosleep\<close> loop ends at any time; after it the thread reads \<open>WCT\<close> from its node. \<open>finished_task++\<close> is a load and a
  store outside the mutex. A thread inside \<open>sigsuspend\<close> takes no step.
\<close>

definition task_runner :: "policy \<Rightarrow> sched \<Rightarrow> nat \<Rightarrow> sched outcome option" where
  "task_runner sched_policy s t =
     (if suspended s t then None
      else case loc s t of
        Before_sem \<Rightarrow> Some (access_node s t (if wait_sem s t > 0 then sem_try s t else s\<lparr>loc := (loc s)(t := In_sem)\<rparr>))
      | In_sem \<Rightarrow> (if wait_sem s t > 0 then Some (access_node s t (sem_try s t)) else None)
      | Executing \<Rightarrow> Some (access_node s t (s\<lparr>loc := (loc s)(t := Ending)\<rparr>))
      | Ending \<Rightarrow> delete_task s t
      | Unlinking \<Rightarrow> delete_task s t
      | Freeing temp \<Rightarrow> delete_task s t
      | Waking \<Rightarrow> delete_task s t
      | Leaving \<Rightarrow> delete_task s t
      | Counting \<Rightarrow> Some (Inr (s\<lparr>loc := (loc s)(t := Adding (finished_task s))\<rparr>))
      | Adding v \<Rightarrow> Some (Inr (s\<lparr>finished_task := v + 1, loc := (loc s)(t := Finished)\<rparr>))
      | Finished \<Rightarrow> None
      | _ \<Rightarrow> add_task sched_policy s t)"

section \<open>Signal handlers\<close>

text \<open>
  The handlers are installed without \<open>SA_RESTART\<close>: a thread that is blocked in \<open>sem_wait\<close> when it handles a signal returns
  from it with \<open>EINTR\<close> afterwards, and \<open>task_runner\<close> goes on without looking at the result. A \<open>nanosleep\<close> is
  continued by its loop.
\<close>

definition interrupted :: "location \<Rightarrow> location" where
  "interrupted l = (if l = In_sem then Executing else l)"

text \<open>
  \<open>SIGUSR1\<close>: the handler waits in \<open>sigsuspend\<close>, with no signal blocked. A second \<open>SIGUSR1\<close> finds the thread waiting and
  leaves it waiting.
\<close>

definition thread_wait_sighand :: "sched \<Rightarrow> nat \<Rightarrow> sched outcome option" where
  "thread_wait_sighand s t =
     (if sigusr1 s t \<and> loc s t \<noteq> Finished
      then Some (Inr (s\<lparr>sigusr1 := (sigusr1 s)(t := False), suspended := (suspended s)(t := True),
                       loc := (loc s)(t := interrupted (loc s t))\<rparr>))
      else None)"

text \<open>\<open>SIGCONT\<close>: the handler does nothing, but having handled a signal ends \<open>sigsuspend\<close>.\<close>

definition thread_cont_sighand :: "sched \<Rightarrow> nat \<Rightarrow> sched outcome option" where
  "thread_cont_sighand s t =
     (if sigcont s t \<and> loc s t \<noteq> Finished
      then Some (Inr (s\<lparr>sigcont := (sigcont s)(t := False), suspended := (suspended s)(t := False),
                       loc := (loc s)(t := interrupted (loc s t))\<rparr>))
      else None)"

text \<open>\<open>SIGUSR2\<close>: what the handler does with the node it has loaded, and where it goes on.\<close>

definition use_head :: "sched \<Rightarrow> access \<Rightarrow> nat \<Rightarrow> sched" where
  "use_head s a p =
     (case a of
        Test_waiting \<Rightarrow> s\<lparr>schedule_at := Load (if schedule_status s p = STATUS_WAITING then Set_ready else Test_ready)\<rparr>
      | Set_ready \<Rightarrow> s\<lparr>schedule_status := (schedule_status s)(p := STATUS_READY), schedule_at := Load Set_running\<rparr>
      | Set_running \<Rightarrow> s\<lparr>schedule_status := (schedule_status s)(p := STATUS_RUNNING), schedule_at := Load Post\<rparr>
      | Post \<Rightarrow> s\<lparr>wait_sem := (wait_sem s)(p := wait_sem s p + 1), schedule_at := Load Show\<rparr>
      | Show \<Rightarrow> s\<lparr>schedule_at := Spinning\<rparr>
      | Test_ready \<Rightarrow> s\<lparr>schedule_at := (if schedule_status s p = STATUS_READY then Load Resume else Spinning)\<rparr>
      | Resume \<Rightarrow> s\<lparr>schedule_status := (schedule_status s)(p := STATUS_RUNNING), schedule_at := Load Continue\<rparr>
      | Continue \<Rightarrow> s\<lparr>sigcont := (sigcont s)(p := True), schedule_at := Spinning\<rparr>)"

text \<open>
  A step of the handler in the scheduler thread, which holds no mutex. It starts when the signal is pending and the thread
  is in the loop of \<open>schedule_runner\<close>; the signal is blocked while it runs.
\<close>

definition sched_run_sighand :: "sched \<Rightarrow> sched outcome option" where
  "sched_run_sighand s =
     (case schedule_at s of
        Spinning \<Rightarrow> (if sigusr2 s then Some (Inr (s\<lparr>sigusr2 := False, schedule_at := Load Test_waiting\<rparr>)) else None)
      | Load a \<Rightarrow> Some (andThen (deref (head s)) (\<lambda>p. Inr (s\<lparr>schedule_at := Use a p\<rparr>)))
      | Use a p \<Rightarrow> Some (access_node s p (use_head s a p))
      | Exited \<Rightarrow> None)"

text \<open>\<open>schedule_runner\<close> leaves its loop when the five runs have finished all their tasks.\<close>

definition schedule_runner :: "nat \<Rightarrow> sched \<Rightarrow> sched outcome option" where
  "schedule_runner task_num s =
     (if schedule_at s = Spinning \<and> finished_task s = 5 * task_num then Some (Inr (s\<lparr>schedule_at := Exited\<rparr>)) else None)"

section \<open>Runs\<close>

datatype event = Run nat | Wait_signal nat | Cont_signal nat | Handler | Leave_loop

definition next_state :: "policy \<Rightarrow> nat \<Rightarrow> sched \<Rightarrow> event \<Rightarrow> sched outcome option" where
  "next_state pol task_num s e =
     (case e of
        Run t \<Rightarrow> task_runner pol s t
      | Wait_signal t \<Rightarrow> thread_wait_sighand s t
      | Cont_signal t \<Rightarrow> thread_cont_sighand s t
      | Handler \<Rightarrow> sched_run_sighand s
      | Leave_loop \<Rightarrow> schedule_runner task_num s)"

text \<open>The operations on the queue that a run performs, in the order in which they take effect.\<close>

datatype queue_op = Insert nat | Remove

definition queue_ops :: "sched \<Rightarrow> event \<Rightarrow> queue_op list" where
  "queue_ops s e =
     (case e of Run t \<Rightarrow> (if loc s t = Inserting then [Insert t] else if loc s t = Unlinking then [Remove] else []) | _ \<Rightarrow> [])"

inductive runs_to :: "policy \<Rightarrow> nat \<Rightarrow> sched \<Rightarrow> queue_op list \<Rightarrow> sched \<Rightarrow> bool" for pol n s0 where
  start: "runs_to pol n s0 [] s0"
| step: "runs_to pol n s0 ops s \<Longrightarrow> next_state pol n s e = Some (Inr s') \<Longrightarrow> runs_to pol n s0 (ops @ queue_ops s e) s'"

text \<open>The abstract queue after some operations; the tasks inserted, and the number of removals.\<close>

definition queue_step :: "policy \<Rightarrow> sched \<Rightarrow> queue_op \<Rightarrow> nat list \<Rightarrow> nat list" where
  "queue_step pol s0 x q = (case x of Insert t \<Rightarrow> insert_spec pol s0 t q | Remove \<Rightarrow> tl q)"

definition queue_after :: "policy \<Rightarrow> sched \<Rightarrow> queue_op list \<Rightarrow> nat list" where
  "queue_after pol s0 ops = fold (queue_step pol s0) ops []"

fun inserts :: "queue_op list \<Rightarrow> nat list" where
  "inserts [] = []"
| "inserts (Insert t # ops) = t # inserts ops"
| "inserts (Remove # ops) = inserts ops"

fun removes :: "queue_op list \<Rightarrow> nat" where
  "removes [] = 0"
| "removes (Insert t # ops) = removes ops"
| "removes (Remove # ops) = Suc (removes ops)"

lemma inserts_append [simp]: "inserts (xs @ ys) = inserts xs @ inserts ys"
  by (induction xs rule: inserts.induct) auto

lemma removes_append [simp]: "removes (xs @ ys) = removes xs + removes ys"
  by (induction xs rule: removes.induct) auto

lemma queue_after_append [simp]: "queue_after pol s0 (xs @ ys) = fold (queue_step pol s0) ys (queue_after pol s0 xs)"
  by (simp add: queue_after_def)


section \<open>Locations\<close>

text \<open>Not yet in the queue; inside a critical section; past the removal of a node.\<close>

definition fresh :: "location \<Rightarrow> bool" where
  "fresh l \<longleftrightarrow> l \<in> {Arriving, Stopping, Readying, Marking, Inserting}"

definition holds :: "location \<Rightarrow> bool" where
  "holds l \<longleftrightarrow> l \<in> {Stopping, Readying, Marking, Inserting, Calling, Releasing, Unlinking, Waking, Leaving} \<or> (\<exists>p. l = Freeing p)"

definition has_removed :: "location \<Rightarrow> bool" where
  "has_removed l \<longleftrightarrow> l \<in> {Waking, Leaving, Counting, Finished} \<or> (\<exists>p. l = Freeing p) \<or> (\<exists>v. l = Adding v)"

lemmas location_defs = fresh_def holds_def has_removed_def interrupted_def

lemma interrupted_simps [simp]:
  "fresh (interrupted l) = fresh l" "holds (interrupted l) = holds l" "has_removed (interrupted l) = has_removed l"
  "interrupted l = Freeing p \<longleftrightarrow> l = Freeing p" "interrupted l = Adding v \<longleftrightarrow> l = Adding v"
  "interrupted l = Finished \<longleftrightarrow> l = Finished" "interrupted l = Readying \<longleftrightarrow> l = Readying"
  by (auto simp: location_defs)

lemma has_removed_not_fresh: "has_removed l \<Longrightarrow> \<not> fresh l"
  by (cases l) (simp_all add: location_defs)

text \<open>A step of thread \<open>t\<close> to location \<open>l\<close> that leaves the queue and its nodes alone.\<close>

definition quiet :: "sched \<Rightarrow> nat \<Rightarrow> location \<Rightarrow> sched \<Rightarrow> bool" where
  "quiet s t l s' \<longleftrightarrow> nxt s' = nxt s \<and> head s' = head s \<and> WCT s' = WCT s \<and> priority s' = priority s \<and> live s' = live s \<and>
     loc s' = (loc s)(t := l) \<and> loc s t \<noteq> Finished \<and> fresh l = fresh (loc s t) \<and>
     (l \<noteq> loc s t \<longrightarrow> (\<forall>p. l \<noteq> Freeing p)) \<and> has_removed l = has_removed (loc s t) \<and>
     sched_mutex s' = (if holds l = holds (loc s t) then sched_mutex s else if holds l then Some t else None) \<and>
     (holds l \<longrightarrow> holds (loc s t) \<or> sched_mutex s = None) \<and> (l = Readying \<longrightarrow> loc s t = Readying \<or> head s \<noteq> None)"

lemmas thread_defs = access_node_def pthread_mutex_lock_def pthread_mutex_unlock_def sem_try_def

lemma add_task_step:
  assumes "add_task pol s t = Some (Inr s')" "loc s t \<noteq> Inserting"
  shows "\<exists>l. quiet s t l s'"
  using assms by (cases "loc s t"; intro exI [of _ "loc s' t"])
    (auto simp: add_task_def thread_defs quiet_def location_defs andThen_eq_Inr deref_def split: if_splits option.splits sum.splits)

lemma delete_task_step:
  assumes "delete_task s t = Some (Inr s')" "loc s t \<noteq> Unlinking" "\<forall>p. loc s t \<noteq> Freeing p"
  shows "\<exists>l. quiet s t l s'"
  using assms by (cases "loc s t"; intro exI [of _ "loc s' t"])
    (auto simp: delete_task_def thread_defs quiet_def location_defs split: if_splits option.splits)

lemma task_runner_step:
  assumes "task_runner pol s t = Some (Inr s')"
  shows "(loc s t = Inserting \<and> (\<exists>s1. insert_task pol s t = Inr s1 \<and> s' = s1\<lparr>loc := (loc s1)(t := Calling)\<rparr>)) \<or>
    (loc s t = Unlinking \<and> (\<exists>h. head s = Some h \<and> live s h \<and> s' = s\<lparr>head := nxt s h, loc := (loc s)(t := Freeing h)\<rparr>)) \<or>
    (\<exists>p. loc s t = Freeing p \<and> s' = s\<lparr>live := (live s)(p := False), loc := (loc s)(t := Waking)\<rparr>) \<or>
    (loc s t \<noteq> Inserting \<and> loc s t \<noteq> Unlinking \<and> (\<exists>l. quiet s t l s'))"
proof (cases "loc s t")
  case Inserting
  then show ?thesis using assms by (auto simp: task_runner_def add_task_def andThen_eq_Inr split: if_splits)
next
  case Unlinking
  then show ?thesis using assms
    by (cases "head s") (auto simp: task_runner_def delete_task_def access_node_def andThen_eq_Inr split: if_splits)
next
  case (Freeing p)
  then show ?thesis using assms by (auto simp: task_runner_def delete_task_def access_node_def split: if_splits)
next
  case Before_sem
  then have "quiet s t (loc s' t) s'" using assms
    by (auto simp: task_runner_def thread_defs quiet_def location_defs split: if_splits)
  then show ?thesis using Before_sem by auto
next
  case In_sem
  then have "quiet s t (loc s' t) s'" using assms
    by (auto simp: task_runner_def thread_defs quiet_def location_defs split: if_splits)
  then show ?thesis using In_sem by auto
next
  case Executing
  then have "quiet s t (loc s' t) s'" using assms
    by (auto simp: task_runner_def thread_defs quiet_def location_defs split: if_splits)
  then show ?thesis using Executing by auto
next
  case Counting
  then have "quiet s t (loc s' t) s'" using assms
    by (auto simp: task_runner_def quiet_def location_defs split: if_splits)
  then show ?thesis using Counting by auto
next
  case (Adding v)
  then have "quiet s t (loc s' t) s'" using assms
    by (auto simp: task_runner_def quiet_def location_defs split: if_splits)
  then show ?thesis using Adding by auto
qed (use assms add_task_step [of pol s t s'] delete_task_step [of s t s'] in \<open>auto simp: task_runner_def split: if_splits\<close>)

text \<open>The other steps: a delivery is quiet, and the scheduler thread moves no task thread.\<close>

definition handler_frame :: "sched \<Rightarrow> sched \<Rightarrow> bool" where
  "handler_frame s s' \<longleftrightarrow> nxt s' = nxt s \<and> head s' = head s \<and> WCT s' = WCT s \<and> priority s' = priority s \<and> live s' = live s \<and>
     loc s' = loc s \<and> sched_mutex s' = sched_mutex s \<and> finished_task s' = finished_task s"

lemma delivery_step:
  "thread_wait_sighand s t = Some (Inr s') \<Longrightarrow> quiet s t (interrupted (loc s t)) s' \<and> finished_task s' = finished_task s"
  "thread_cont_sighand s t = Some (Inr s') \<Longrightarrow> quiet s t (interrupted (loc s t)) s' \<and> finished_task s' = finished_task s"
  by (auto simp: thread_wait_sighand_def thread_cont_sighand_def quiet_def split: if_splits)

lemma schedule_step:
  "sched_run_sighand s = Some (Inr s') \<Longrightarrow> handler_frame s s'"
  "schedule_runner n s = Some (Inr s') \<Longrightarrow> handler_frame s s'"
proof -
  have "handler_frame s (use_head s a p)" for a p by (cases a) (auto simp: handler_frame_def use_head_def)
  then show "sched_run_sighand s = Some (Inr s') \<Longrightarrow> handler_frame s s'"
    by (auto simp: sched_run_sighand_def access_node_def andThen_eq_Inr handler_frame_def split: schedule_loc.splits if_splits)
  show "schedule_runner n s = Some (Inr s') \<Longrightarrow> handler_frame s s'"
    by (auto simp: schedule_runner_def handler_frame_def split: if_splits)
qed

section \<open>The invariant\<close>

text \<open>
  The mutex is held by the thread that is in a critical section. The tasks inserted are those past the insertion; a node
  outside the queue that is still to be inserted is unlinked and not freed. As many nodes have been removed as threads are
  past the removal. Every node of the queue is live, and so is the one about to be freed. A thread that is about to change
  the status of the head has found one.
\<close>

definition thread_inv :: "nat \<Rightarrow> sched \<Rightarrow> queue_op list \<Rightarrow> nat list \<Rightarrow> sched \<Rightarrow> bool" where
  "thread_inv n s0 ops q s \<longleftrightarrow> queue_of s q \<and> WCT s = WCT s0 \<and> priority s = priority s0 \<and>
     (\<forall>t. sched_mutex s = Some t \<longleftrightarrow> holds (loc s t)) \<and> (\<forall>t \<ge> n. loc s t = Finished) \<and>
     (\<forall>t. t \<in> set (inserts ops) \<longleftrightarrow> t < n \<and> \<not> fresh (loc s t)) \<and> distinct (inserts ops) \<and>
     (\<forall>t. fresh (loc s t) \<longrightarrow> nxt s t = None \<and> live s t) \<and>
     set q \<subseteq> set (inserts ops) \<and> length q + removes ops = length (inserts ops) \<and>
     removes ops = card {t. t < n \<and> has_removed (loc s t)} \<and> (\<forall>t \<in> set q. live s t) \<and>
     (\<forall>t p. loc s t = Freeing p \<longrightarrow> live s p \<and> p \<notin> set q \<and> p \<in> set (inserts ops)) \<and>
     (\<forall>t. loc s t = Readying \<longrightarrow> head s \<noteq> None)"

lemma thread_inv_quiet:
  assumes inv: "thread_inv n s0 ops q s" and "quiet s t l s'"
  shows "thread_inv n s0 ops q s'"
proof -
  have f: "nxt s' = nxt s" "head s' = head s" "WCT s' = WCT s" "priority s' = priority s" "live s' = live s"
    and l: "loc s' = (loc s)(t := l)" "fresh l = fresh (loc s t)" "has_removed l = has_removed (loc s t)" "\<And>p. l = Freeing p \<Longrightarrow> loc s t = Freeing p"
    and t: "loc s t \<noteq> Finished"
    and m: "sched_mutex s' = (if holds l = holds (loc s t) then sched_mutex s else if holds l then Some t else None)"
      "holds l \<longrightarrow> holds (loc s t) \<or> sched_mutex s = None"
    using assms(2) by (auto simp: quiet_def)
  have fr: "fresh (loc s' u) = fresh (loc s u)" "has_removed (loc s' u) = has_removed (loc s u)"
    "loc s' u = Freeing p \<Longrightarrow> loc s u = Freeing p" for u p
    using l by (auto split: if_splits)
  have mx: "sched_mutex s = Some u \<longleftrightarrow> holds (loc s u)" for u using inv by (simp add: thread_inv_def)
  have "sched_mutex s' = Some u \<longleftrightarrow> holds (loc s' u)" for u
    using mx [of u] mx [of t] m by (cases "u = t") (auto simp: l(1) split: if_splits)
  moreover have "u \<ge> n \<Longrightarrow> loc s' u = Finished" for u using inv t by (auto simp: thread_inv_def l(1))
  moreover have "loc s' u = Readying \<longrightarrow> head s \<noteq> None" for u
    using inv assms(2) unfolding thread_inv_def quiet_def by (metis fun_upd_apply)
  ultimately show ?thesis using inv unfolding thread_inv_def queue_of_def f fr(1,2) using fr(3) by blast
qed

lemma thread_inv_handler:
  assumes "thread_inv n s0 ops q s" "handler_frame s s'"
  shows "thread_inv n s0 ops q s'"
proof -
  have f: "nxt s' = nxt s" "head s' = head s" "WCT s' = WCT s" "priority s' = priority s" "live s' = live s" "loc s' = loc s"
    "sched_mutex s' = sched_mutex s" using assms(2) by (simp_all add: handler_frame_def)
  show ?thesis using assms(1) unfolding thread_inv_def queue_of_def f .
qed

lemma thread_inv_less: "thread_inv n s0 ops q s \<Longrightarrow> loc s t \<noteq> Finished \<Longrightarrow> t < n"
  unfolding thread_inv_def by (metis not_le)

lemma thread_inv_holder: "thread_inv n s0 ops q s \<Longrightarrow> holds (loc s t) \<Longrightarrow> holds (loc s u) \<Longrightarrow> t = u"
  unfolding thread_inv_def by (metis option.inject)

lemma thread_inv_freeing:
  assumes inv: "thread_inv n s0 ops q s" and t: "loc s t = Freeing p"
  shows "thread_inv n s0 ops q (s\<lparr>live := (live s)(p := False), loc := (loc s)(t := Waking)\<rparr>)"
proof -
  let ?s = "s\<lparr>live := (live s)(p := False), loc := (loc s)(t := Waking)\<rparr>"
  have f: "nxt ?s = nxt s" "head ?s = head s" "WCT ?s = WCT s" "priority ?s = priority s" "sched_mutex ?s = sched_mutex s" by simp_all
  have fr: "fresh (loc ?s u) = fresh (loc s u)" "has_removed (loc ?s u) = has_removed (loc s u)"
    "holds (loc ?s u) = holds (loc s u)" for u using t by (auto simp: location_defs)
  have p: "p \<notin> set q" "\<not> fresh (loc s p)" using inv t unfolding thread_inv_def by blast+
  have no: "loc ?s u \<noteq> Freeing r" for u r
    using thread_inv_holder [OF inv, of u t] t by (auto simp: holds_def)
  have fin: "n \<le> u \<longrightarrow> loc ?s u = Finished" for u using inv thread_inv_less [OF inv, of t] t by (auto simp: thread_inv_def)
  have rd: "loc ?s u \<noteq> Readying" for u using thread_inv_holder [OF inv, of u t] t by (auto simp: holds_def)
  have lv: "live ?s u = (u \<noteq> p \<and> live s u)" for u by simp
  show ?thesis using inv p unfolding thread_inv_def queue_of_def f fr lv using no rd fin by blast
qed

lemma thread_inv_unlinking:
  assumes inv: "thread_inv n s0 ops q s" and t: "loc s t = Unlinking"
  shows "\<exists>h. head s = Some h \<and> live s h \<and>
    thread_inv n s0 (ops @ [Remove]) (tl q) (s\<lparr>head := nxt s h, loc := (loc s)(t := Freeing h)\<rparr>)"
proof -
  let ?R = "{u. u < n \<and> has_removed (loc s u)}"
  have tn: "t < n" using thread_inv_less [OF inv] t by simp
  have ins: "set (inserts ops) = {u. u < n \<and> \<not> fresh (loc s u)}" using inv by (auto simp: thread_inv_def)
  have "t \<in> set (inserts ops)" "t \<notin> ?R" unfolding ins using tn t by (simp_all add: fresh_def has_removed_def)
  then have "?R \<subset> set (inserts ops)" unfolding ins using has_removed_not_fresh by blast
  then have "card ?R < length (inserts ops)" using psubset_card_mono [of "set (inserts ops)" ?R] inv
    by (simp add: thread_inv_def distinct_card)
  then obtain h r where q: "q = h # r" using inv by (cases q) (auto simp: thread_inv_def)
  let ?s = "s\<lparr>head := nxt s h, loc := (loc s)(t := Freeing h)\<rparr>"
  have qo: "head s = Some h" "chain (nxt s) (nxt s h) r" "h \<notin> set r" "distinct r" "live s h" "h \<in> set (inserts ops)"
    using inv by (auto simp: thread_inv_def queue_of_def q)
  have f: "nxt ?s = nxt s" "WCT ?s = WCT s" "priority ?s = priority s" "sched_mutex ?s = sched_mutex s" "live ?s = live s" by simp_all
  have fr: "fresh (loc ?s u) = fresh (loc s u)" "holds (loc ?s u) = holds (loc s u)" for u using t by (auto simp: location_defs)
  have fin: "n \<le> u \<longrightarrow> loc ?s u = Finished" for u using inv tn by (auto simp: thread_inv_def)
  have "{u. u < n \<and> has_removed (loc ?s u)} = insert t ?R" using tn by (auto simp: has_removed_def)
  moreover have "t \<notin> ?R" using t by (simp add: location_defs)
  ultimately have card: "card {u. u < n \<and> has_removed (loc ?s u)} = Suc (card ?R)" by simp
  have fre: "loc ?s u = Freeing p \<longrightarrow> live s p \<and> p \<notin> set r \<and> p \<in> set (inserts ops)" for u p
    using thread_inv_holder [OF inv, of u t] t qo by (auto simp: holds_def)
  have hn: "head ?s = nxt s h" by simp
  have rd: "loc ?s u \<noteq> Readying" for u using thread_inv_holder [OF inv, of u t] t by (auto simp: holds_def)
  have e: "inserts (ops @ [Remove]) = inserts ops" by simp
  have i: "set r \<subseteq> set (inserts ops)" "length r + removes (ops @ [Remove]) = length (inserts ops)" "\<forall>u \<in> set r. live s u"
    "removes (ops @ [Remove]) = Suc (card ?R)" using inv by (auto simp: thread_inv_def q)
  have "thread_inv n s0 (ops @ [Remove]) r ?s"
    using inv unfolding thread_inv_def queue_of_def f fr card e hn using i qo(2,4) fre fin rd by blast
  then show ?thesis using qo by (simp add: q)
qed

lemma thread_inv_inserting:
  assumes inv: "thread_inv n s0 ops q s" and t: "loc s t = Inserting"
  shows "\<exists>s'. insert_task pol s t = Inr s' \<and>
    thread_inv n s0 (ops @ [Insert t]) (insert_spec pol s0 t q) (s'\<lparr>loc := (loc s')(t := Calling)\<rparr>)"
proof -
  have tn: "t < n" using thread_inv_less [OF inv] t by simp
  have ft: "fresh (loc s t)" using t by (simp add: fresh_def)
  have pre: "queue_of s q" "t \<notin> set (inserts ops)" "t \<notin> set q" "nxt s t = None" "live s t" "distinct q"
    using inv ft unfolding thread_inv_def queue_of_def by blast+
  let ?q = "insert_spec pol s0 t q"
  have w: "WCT s = WCT s0" "priority s = priority s0" using inv unfolding thread_inv_def by blast+
  have spec: "insert_spec pol s t q = ?q" unfolding insert_spec_def w ..
  obtain s1 where s1: "insert_task pol s t = Inr s1" "inserted s t ?q s1"
    using insert_task_inserted [OF pre(1,3,4), of pol] spec by auto
  obtain nx hp where up: "s1 = s\<lparr>nxt := nx, head := hp\<rparr>" "\<forall>x. x \<notin> set ?q \<longrightarrow> nx x = nxt s x"
    and ch: "chain nx hp ?q" using s1(2) by (auto simp: inserted_def)
  let ?s = "s1\<lparr>loc := (loc s1)(t := Calling)\<rparr>"
  have f: "nxt ?s = nx" "head ?s = hp" "WCT ?s = WCT s" "priority ?s = priority s" "sched_mutex ?s = sched_mutex s" "live ?s = live s"
    by (simp_all add: up)
  have fr: "has_removed (loc ?s u) = has_removed (loc s u)" "holds (loc ?s u) = holds (loc s u)"
    "fresh (loc ?s u) = (u \<noteq> t \<and> fresh (loc s u))" for u using t by (auto simp: location_defs up)
  have fin: "n \<le> u \<longrightarrow> loc ?s u = Finished" for u using inv tn by (auto simp: thread_inv_def up)
  have no: "loc ?s u \<noteq> Freeing p" for u p using thread_inv_holder [OF inv, of u t] t by (auto simp: holds_def up)
  have rd: "loc ?s u \<noteq> Readying" for u using thread_inv_holder [OF inv, of u t] t by (auto simp: holds_def up)
  have nx: "nx u = nxt s u" if "fresh (loc s u)" "u \<noteq> t" for u
  proof -
    have "u \<notin> set q" using that(1) inv unfolding thread_inv_def by blast
    then show ?thesis using up(2) that(2) by simp
  qed
  have "thread_inv n s0 (ops @ [Insert t]) ?q ?s"
    unfolding thread_inv_def queue_of_def f fr using inv pre ch insert_spec_distinct [of q t pol s0] no rd fin nx tn
    by (auto simp: thread_inv_def)
  then show ?thesis using s1(1) by blast
qed

lemma next_state_inv:
  assumes inv: "thread_inv n s0 ops q s" and st: "next_state pol n s e = Some (Inr s')"
  shows "thread_inv n s0 (ops @ queue_ops s e) (fold (queue_step pol s0) (queue_ops s e) q) s'"
proof (cases e)
  case (Run t)
  then have st: "task_runner pol s t = Some (Inr s')" using st by (simp add: next_state_def)
  show ?thesis using task_runner_step [OF st] thread_inv_inserting [OF inv, of t pol] thread_inv_unlinking [OF inv, of t]
      thread_inv_freeing [OF inv, of t] thread_inv_quiet [OF inv, of t]
    by (auto simp: Run queue_ops_def queue_step_def)
next
  case (Wait_signal t)
  then show ?thesis using st delivery_step(1) thread_inv_quiet [OF inv] by (fastforce simp: next_state_def queue_ops_def)
next
  case (Cont_signal t)
  then show ?thesis using st delivery_step(2) thread_inv_quiet [OF inv] by (fastforce simp: next_state_def queue_ops_def)
next
  case Handler
  then show ?thesis using st schedule_step(1) thread_inv_handler [OF inv] by (fastforce simp: next_state_def queue_ops_def)
next
  case Leave_loop
  then show ?thesis using st schedule_step(2) thread_inv_handler [OF inv] by (fastforce simp: next_state_def queue_ops_def)
qed

section \<open>Reachable states\<close>

lemma create_tasks_fields:
  "head (create_tasks s k ts) = head s" "finished_task (create_tasks s k ts) = finished_task s"
  "sched_mutex (create_tasks s k ts) = sched_mutex s"
  "loc (create_tasks s k ts) t = (if k \<le> t \<and> t < k + length ts then Arriving else loc s t)"
  "live (create_tasks s k ts) t = (if k \<le> t \<and> t < k + length ts then True else live s t)"
  "nxt (create_tasks s k ts) t = (if k \<le> t \<and> t < k + length ts then None else nxt s t)"
  by (induction s k ts rule: create_tasks.induct) (auto simp: creat_thread_node_def)

lemma tasks_fields:
  "head (tasks f ts) = None" "finished_task (tasks f ts) = f" "sched_mutex (tasks f ts) = None"
  "loc (tasks f ts) t = (if t < length ts then Arriving else Finished)"
  "live (tasks f ts) t = (t < length ts)" "nxt (tasks f ts) t = None"
  by (simp_all add: tasks_def create_tasks_fields init_scheduler_def)

text \<open>The start of a run, with the signal and the handler that the run before it may have left behind.\<close>

definition start_of :: "nat \<Rightarrow> (int \<times> int) list \<Rightarrow> bool \<Rightarrow> schedule_loc \<Rightarrow> sched" where
  "start_of f ts u r = (tasks f ts)\<lparr>sigusr2 := u, schedule_at := r\<rparr>"

lemma start_of_inv: "thread_inv (length ts) (tasks f ts) [] [] (start_of f ts u r)"
  by (simp add: thread_inv_def start_of_def tasks_fields queue_of_def location_defs)

lemma runs_inv:
  "runs_to pol (length ts) (start_of f ts u r) ops s \<Longrightarrow> thread_inv (length ts) (tasks f ts) ops (queue_after pol (tasks f ts) ops) s"
proof (induction rule: runs_to.induct)
  case start
  then show ?case using start_of_inv by (simp add: queue_after_def)
next
  case (step ops s e s')
  then show ?case using next_state_inv by simp
qed

section \<open>The count of finished tasks\<close>









section \<open>The order of the queue\<close>

text \<open>The number that decides the place of a task, and which of two tasks was inserted first.\<close>

definition sort_key :: "policy \<Rightarrow> sched \<Rightarrow> nat \<Rightarrow> int" where
  "sort_key pol s t =
     (case pol of FCFS \<Rightarrow> 0 | SJF_PEM \<Rightarrow> WCT s t | SJF_NOT_PEM \<Rightarrow> WCT s t
      | PRIORITY_PEM \<Rightarrow> - priority s t | PRIORITY_NOT_PEM \<Rightarrow> - priority s t)"

fun precedes :: "nat list \<Rightarrow> nat \<Rightarrow> nat \<Rightarrow> bool" where
  "precedes [] a b = False"
| "precedes (x # xs) a b = (if x = a then b \<in> set xs else precedes xs a b)"

definition goes_before :: "policy \<Rightarrow> sched \<Rightarrow> nat list \<Rightarrow> nat \<Rightarrow> nat \<Rightarrow> bool" where
  "goes_before pol s arrived a b \<longleftrightarrow>
     sort_key pol s a < sort_key pol s b \<or> sort_key pol s a = sort_key pol s b \<and> precedes arrived a b"

definition behind_head :: "policy \<Rightarrow> bool" where
  "behind_head pol \<longleftrightarrow> pol = SJF_NOT_PEM \<or> pol = PRIORITY_NOT_PEM"

definition in_order :: "policy \<Rightarrow> sched \<Rightarrow> nat list \<Rightarrow> nat list \<Rightarrow> bool" where
  "in_order pol s arrived q \<longleftrightarrow> sorted_wrt (goes_before pol s arrived) (if behind_head pol then tl q else q)"

lemma precedes_snoc: "precedes xs a b \<Longrightarrow> precedes (xs @ [n]) a b" "a \<in> set xs \<Longrightarrow> precedes (xs @ [n]) a n"
  by (induction xs) auto

lemma sorted_wrt_place:
  assumes "sorted_wrt R q" "\<And>c. c \<in> set q \<Longrightarrow> P c \<Longrightarrow> R c n" "\<And>c d. \<not> P c \<Longrightarrow> d = c \<or> R c d \<Longrightarrow> R n d"
  shows "sorted_wrt R (place P n q)"
  using assms(1,2)
proof (induction q)
  case (Cons x q)
  show ?case
  proof (cases "P x")
    case True
    then have "place P n (x # q) = x # place P n q" by (simp add: place_def)
    then show ?thesis using Cons True by simp
  next
    case False
    then show ?thesis using Cons.prems assms(3) [OF False] by (simp add: place_def)
  qed
qed (simp add: place_def)

lemma place_in_order:
  assumes "sorted_wrt (goes_before pol s xs) q" "set q \<subseteq> set xs"
  shows "sorted_wrt (goes_before pol s (xs @ [n])) (place (\<lambda>c. sort_key pol s c \<le> sort_key pol s n) n q)"
proof (rule sorted_wrt_place)
  show "sorted_wrt (goes_before pol s (xs @ [n])) q"
    by (rule sorted_wrt_mono_rel [OF _ assms(1)]) (auto simp: goes_before_def precedes_snoc)
qed (use assms(2) in \<open>auto simp: goes_before_def precedes_snoc\<close>)

lemma insert_spec_key:
  "insert_spec pol s n q =
     (if behind_head pol then (case q of [] \<Rightarrow> [n] | h # t \<Rightarrow> h # place (\<lambda>c. sort_key pol s c \<le> sort_key pol s n) n t)
      else place (\<lambda>c. sort_key pol s c \<le> sort_key pol s n) n q)"
proof -
  have "place (\<lambda>_. True) n q = q @ [n]" by (induction q) (auto simp: place_def)
  then show ?thesis by (cases pol) (auto simp: insert_spec_def behind_head_def sort_key_def split: list.splits)
qed

lemma in_order_insert:
  assumes "in_order pol s xs q" "set q \<subseteq> set xs"
  shows "in_order pol s (xs @ [n]) (insert_spec pol s n q)"
proof (cases "behind_head pol")
  case True
  then show ?thesis using assms place_in_order [of pol s xs "tl q" n]
    by (cases q) (auto simp: in_order_def insert_spec_key)
qed (use assms place_in_order in \<open>auto simp: in_order_def insert_spec_key\<close>)

lemma in_order_tl: "in_order pol s xs q \<Longrightarrow> in_order pol s xs (tl q)"
  by (cases q; cases "tl q") (auto simp: in_order_def)

lemma queue_after_subset: "set (queue_after pol s ops) \<subseteq> set (inserts ops)"
proof (induction ops rule: rev_induct)
  case (snoc x ops)
  have "set (tl (queue_after pol s ops)) \<subseteq> set (queue_after pol s ops)" by (cases "queue_after pol s ops") auto
  then show ?case using snoc by (cases x) (auto simp: queue_step_def)
qed (simp add: queue_after_def)

lemma queue_after_in_order: "in_order pol s (inserts ops) (queue_after pol s ops)"
proof (induction ops rule: rev_induct)
  case (snoc x ops)
  then show ?case using in_order_insert [OF snoc queue_after_subset] in_order_tl [OF snoc] by (cases x) (simp_all add: queue_step_def)
qed (simp add: in_order_def queue_after_def)

text \<open>First come, first served: what has been inserted and not yet been removed, in the order of arrival.\<close>

lemma queue_ops_cases: "queue_ops s e = [] \<or> (\<exists>t. queue_ops s e = [Insert t]) \<or> queue_ops s e = [Remove]"
  by (cases e) (auto simp: queue_ops_def)

lemma runs_fcfs:
  "runs_to FCFS (length ts) (start_of f ts u r) ops s \<Longrightarrow> queue_after FCFS (tasks f ts) ops = drop (removes ops) (inserts ops)"
proof (induction rule: runs_to.induct)
  case start
  then show ?case by (simp add: queue_after_def)
next
  case (step ops s e s')
  have len: "length (queue_after FCFS (tasks f ts) ops) + removes ops = length (inserts ops)"
    using runs_inv [OF step.hyps(1)] by (simp add: thread_inv_def)
  consider "queue_ops s e = []" | t where "queue_ops s e = [Insert t]" | "queue_ops s e = [Remove]"
    using queue_ops_cases [of s e] by blast
  then show ?case using step.IH len by cases (simp_all add: queue_step_def insert_spec_def drop_Suc tl_drop)
qed

section \<open>Faults\<close>




section \<open>Schedules\<close>

text \<open>The run that takes the given steps, with the operations it performs on the queue.\<close>

fun follow :: "policy \<Rightarrow> nat \<Rightarrow> event list \<Rightarrow> queue_op list \<Rightarrow> sched \<Rightarrow> (queue_op list \<times> sched) option" where
  "follow pol n [] ops s = Some (ops, s)"
| "follow pol n (e # es) ops s =
     (case next_state pol n s e of Some (Inr s') \<Rightarrow> follow pol n es (ops @ queue_ops s e) s' | _ \<Rightarrow> None)"

lemma follow_runs: "runs_to pol n s0 ops s \<Longrightarrow> follow pol n es ops s = Some (ops', s') \<Longrightarrow> runs_to pol n s0 ops' s'"
proof (induction es arbitrary: ops s)
  case (Cons e es)
  then show ?case using runs_to.step [OF Cons.prems(1), of e] by (auto split: option.splits sum.splits)
qed auto

definition reaches :: "policy \<Rightarrow> (int \<times> int) list \<Rightarrow> event list \<Rightarrow> (queue_op list \<Rightarrow> sched \<Rightarrow> bool) \<Rightarrow> bool" where
  "reaches pol ts es P \<longleftrightarrow>
     (case follow pol (length ts) es [] (start_of 0 ts False Spinning) of None \<Rightarrow> False | Some (ops, s) \<Rightarrow> P ops s)"

lemma reaches_runs:
  assumes "reaches pol ts es P"
  shows "\<exists>ops s. runs_to pol (length ts) (start_of 0 ts False Spinning) ops s \<and> P ops s"
  using assms follow_runs [OF runs_to.start] unfolding reaches_def by (fastforce split: option.splits)

text \<open>No step is possible, as far as the tasks of the run are concerned.\<close>

definition stuck_tasks :: "policy \<Rightarrow> nat \<Rightarrow> sched \<Rightarrow> bool" where
  "stuck_tasks pol n s \<longleftrightarrow> Option.is_none (next_state pol n s Handler) \<and> Option.is_none (next_state pol n s Leave_loop) \<and>
     list_all (\<lambda>t. Option.is_none (next_state pol n s (Run t)) \<and> Option.is_none (next_state pol n s (Wait_signal t)) \<and>
       Option.is_none (next_state pol n s (Cont_signal t))) [0..<n]"

lemma stuck_tasks_stuck:
  assumes "runs_to pol (length ts) (start_of f ts u r) ops s" "stuck_tasks pol (length ts) s"
  shows "next_state pol (length ts) s e = None"
proof -
  let ?none = "\<lambda>t. next_state pol (length ts) s (Run t) = None \<and> next_state pol (length ts) s (Wait_signal t) = None \<and>
      next_state pol (length ts) s (Cont_signal t) = None"
  have "?none t" for t
  proof (cases "t < length ts")
    case True
    then show ?thesis using assms(2) by (simp add: stuck_tasks_def list_all_iff Option.is_none_def split: option.splits)
  next
    case False
    then have "loc s t = Finished" using runs_inv [OF assms(1)] by (simp add: thread_inv_def)
    then show ?thesis by (simp add: next_state_def task_runner_def thread_wait_sighand_def thread_cont_sighand_def)
  qed
  then show ?thesis using assms(2) by (cases e) (simp_all add: stuck_tasks_def Option.is_none_def split: option.splits)
qed

text \<open>
  Task 0 arrives alone and is started by the handler; task 1 arrives, and \<open>SIGUSR1\<close> is pending for task 0, \<open>SIGUSR2\<close> for
  the scheduler thread.
\<close>

definition two_arrivals :: "event list" where
  "two_arrivals = replicate 6 (Run 0) @ replicate 11 Handler @ [Run 0] @ replicate 7 (Run 1)"

definition two_tasks :: "(int \<times> int) list" where
  "two_tasks = [(5, 1), (3, 2)]"

lemma length_two_tasks [simp]: "length two_tasks = 2"
  by (simp add: two_tasks_def)

lemma fault_reached:
  "loc s t = Executing \<Longrightarrow> \<not> suspended s t \<Longrightarrow> \<not> live s t \<Longrightarrow> next_state pol n s (Run t) = Some (Inl Use_after_free)"
  "schedule_at s = Load a \<Longrightarrow> head s = None \<Longrightarrow> next_state pol n s Handler = Some (Inl Null_pointer)"
  by (simp_all add: next_state_def task_runner_def access_node_def sched_run_sighand_def)

text \<open>The new task is first in the queue, and both tasks execute: the signal for the old one is still pending.\<close>

lemma both_execute:
  "reaches PRIORITY_PEM two_tasks (two_arrivals @ replicate 11 Handler @ [Run 1])
     (\<lambda>ops s. head s = Some 1 \<and> loc s 0 = Executing \<and> loc s 1 = Executing \<and> \<not> suspended s 0 \<and> \<not> suspended s 1)"
  by code_simp

text \<open>The old task ends first and removes the node of the new one.\<close>

lemma other_node_freed:
  "reaches PRIORITY_PEM two_tasks (two_arrivals @ replicate 11 Handler @ [Run 1] @ replicate 4 (Run 0))
     (\<lambda>ops s. loc s 1 = Executing \<and> \<not> suspended s 1 \<and> \<not> live s 1 \<and> head s = Some 0)"
  by code_simp

text \<open>The signals of task 0 are handled in the wrong order.\<close>

lemma signals_crossed:
  "reaches FCFS two_tasks (two_arrivals @ replicate 9 Handler @ [Cont_signal 0, Wait_signal 0, Run 1])
     (\<lambda>ops s. stuck_tasks FCFS 2 s \<and> head s = Some 0 \<and> suspended s 0 \<and> loc s 1 = In_sem)"
  by code_simp

text \<open>Both tasks end before the scheduler thread handles the second \<open>SIGUSR2\<close>.\<close>

lemma handler_late:
  "reaches FCFS two_tasks (two_arrivals @ [Run 1] @ replicate 7 (Run 0) @ [Cont_signal 1] @ replicate 3 (Run 1) @ [Handler])
     (\<lambda>ops s. head s = None \<and> schedule_at s = Load Test_waiting)"
  by code_simp

text \<open>Task 0 ends before task 1 is in \<open>sem_wait\<close>.\<close>

lemma wakeup_lost:
  "reaches FCFS two_tasks (two_arrivals @ replicate 9 Handler @ [Wait_signal 0, Cont_signal 0] @ replicate 8 (Run 0) @ [Cont_signal 1, Run 1])
     (\<lambda>ops s. stuck_tasks FCFS 2 s \<and> head s = Some 1 \<and> loc s 1 = In_sem \<and> loc s 0 = Finished)"
  by code_simp

section \<open>Properties\<close>

text \<open>
  C13. In every interleaving of the threads and of the deliveries of their signals, the linked list is the abstract queue
  after the insertions and removals so far, whatever the scheduler thread does meanwhile. No two threads are between lock
  and unlock. Every task that has passed the insertion was inserted, once; every thread that has passed the removal has
  removed one node; all nodes of the queue are live. The run may start with a \<open>SIGUSR2\<close> or a handler left over from the
  policy before.
\<close>

theorem queue_linearizes:
  assumes "runs_to pol (length ts) (start_of f ts u r) ops s"
  shows "queue_of s (queue_after pol (tasks f ts) ops) \<and> (\<forall>t \<in> set (queue_after pol (tasks f ts) ops). live s t) \<and>
    (\<forall>t t'. holds (loc s t) \<and> holds (loc s t') \<longrightarrow> t = t') \<and>
    distinct (inserts ops) \<and> (\<forall>t. t \<in> set (inserts ops) \<longleftrightarrow> t < length ts \<and> \<not> fresh (loc s t)) \<and>
    removes ops = card {t. t < length ts \<and> has_removed (loc s t)} \<and>
    length (queue_after pol (tasks f ts) ops) + removes ops = length (inserts ops)"
proof -
  note inv = runs_inv [OF assms]
  show ?thesis using inv thread_inv_holder [OF inv] unfolding thread_inv_def by blast
qed

text \<open>
  C14. In every interleaving the queue is ordered by its policy: by time or priority, and tasks with the same time or
  priority by arrival; wholly for FCFS and the preemptive policies, behind the head for the others. For FCFS it is what has
  arrived less what has been removed, in the order of arrival.
\<close>

theorem queue_always_ordered:
  assumes "runs_to pol (length ts) (start_of f ts u r) ops s"
  shows "\<exists>q. queue_of s q \<and> in_order pol (tasks f ts) (inserts ops) q \<and> (pol = FCFS \<longrightarrow> q = drop (removes ops) (inserts ops))"
proof -
  have "queue_of s (queue_after pol (tasks f ts) ops)" using runs_inv [OF assms] by (simp add: thread_inv_def)
  then show ?thesis using queue_after_in_order [of pol "tasks f ts" ops] runs_fcfs assms by blast
qed


text \<open>
  These faults, and the other ways in which the signals go wrong, happen. A task that is not the head of the queue executes
  beside the head, because the signal that stops it is still pending.
\<close>

theorem non_head_executes:
  "\<exists>ops s. runs_to PRIORITY_PEM 2 (start_of 0 two_tasks False Spinning) ops s \<and>
     head s = Some 1 \<and> loc s 0 = Executing \<and> loc s 1 = Executing \<and> \<not> suspended s 0 \<and> \<not> suspended s 1"
  using reaches_runs [OF both_execute] by simp

text \<open>When it ends first, \<open>delete_task\<close> frees the node of the other task, which then uses it.\<close>

theorem delete_task_frees_other_node:
  "\<exists>ops s. runs_to PRIORITY_PEM 2 (start_of 0 two_tasks False Spinning) ops s \<and>
     next_state PRIORITY_PEM 2 s (Run 1) = Some (Inl Use_after_free)"
  using reaches_runs [OF other_node_freed, unfolded length_two_tasks] fault_reached(1) by blast

text \<open>
  \<open>SIGUSR1\<close> and \<open>SIGCONT\<close> can both be pending for the running task; when \<open>SIGCONT\<close> is handled first the task stays in
  \<open>sigsuspend\<close> for ever, and no thread can take a step.
\<close>

theorem crossed_signals_deadlock:
  "\<exists>ops s. runs_to FCFS 2 (start_of 0 two_tasks False Spinning) ops s \<and> (\<forall>e. next_state FCFS 2 s e = None) \<and>
     head s = Some 0 \<and> suspended s 0"
  using reaches_runs [OF signals_crossed, unfolded length_two_tasks] stuck_tasks_stuck [of FCFS two_tasks, unfolded length_two_tasks] by blast

text \<open>When the scheduler thread handles \<open>SIGUSR2\<close> late, it finds an empty queue and follows a null pointer.\<close>

theorem sched_run_sighand_null_head:
  "\<exists>ops s. runs_to FCFS 2 (start_of 0 two_tasks False Spinning) ops s \<and> next_state FCFS 2 s Handler = Some (Inl Null_pointer)"
  using reaches_runs [OF handler_late, unfolded length_two_tasks] fault_reached(2) by blast

text \<open>
  \<open>delete_task\<close> wakes the next task with \<open>SIGCONT\<close> and does not post its semaphore, so when the signal comes between
  \<open>add_task\<close> and \<open>sem_wait\<close> it is lost and the task waits for ever.
\<close>

theorem delete_task_loses_wakeup:
  "\<exists>ops s. runs_to FCFS 2 (start_of 0 two_tasks False Spinning) ops s \<and> (\<forall>e. next_state FCFS 2 s e = None) \<and>
     head s = Some 1 \<and> loc s 1 = In_sem"
  using reaches_runs [OF wakeup_lost, unfolded length_two_tasks] stuck_tasks_stuck [of FCFS two_tasks, unfolded length_two_tasks] by blast

section \<open>Witnesses\<close>

text \<open>Two tasks have arrived; the second has the shorter time and goes first.\<close>

lemma two_arrived:
  "reaches SJF_PEM two_tasks two_arrivals (\<lambda>ops s. ops = [Insert 0, Insert 1])"
  by code_simp

lemma two_arrived_queue: "queue_after SJF_PEM (tasks 0 two_tasks) [Insert 0, Insert 1] = [1, 0]"
  by code_simp

theorem queue_linearizes_witness:
  "\<exists>ops s. runs_to SJF_PEM 2 (start_of 0 two_tasks False Spinning) ops s \<and> inserts ops = [0, 1] \<and> queue_of s [1, 0] \<and> live s 0 \<and> live s 1"
proof -
  obtain s where r: "runs_to SJF_PEM (length two_tasks) (start_of 0 two_tasks False Spinning) [Insert 0, Insert 1] s"
    using reaches_runs [OF two_arrived] by blast
  have "queue_of s [1, 0] \<and> (\<forall>t \<in> set [1, 0]. live s t)" using queue_linearizes [OF r] unfolding two_arrived_queue by blast
  then show ?thesis using r by (intro exI [of _ "[Insert 0, Insert 1]"] exI [of _ s]) simp
qed

theorem queue_always_ordered_witness:
  "\<exists>ops s q. runs_to SJF_PEM 2 (start_of 0 two_tasks False Spinning) ops s \<and> inserts ops = [0, 1] \<and> queue_of s q \<and>
     in_order SJF_PEM (tasks 0 two_tasks) [0, 1] q"
proof -
  obtain s where r: "runs_to SJF_PEM (length two_tasks) (start_of 0 two_tasks False Spinning) [Insert 0, Insert 1] s"
    using reaches_runs [OF two_arrived] by blast
  obtain q where "queue_of s q" "in_order SJF_PEM (tasks 0 two_tasks) (inserts [Insert 0, Insert 1]) q"
    using queue_always_ordered [OF r] by blast
  then show ?thesis using r by (intro exI [of _ "[Insert 0, Insert 1]"] exI [of _ s] exI [of _ q]) simp
qed


end
