(* ===== verification/Min_Heap.thy ===== *)
theory Min_Heap
  imports Prelude
begin

text \<open>
  The shared structure of \<open>Labweek7/SLList_MinHeap.c\<close>: an array of students that is at the same time a doubly linked
  list (by the indices in its nodes) and a binary min-heap (by its positions), with a stack of free
  indices. Array accesses are checked, and copying a name that does not fit its field is a fault.
\<close>

section \<open>State\<close>

definition MAXSIZE :: nat where "MAXSIZE = 1024"
definition NAMESIZE :: nat where "NAMESIZE = 20"

record Student =
  flag :: int
  stu_id :: int
  stu_name :: string
  preNode :: int
  nextNode :: int

record Stack =
  index :: "int list"
  top :: int

record StaticLinkList =
  lst :: "Student list"
  headIndex :: int
  size :: int
  unusedIndexs :: Stack

section \<open>The stack of free indices\<close>

definition initiateStack :: Stack where
  "initiateStack = \<lparr>index = map (\<lambda>i. int MAXSIZE - int i - 1) [0..<MAXSIZE], top = int MAXSIZE - 1\<rparr>"

definition pushStack :: "Stack \<Rightarrow> int \<Rightarrow> Stack outcome" where
  "pushStack stk unusedIndex =
     andThen (array_set (index stk) (top stk + 1) unusedIndex) (\<lambda>a. Inr (stk\<lparr>index := a, top := top stk + 1\<rparr>))"

definition popStack :: "Stack \<Rightarrow> Stack" where
  "popStack stk = (if top stk = -1 then stk else stk\<lparr>top := top stk - 1\<rparr>)"

definition topStack :: "Stack \<Rightarrow> int outcome" where
  "topStack stk = (if top stk = -1 then Inr (-1) else array_get (index stk) (top stk))"

section \<open>The linked list\<close>

definition initialStaticLinkList :: "StaticLinkList \<Rightarrow> StaticLinkList" where
  "initialStaticLinkList ll = ll\<lparr>headIndex := -1, size := 0, unusedIndexs := initiateStack\<rparr>"

definition node_at :: "StaticLinkList \<Rightarrow> int \<Rightarrow> Student outcome" where
  "node_at h i = array_get (lst h) i"

definition put_node :: "StaticLinkList \<Rightarrow> int \<Rightarrow> Student \<Rightarrow> StaticLinkList outcome" where
  "put_node h i s = andThen (array_set (lst h) i s) (\<lambda>l. Inr (h\<lparr>lst := l\<rparr>))"

definition modify_node :: "StaticLinkList \<Rightarrow> int \<Rightarrow> (Student \<Rightarrow> Student) \<Rightarrow> StaticLinkList outcome" where
  "modify_node h i f = andThen (node_at h i) (\<lambda>s. put_node h i (f s))"

text \<open>An assignment to a link that is made only under a condition.\<close>

definition set_pre_if :: "bool \<Rightarrow> int \<Rightarrow> int \<Rightarrow> StaticLinkList \<Rightarrow> StaticLinkList outcome" where
  "set_pre_if c i v h = (if c then modify_node h i (\<lambda>s. s\<lparr>preNode := v\<rparr>) else Inr h)"

definition set_next_if :: "bool \<Rightarrow> int \<Rightarrow> int \<Rightarrow> StaticLinkList \<Rightarrow> StaticLinkList outcome" where
  "set_next_if c i v h = (if c then modify_node h i (\<lambda>s. s\<lparr>nextNode := v\<rparr>) else Inr h)"

definition insertListAtHead :: "StaticLinkList \<Rightarrow> Student \<Rightarrow> StaticLinkList outcome" where
  "insertListAtHead ll stu =
     andThen (topStack (unusedIndexs ll)) (\<lambda>ind.
     let h0 = ll\<lparr>unusedIndexs := popStack (unusedIndexs ll)\<rparr> in
     andThen (put_node h0 ind (stu\<lparr>flag := 1, preNode := -1, nextNode := headIndex h0\<rparr>)) (\<lambda>h1.
     andThen (set_pre_if (headIndex h1 \<noteq> -1) (headIndex h1) ind h1) (\<lambda>h2.
       Inr (h2\<lparr>headIndex := ind, size := size h2 + 1\<rparr>))))"

section \<open>The heap\<close>

definition swapHeapNode :: "StaticLinkList \<Rightarrow> int \<Rightarrow> int \<Rightarrow> StaticLinkList outcome" where
  "swapHeapNode heap parent child =
     andThen (node_at heap parent) (\<lambda>p.
     andThen (node_at heap child) (\<lambda>c.
     let parentPre = preNode p; parentNext = nextNode p; childPre = preNode c; childNext = nextNode c in
     andThen (put_node heap parent c) (\<lambda>h1.
     andThen (put_node h1 child p) (\<lambda>h2.
     andThen (set_next_if (parentPre \<noteq> -1 \<and> parentPre \<noteq> child) parentPre child h2) (\<lambda>h3.
     andThen (set_pre_if (parentNext \<noteq> -1 \<and> parentNext \<noteq> child) parentNext child h3) (\<lambda>h4.
     andThen (set_next_if (childPre \<noteq> -1 \<and> childPre \<noteq> parent) childPre parent h4) (\<lambda>h5.
     andThen (set_pre_if (childNext \<noteq> -1 \<and> childNext \<noteq> parent) childNext parent h5) (\<lambda>h6.
     andThen (set_next_if (parentPre = child) parent child h6) (\<lambda>h7.
     andThen (set_pre_if (parentPre = child) child parent h7) (\<lambda>h8.
     andThen (set_pre_if (parentNext = child) parent child h8) (\<lambda>h9.
     andThen (set_next_if (parentNext = child) child parent h9) (\<lambda>h10.
     andThen (node_at h10 parent) (\<lambda>p'.
     let h11 = (if preNode p' = -1 then h10\<lparr>headIndex := parent\<rparr> else h10) in
     andThen (node_at h11 child) (\<lambda>c'.
       Inr (if preNode c' = -1 then h11\<lparr>headIndex := child\<rparr> else h11)))))))))))))))"

text \<open>Moving \<open>temp\<close> down from \<open>parent\<close> among the first \<open>n\<close> nodes.\<close>

function sift_loop :: "nat \<Rightarrow> int \<Rightarrow> StaticLinkList \<Rightarrow> nat \<Rightarrow> nat \<Rightarrow> StaticLinkList outcome" where
  "sift_loop n temp_id heap parent child =
     (if child < n then
        case node_at heap (int child) of Inl e \<Rightarrow> Inl e
        | Inr l \<Rightarrow>
          (case (if child + 1 < n then map_sum (\<lambda>e. e) (\<lambda>r. stu_id l > stu_id r) (node_at heap (int child + 1)) else Inr False) of
             Inl e \<Rightarrow> Inl e
           | Inr right \<Rightarrow>
             let child' = (if right then child + 1 else child) in
             (case node_at heap (int child') of Inl e \<Rightarrow> Inl e
              | Inr c \<Rightarrow>
                if temp_id > stu_id c then
                  (case swapHeapNode heap (int parent) (int child') of Inl e \<Rightarrow> Inl e
                   | Inr heap' \<Rightarrow> sift_loop n temp_id heap' child' (2 * child' + 1))
                else Inr heap))
      else Inr heap)"
  by pat_completeness auto
termination
  by (relation "measure (\<lambda>(n, t, h, p, c). n - c)") auto

declare sift_loop.simps [simp del]

fun heapify_loop :: "nat \<Rightarrow> StaticLinkList \<Rightarrow> nat \<Rightarrow> StaticLinkList outcome" where
  "heapify_loop n heap 0 = Inr heap"
| "heapify_loop n heap (Suc i) =
     andThen (node_at heap (int i)) (\<lambda>temp.
     andThen (sift_loop n (stu_id temp) heap i (2 * i + 1)) (\<lambda>heap'. heapify_loop n heap' i))"

definition initialHeap :: "StaticLinkList \<Rightarrow> StaticLinkList outcome" where
  "initialHeap heap = heapify_loop (nat (size heap)) heap (nat (size heap) div 2)"

text \<open>Moving a new node up; \<open>(child - 1) / 2\<close> is 0 for the root.\<close>

function up_loop :: "int \<Rightarrow> StaticLinkList \<Rightarrow> nat \<Rightarrow> (StaticLinkList \<times> nat) outcome" where
  "up_loop new_id heap child =
     (case node_at heap (int ((child - 1) div 2)) of Inl e \<Rightarrow> Inl e
      | Inr p \<Rightarrow>
          if new_id < stu_id p \<and> child > 0 then
            (case swapHeapNode heap (int ((child - 1) div 2)) (int child) of Inl e \<Rightarrow> Inl e
             | Inr heap' \<Rightarrow> up_loop new_id heap' ((child - 1) div 2))
          else Inr (heap, child))"
  by pat_completeness auto
termination
  by (relation "measure (\<lambda>(i, h, c). c)") auto

declare up_loop.simps [simp del]

definition strcpy_name :: "string \<Rightarrow> string outcome" where
  "strcpy_name name = (if length name < NAMESIZE then Inr name else Inl Out_of_bounds)"

definition pushHeapByIdAndName :: "StaticLinkList \<Rightarrow> int \<Rightarrow> string \<Rightarrow> StaticLinkList outcome" where
  "pushHeapByIdAndName heap new_id name =
     andThen (topStack (unusedIndexs heap)) (\<lambda>child.
     let h0 = heap\<lparr>unusedIndexs := popStack (unusedIndexs heap)\<rparr> in
     andThen (modify_node h0 child (\<lambda>s. s\<lparr>stu_id := new_id\<rparr>)) (\<lambda>h1.
     andThen (strcpy_name name) (\<lambda>nm.
     andThen (modify_node h1 child (\<lambda>s. s\<lparr>stu_name := nm\<rparr>)) (\<lambda>h2.
     andThen (set_pre_if (headIndex h2 \<noteq> -1) (headIndex h2) child h2) (\<lambda>h3.
     andThen (modify_node h3 child (\<lambda>s. s\<lparr>flag := 1, preNode := -1, nextNode := headIndex h3\<rparr>)) (\<lambda>h4.
     andThen (up_loop new_id (h4\<lparr>size := size h4 + 1\<rparr>) (nat child)) (\<lambda>(h5, c).
       Inr (h5\<lparr>headIndex := int c\<rparr>))))))))"

definition pushHeap :: "StaticLinkList \<Rightarrow> Student \<Rightarrow> StaticLinkList outcome" where
  "pushHeap heap stu = pushHeapByIdAndName heap (stu_id stu) (stu_name stu)"

function down_loop :: "nat \<Rightarrow> int \<Rightarrow> StaticLinkList \<Rightarrow> nat \<Rightarrow> StaticLinkList outcome" where
  "down_loop n temp_id heap high =
     (if high * 2 + 1 < n then
        let low = high * 2 + 1 in
        case node_at heap (int low) of Inl e \<Rightarrow> Inl e
        | Inr l \<Rightarrow>
          (case (if low \<noteq> n - 1 then map_sum (\<lambda>e. e) (\<lambda>r. stu_id l > stu_id r) (node_at heap (int low + 1)) else Inr False) of
             Inl e \<Rightarrow> Inl e
           | Inr right \<Rightarrow>
             let low' = (if right then low + 1 else low) in
             (case node_at heap (int low') of Inl e \<Rightarrow> Inl e
              | Inr c \<Rightarrow>
                if stu_id c < temp_id then
                  (case swapHeapNode heap (int high) (int low') of Inl e \<Rightarrow> Inl e
                   | Inr heap' \<Rightarrow> down_loop n temp_id heap' low')
                else Inr heap))
      else Inr heap)"
  by pat_completeness auto
termination
  by (relation "measure (\<lambda>(n, t, h, high). n - high)") auto

declare down_loop.simps [simp del]

text \<open>The removed node is unlinked at its new place, the index \<open>size\<close>.\<close>

definition unlink :: "StaticLinkList \<Rightarrow> int \<Rightarrow> StaticLinkList outcome" where
  "unlink heap i =
     andThen (node_at heap i) (\<lambda>s.
     let preNodeIndex = preNode s; nextNodeIndex = nextNode s in
     andThen (set_next_if (preNodeIndex \<noteq> -1) preNodeIndex nextNodeIndex heap) (\<lambda>h1.
     andThen (set_pre_if (nextNodeIndex \<noteq> -1) nextNodeIndex preNodeIndex h1) (\<lambda>h2.
       Inr (if preNodeIndex = -1 then h2\<lparr>headIndex := nextNodeIndex\<rparr> else h2))))"

definition popHeap :: "StaticLinkList \<Rightarrow> StaticLinkList outcome" where
  "popHeap heap =
     (if size heap = 0 then Inr heap
      else
        let h0 = heap\<lparr>size := size heap - 1\<rparr> in
        andThen (node_at h0 (size h0)) (\<lambda>temp.
        andThen (pushStack (unusedIndexs h0) (size h0)) (\<lambda>stk.
        let h1 = h0\<lparr>unusedIndexs := stk\<rparr> in
        andThen (modify_node h1 (headIndex h1) (\<lambda>s. s\<lparr>flag := 0\<rparr>)) (\<lambda>h2.
          if size h2 = 0 then Inr (h2\<lparr>headIndex := -1\<rparr>)
          else
            andThen (swapHeapNode h2 0 (size h2)) (\<lambda>h3.
            andThen (down_loop (nat (size h3)) (stu_id temp) h3 0) (\<lambda>h4.
              unlink h4 (size h4)))))))"

definition topHeap :: "StaticLinkList \<Rightarrow> Student outcome" where
  "topHeap t = node_at t 0"

definition isEmptyHeap :: "StaticLinkList \<Rightarrow> bool" where
  "isEmptyHeap t \<longleftrightarrow> size t = 0"

text \<open>
  The three searches differ in the test on a node; each looks at the node, then in the left and in the right subtree.
\<close>

function find_loop :: "(Student \<Rightarrow> bool) \<Rightarrow> StaticLinkList \<Rightarrow> nat \<Rightarrow> int outcome" where
  "find_loop P heap curIndex =
     (if int curIndex \<ge> size heap then Inr (-1)
      else case node_at heap (int curIndex) of Inl e \<Rightarrow> Inl e
      | Inr s \<Rightarrow>
          if P s then Inr (int curIndex)
          else (case (if int (curIndex * 2 + 1) < size heap then find_loop P heap (curIndex * 2 + 1) else Inr (-1)) of
            Inl e \<Rightarrow> Inl e
          | Inr leftIndex \<Rightarrow>
              if leftIndex \<noteq> -1 then Inr leftIndex
              else (if int (curIndex * 2 + 2) < size heap then find_loop P heap (curIndex * 2 + 2) else Inr (-1))))"
  by pat_completeness auto
termination
  by (relation "measure (\<lambda>(P, h, c). nat (size h - int c))") auto

declare find_loop.simps [simp del]

definition findHeap :: "StaticLinkList \<Rightarrow> Student \<Rightarrow> nat \<Rightarrow> int outcome" where
  "findHeap heap stu curIndex = find_loop (\<lambda>s. stu_id s = stu_id stu \<and> stu_name s = stu_name stu) heap curIndex"

definition findHeapById :: "StaticLinkList \<Rightarrow> int \<Rightarrow> nat \<Rightarrow> int outcome" where
  "findHeapById heap i curIndex = find_loop (\<lambda>s. stu_id s = i) heap curIndex"

definition findHeapByName :: "StaticLinkList \<Rightarrow> string \<Rightarrow> nat \<Rightarrow> int outcome" where
  "findHeapByName heap name curIndex = find_loop (\<lambda>s. stu_name s = name) heap curIndex"

definition modifyIdByIndex :: "StaticLinkList \<Rightarrow> int \<Rightarrow> int \<Rightarrow> StaticLinkList outcome" where
  "modifyIdByIndex heap ind i =
     (if ind \<ge> size heap then Inr heap
      else andThen (modify_node heap ind (\<lambda>s. s\<lparr>stu_id := i\<rparr>)) initialHeap)"

definition modifyNameByIndex :: "StaticLinkList \<Rightarrow> int \<Rightarrow> string \<Rightarrow> StaticLinkList outcome" where
  "modifyNameByIndex heap ind name =
     (if ind \<ge> size heap then Inr heap
      else andThen (strcpy_name name) (\<lambda>nm. modify_node heap ind (\<lambda>s. s\<lparr>stu_name := nm\<rparr>)))"

definition modifyIdAndNameByIndex :: "StaticLinkList \<Rightarrow> int \<Rightarrow> int \<Rightarrow> string \<Rightarrow> StaticLinkList outcome" where
  "modifyIdAndNameByIndex heap ind i name =
     (if ind \<ge> size heap then Inr heap
      else andThen (modify_node heap ind (\<lambda>s. s\<lparr>stu_id := i\<rparr>)) (\<lambda>h1.
           andThen (strcpy_name name) (\<lambda>nm.
           andThen (modify_node h1 ind (\<lambda>s. s\<lparr>stu_name := nm\<rparr>)) initialHeap)))"

definition modifyId :: "StaticLinkList \<Rightarrow> Student \<Rightarrow> int \<Rightarrow> StaticLinkList outcome" where
  "modifyId heap stu i =
     andThen (findHeap heap stu 0) (\<lambda>ind.
       if ind = -1 then Inr heap
       else andThen (modify_node heap ind (\<lambda>s. s\<lparr>stu_id := i\<rparr>)) initialHeap)"

definition modifyName :: "StaticLinkList \<Rightarrow> Student \<Rightarrow> string \<Rightarrow> StaticLinkList outcome" where
  "modifyName heap stu name =
     andThen (findHeap heap stu 0) (\<lambda>ind.
       if ind = -1 then Inr heap
       else andThen (strcpy_name name) (\<lambda>nm. modify_node heap ind (\<lambda>s. s\<lparr>stu_name := nm\<rparr>)))"

definition modifyIdAndName :: "StaticLinkList \<Rightarrow> Student \<Rightarrow> int \<Rightarrow> string \<Rightarrow> StaticLinkList outcome" where
  "modifyIdAndName heap stu i name =
     andThen (findHeap heap stu 0) (\<lambda>ind.
       if ind = -1 then Inr heap
       else andThen (modify_node heap ind (\<lambda>s. s\<lparr>stu_id := i\<rparr>)) (\<lambda>h1.
            andThen (strcpy_name name) (\<lambda>nm.
            andThen (modify_node h1 ind (\<lambda>s. s\<lparr>stu_name := nm\<rparr>)) initialHeap)))"

text \<open>The nodes that \<open>printStaticLinkList\<close> prints, from \<open>i\<close> to the tail.\<close>

partial_function (option) walk_list :: "StaticLinkList \<Rightarrow> int \<Rightarrow> Student list \<Rightarrow> Student list outcome option" where
  "walk_list ll i out =
     (if i = -1 then Some (Inr out)
      else if isl (node_at ll i) then Some (Inl (projl (node_at ll i)))
      else walk_list ll (nextNode (projr (node_at ll i))) (out @ [projr (node_at ll i)]))"

declare walk_list.simps [code]

definition printStaticLinkList :: "StaticLinkList \<Rightarrow> Student list outcome" where
  "printStaticLinkList ll =
     (if headIndex ll = -1 then Inr [] else andThen (loop_result (walk_list ll (headIndex ll) [])) (\<lambda>r. r))"

definition printHeap :: "StaticLinkList \<Rightarrow> Student list" where
  "printHeap heap = take (nat (size heap)) (lst heap)"

section \<open>The links as a list of indices\<close>

text \<open>
  \<open>P\<close> and \<open>N\<close> are the previous and next indices, with -1 for none, of the list of indices \<open>L\<close>.
\<close>

definition dl :: "(int \<Rightarrow> int) \<Rightarrow> (int \<Rightarrow> int) \<Rightarrow> int list \<Rightarrow> bool" where
  "dl P N L \<longleftrightarrow> distinct L \<and> -1 \<notin> set L \<and>
     (\<forall>k < length L. P (L ! k) = (if k = 0 then -1 else L ! (k - 1)) \<and>
        N (L ! k) = (if k + 1 < length L then L ! (k + 1) else -1))"

definition transposed :: "int \<Rightarrow> int \<Rightarrow> int \<Rightarrow> int" where
  "transposed p c i = (if i = p then c else if i = c then p else i)"

lemma dl_pre:
  assumes "dl P N L" "x \<in> set L" "P x \<noteq> -1"
  shows "P x \<in> set L" "N (P x) = x" "P x \<noteq> x" "P x \<noteq> N x"
proof -
  obtain k where k: "k < length L" "L ! k = x" using assms(2) by (auto simp: in_set_conv_nth)
  have pk: "P x = (if k = 0 then -1 else L ! (k - 1))" using assms(1) k by (auto simp: dl_def)
  then have k0: "k \<noteq> 0" "P x = L ! (k - 1)" using assms(3) by (auto split: if_splits)
  have d: "i < length L \<Longrightarrow> j < length L \<Longrightarrow> L ! i = L ! j \<Longrightarrow> i = j" for i j
    using assms(1) by (simp add: dl_def nth_eq_iff_index_eq)
  show "P x \<in> set L" using k0 k by simp
  have "N (L ! (k - 1)) = L ! k" using assms(1) k k0 by (auto simp: dl_def)
  then show "N (P x) = x" using k k0 by simp
  have k1: "k - 1 < length L" using k by linarith
  show "P x \<noteq> x" using k k0 d [OF k1 k(1)] by auto
  have "N x = (if k + 1 < length L then L ! (k + 1) else -1)" using assms(1) k by (auto simp: dl_def)
  then show "P x \<noteq> N x" using k k0 d [OF k1, of "k + 1"] assms(3) by (auto split: if_splits)
qed

lemma dl_next:
  assumes "dl P N L" "x \<in> set L" "N x \<noteq> -1"
  shows "N x \<in> set L" "P (N x) = x" "N x \<noteq> x"
proof -
  obtain k where k: "k < length L" "L ! k = x" using assms(2) by (auto simp: in_set_conv_nth)
  have nk: "N x = (if k + 1 < length L then L ! (k + 1) else -1)" using assms(1) k by (auto simp: dl_def)
  then have k1: "k + 1 < length L" "N x = L ! (k + 1)" using assms(3) by (auto split: if_splits)
  have "P (L ! (k + 1)) = L ! k" using assms(1) k1 by (auto simp: dl_def)
  then show "P (N x) = x" using k k1 by simp
  show "N x \<in> set L" using k1 by simp
  have "distinct L" using assms(1) by (simp add: dl_def)
  then show "N x \<noteq> x" using k k1 nth_eq_iff_index_eq [of L "k + 1" k] by auto
qed

lemma dl_hd:
  assumes "dl P N L" "x \<in> set L"
  shows "P x = -1 \<longleftrightarrow> x = hd L"
proof -
  obtain k where k: "k < length L" "L ! k = x" using assms(2) by (auto simp: in_set_conv_nth)
  have ne: "distinct L" "L \<noteq> []" "-1 \<notin> set L" using assms by (auto simp: dl_def)
  have "P x = (if k = 0 then -1 else L ! (k - 1))" using assms(1) k by (auto simp: dl_def)
  moreover have "k \<noteq> 0 \<longrightarrow> L ! (k - 1) \<noteq> -1" using k(1) ne(3) by (metis less_imp_diff_less nth_mem)
  moreover have "x = hd L \<longleftrightarrow> k = 0" using k ne nth_eq_iff_index_eq [of L k 0] by (simp add: hd_conv_nth)
  ultimately show ?thesis by simp
qed

lemma dl_map:
  assumes "dl P N L" "inj f" "f (-1) = -1" "\<forall>x \<in> set L. P' (f x) = f (P x) \<and> N' (f x) = f (N x)"
  shows "dl P' N' (map f L)"
proof -
  have "-1 \<notin> f ` set L" using assms(1-3) by (metis dl_def imageE injD)
  moreover have "inj_on f (set L)" using assms(2) inj_on_subset by blast
  ultimately show ?thesis using assms by (auto simp: dl_def distinct_map)
qed

text \<open>
  The assignments of \<open>swapHeapNode\<close> to the two link fields, in the order of the code: they rename \<open>p\<close> to \<open>c\<close> and \<open>c\<close>
  to \<open>p\<close> in all links.
\<close>

definition swapped_pre :: "(int \<Rightarrow> int) \<Rightarrow> (int \<Rightarrow> int) \<Rightarrow> int \<Rightarrow> int \<Rightarrow> int \<Rightarrow> int" where
  "swapped_pre P N p c =
     (let P2 = P(p := P c, c := P p);
          P4 = (if N p \<noteq> -1 \<and> N p \<noteq> c then P2(N p := c) else P2);
          P6 = (if N c \<noteq> -1 \<and> N c \<noteq> p then P4(N c := p) else P4);
          P8 = (if P p = c then P6(c := p) else P6)
      in if N p = c then P8(p := c) else P8)"

definition swapped_next :: "(int \<Rightarrow> int) \<Rightarrow> (int \<Rightarrow> int) \<Rightarrow> int \<Rightarrow> int \<Rightarrow> int \<Rightarrow> int" where
  "swapped_next P N p c =
     (let N2 = N(p := N c, c := N p);
          N3 = (if P p \<noteq> -1 \<and> P p \<noteq> c then N2(P p := c) else N2);
          N5 = (if P c \<noteq> -1 \<and> P c \<noteq> p then N3(P c := p) else N3);
          N7 = (if P p = c then N5(p := c) else N5)
      in if N p = c then N7(c := p) else N7)"

lemma swapped_links:
  assumes dl: "dl P N L" and p: "p \<in> set L" and c: "c \<in> set L" and ne: "p \<noteq> c" and x: "x \<in> set L"
  shows "swapped_pre P N p c (transposed p c x) = transposed p c (P x)"
    and "swapped_next P N p c (transposed p c x) = transposed p c (N x)"
proof -
  have m1: "p \<noteq> -1" "c \<noteq> -1" "x \<noteq> -1" using dl p c x by (auto simp: dl_def)
  have self: "P y \<noteq> y" "N y \<noteq> y" if "y \<in> set L" for y
    using dl_pre(3) [OF dl that] dl_next(3) [OF dl that] dl that by (metis dl_def)+
  have inv: "P y = z \<longleftrightarrow> N z = y" if "y \<in> set L" "z \<in> set L" for y z
    using dl_pre(2) [OF dl that(1)] dl_next(2) [OF dl that(2)] dl that by (metis dl_def)
  note facts = self [OF p] self [OF c] inv [OF p c] inv [OF c p] m1 ne
  consider "x = p" | "x = c" | "x \<noteq> p" "x \<noteq> c" by blast
  then show "swapped_pre P N p c (transposed p c x) = transposed p c (P x)"
  proof cases
    case 3
    then show ?thesis using inv [OF x p] inv [OF x c] m1 ne
      by (cases "N p = x"; cases "N c = x") (simp_all add: swapped_pre_def transposed_def Let_def)
  qed (use facts in \<open>simp_all add: swapped_pre_def transposed_def Let_def\<close>)
  consider "x = p" | "x = c" | "x \<noteq> p" "x \<noteq> c" by blast
  then show "swapped_next P N p c (transposed p c x) = transposed p c (N x)"
  proof cases
    case 3
    then show ?thesis using inv [OF p x] inv [OF c x] m1 ne
      by (cases "P p = x"; cases "P c = x") (simp_all add: swapped_next_def transposed_def Let_def)
  qed (use facts in \<open>simp_all add: swapped_next_def transposed_def Let_def eq_commute [of _ "P p"] eq_commute [of _ "P c"]\<close>)
qed

section \<open>swapHeapNode\<close>

definition in_range :: "int \<Rightarrow> bool" where
  "in_range i \<longleftrightarrow> 0 \<le> i \<and> i < int MAXSIZE"

definition payload :: "Student \<Rightarrow> int \<times> int \<times> string" where
  "payload s = (flag s, stu_id s, stu_name s)"

text \<open>The array seen as three functions of the index, and the other fields of the structure.\<close>

definition looks :: "StaticLinkList \<Rightarrow> (int \<Rightarrow> int) \<Rightarrow> (int \<Rightarrow> int) \<Rightarrow> (int \<Rightarrow> int \<times> int \<times> string) \<Rightarrow> bool" where
  "looks h P N Y \<longleftrightarrow> length (lst h) = MAXSIZE \<and>
     (\<forall>i. in_range i \<longrightarrow> preNode (lst h ! nat i) = P i \<and> nextNode (lst h ! nat i) = N i \<and> payload (lst h ! nat i) = Y i)"

definition rest :: "StaticLinkList \<Rightarrow> int \<times> int \<times> Stack" where
  "rest h = (headIndex h, size h, unusedIndexs h)"

lemma node_at_in [bounds_simps]: "looks h P N Y \<Longrightarrow> in_range i \<Longrightarrow> node_at h i = Inr (lst h ! nat i)"
  by (simp add: node_at_def looks_def in_range_def array_get_def)

lemma nat_in_range: "in_range i \<Longrightarrow> in_range j \<Longrightarrow> nat i = nat j \<longleftrightarrow> i = j" "in_range i \<Longrightarrow> nat i < MAXSIZE"
  by (auto simp: in_range_def)

lemma put_node_looks:
  assumes "looks h P N Y" "in_range i"
  shows "\<exists>h'. put_node h i s = Inr h' \<and> looks h' (P(i := preNode s)) (N(i := nextNode s)) (Y(i := payload s)) \<and> rest h' = rest h"
  using assms nat_in_range
  by (auto simp: put_node_def array_set_def looks_def in_range_def rest_def nth_list_update)

lemma modify_node_looks:
  assumes "looks h P N Y" "in_range i"
  shows "\<exists>h'. modify_node h i f = Inr h' \<and> rest h' = rest h \<and> (let s = f (lst h ! nat i) in
     looks h' (P(i := preNode s)) (N(i := nextNode s)) (Y(i := payload s)))"
  using put_node_looks [OF assms, of "f (lst h ! nat i)"] node_at_in [OF assms] by (auto simp: modify_node_def Let_def)

lemma set_pre_looks:
  assumes "looks h P N Y" "c \<Longrightarrow> in_range i"
  shows "\<exists>h'. set_pre_if c i v h = Inr h' \<and> looks h' (if c then P(i := v) else P) N Y \<and> rest h' = rest h"
proof (cases c)
  case True
  have "in_range i" using assms(2) True .
  moreover from this have "payload (lst h ! nat i) = Y i" "nextNode (lst h ! nat i) = N i" using assms(1) by (auto simp: looks_def)
  moreover have "payload ((lst h ! nat i)\<lparr>preNode := v\<rparr>) = payload (lst h ! nat i)" by (simp add: payload_def)
  ultimately show ?thesis using True modify_node_looks [OF assms(1), of i "\<lambda>s. s\<lparr>preNode := v\<rparr>"]
    by (auto simp: set_pre_if_def Let_def)
qed (use assms in \<open>simp add: set_pre_if_def\<close>)

lemma set_next_looks:
  assumes "looks h P N Y" "c \<Longrightarrow> in_range i"
  shows "\<exists>h'. set_next_if c i v h = Inr h' \<and> looks h' P (if c then N(i := v) else N) Y \<and> rest h' = rest h"
proof (cases c)
  case True
  have "in_range i" using assms(2) True .
  moreover from this have "payload (lst h ! nat i) = Y i" "preNode (lst h ! nat i) = P i" using assms(1) by (auto simp: looks_def)
  moreover have "payload ((lst h ! nat i)\<lparr>nextNode := v\<rparr>) = payload (lst h ! nat i)" by (simp add: payload_def)
  ultimately show ?thesis using True modify_node_looks [OF assms(1), of i "\<lambda>s. s\<lparr>nextNode := v\<rparr>"]
    by (auto simp: set_next_if_def Let_def)
qed (use assms in \<open>simp add: set_next_if_def\<close>)

lemma swapHeapNode_looks:
  assumes lk: "looks h P N Y" and r: "in_range p" "in_range c" and ne: "p \<noteq> c"
    and lr: "P p \<noteq> -1 \<Longrightarrow> in_range (P p)" "N p \<noteq> -1 \<Longrightarrow> in_range (N p)"
      "P c \<noteq> -1 \<Longrightarrow> in_range (P c)" "N c \<noteq> -1 \<Longrightarrow> in_range (N c)"
  shows "\<exists>h'. swapHeapNode h p c = Inr h' \<and>
    looks h' (swapped_pre P N p c) (swapped_next P N p c) (Y(p := Y c, c := Y p)) \<and>
    size h' = size h \<and> unusedIndexs h' = unusedIndexs h \<and>
    headIndex h' = (if swapped_pre P N p c c = -1 then c else if swapped_pre P N p c p = -1 then p else headIndex h)"
proof -
  have m: "node_at h p = Inr (lst h ! nat p)" "node_at h c = Inr (lst h ! nat c)"
    using node_at_in [OF lk r(1)] node_at_in [OF lk r(2)] by simp_all
  have n: "preNode (lst h ! nat p) = P p" "nextNode (lst h ! nat p) = N p" "payload (lst h ! nat p) = Y p"
    "preNode (lst h ! nat c) = P c" "nextNode (lst h ! nat c) = N c" "payload (lst h ! nat c) = Y c"
    using lk r by (auto simp: looks_def)
  obtain h1 where h1: "put_node h p (lst h ! nat c) = Inr h1" "looks h1 (P(p := P c)) (N(p := N c)) (Y(p := Y c))" "rest h1 = rest h"
    using put_node_looks [OF lk r(1), of "lst h ! nat c"] n by auto
  obtain h2 where h2: "put_node h1 c (lst h ! nat p) = Inr h2"
    "looks h2 (P(p := P c, c := P p)) (N(p := N c, c := N p)) (Y(p := Y c, c := Y p))" "rest h2 = rest h"
    using put_node_looks [OF h1(2) r(2), of "lst h ! nat p"] n h1(3) by auto
  let ?Y = "Y(p := Y c, c := Y p)"
  let ?P4 = "if N p \<noteq> -1 \<and> N p \<noteq> c then P(p := P c, c := P p, N p := c) else P(p := P c, c := P p)"
  let ?N3 = "if P p \<noteq> -1 \<and> P p \<noteq> c then N(p := N c, c := N p, P p := c) else N(p := N c, c := N p)"
  obtain h3 where h3: "set_next_if (P p \<noteq> -1 \<and> P p \<noteq> c) (P p) c h2 = Inr h3" "looks h3 (P(p := P c, c := P p)) ?N3 ?Y" "rest h3 = rest h"
    using set_next_looks [OF h2(2), of "P p \<noteq> -1 \<and> P p \<noteq> c" "P p" c] lr(1) h2(3) by auto
  obtain h4 where h4: "set_pre_if (N p \<noteq> -1 \<and> N p \<noteq> c) (N p) c h3 = Inr h4" "looks h4 ?P4 ?N3 ?Y" "rest h4 = rest h"
    using set_pre_looks [OF h3(2), of "N p \<noteq> -1 \<and> N p \<noteq> c" "N p" c] lr(2) h3(3) by auto
  let ?N5 = "if P c \<noteq> -1 \<and> P c \<noteq> p then ?N3(P c := p) else ?N3"
  let ?P6 = "if N c \<noteq> -1 \<and> N c \<noteq> p then ?P4(N c := p) else ?P4"
  obtain h5 where h5: "set_next_if (P c \<noteq> -1 \<and> P c \<noteq> p) (P c) p h4 = Inr h5" "looks h5 ?P4 ?N5 ?Y" "rest h5 = rest h"
    using set_next_looks [OF h4(2), of "P c \<noteq> -1 \<and> P c \<noteq> p" "P c" p] lr(3) h4(3) by auto
  obtain h6 where h6: "set_pre_if (N c \<noteq> -1 \<and> N c \<noteq> p) (N c) p h5 = Inr h6" "looks h6 ?P6 ?N5 ?Y" "rest h6 = rest h"
    using set_pre_looks [OF h5(2), of "N c \<noteq> -1 \<and> N c \<noteq> p" "N c" p] lr(4) h5(3) by auto
  let ?N7 = "if P p = c then ?N5(p := c) else ?N5" and ?P8 = "if P p = c then ?P6(c := p) else ?P6"
  obtain h7 where h7: "set_next_if (P p = c) p c h6 = Inr h7" "looks h7 ?P6 ?N7 ?Y" "rest h7 = rest h"
    using set_next_looks [OF h6(2), of "P p = c" p c] r h6(3) by auto
  obtain h8 where h8: "set_pre_if (P p = c) c p h7 = Inr h8" "looks h8 ?P8 ?N7 ?Y" "rest h8 = rest h"
    using set_pre_looks [OF h7(2), of "P p = c" c p] r h7(3) by auto
  obtain h9 where h9: "set_pre_if (N p = c) p c h8 = Inr h9" "looks h9 (swapped_pre P N p c) ?N7 ?Y" "rest h9 = rest h"
    using set_pre_looks [OF h8(2), of "N p = c" p c] r h8(3) unfolding swapped_pre_def Let_def by auto
  obtain h10 where h10: "set_next_if (N p = c) c p h9 = Inr h10"
    "looks h10 (swapped_pre P N p c) (swapped_next P N p c) ?Y" "rest h10 = rest h"
    using set_next_looks [OF h9(2), of "N p = c" c p] r h9(3) unfolding swapped_next_def Let_def by auto
  have pr: "preNode (lst h10 ! nat p) = swapped_pre P N p c p" "preNode (lst h10 ! nat c) = swapped_pre P N p c c"
    using h10(2) r by (auto simp: looks_def)
  let ?h11 = "if swapped_pre P N p c p = -1 then h10\<lparr>headIndex := p\<rparr> else h10"
  have n2: "node_at h10 p = Inr (lst h10 ! nat p)" "node_at ?h11 c = Inr (lst h10 ! nat c)"
    using node_at_in [OF h10(2)] r by (auto simp: node_at_def)
  have "swapHeapNode h p c = Inr (if swapped_pre P N p c c = -1 then ?h11\<lparr>headIndex := c\<rparr> else ?h11)"
    unfolding swapHeapNode_def Let_def
    by (simp only: m n(1,2,4,5) h1(1) h2(1) h3(1) h4(1) h5(1) h6(1) h7(1) h8(1) h9(1) h10(1) n2 pr andThen_simps)
  then show ?thesis using h10(2,3) by (auto simp: looks_def rest_def)
qed

section \<open>Sequences of swaps\<close>

definition pre :: "StaticLinkList \<Rightarrow> int \<Rightarrow> int" where "pre h i = preNode (lst h ! nat i)"
definition nxt :: "StaticLinkList \<Rightarrow> int \<Rightarrow> int" where "nxt h i = nextNode (lst h ! nat i)"
definition pay :: "StaticLinkList \<Rightarrow> int \<Rightarrow> int \<times> int \<times> string" where "pay h i = payload (lst h ! nat i)"
definition key :: "StaticLinkList \<Rightarrow> nat \<Rightarrow> int" where "key h i = stu_id (lst h ! i)"

definition head_of :: "int list \<Rightarrow> int" where "head_of L = (if L = [] then -1 else hd L)"

lemma head_of_Cons [simp]: "head_of (x # L) = x" "head_of [] = -1"
  by (simp_all add: head_of_def)

text \<open>The first \<open>m\<close> nodes of the array are linked in the order \<open>L\<close>.\<close>

definition linked :: "StaticLinkList \<Rightarrow> nat \<Rightarrow> int list \<Rightarrow> bool" where
  "linked h m L \<longleftrightarrow> length (lst h) = MAXSIZE \<and> m \<le> MAXSIZE \<and> set L = int ` {0..<m} \<and> dl (pre h) (nxt h) L"

text \<open>
  \<open>h'\<close> arises from \<open>h\<close> by a permutation of the first \<open>n\<close> positions of the array that the links follow.
\<close>

definition shuffled :: "nat \<Rightarrow> StaticLinkList \<Rightarrow> int list \<Rightarrow> StaticLinkList \<Rightarrow> int list \<Rightarrow> bool" where
  "shuffled n h L h' L' \<longleftrightarrow> (\<exists>f. inj f \<and> (\<forall>i. i < 0 \<or> int n \<le> i \<longrightarrow> f i = i) \<and> L' = map f L \<and>
      (\<forall>i. in_range i \<longrightarrow> in_range (f i) \<and> pay h' (f i) = pay h i)) \<and>
     size h' = size h \<and> unusedIndexs h' = unusedIndexs h \<and> (headIndex h = head_of L \<longrightarrow> headIndex h' = head_of L')"

lemma linked_other_fields [simp]:
  "pre (h\<lparr>headIndex := a\<rparr>) = pre h" "pre (h\<lparr>size := b\<rparr>) = pre h" "pre (h\<lparr>unusedIndexs := s\<rparr>) = pre h"
  "nxt (h\<lparr>headIndex := a\<rparr>) = nxt h" "nxt (h\<lparr>size := b\<rparr>) = nxt h" "nxt (h\<lparr>unusedIndexs := s\<rparr>) = nxt h"
  "pay (h\<lparr>headIndex := a\<rparr>) = pay h" "pay (h\<lparr>size := b\<rparr>) = pay h" "pay (h\<lparr>unusedIndexs := s\<rparr>) = pay h"
  "key (h\<lparr>headIndex := a\<rparr>) = key h" "key (h\<lparr>size := b\<rparr>) = key h" "key (h\<lparr>unusedIndexs := s\<rparr>) = key h"
  "linked (h\<lparr>headIndex := a\<rparr>) m L = linked h m L" "linked (h\<lparr>size := b\<rparr>) m L = linked h m L"
  "linked (h\<lparr>unusedIndexs := s\<rparr>) m L = linked h m L"
  by (auto simp: fun_eq_iff pre_def nxt_def pay_def key_def linked_def dl_def)

lemma looks_self: "length (lst h) = MAXSIZE \<Longrightarrow> looks h (pre h) (nxt h) (pay h)"
  by (simp add: looks_def pre_def nxt_def pay_def)

lemma looks_eq: "looks h P N Y \<Longrightarrow> in_range i \<Longrightarrow> pre h i = P i \<and> nxt h i = N i \<and> pay h i = Y i"
  by (simp add: looks_def pre_def nxt_def pay_def)

lemma linked_range: "linked h m L \<Longrightarrow> i \<in> set L \<Longrightarrow> in_range i"
  by (auto simp: linked_def in_range_def)

lemma linked_node_at [bounds_simps]: "linked h m L \<Longrightarrow> i < m \<Longrightarrow> node_at h (int i) = Inr (lst h ! i)"
  by (simp add: linked_def node_at_def array_get_def)

lemma shuffled_refl: "shuffled n h L h L"
  unfolding shuffled_def by (auto intro: exI [of _ id])

lemma shuffled_trans:
  assumes "shuffled n h L h' L'" "shuffled n h' L' h'' L''"
  shows "shuffled n h L h'' L''"
proof -
  obtain f where f: "inj f" "\<forall>i. i < 0 \<or> int n \<le> i \<longrightarrow> f i = i" "L' = map f L" "\<forall>i. in_range i \<longrightarrow> in_range (f i) \<and> pay h' (f i) = pay h i"
    using assms(1) by (auto simp: shuffled_def)
  obtain g where g: "inj g" "\<forall>i. i < 0 \<or> int n \<le> i \<longrightarrow> g i = i" "L'' = map g L'" "\<forall>i. in_range i \<longrightarrow> in_range (g i) \<and> pay h'' (g i) = pay h' i"
    using assms(2) by (auto simp: shuffled_def)
  have "inj (g \<circ> f)" using f(1) g(1) by (rule inj_compose [rotated])
  moreover have "\<forall>i. i < 0 \<or> int n \<le> i \<longrightarrow> (g \<circ> f) i = i" using f(2) g(2) by simp
  moreover have "L'' = map (g \<circ> f) L" using f(3) g(3) by simp
  moreover have "\<forall>i. in_range i \<longrightarrow> in_range ((g \<circ> f) i) \<and> pay h'' ((g \<circ> f) i) = pay h i" using f(4) g(4) by simp
  ultimately show ?thesis using assms unfolding shuffled_def by metis
qed

lemma swapHeapNode_linked:
  assumes lk: "linked h m L" and p: "p < n" and c: "c < n" and n: "n \<le> m" and ne: "p \<noteq> c"
  shows "\<exists>h' L'. swapHeapNode h (int p) (int c) = Inr h' \<and> linked h' m L' \<and> shuffled n h L h' L' \<and> L' = map (transposed (int p) (int c)) L \<and>
    key h' p = key h c \<and> key h' c = key h p \<and> (\<forall>i < m. i \<noteq> p \<and> i \<noteq> c \<longrightarrow> key h' i = key h i)"
proof -
  let ?P = "pre h" and ?N = "nxt h" and ?p = "int p" and ?c = "int c" and ?f = "transposed (int p) (int c)"
  let ?P' = "swapped_pre ?P ?N ?p ?c" and ?N' = "swapped_next ?P ?N ?p ?c"
  have len: "length (lst h) = MAXSIZE" and dl: "dl ?P ?N L" and sL: "set L = int ` {0..<m}" and m: "m \<le> MAXSIZE"
    using lk by (auto simp: linked_def)
  have pc: "?p \<in> set L" "?c \<in> set L" "?p \<noteq> ?c" using p c n ne sL by auto
  have r: "in_range ?p" "in_range ?c" using linked_range [OF lk] pc by auto
  obtain h' where h': "swapHeapNode h ?p ?c = Inr h'" "looks h' ?P' ?N' ((pay h)(?p := pay h ?c, ?c := pay h ?p))"
    "size h' = size h" "unusedIndexs h' = unusedIndexs h"
    "headIndex h' = (if ?P' ?c = -1 then ?c else if ?P' ?p = -1 then ?p else headIndex h)"
    using swapHeapNode_looks [OF looks_self [OF len] r pc(3)] dl_pre(1) [OF dl pc(1)] dl_pre(1) [OF dl pc(2)]
      dl_next(1) [OF dl pc(1)] dl_next(1) [OF dl pc(2)] linked_range [OF lk] by blast
  note eq = looks_eq [OF h'(2)]
  have inj: "inj ?f" by (auto simp: inj_def transposed_def split: if_splits)
  have fset: "?f ` set L = set L" using pc by (force simp: transposed_def)
  have "dl (pre h') (nxt h') (map ?f L)"
  proof (rule dl_map [OF dl inj])
    show "?f (-1) = -1" by (simp add: transposed_def)
    show "\<forall>x\<in>set L. pre h' (?f x) = ?f (?P x) \<and> nxt h' (?f x) = ?f (?N x)"
      using eq swapped_links [OF dl pc] linked_range [OF lk] fset by (metis imageI)
  qed
  then have l': "linked h' m (map ?f L)" using fset sL m h'(2) by (simp add: linked_def looks_def)
  have py: "in_range (?f i) \<and> pay h' (?f i) = pay h i" if "in_range i" for i
    using eq [of "?f i"] that r by (auto simp: transposed_def)
  have ne': "L \<noteq> []" using pc by auto
  have hd: "headIndex h' = head_of (map ?f L)" if "headIndex h = head_of L"
  proof -
    have h0: "?P' (?f x) = -1 \<longleftrightarrow> x = hd L" if "x \<in> set L" for x
    proof -
      have "?P x = -1 \<longleftrightarrow> x = hd L" by (rule dl_hd [OF dl that])
      moreover have "?f (?P x) = -1 \<longleftrightarrow> ?P x = -1" by (auto simp: transposed_def)
      ultimately show ?thesis using swapped_links(1) [OF dl pc that] by simp
    qed
    have "?P' ?c = -1 \<longleftrightarrow> ?p = hd L" "?P' ?p = -1 \<longleftrightarrow> ?c = hd L"
      using h0 [OF pc(1)] h0 [OF pc(2)] pc(3) by (simp_all add: transposed_def)
    then show ?thesis using h'(5) that ne' by (auto simp: hd_map head_of_def transposed_def)
  qed
  have "\<forall>i. i < 0 \<or> int n \<le> i \<longrightarrow> ?f i = i" using p c by (auto simp: transposed_def)
  then have sh: "shuffled n h L h' (map ?f L)" unfolding shuffled_def using inj py h'(3,4) hd by blast
  have key: "key h' i = (if i = p then key h c else if i = c then key h p else key h i)" if "i < m" for i
  proof -
    have "in_range (int i)" using that m by (simp add: in_range_def)
    then have "pay h' (int i) = ((pay h)(?p := pay h ?c, ?c := pay h ?p)) (int i)" using eq by simp
    then show ?thesis using pc(3) by (auto simp: key_def pay_def payload_def split: if_splits)
  qed
  show ?thesis using h'(1) l' sh key p c n by auto
qed

end
