(* ===== verification/Heap_Order.thy ===== *)
theory Heap_Order
  imports Min_Heap
begin

text \<open>
  The order kept by the operations of \<open>Labweek7/SLList_MinHeap.c\<close>: the heap order as a predicate on the keys by position,
  its restoration by the loops of \<open>initialHeap\<close>, \<open>pushHeap\<close> and \<open>popHeap\<close>, and the invariant of the whole structure.
\<close>

section \<open>The heap order\<close>

definition parent_of :: "nat \<Rightarrow> nat" where
  "parent_of j = (j - 1) div 2"

lemma parent_of_child [simp]: "parent_of (Suc (2 * p)) = p" "parent_of (Suc (Suc (2 * p))) = p" "parent_of (2 * p + 1) = p" "parent_of (2 * p + 2) = p"
  by (simp_all add: parent_of_def)

lemma parent_of_iff: "0 < j \<Longrightarrow> parent_of j = p \<longleftrightarrow> j = 2 * p + 1 \<or> j = 2 * p + 2"
  by (auto simp: parent_of_def)

lemma parent_of_less: "0 < j \<Longrightarrow> parent_of j < j"
  by (simp add: parent_of_def)

text \<open>The order holds below every position from \<open>lo\<close> on.\<close>

definition heap_from :: "nat \<Rightarrow> nat \<Rightarrow> (nat \<Rightarrow> int) \<Rightarrow> bool" where
  "heap_from lo n f \<longleftrightarrow> (\<forall>j. 0 < j \<and> j < n \<and> lo \<le> parent_of j \<longrightarrow> f (parent_of j) \<le> f j)"

text \<open>The order holds but below \<open>p\<close>, whose element may have to move down; the elements below fit under the parent of \<open>p\<close>.\<close>

definition sinking :: "nat \<Rightarrow> nat \<Rightarrow> (nat \<Rightarrow> int) \<Rightarrow> nat \<Rightarrow> bool" where
  "sinking lo n f p \<longleftrightarrow> (\<forall>j. 0 < j \<and> j < n \<and> lo \<le> parent_of j \<and> parent_of j \<noteq> p \<longrightarrow> f (parent_of j) \<le> f j) \<and>
     (\<forall>j. 0 < j \<and> j < n \<and> parent_of j = p \<and> 0 < p \<and> lo \<le> parent_of p \<longrightarrow> f (parent_of p) \<le> f j)"

definition rising :: "nat \<Rightarrow> (nat \<Rightarrow> int) \<Rightarrow> nat \<Rightarrow> bool" where
  "rising n f c \<longleftrightarrow> (\<forall>j. 0 < j \<and> j < n \<and> j \<noteq> c \<longrightarrow> f (parent_of j) \<le> f j) \<and>
     (\<forall>j. 0 < j \<and> j < n \<and> parent_of j = c \<and> 0 < c \<longrightarrow> f (parent_of c) \<le> f j)"

lemma heap_root_least: "heap_from 0 n f \<Longrightarrow> i < n \<Longrightarrow> f 0 \<le> f i"
proof (induction i rule: less_induct)
  case (less i)
  show ?case
  proof (cases "i = 0")
    case False
    then have "f 0 \<le> f (parent_of i)" using less parent_of_less [of i] by simp
    also have "\<dots> \<le> f i" using less.prems False by (simp add: heap_from_def)
    finally show ?thesis .
  qed simp
qed

lemma heap_from_cong:
  assumes "heap_from lo n f" "\<forall>i < n. g i = f i"
  shows "heap_from lo n g"
  unfolding heap_from_def
proof (intro allI impI)
  fix j assume j: "0 < j \<and> j < n \<and> lo \<le> parent_of j"
  then have "parent_of j < n" using parent_of_less [of j] by simp
  then show "g (parent_of j) \<le> g j" using assms j by (simp add: heap_from_def)
qed

lemma heap_above_half: "n \<le> 2 * lo + 1 \<Longrightarrow> heap_from lo n f"
  by (auto simp: heap_from_def parent_of_def)

lemma sinking_start: "heap_from (Suc p) n f \<Longrightarrow> sinking p n f p"
  by (auto simp: heap_from_def sinking_def parent_of_def)

lemma sinking_root: "heap_from 0 (Suc n) f \<Longrightarrow> \<forall>i < n. i \<noteq> 0 \<longrightarrow> g i = f i \<Longrightarrow> sinking 0 n g 0"
  by (auto simp: heap_from_def sinking_def parent_of_def)

lemma sinking_stop:
  assumes "sinking lo n f p" "2 * p + 1 < n \<Longrightarrow> f p \<le> f (2 * p + 1)" "2 * p + 2 < n \<Longrightarrow> f p \<le> f (2 * p + 2)"
  shows "heap_from lo n f"
  unfolding heap_from_def
proof (intro allI impI)
  fix j assume j: "0 < j \<and> j < n \<and> lo \<le> parent_of j"
  show "f (parent_of j) \<le> f j"
  proof (cases "parent_of j = p")
    case True
    then have "j = 2 * p + 1 \<or> j = 2 * p + 2" using j parent_of_iff by blast
    then show ?thesis using True assms(2,3) j by auto
  qed (use assms(1) j in \<open>simp add: sinking_def\<close>)
qed

lemma sinking_swap:
  assumes s: "sinking lo n f p" and lo: "lo \<le> p" and c: "c < n" "0 < c" "parent_of c = p" and less: "f c < f p"
    and least: "\<forall>j. 0 < j \<and> j < n \<and> parent_of j = p \<longrightarrow> f c \<le> f j"
    and g: "g p = f c" "g c = f p" "\<forall>i < n. i \<noteq> p \<and> i \<noteq> c \<longrightarrow> g i = f i"
  shows "sinking lo n g c"
proof -
  have pc: "p < c" using parent_of_less c by blast
  have "g (parent_of j) \<le> g j" if j: "0 < j" "j < n" "lo \<le> parent_of j" "parent_of j \<noteq> c" for j
  proof -
    consider "j = p" | "j = c" | "parent_of j = p" "j \<noteq> c" | "j \<noteq> p" "j \<noteq> c" "parent_of j \<noteq> p" by blast
    then show ?thesis
    proof cases
      case 1
      then have "f (parent_of p) \<le> f c" using s c j unfolding sinking_def by blast
      moreover have "parent_of p < p" "p < n" using 1 j parent_of_less by auto
      ultimately show ?thesis using 1 g pc c(1) by simp
    next
      case 2
      then show ?thesis using c g less by simp
    next
      case 3
      then have "f c \<le> f j" "j \<noteq> p" using least j parent_of_less [OF j(1)] by auto
      then show ?thesis using 3 g j by simp
    next
      case 4
      have "parent_of j < n" using parent_of_less j by (metis less_trans)
      then show ?thesis using 4 g j s unfolding sinking_def by auto
    qed
  qed
  moreover have "g (parent_of c) \<le> g j" if j: "0 < j" "j < n" "parent_of j = c" for j
  proof -
    have ne: "j \<noteq> p" "j \<noteq> c" using parent_of_less [OF j(1)] j(3) pc by auto
    have "f (parent_of j) \<le> f j" using s j lo pc unfolding sinking_def by auto
    then show ?thesis using j c g ne by simp
  qed
  ultimately show ?thesis unfolding sinking_def by blast
qed

lemma rising_stop:
  assumes "rising n f c" "0 < c \<Longrightarrow> f (parent_of c) \<le> f c"
  shows "heap_from 0 n f"
  using assms unfolding heap_from_def rising_def by metis

lemma rising_start: "heap_from 0 n f \<Longrightarrow> \<forall>i < n. g i = f i \<Longrightarrow> rising (Suc n) g n"
  by (auto simp: heap_from_def rising_def parent_of_def)

lemma rising_swap:
  assumes s: "rising n f c" and c: "c < n" "0 < c" and less: "f c < f (parent_of c)"
    and g: "g (parent_of c) = f c" "g c = f (parent_of c)" "\<forall>i < n. i \<noteq> parent_of c \<and> i \<noteq> c \<longrightarrow> g i = f i"
  shows "rising n g (parent_of c)"
proof -
  let ?p = "parent_of c"
  have pc: "?p < c" using parent_of_less c by blast
  have edge: "f (parent_of i) \<le> f i" if "0 < i" "i < n" "i \<noteq> c" for i using s that unfolding rising_def by blast
  have up: "f (parent_of ?p) \<le> f ?p" if "0 < ?p"
    using s that pc c unfolding rising_def by auto
  have "g (parent_of j) \<le> g j" if j: "0 < j" "j < n" "j \<noteq> ?p" for j
  proof -
    consider "j = c" | "parent_of j = ?p" "j \<noteq> c" | "parent_of j = c" | "j \<noteq> c" "parent_of j \<noteq> ?p" "parent_of j \<noteq> c" by blast
    then show ?thesis
    proof cases
      case 2
      then have "f ?p \<le> f j" using edge [of j] j by simp
      then show ?thesis using 2 g j less by simp
    next
      case 3
      then have "j \<noteq> c" using parent_of_less [OF j(1)] by auto
      moreover have "f ?p \<le> f j" using s j c 3 unfolding rising_def by auto
      ultimately have "f ?p \<le> f j" "j \<noteq> c" by auto
      then show ?thesis using 3 g j by simp
    next
      case 4
      have "parent_of j < n" using parent_of_less j by (metis less_trans)
      then show ?thesis using 4 g j s unfolding rising_def by auto
    qed (use g less in simp)
  qed
  moreover have "g (parent_of ?p) \<le> g j" if j: "0 < j" "j < n" "parent_of j = ?p" "0 < ?p" for j
  proof -
    have pp: "parent_of ?p < ?p" using j(4) parent_of_less by blast
    then have gp: "g (parent_of ?p) = f (parent_of ?p)" using g(3) pc c by auto
    show ?thesis
    proof (cases "j = c")
      case True then show ?thesis using gp g up j by simp
    next
      case False
      moreover have "j \<noteq> ?p" using j parent_of_less [OF j(1)] by auto
      moreover have "f (parent_of j) \<le> f j" using edge [of j] j False by simp
      ultimately have "f ?p \<le> f j" "j \<noteq> ?p" using j(3) by auto
      then show ?thesis using gp g(3) j False up by fastforce
    qed
  qed
  ultimately show ?thesis unfolding rising_def by blast
qed

section \<open>The loops\<close>

definition smaller_child :: "nat \<Rightarrow> (nat \<Rightarrow> int) \<Rightarrow> nat \<Rightarrow> nat" where
  "smaller_child n f p = (if 2 * p + 2 < n \<and> f (2 * p + 1) > f (2 * p + 2) then 2 * p + 2 else 2 * p + 1)"

lemma smaller_child_props:
  assumes "2 * p + 1 < n"
  shows "smaller_child n f p < n" "0 < smaller_child n f p" "parent_of (smaller_child n f p) = p"
    "\<forall>j. 0 < j \<and> j < n \<and> parent_of j = p \<longrightarrow> f (smaller_child n f p) \<le> f j"
proof -
  show "smaller_child n f p < n" "0 < smaller_child n f p" using assms by (auto simp: smaller_child_def)
  show "parent_of (smaller_child n f p) = p" by (simp add: smaller_child_def)
  have "f (smaller_child n f p) \<le> f (2 * p + 1)" "2 * p + 2 < n \<longrightarrow> f (smaller_child n f p) \<le> f (2 * p + 2)"
    by (auto simp: smaller_child_def)
  moreover have "j = 2 * p + 1 \<or> j = 2 * p + 2" if "0 < j" "parent_of j = p" for j
    using parent_of_iff [OF that(1), of p] that(2) by simp
  ultimately show "\<forall>j. 0 < j \<and> j < n \<and> parent_of j = p \<longrightarrow> f (smaller_child n f p) \<le> f j" by metis
qed

lemma sift_step:
  assumes "linked h m L" "n \<le> m" "2 * p + 1 < n"
  defines "c \<equiv> smaller_child n (key h) p"
  shows "sift_loop n temp h p (2 * p + 1) =
    (if temp > key h c then andThen (swapHeapNode h (int p) (int c)) (\<lambda>h'. sift_loop n temp h' c (2 * c + 1)) else Inr h)"
proof -
  have n1: "node_at h (int i) = Inr (lst h ! i)" if "i < n" for i using linked_node_at [OF assms(1)] that assms(2) by simp
  have n2: "node_at h (int (2 * p + 1) + 1) = Inr (lst h ! (2 * p + 2))" if "2 * p + 1 + 1 < n"
    using n1 [of "2 * p + 2"] that by (simp add: add.commute)
  show ?thesis
  proof (cases "2 * p + 1 + 1 < n \<and> key h (2 * p + 1) > key h (2 * p + 2)")
    case True
    then have "c = 2 * p + 1 + 1" by (simp add: c_def smaller_child_def)
    then show ?thesis using True n1 [OF assms(3)] n2 n1 [of c] assms(3)
      by (subst sift_loop.simps) (simp add: key_def andThen_def split: sum.split del: of_nat_add of_nat_Suc of_nat_mult)
  next
    case False
    then have "c = 2 * p + 1" by (auto simp: c_def smaller_child_def)
    then show ?thesis using False n1 [OF assms(3)] n2 assms(3)
      by (subst sift_loop.simps) (auto simp: key_def andThen_def split: sum.split simp del: of_nat_add of_nat_Suc of_nat_mult)
  qed
qed

lemma sift_loop_correct:
  assumes "linked h m L" "n \<le> m" "p < n" "lo \<le> p" "sinking lo n (key h) p"
  shows "\<exists>h' L'. sift_loop n (key h p) h p (2 * p + 1) = Inr h' \<and> linked h' m L' \<and> shuffled n h L h' L' \<and> heap_from lo n (key h')"
  using assms
proof (induction "n - p" arbitrary: h L p rule: less_induct)
  case less
  let ?c = "smaller_child n (key h) p"
  note linked = less.prems(1) and s = less.prems(5)
  show ?case
  proof (cases "2 * p + 1 < n")
    case False
    then have "heap_from lo n (key h)" using sinking_stop [OF s] by simp
    then show ?thesis using False linked shuffled_refl by (subst sift_loop.simps) auto
  next
    case True
    note c = smaller_child_props [OF True, of "key h"]
    show ?thesis
    proof (cases "key h p > key h ?c")
      case stop: False
      have "heap_from lo n (key h)"
        using sinking_stop [OF s] c(4) stop True parent_of_child by (smt (verit) add_gr_0 zero_less_numeral zero_less_one)
      then show ?thesis using sift_step [OF linked less.prems(2) True] stop linked shuffled_refl by auto
    next
      case go: True
      have pc: "p < ?c" using parent_of_less [OF c(2)] c(3) by simp
      obtain h1 L1 where h1: "swapHeapNode h (int p) (int ?c) = Inr h1" "linked h1 m L1" "shuffled n h L h1 L1"
        "key h1 p = key h ?c" "key h1 ?c = key h p" "\<forall>i < m. i \<noteq> p \<and> i \<noteq> ?c \<longrightarrow> key h1 i = key h i"
        using swapHeapNode_linked [OF linked less.prems(3) c(1) less.prems(2)] pc by auto
      have "sinking lo n (key h1) ?c"
        by (rule sinking_swap [OF s less.prems(4) c(1,2,3) _ c(4) h1(4,5)]) (use go h1(6) less.prems(2) in auto)
      moreover have "n - ?c < n - p" "lo \<le> ?c" using pc c(1) less.prems by auto
      ultimately obtain h2 L2 where h2: "sift_loop n (key h1 ?c) h1 ?c (2 * ?c + 1) = Inr h2" "linked h2 m L2"
        "shuffled n h1 L1 h2 L2" "heap_from lo n (key h2)"
        using less.hyps [of ?c h1 L1] h1(2) less.prems(2) c(1) by blast
      then show ?thesis
        using sift_step [OF linked less.prems(2) True, of "key h p"] go h1(1,5) shuffled_trans [OF h1(3) h2(3)] by auto
    qed
  qed
qed

lemma down_loop_eq_sift: "down_loop n t h p = sift_loop n t h p (2 * p + 1)"
proof (induction "n - p" arbitrary: h p rule: less_induct)
  case less
  show ?case
  proof (cases "2 * p + 1 < n")
    case True
    then have "(2 * p + 1 \<noteq> n - 1) = (2 * p + 1 + 1 < n)" by linarith
    moreover have "down_loop n t h' (2 * p + 1) = sift_loop n t h' (2 * p + 1) (2 * (2 * p + 1) + 1)"
      "down_loop n t h' (2 * p + 1 + 1) = sift_loop n t h' (2 * p + 1 + 1) (2 * (2 * p + 1 + 1) + 1)" for h'
      using less [of "2 * p + 1"] less [of "2 * p + 1 + 1"] True by auto
    ultimately show ?thesis using True
      by (subst down_loop.simps, subst sift_loop.simps) (simp add: Let_def mult.commute [of p 2] split: sum.split)
  qed (subst down_loop.simps, subst sift_loop.simps, simp)
qed

lemma up_loop_correct:
  assumes "linked h m L" "c < m" "rising m (key h) c" "hd L = int c"
  shows "\<exists>h' L' c'. up_loop (key h c) h c = Inr (h', c') \<and> linked h' m L' \<and> shuffled m h L h' L' \<and> heap_from 0 m (key h') \<and>
    hd L' = int c'"
  using assms
proof (induction c arbitrary: h L rule: less_induct)
  case (less c)
  let ?p = "parent_of c"
  note linked = less.prems(1)
  have p: "?p < m" "node_at h (int ((c - 1) div 2)) = Inr (lst h ! ?p)"
    using less.prems linked_node_at [OF linked, of ?p] by (auto simp: parent_of_def)
  show ?case
  proof (cases "key h c < key h ?p \<and> c > 0")
    case False
    then have "0 < c \<Longrightarrow> key h ?p \<le> key h c" by auto
    then have "heap_from 0 m (key h)" using rising_stop [OF less.prems(3)] by blast
    moreover have "up_loop (key h c) h c = Inr (h, c)" using False p by (subst up_loop.simps) (auto simp: key_def)
    ultimately show ?thesis using less.prems shuffled_refl by blast
  next
    case True
    then have pc: "?p < c" using parent_of_less by blast
    obtain h1 L1 where h1: "swapHeapNode h (int ?p) (int c) = Inr h1" "linked h1 m L1" "shuffled m h L h1 L1"
        "key h1 ?p = key h c" "key h1 c = key h ?p" "\<forall>i < m. i \<noteq> ?p \<and> i \<noteq> c \<longrightarrow> key h1 i = key h i" "L1 = map (transposed (int ?p) (int c)) L"
      using swapHeapNode_linked [OF linked p(1) less.prems(2)] pc by auto
    have "rising m (key h1) ?p"
      by (rule rising_swap [OF less.prems(3,2) _ _ h1(4,5)]) (use True h1(6) in auto)
    moreover have "hd L1 = int ?p" using h1(7) less.prems(2,4) linked pc by (cases L) (auto simp: transposed_def linked_def)
    ultimately obtain h2 L2 c2 where h2: "up_loop (key h1 ?p) h1 ?p = Inr (h2, c2)" "linked h2 m L2" "shuffled m h1 L1 h2 L2"
        "heap_from 0 m (key h2)" "hd L2 = int c2"
      using less.IH [OF pc h1(2) p(1)] by blast
    have "up_loop (key h c) h c = Inr (h2, c2)"
      using True p(2) h1(1,4) h2(1) by (subst up_loop.simps) (simp add: parent_of_def key_def)
    then show ?thesis using h2 shuffled_trans [OF h1(3) h2(3)] by blast
  qed
qed

lemma heapify_loop_correct:
  assumes "linked h m L" "i \<le> m" "heap_from i m (key h)"
  shows "\<exists>h' L'. heapify_loop m h i = Inr h' \<and> linked h' m L' \<and> shuffled m h L h' L' \<and> heap_from 0 m (key h')"
  using assms
proof (induction i arbitrary: h L)
  case 0
  then show ?case using shuffled_refl by auto
next
  case (Suc i)
  have s: "sinking i m (key h) i" using sinking_start Suc.prems(3) .
  obtain h1 L1 where h1: "sift_loop m (key h i) h i (2 * i + 1) = Inr h1" "linked h1 m L1" "shuffled m h L h1 L1" "heap_from i m (key h1)"
    using sift_loop_correct [OF Suc.prems(1) order_refl _ order_refl s] Suc.prems(2) by auto
  obtain h2 L2 where h2: "heapify_loop m h1 i = Inr h2" "linked h2 m L2" "shuffled m h1 L1 h2 L2" "heap_from 0 m (key h2)"
    using Suc.IH [OF h1(2) _ h1(4)] Suc.prems(2) by auto
  have "heapify_loop m h (Suc i) = Inr h2"
    using linked_node_at [OF Suc.prems(1), of i] Suc.prems(2) h1(1) h2(1) by (simp add: key_def)
  then show ?case using h2 shuffled_trans [OF h1(3) h2(3)] by blast
qed

section \<open>The whole structure\<close>

definition free_stack :: "Stack \<Rightarrow> nat \<Rightarrow> bool" where
  "free_stack stk k \<longleftrightarrow> length (index stk) = MAXSIZE \<and> top stk = int MAXSIZE - 1 - int k \<and> k \<le> MAXSIZE \<and>
     (\<forall>i < MAXSIZE - k. index stk ! i = int MAXSIZE - 1 - int i)"

definition structure_ok :: "StaticLinkList \<Rightarrow> int list \<Rightarrow> bool" where
  "structure_ok h L \<longleftrightarrow> 0 \<le> size h \<and> linked h (nat (size h)) L \<and> headIndex h = head_of L \<and>
     free_stack (unusedIndexs h) (nat (size h))"

definition list_ok :: "StaticLinkList \<Rightarrow> bool" where
  "list_ok h \<longleftrightarrow> (\<exists>L. structure_ok h L)"

definition heap_ok :: "StaticLinkList \<Rightarrow> bool" where
  "heap_ok h \<longleftrightarrow> list_ok h \<and> heap_from 0 (nat (size h)) (key h)"

definition info :: "Student \<Rightarrow> int \<times> string" where
  "info s = (stu_id s, stu_name s)"

text \<open>What \<open>printStaticLinkList\<close> shows of the students, from the head of the list.\<close>

definition roster :: "StaticLinkList \<Rightarrow> (int \<times> string) list" where
  "roster h = (case printStaticLinkList h of Inl e \<Rightarrow> [] | Inr ss \<Rightarrow> map info ss)"

lemma info_pay: "info (lst h ! nat i) = snd (pay h i)"
  by (simp add: info_def pay_def payload_def)

lemma walk_list_dl:
  assumes "linked h m L" "k < length L"
  shows "walk_list h (L ! k) out = Some (Inr (out @ map (\<lambda>i. lst h ! nat i) (drop k L)))"
  using assms(2)
proof (induction "length L - k" arbitrary: k out rule: less_induct)
  case less
  have len: "length (lst h) = MAXSIZE" and dl: "dl (pre h) (nxt h) L" using assms(1) by (auto simp: linked_def)
  have i: "L ! k \<in> set L" "L ! k \<noteq> -1" using less.prems dl by (auto simp: dl_def) (metis nth_mem)
  have n: "node_at h (L ! k) = Inr (lst h ! nat (L ! k))"
    using node_at_in [OF looks_self [OF len] linked_range [OF assms(1) i(1)]] .
  have nx: "nextNode (lst h ! nat (L ! k)) = (if k + 1 < length L then L ! (k + 1) else -1)"
    using dl less.prems by (simp add: dl_def nxt_def)
  have d: "drop k L = L ! k # drop (k + 1) L" using less.prems by (simp add: Cons_nth_drop_Suc)
  show ?case
  proof (cases "k + 1 < length L")
    case True
    then show ?thesis using less.hyps [of "k + 1"] less.prems n nx i(2) d by (subst walk_list.simps) simp
  next
    case False
    then show ?thesis using n nx i(2) d by (subst walk_list.simps) (simp add: walk_list.simps [of h "-1"])
  qed
qed

lemma printStaticLinkList_ok:
  assumes "structure_ok h L"
  shows "printStaticLinkList h = Inr (map (\<lambda>i. lst h ! nat i) L)"
proof (cases "L = []")
  case False
  then have hd: "headIndex h = L ! 0" and l: "linked h (nat (size h)) L"
    using assms by (auto simp: structure_ok_def hd_conv_nth head_of_def)
  moreover have "L ! 0 \<noteq> -1" using False l nth_mem [of 0 L] by (auto simp: linked_def dl_def)
  ultimately have "headIndex h = L ! 0" "headIndex h \<noteq> -1" "linked h (nat (size h)) L" by auto
  then show ?thesis using walk_list_dl [of h _ L 0 "[]"] False by (auto simp: printStaticLinkList_def)
qed (use assms in \<open>simp add: structure_ok_def printStaticLinkList_def\<close>)

lemma roster_eq: "structure_ok h L \<Longrightarrow> roster h = map (snd \<circ> pay h) L"
  using printStaticLinkList_ok by (simp add: roster_def info_pay)

lemma structure_length: "structure_ok h L \<Longrightarrow> length L = nat (size h)"
  using distinct_card [of L] by (auto simp: structure_ok_def linked_def dl_def card_image)

lemma roster_length: "list_ok h \<Longrightarrow> int (length (roster h)) = size h"
  using structure_length roster_eq by (auto simp: list_ok_def structure_ok_def)

lemma shuffled_pay:
  assumes "shuffled n h L h' L'" "linked h m L"
  shows "map (pay h') L' = map (pay h) L"
  using assms(1) linked_range [OF assms(2)] by (auto simp: shuffled_def)

lemma shuffled_structure:
  assumes "structure_ok h L" "shuffled n h L h' L'" "linked h' (nat (size h)) L'"
  shows "structure_ok h' L'" "roster h' = roster h"
proof -
  show ok: "structure_ok h' L'" using assms by (auto simp: structure_ok_def shuffled_def)
  have "map (pay h') L' = map (pay h) L" using shuffled_pay assms(1,2) by (auto simp: structure_ok_def)
  then show "roster h' = roster h" using roster_eq [OF ok] roster_eq [OF assms(1)] by (metis map_map)
qed

end
