(* ===== verification/Heap_Queue.thy ===== *)
theory Heap_Queue
  imports Heap_Order
begin

text \<open>
  What the operations of \<open>Labweek7/SLList_MinHeap.c\<close> do to the list of students and to the heap, and the contract of a
  priority queue that they fulfil.
\<close>

section \<open>Building the heap\<close>

lemma initialHeap_ok:
  assumes "list_ok h"
  shows "\<exists>h'. initialHeap h = Inr h' \<and> heap_ok h' \<and> roster h' = roster h \<and> size h' = size h"
proof -
  obtain L where L: "structure_ok h L" using assms by (auto simp: list_ok_def)
  then have l: "linked h (nat (size h)) L" by (simp add: structure_ok_def)
  have "heap_from (nat (size h) div 2) (nat (size h)) (key h)" by (rule heap_above_half) simp
  then obtain h' L' where h': "initialHeap h = Inr h'" "linked h' (nat (size h)) L'" "shuffled (nat (size h)) h L h' L'"
    "heap_from 0 (nat (size h)) (key h')"
    using heapify_loop_correct [OF l, of "nat (size h) div 2"] by (auto simp: initialHeap_def)
  have "size h' = size h" using h'(3) by (simp add: shuffled_def)
  then show ?thesis using h' shuffled_structure [OF L h'(3,2)] by (auto simp: heap_ok_def list_ok_def)
qed

section \<open>Linking and unlinking a node\<close>

lemma dl_Cons:
  assumes dl: "dl P N L" and x: "x \<notin> set L" "x \<noteq> -1" and new: "P' x = -1" "N' x = head_of L"
    and old: "\<forall>y \<in> set L. P' y = (if y = hd L then x else P y) \<and> N' y = N y"
  shows "dl P' N' (x # L)"
proof -
  have "P' ((x # L) ! k) = (if k = 0 then -1 else (x # L) ! (k - 1)) \<and>
      N' ((x # L) ! k) = (if k + 1 < length (x # L) then (x # L) ! (k + 1) else -1)" if k: "k < length (x # L)" for k
  proof (cases k)
    case 0 then show ?thesis using new by (auto simp: head_of_def hd_conv_nth)
  next
    case (Suc j)
    then have j: "j < length L" "L ! j \<in> set L" using k by auto
    have "P (L ! j) = (if j = 0 then -1 else L ! (j - 1))" "N (L ! j) = (if j + 1 < length L then L ! (j + 1) else -1)"
      using dl j by (auto simp: dl_def)
    moreover have "L ! j = hd L \<longleftrightarrow> j = 0"
      using j dl nth_eq_iff_index_eq [of L j 0] by (cases "L = []") (auto simp: dl_def hd_conv_nth)
    ultimately show ?thesis using old j Suc by (auto simp: nth_Cons')
  qed
  then show ?thesis using dl x by (simp add: dl_def)
qed

lemma dl_split:
  assumes "dl P N (as @ x # bs)"
  shows "P x = (if as = [] then -1 else last as)" "N x = head_of bs" "x \<notin> set as" "x \<notin> set bs" "x \<noteq> -1" "-1 \<notin> set as" "-1 \<notin> set bs"
    "set as \<inter> set bs = {}"
proof -
  have "length as < length (as @ x # bs)" by simp
  then have "P x = (if length as = 0 then -1 else (as @ x # bs) ! (length as - 1))"
    "N x = (if length as + 1 < length (as @ x # bs) then (as @ x # bs) ! (length as + 1) else -1)"
    using assms unfolding dl_def by (metis nth_append_length)+
  then show "P x = (if as = [] then -1 else last as)" "N x = head_of bs"
    by (auto simp: nth_append last_conv_nth head_of_def hd_conv_nth)
qed (use assms in \<open>auto simp: dl_def\<close>)

lemma dl_remove:
  assumes dl: "dl P N (as @ x # bs)"
    and P': "\<forall>y \<in> set as \<union> set bs. P' y = (if y = N x then P x else P y)"
    and N': "\<forall>y \<in> set as \<union> set bs. N' y = (if y = P x then N x else N y)"
  shows "dl P' N' (as @ bs)"
proof -
  note s = dl_split [OF dl]
  let ?L = "as @ x # bs" and ?M = "as @ bs"
  have d: "distinct ?L" "-1 \<notin> set ?L" using dl by (auto simp: dl_def)
  have link: "P (?L ! k) = (if k = 0 then -1 else ?L ! (k - 1))" "N (?L ! k) = (if k + 1 < length ?L then ?L ! (k + 1) else -1)"
    if "k < length ?L" for k using dl that by (auto simp: dl_def)
  have "P' (?M ! k) = (if k = 0 then -1 else ?M ! (k - 1)) \<and> N' (?M ! k) = (if k + 1 < length ?M then ?M ! (k + 1) else -1)"
    if k: "k < length ?M" for k
  proof (cases "k < length as")
    case True
    have y: "as ! k \<in> set as" using True by simp
    have "as ! k \<noteq> N x" using y s by (auto simp: head_of_def split: if_splits)
    moreover have "as ! k = P x \<longleftrightarrow> k + 1 = length as"
      using True s(1) d(1) nth_eq_iff_index_eq [of as k "length as - 1"] by (auto simp: last_conv_nth)
    ultimately show ?thesis
      using link [of k] True y P' N' s(2) by (cases bs) (auto simp: nth_append head_of_def)
  next
    case False
    let ?j = "k - length as"
    have j: "?j < length bs" using False k by simp
    then have y: "bs ! ?j \<in> set bs" by simp
    have "bs ! ?j \<noteq> P x" using y s by (auto split: if_splits) (metis disjoint_iff last_in_set)
    moreover have "bs ! ?j = N x \<longleftrightarrow> ?j = 0"
      using j s(2) d(1) nth_eq_iff_index_eq [of bs ?j 0] by (auto simp: head_of_def hd_conv_nth)
    ultimately show ?thesis
      using link [of "Suc k"] False j y P' N' s(1) by (auto simp: nth_append last_conv_nth Suc_diff_le nth_Cons')
  qed
  then show ?thesis using d by (auto simp: dl_def)
qed

lemma nat_Suc_int [simp]: "nat (1 + int m) = Suc m"
  by simp

lemma linked_new:
  assumes l: "linked h m L" and m: "m < MAXSIZE" and lk: "looks h' P' N' Y'"
    and new: "P' (int m) = -1" "N' (int m) = head_of L"
    and old: "\<forall>i \<in> set L. P' i = (if i = hd L then int m else pre h i) \<and> N' i = nxt h i"
  shows "linked h' (Suc m) (int m # L)"
proof -
  have sL: "set L = int ` {0..<m}" and dl: "dl (pre h) (nxt h) L" using l by (auto simp: linked_def)
  have r: "in_range i" if "i \<in> set (int m # L)" for i using that m l linked_range by (auto simp: in_range_def)
  have "dl (pre h') (nxt h') (int m # L)"
    by (rule dl_Cons [OF dl]) (use sL looks_eq [OF lk] r new old in auto)
  moreover have "set (int m # L) = int ` {0..<Suc m}" using sL by (auto simp: atLeast0_lessThan_Suc)
  ultimately show ?thesis using lk m by (simp add: linked_def looks_def)
qed

text \<open>Taking a free index: it is the first position behind the nodes in use.\<close>

lemma topStack_free: "free_stack stk k \<Longrightarrow> k < MAXSIZE \<Longrightarrow> topStack stk = Inr (int k)"
  by (auto simp: free_stack_def topStack_def array_get_def nat_diff_distrib)

lemma topStack_full: "free_stack stk MAXSIZE \<Longrightarrow> topStack stk = Inr (-1)"
  by (simp add: free_stack_def topStack_def)

lemma popStack_free: "free_stack stk k \<Longrightarrow> k < MAXSIZE \<Longrightarrow> free_stack (popStack stk) (Suc k)"
  by (auto simp: free_stack_def popStack_def)

lemma pushStack_free:
  assumes "free_stack stk (Suc k)"
  shows "\<exists>stk'. pushStack stk (int k) = Inr stk' \<and> free_stack stk' k"
  using assms by (auto simp: free_stack_def pushStack_def array_set_def nth_list_update nat_diff_distrib split: if_splits)

lemma initiateStack_free: "free_stack initiateStack 0"
  by (simp add: free_stack_def initiateStack_def)

lemma initial_list_ok:
  assumes "length (lst h) = MAXSIZE"
  shows "heap_ok (initialStaticLinkList h)" "roster (initialStaticLinkList h) = []"
proof -
  have "structure_ok (initialStaticLinkList h) []"
    using assms initiateStack_free by (simp add: structure_ok_def initialStaticLinkList_def linked_def dl_def)
  then show "heap_ok (initialStaticLinkList h)" "roster (initialStaticLinkList h) = []"
    using roster_eq by (auto simp: heap_ok_def list_ok_def heap_from_def initialStaticLinkList_def)
qed

lemma structure_fresh:
  assumes "structure_ok h L"
  shows "size h \<notin> set L" "-1 \<notin> set L" "head_of L \<noteq> size h" "headIndex h \<noteq> -1 \<Longrightarrow> in_range (headIndex h)"
    "headIndex h = -1 \<longleftrightarrow> L = []"
proof -
  have ok: "0 \<le> size h" "linked h (nat (size h)) L" "headIndex h = head_of L" using assms by (auto simp: structure_ok_def)
  show nin: "size h \<notin> set L" "-1 \<notin> set L" using ok by (auto simp: linked_def dl_def)
  then show "head_of L \<noteq> size h" "headIndex h = -1 \<longleftrightarrow> L = []" using ok by (cases L; auto)+
  then show "in_range (headIndex h)" if "headIndex h \<noteq> -1"
    using ok that linked_range [OF ok(2)] by (auto simp: head_of_def split: if_splits)
qed

text \<open>A structure that takes one more node, in the terms of the functions of \<open>looks\<close>.\<close>

lemma structure_new:
  assumes ok: "structure_ok h L" and room: "size h < int MAXSIZE" and lk: "looks h' P' N' Y'"
    and new: "P' (size h) = -1" "N' (size h) = head_of L" "snd (Y' (size h)) = e"
    and old: "\<forall>i \<in> set L. P' i = (if i = hd L then size h else pre h i) \<and> N' i = nxt h i \<and> Y' i = pay h i"
  shows "linked h' (nat (size h + 1)) (size h # L)" "map (snd \<circ> pay h') (size h # L) = e # roster h"
proof -
  define m where "m = nat (size h)"
  have m: "size h = int m" "m < MAXSIZE" "linked h m L" using ok room by (auto simp: structure_ok_def m_def)
  show "linked h' (nat (size h + 1)) (size h # L)"
    using linked_new [OF m(3,2) lk] new(1,2) old m(1) by (simp add: nat_add_distrib)
  have "in_range i" if "i \<in> set (size h # L)" for i using that m linked_range by (auto simp: in_range_def)
  then show "map (snd \<circ> pay h') (size h # L) = e # roster h"
    using looks_eq [OF lk] new(3) old roster_eq [OF ok] by simp
qed

lemma insertListAtHead_ok:
  assumes "list_ok h"
  shows "if size h = int MAXSIZE then insertListAtHead h stu = Inl Out_of_bounds
    else \<exists>h'. insertListAtHead h stu = Inr h' \<and> list_ok h' \<and> roster h' = info stu # roster h \<and> size h' = size h + 1"
proof (cases "size h = int MAXSIZE")
  case True
  then have "topStack (unusedIndexs h) = Inr (-1)" using assms topStack_full by (auto simp: list_ok_def structure_ok_def)
  then show ?thesis using True by (simp add: insertListAtHead_def put_node_def array_set_def Let_def)
next
  case False
  obtain L where ok: "structure_ok h L" using assms by (auto simp: list_ok_def)
  then have room: "size h < int MAXSIZE" using False by (auto simp: structure_ok_def linked_def)
  let ?m = "size h" and ?s = "stu\<lparr>flag := 1, preNode := -1, nextNode := headIndex h\<rparr>"
  let ?h0 = "h\<lparr>unusedIndexs := popStack (unusedIndexs h)\<rparr>"
  have ok': "0 \<le> ?m" "linked h (nat ?m) L" "headIndex h = head_of L" "free_stack (unusedIndexs h) (nat ?m)"
    using ok by (auto simp: structure_ok_def)
  have stk: "topStack (unusedIndexs h) = Inr ?m" "free_stack (popStack (unusedIndexs h)) (nat (?m + 1))"
    using topStack_free [OF ok'(4)] popStack_free [OF ok'(4)] ok'(1) room by (auto simp: nat_add_distrib)
  have len: "length (lst h) = MAXSIZE" and r: "in_range ?m" using ok' room by (auto simp: linked_def in_range_def)
  have lk0: "looks ?h0 (pre h) (nxt h) (pay h)" using looks_self [OF len] by (simp add: looks_def)
  obtain h1 where h1: "put_node ?h0 ?m ?s = Inr h1" "rest h1 = rest ?h0"
      "looks h1 ((pre h)(?m := -1)) ((nxt h)(?m := headIndex h)) ((pay h)(?m := payload ?s))"
    using put_node_looks [OF lk0 r, of ?s] by auto
  note nin = structure_fresh [OF ok]
  have hr: "headIndex h1 \<noteq> -1 \<Longrightarrow> in_range (headIndex h1)" using h1(2) nin(4) by (simp add: rest_def)
  obtain h2 where h2: "set_pre_if (headIndex h1 \<noteq> -1) (headIndex h1) ?m h1 = Inr h2" "rest h2 = rest h1"
      "looks h2 (if headIndex h1 \<noteq> -1 then (pre h)(?m := -1, headIndex h1 := ?m) else (pre h)(?m := -1))
        ((nxt h)(?m := headIndex h)) ((pay h)(?m := payload ?s))" (is "looks h2 ?P ?N ?Y")
    using set_pre_looks [OF h1(3), of "headIndex h1 \<noteq> -1" "headIndex h1" ?m] hr by auto
  have hd: "headIndex h1 = head_of L" using h1(2) ok'(3) by (simp add: rest_def)
  note st = structure_new [OF ok room h2(3), of "info stu"]
  have "linked h2 (nat (?m + 1)) (?m # L) \<and> map (snd \<circ> pay h2) (?m # L) = info stu # roster h"
    by (intro conjI; rule st) (use nin hd ok'(3) in \<open>auto simp: head_of_def payload_def info_def split: if_splits\<close>)
  then have fin: "structure_ok (h2\<lparr>headIndex := ?m, size := size h2 + 1\<rparr>) (?m # L)" "map (snd \<circ> pay h2) (?m # L) = info stu # roster h"
    using stk(2) h1(2) h2(2) ok'(1) by (auto simp: structure_ok_def rest_def)
  have "insertListAtHead h stu = Inr (h2\<lparr>headIndex := ?m, size := size h2 + 1\<rparr>)"
    using stk(1) h1(1) h2(1) by (simp add: insertListAtHead_def Let_def)
  moreover have "roster (h2\<lparr>headIndex := ?m, size := size h2 + 1\<rparr>) = info stu # roster h"
    using roster_eq [OF fin(1)] fin(2) by simp
  ultimately show ?thesis using fin(1) h1(2) h2(2) False by (auto simp: list_ok_def rest_def)
qed

text \<open>The node that \<open>pushHeap\<close> links before it moves it up.\<close>

lemma push_new_node:
  assumes ok: "structure_ok h L" and room: "size h < int MAXSIZE" and nm: "length name < NAMESIZE"
  defines "m \<equiv> size h"
  shows "\<exists>h4. pushHeapByIdAndName h i name = andThen (up_loop i (h4\<lparr>size := m + 1\<rparr>) (nat m)) (\<lambda>(h5, c). Inr (h5\<lparr>headIndex := int c\<rparr>)) \<and>
    linked h4 (nat (m + 1)) (m # L) \<and> map (snd \<circ> pay h4) (m # L) = (i, name) # roster h \<and>
    free_stack (unusedIndexs h4) (nat (m + 1)) \<and> key h4 (nat m) = i \<and> (\<forall>j < nat m. key h4 j = key h j)"
proof -
  let ?h0 = "h\<lparr>unusedIndexs := popStack (unusedIndexs h)\<rparr>"
  have ok': "0 \<le> m" "linked h (nat m) L" "headIndex h = head_of L" "free_stack (unusedIndexs h) (nat m)"
    using ok by (auto simp: structure_ok_def m_def)
  have stk: "topStack (unusedIndexs h) = Inr m" "free_stack (popStack (unusedIndexs h)) (nat (m + 1))"
    using topStack_free [OF ok'(4)] popStack_free [OF ok'(4)] ok'(1) room by (auto simp: nat_add_distrib m_def)
  have len: "length (lst h) = MAXSIZE" and r: "in_range m" using ok' room by (auto simp: linked_def in_range_def m_def)
  have lk0: "looks ?h0 (pre h) (nxt h) (pay h)" using looks_self [OF len] by (simp add: looks_def)
  note nin = structure_fresh [OF ok, folded m_def]
  define s1 where "s1 = (lst h ! nat m)\<lparr>stu_id := i\<rparr>"
  obtain h1 where h1: "modify_node ?h0 m (\<lambda>s. s\<lparr>stu_id := i\<rparr>) = Inr h1" "rest h1 = rest ?h0"
      "looks h1 ((pre h)(m := preNode s1)) ((nxt h)(m := nextNode s1)) ((pay h)(m := payload s1))"
    using modify_node_looks [OF lk0 r, of "\<lambda>s. s\<lparr>stu_id := i\<rparr>"] by (auto simp: Let_def s1_def)
  have n1: "payload (lst h1 ! nat m) = payload s1" using looks_eq [OF h1(3) r] by (simp add: pay_def)
  define s2 where "s2 = (lst h1 ! nat m)\<lparr>stu_name := name\<rparr>"
  obtain h2 where h2: "modify_node h1 m (\<lambda>s. s\<lparr>stu_name := name\<rparr>) = Inr h2" "rest h2 = rest ?h0"
      "looks h2 ((pre h)(m := preNode s2)) ((nxt h)(m := nextNode s2)) ((pay h)(m := payload s2))"
    using modify_node_looks [OF h1(3) r, of "\<lambda>s. s\<lparr>stu_name := name\<rparr>"] h1(2) by (auto simp: Let_def s2_def)
  have hd2: "headIndex h2 = head_of L" using h2(2) ok'(3) by (simp add: rest_def)
  let ?P3 = "if headIndex h2 \<noteq> -1 then (pre h)(m := preNode s2, headIndex h2 := m) else (pre h)(m := preNode s2)"
  obtain h3 where h3: "set_pre_if (headIndex h2 \<noteq> -1) (headIndex h2) m h2 = Inr h3" "rest h3 = rest ?h0"
      "looks h3 ?P3 ((nxt h)(m := nextNode s2)) ((pay h)(m := payload s2))"
    using set_pre_looks [OF h2(3), of "headIndex h2 \<noteq> -1" "headIndex h2" m] nin(4) h2(2) by (auto simp: rest_def)
  have n3: "payload (lst h3 ! nat m) = payload s2" using looks_eq [OF h3(3) r] by (simp add: pay_def)
  define s4 where "s4 = (lst h3 ! nat m)\<lparr>flag := 1, preNode := -1, nextNode := headIndex h3\<rparr>"
  obtain h4 where h4: "modify_node h3 m (\<lambda>s. s\<lparr>flag := 1, preNode := -1, nextNode := headIndex h3\<rparr>) = Inr h4" "rest h4 = rest ?h0"
      "looks h4 (?P3(m := -1)) ((nxt h)(m := head_of L)) ((pay h)(m := payload s4))"
    using modify_node_looks [OF h3(3) r, of "\<lambda>s. s\<lparr>flag := 1, preNode := -1, nextNode := headIndex h3\<rparr>"] h3(2) ok'(3)
    by (auto simp: Let_def s4_def rest_def)
  have pay4: "snd (payload s4) = (i, name)" using n1 n3 by (simp add: s1_def s2_def s4_def payload_def)
  note st = structure_new [OF ok room h4(3), folded m_def, of "(i, name)"]
  have l4: "linked h4 (nat (m + 1)) (m # L) \<and> map (snd \<circ> pay h4) (m # L) = (i, name) # roster h"
    by (intro conjI; rule st) (use nin hd2 pay4 in \<open>auto simp: head_of_def split: if_splits\<close>)
  have k4: "key h4 j = (if int j = m then i else key h j)" if "j \<le> nat m" for j
  proof -
    have "in_range (int j)" using that r by (auto simp: in_range_def)
    from looks_eq [OF h4(3) this] show ?thesis using pay4 by (auto simp: key_def pay_def payload_def split: if_splits)
  qed
  have "pushHeapByIdAndName h i name = andThen (up_loop i (h4\<lparr>size := m + 1\<rparr>) (nat m)) (\<lambda>(h5, c). Inr (h5\<lparr>headIndex := int c\<rparr>))"
    using stk(1) h1(1) h2(1) h3(1) h4(1,2) nm by (simp add: pushHeapByIdAndName_def Let_def strcpy_name_def rest_def m_def)
  moreover have "free_stack (unusedIndexs h4) (nat (m + 1))" "key h4 (nat m) = i" "\<forall>j < nat m. key h4 j = key h j"
    using k4 [of "nat m"] k4 h4(2) stk(2) ok'(1) by (auto simp: rest_def)
  ultimately show ?thesis using l4 by (intro exI [of _ h4] conjI) simp_all
qed

lemma pushHeap_ok:
  assumes "heap_ok h"
  shows "if size h = int MAXSIZE \<or> length name \<ge> NAMESIZE then pushHeapByIdAndName h i name = Inl Out_of_bounds
    else \<exists>h'. pushHeapByIdAndName h i name = Inr h' \<and> heap_ok h' \<and> roster h' = (i, name) # roster h"
proof -
  obtain L where ok: "structure_ok h L" using assms by (auto simp: heap_ok_def list_ok_def)
  define m where "m = nat (size h)"
  have m: "size h = int m" "m \<le> MAXSIZE" using ok by (auto simp: structure_ok_def linked_def m_def)
  consider "m = MAXSIZE" | "m < MAXSIZE" "length name \<ge> NAMESIZE" | "m < MAXSIZE" "length name < NAMESIZE" using m by linarith
  then show ?thesis
  proof cases
    case 1
    then have "topStack (unusedIndexs h) = Inr (-1)" using ok m topStack_full by (auto simp: structure_ok_def)
    then show ?thesis using 1 m by (simp add: pushHeapByIdAndName_def modify_node_def node_at_def array_get_def Let_def)
  next
    case 2
    have "topStack (unusedIndexs h) = Inr (int m)" "length (lst h) = MAXSIZE"
      using ok 2 m topStack_free by (auto simp: structure_ok_def linked_def)
    then show ?thesis
      using 2 m by (simp add: pushHeapByIdAndName_def modify_node_def node_at_def put_node_def array_get_def array_set_def
        strcpy_name_def Let_def)
  next
    case 3
    obtain h4 where h4: "pushHeapByIdAndName h i name =
        andThen (up_loop i (h4\<lparr>size := int (Suc m)\<rparr>) m) (\<lambda>(h5, c). Inr (h5\<lparr>headIndex := int c\<rparr>))"
      "linked h4 (Suc m) (int m # L)" "map (snd \<circ> pay h4) (int m # L) = (i, name) # roster h"
      "free_stack (unusedIndexs h4) (Suc m)" "key h4 m = i" "\<forall>j < m. key h4 j = key h j"
      using push_new_node [OF ok _ 3(2), of i] m 3(1) by (auto simp: nat_add_distrib add.commute)
    let ?h = "h4\<lparr>size := int (Suc m)\<rparr>"
    have l: "linked ?h (Suc m) (int m # L)" using h4(2) by simp
    have kp: "key ?h = key h4" "pay ?h = pay h4" by simp_all
    have rs: "rising (Suc m) (key ?h) m"
      using rising_start [of m "key h"] assms h4(6) kp by (simp add: heap_ok_def m_def)
    obtain h5 L5 c where h5: "up_loop i ?h m = Inr (h5, c)" "linked h5 (Suc m) L5" "shuffled (Suc m) ?h (int m # L) h5 L5"
        "heap_from 0 (Suc m) (key h5)" "hd L5 = int c"
      using up_loop_correct [OF l lessI rs] h4(5) kp(1) by auto
    have ne: "L5 \<noteq> []" "size h5 = int (Suc m)" "unusedIndexs h5 = unusedIndexs h4" using h5(3) by (auto simp: shuffled_def)
    let ?g = "h5\<lparr>headIndex := int c\<rparr>"
    have okg: "structure_ok ?g L5"
      using h5(2,5) ne h4(4) by (auto simp: structure_ok_def head_of_def)
    have "roster ?g = map snd (map (pay h5) L5)" using roster_eq [OF okg] by simp
    also have "\<dots> = map snd (map (pay ?h) (int m # L))" using shuffled_pay [OF h5(3) l] by simp
    also have "\<dots> = (i, name) # roster h" using h4(3) kp(2) by simp
    finally have ro: "roster ?g = (i, name) # roster h" .
    have "heap_ok ?g" using okg h5(4) ne(2) by (auto simp: heap_ok_def list_ok_def)
    then show ?thesis using 3 m ro h4(1) h5(1) by simp
  qed
qed

text \<open>Unlinking a node keeps the rest of the list in order.\<close>

lemma unlink_correct:
  assumes l: "linked h (Suc n) (as @ int n # bs)" and hd: "headIndex h = head_of (as @ int n # bs)"
  shows "\<exists>h'. unlink h (int n) = Inr h' \<and> linked h' n (as @ bs) \<and> headIndex h' = head_of (as @ bs) \<and>
    size h' = size h \<and> unusedIndexs h' = unusedIndexs h \<and> (\<forall>i \<in> set (as @ bs). pay h' i = pay h i) \<and> (\<forall>i < n. key h' i = key h i)"
proof -
  let ?L = "as @ int n # bs" and ?x = "int n"
  have len: "length (lst h) = MAXSIZE" and dl: "dl (pre h) (nxt h) ?L" and sL: "set ?L = int ` {0..<Suc n}" and n: "Suc n \<le> MAXSIZE"
    using l by (auto simp: linked_def)
  note s = dl_split [OF dl] and lk = looks_self [OF len] and rng = linked_range [OF l]
  have x: "?x \<in> set ?L" by simp
  have nd: "node_at h ?x = Inr (lst h ! n)" "preNode (lst h ! n) = pre h ?x" "nextNode (lst h ! n) = nxt h ?x"
    using linked_node_at [OF l, of n] by (simp_all add: pre_def nxt_def)
  let ?p = "pre h ?x" and ?q = "nxt h ?x"
  obtain h1 where h1: "set_next_if (?p \<noteq> -1) ?p ?q h = Inr h1" "rest h1 = rest h"
      "looks h1 (pre h) (if ?p \<noteq> -1 then (nxt h)(?p := ?q) else nxt h) (pay h)"
    using set_next_looks [OF lk, of "?p \<noteq> -1" ?p ?q] dl_pre(1) [OF dl x] rng by auto
  obtain h2 where h2: "set_pre_if (?q \<noteq> -1) ?q ?p h1 = Inr h2" "rest h2 = rest h"
      "looks h2 (if ?q \<noteq> -1 then (pre h)(?q := ?p) else pre h) (if ?p \<noteq> -1 then (nxt h)(?p := ?q) else nxt h) (pay h)"
    using set_pre_looks [OF h1(3), of "?q \<noteq> -1" ?q ?p] dl_next(1) [OF dl x] rng h1(2) by auto
  have r: "in_range i" if "i \<in> set as \<union> set bs" for i using that rng by auto
  note e2 = looks_eq [OF h2(3)]
  have m1: "i \<noteq> -1" if "i \<in> set as \<union> set bs" for i using that s(6,7) by auto
  have "dl (pre h2) (nxt h2) (as @ bs)"
    by (rule dl_remove [OF dl]) (use e2 [OF r] m1 in auto)
  moreover have "set (as @ bs) = int ` {0..<n}"
  proof -
    have "set (as @ bs) = set ?L - {?x}" using s(3,4) by auto
    also have "\<dots> = int ` {0..<n}" unfolding sL by (auto simp: atLeast0_lessThan_Suc)
    finally show ?thesis .
  qed
  ultimately have l2: "linked h2 n (as @ bs)" using h2(3) n by (simp add: linked_def looks_def)
  let ?h = "if ?p = -1 then h2\<lparr>headIndex := ?q\<rparr> else h2"
  have un: "unlink h ?x = Inr ?h" using nd h1(1) h2(1) by (simp add: unlink_def Let_def)
  have pm: "?p = -1 \<longleftrightarrow> as = []" using s(1,6) by (cases as rule: rev_cases) auto
  have hd': "headIndex ?h = head_of (as @ bs)" using pm s(2) h2(2) hd by (auto simp: rest_def head_of_def)
  have py: "pay h2 i = pay h i" if "in_range i" for i using e2 [OF that] by simp
  have "key h2 i = key h i" if "i < n" for i
    using py [of "int i"] that n by (simp add: in_range_def pay_def payload_def key_def)
  then have "linked ?h n (as @ bs)" "\<forall>i \<in> set (as @ bs). pay ?h i = pay h i" "\<forall>i < n. key ?h i = key h i" "size ?h = size h"
      "unusedIndexs ?h = unusedIndexs h"
    using l2 py r h2(2) by (auto simp: rest_def)
  then show ?thesis using un hd' by blast
qed

text \<open>Marking a node as deleted changes nothing that the list or the heap looks at.\<close>

lemma mark_deleted:
  assumes l: "linked h m L" and r: "in_range i"
  shows "\<exists>h'. modify_node h i (\<lambda>s. s\<lparr>flag := 0\<rparr>) = Inr h' \<and> rest h' = rest h \<and> linked h' m L \<and>
    (\<forall>j. in_range j \<longrightarrow> snd (pay h' j) = snd (pay h j)) \<and> (\<forall>j < MAXSIZE. key h' j = key h j)"
proof -
  have len: "length (lst h) = MAXSIZE" using l by (simp add: linked_def)
  let ?s = "(lst h ! nat i)\<lparr>flag := 0\<rparr>"
  obtain h' where h': "modify_node h i (\<lambda>s. s\<lparr>flag := 0\<rparr>) = Inr h'" "rest h' = rest h"
      "looks h' ((pre h)(i := preNode ?s)) ((nxt h)(i := nextNode ?s)) ((pay h)(i := payload ?s))"
    using modify_node_looks [OF looks_self [OF len] r, of "\<lambda>s. s\<lparr>flag := 0\<rparr>"] by (auto simp: Let_def)
  note e = looks_eq [OF h'(3)]
  have lk: "pre h' j = pre h j" "nxt h' j = nxt h j" "snd (pay h' j) = snd (pay h j)" if "in_range j" for j
    using e [OF that] by (auto simp: pre_def nxt_def pay_def payload_def)
  have "dl (pre h') (nxt h') L" using l lk linked_range [OF l] unfolding linked_def dl_def by (metis nth_mem)
  then have "linked h' m L" using l h'(3) by (simp add: linked_def looks_def)
  moreover have "key h' j = key h j" if "j < MAXSIZE" for j
    using lk(3) [of "int j"] that by (simp add: in_range_def pay_def payload_def key_def)
  ultimately show ?thesis using h'(1,2) lk(3) by blast
qed

text \<open>The root goes to the last position, the last element sinks from the root, and the old root is unlinked there.\<close>

lemma pop_rearrange:
  assumes l: "linked h (Suc n) (as @ 0 # bs)" and hd: "headIndex h = head_of (as @ 0 # bs)" and sz: "size h = int n"
    and heap: "heap_from 0 (Suc n) (key h)" and n: "0 < n"
  shows "\<exists>h' M. andThen (swapHeapNode h 0 (int n)) (\<lambda>h3. andThen (down_loop (nat (size h3)) (key h n) h3 0) (\<lambda>h4. unlink h4 (size h4))) = Inr h' \<and>
    linked h' n M \<and> headIndex h' = head_of M \<and> size h' = int n \<and> unusedIndexs h' = unusedIndexs h \<and>
    map (pay h') M = map (pay h) (as @ bs) \<and> heap_from 0 n (key h')"
proof -
  let ?L = "as @ 0 # bs" and ?t = "transposed 0 (int n)"
  obtain h3 where h3: "swapHeapNode h 0 (int n) = Inr h3" "linked h3 (Suc n) (map ?t ?L)" "shuffled (Suc n) h ?L h3 (map ?t ?L)"
      "key h3 0 = key h n" "\<forall>i < Suc n. i \<noteq> 0 \<and> i \<noteq> n \<longrightarrow> key h3 i = key h i"
    using swapHeapNode_linked [OF l, of 0 "Suc n" n] n by auto
  have s3: "size h3 = int n" "unusedIndexs h3 = unusedIndexs h" "headIndex h3 = head_of (map ?t ?L)"
    using h3(3) sz hd by (auto simp: shuffled_def)
  have sk: "sinking 0 n (key h3) 0" by (rule sinking_root [OF heap]) (use h3(5) in auto)
  obtain h4 L4 where h4: "down_loop n (key h3 0) h3 0 = Inr h4" "linked h4 (Suc n) L4" "shuffled n h3 (map ?t ?L) h4 L4" "heap_from 0 n (key h4)"
    using sift_loop_correct [OF h3(2) _ n order_refl sk] by (auto simp: down_loop_eq_sift)
  then obtain f where f: "f (int n) = int n" "L4 = map f (map ?t ?L)" by (auto simp: shuffled_def)
  let ?as = "map (f \<circ> ?t) as" and ?bs = "map (f \<circ> ?t) bs"
  have L4: "L4 = ?as @ int n # ?bs" using f by (simp add: transposed_def)
  have s4: "size h4 = int n" "unusedIndexs h4 = unusedIndexs h" "headIndex h4 = head_of L4"
    using h4(3) s3 by (auto simp: shuffled_def)
  obtain h5 where h5: "unlink h4 (int n) = Inr h5" "linked h5 n (?as @ ?bs)" "headIndex h5 = head_of (?as @ ?bs)"
      "size h5 = size h4" "unusedIndexs h5 = unusedIndexs h4" "\<forall>i \<in> set (?as @ ?bs). pay h5 i = pay h4 i" "\<forall>i < n. key h5 i = key h4 i"
    using unlink_correct [OF h4(2) [unfolded L4] s4(3) [unfolded L4]] by auto
  have "map (pay h4) L4 = map (pay h) ?L" using shuffled_pay [OF h4(3) h3(2)] shuffled_pay [OF h3(3) l] by simp
  then have "map (pay h4) (?as @ ?bs) = map (pay h) (as @ bs)" unfolding L4 map_append by simp
  moreover have "map (pay h5) (?as @ ?bs) = map (pay h4) (?as @ ?bs)" by (rule map_cong [OF refl]) (use h5(6) in blast)
  ultimately have py: "map (pay h5) (?as @ ?bs) = map (pay h) (as @ bs)" by (rule trans [rotated])
  have "heap_from 0 n (key h5)" using heap_from_cong [OF h4(4) h5(7)] .
  then show ?thesis using h3(1,4) h4(1) h5 s3 s4 py by (intro exI [of _ h5] exI [of _ "?as @ ?bs"]) simp
qed

lemma popHeap_structure:
  assumes "heap_ok h" "size h \<noteq> 0"
  shows "\<exists>h' s xs ys. popHeap h = Inr h' \<and> heap_ok h' \<and> topHeap h = Inr s \<and> roster h = xs @ info s # ys \<and> roster h' = xs @ ys"
proof -
  obtain L where ok: "structure_ok h L" using assms(1) by (auto simp: heap_ok_def list_ok_def)
  define n where "n = nat (size h - 1)"
  have sz: "size h = int (Suc n)" using assms(2) ok by (simp add: structure_ok_def n_def)
  have ok': "linked h (Suc n) L" "headIndex h = head_of L" "free_stack (unusedIndexs h) (Suc n)" "heap_from 0 (Suc n) (key h)"
    using ok sz assms(1) by (auto simp: structure_ok_def heap_ok_def)
  have "0 \<in> set L" using ok'(1) by (auto simp: linked_def)
  then obtain as bs where L: "L = as @ 0 # bs" by (auto dest: split_list)
  have N: "n < MAXSIZE" "length (lst h) = MAXSIZE" using ok'(1) by (auto simp: linked_def)
  obtain stk where stk: "pushStack (unusedIndexs h) (int n) = Inr stk" "free_stack stk n" using pushStack_free [OF ok'(3)] by auto
  let ?h1 = "h\<lparr>size := int n, unusedIndexs := stk\<rparr>"
  have l1: "linked ?h1 (Suc n) L" using ok'(1) by simp
  have hr: "in_range (headIndex h)" using structure_fresh(4,5) [OF ok] L by simp
  obtain h2 where h2: "modify_node ?h1 (headIndex h) (\<lambda>s. s\<lparr>flag := 0\<rparr>) = Inr h2" "rest h2 = rest ?h1" "linked h2 (Suc n) L"
      "\<forall>j. in_range j \<longrightarrow> snd (pay h2 j) = snd (pay h j)" "\<forall>j < MAXSIZE. key h2 j = key h j"
    using mark_deleted [OF l1 hr] by auto
  have s2: "size h2 = int n" "unusedIndexs h2 = stk" "headIndex h2 = head_of L" using h2(2) ok'(2) by (auto simp: rest_def)
  have ro: "roster h = map (snd \<circ> pay h2) as @ info (lst h ! 0) # map (snd \<circ> pay h2) bs"
    using roster_eq [OF ok] h2(4) linked_range [OF ok'(1)] info_pay [of h 0] L by simp
  have pop: "popHeap h = (if n = 0 then Inr (h2\<lparr>headIndex := -1\<rparr>)
      else andThen (swapHeapNode h2 0 (int n)) (\<lambda>h3. andThen (down_loop (nat (size h3)) (key h2 n) h3 0) (\<lambda>h4. unlink h4 (size h4))))"
    using sz stk(1) h2(1) s2(1) N h2(5) by (simp add: popHeap_def Let_def node_at_def array_get_def key_def)
  have "\<exists>h' M. popHeap h = Inr h' \<and> structure_ok h' M \<and> heap_from 0 n (key h') \<and> size h' = int n \<and>
      map (pay h') M = map (pay h2) (as @ bs)"
  proof (cases "n = 0")
    case True
    have "length L = 1" using structure_length [OF ok] sz True by simp
    then have "as = []" "bs = []" using L by auto
    moreover have "structure_ok (h2\<lparr>headIndex := -1\<rparr>) []"
      using True s2 stk(2) h2(3) by (simp add: structure_ok_def linked_def dl_def)
    ultimately show ?thesis using pop True s2(1)
      by (intro exI [of _ "h2\<lparr>headIndex := -1\<rparr>"] exI [of _ "[]"]) (simp add: heap_from_def)
  next
    case False
    have "heap_from 0 (Suc n) (key h2)" by (rule heap_from_cong [OF ok'(4)]) (use h2(5) N in auto)
    then show ?thesis
      using pop_rearrange [OF h2(3) [unfolded L] s2(3) [unfolded L] s2(1)] False pop s2(2) stk(2)
      by (auto simp: structure_ok_def)
  qed
  then obtain h' M where h': "popHeap h = Inr h'" "structure_ok h' M" "heap_from 0 n (key h')" "size h' = int n"
    "map (pay h') M = map (pay h2) (as @ bs)" by blast
  have "roster h' = map snd (map (pay h') M)" using roster_eq [OF h'(2)] by simp
  also have "\<dots> = map (snd \<circ> pay h2) as @ map (snd \<circ> pay h2) bs" using h'(5) by simp
  finally have "roster h' = map (snd \<circ> pay h2) as @ map (snd \<circ> pay h2) bs" .
  moreover have "heap_ok h'" using h'(2-4) by (auto simp: heap_ok_def list_ok_def)
  moreover have "topHeap h = Inr (lst h ! 0)" using N by (simp add: topHeap_def node_at_def array_get_def)
  ultimately show ?thesis using h'(1) ro by blast
qed

lemma root_least:
  assumes "heap_ok h" "size h \<noteq> 0"
  shows "\<exists>s. topHeap h = Inr s \<and> info s \<in> set (roster h) \<and> (\<forall>e \<in> set (roster h). stu_id s \<le> fst e)"
proof -
  obtain L where ok: "structure_ok h L" using assms(1) by (auto simp: heap_ok_def list_ok_def)
  then have l: "linked h (nat (size h)) L" "0 < nat (size h)" using assms(2) by (auto simp: structure_ok_def)
  have k: "key h 0 \<le> key h i" if "i < nat (size h)" for i using heap_root_least assms(1) that by (auto simp: heap_ok_def)
  have r: "set (roster h) = (\<lambda>i. info (lst h ! i)) ` {0..<nat (size h)}"
    using roster_eq [OF ok] l(1) by (auto simp: linked_def info_pay [symmetric] image_image)
  have "topHeap h = Inr (lst h ! 0)" using linked_node_at [OF l] by (simp add: topHeap_def)
  then show ?thesis using r k l(2) by (auto simp: info_def key_def)
qed

lemma popHeap_ok:
  assumes "heap_ok h"
  shows "if size h = 0 then popHeap h = Inr h
    else \<exists>h' s xs ys. popHeap h = Inr h' \<and> heap_ok h' \<and> topHeap h = Inr s \<and> (\<forall>e \<in> set (roster h). stu_id s \<le> fst e) \<and>
      roster h = xs @ info s # ys \<and> roster h' = xs @ ys"
proof (cases "size h = 0")
  case False
  then show ?thesis using popHeap_structure [OF assms False] root_least [OF assms False] by fastforce
qed (simp add: popHeap_def)

section \<open>Searching\<close>

lemma find_loop_correct:
  assumes sz: "size h \<le> int (length (lst h))"
  shows "\<exists>i. find_loop P h c = Inr i \<and> (if i = -1 then \<forall>j k. int j < size h \<and> (parent_of ^^ k) j = c \<longrightarrow> \<not> P (lst h ! j)
    else 0 \<le> i \<and> i < size h \<and> P (lst h ! nat i))"
proof (induction "nat (size h) - c" arbitrary: c rule: less_induct)
  case less
  have below: "(parent_of ^^ k) j < nat (size h)" if "int j < size h" for j k
    using that by (induction k) (auto simp: parent_of_def)
  show ?case
  proof (cases "int c \<ge> size h")
    case True
    then have "(parent_of ^^ k) j \<noteq> c" if "int j < size h" for j k using below [OF that, of k] by linarith
    then show ?thesis using True by (subst find_loop.simps) auto
  next
    case False
    then have nd: "node_at h (int c) = Inr (lst h ! c)" using sz by (simp add: node_at_def array_get_def)
    show ?thesis
    proof (cases "P (lst h ! c)")
      case True
      then show ?thesis using False nd by (subst find_loop.simps) auto
    next
      case noP: False
      define sub where "sub d = (if int d < size h then find_loop P h d else Inr (-1))" for d
      have subtree: "\<exists>i. sub d = Inr i \<and> (if i = -1 then \<forall>j k. int j < size h \<and> (parent_of ^^ k) j = d \<longrightarrow> \<not> P (lst h ! j)
          else 0 \<le> i \<and> i < size h \<and> P (lst h ! nat i))" if "d = c * 2 + 1 \<or> d = c * 2 + 2" for d
      proof (cases "int d < size h")
        case True
        then have "nat (size h) - d < nat (size h) - c" using that False by auto
        from less [OF this] show ?thesis using True unfolding sub_def by simp
      next
        case False
        then have "(parent_of ^^ k) j \<noteq> d" if "int j < size h" for j k using below [OF that, of k] by linarith
        then show ?thesis using False by (auto simp: sub_def)
      qed
      obtain l where l: "sub (c * 2 + 1) = Inr l" "if l = -1 then \<forall>j k. int j < size h \<and> (parent_of ^^ k) j = c * 2 + 1 \<longrightarrow> \<not> P (lst h ! j)
          else 0 \<le> l \<and> l < size h \<and> P (lst h ! nat l)" using subtree by blast
      obtain r where r: "sub (c * 2 + 2) = Inr r" "if r = -1 then \<forall>j k. int j < size h \<and> (parent_of ^^ k) j = c * 2 + 2 \<longrightarrow> \<not> P (lst h ! j)
          else 0 \<le> r \<and> r < size h \<and> P (lst h ! nat r)" using subtree by blast
      have eq: "find_loop P h c = Inr (if l \<noteq> -1 then l else r)"
        using False nd noP l(1) r(1) unfolding sub_def by (subst find_loop.simps) (simp add: nd)
      have "\<not> P (lst h ! j)" if "l = -1" "r = -1" "int j < size h" "(parent_of ^^ k) j = c" for j k
        using that(4)
      proof (induction k)
        case (Suc k)
        let ?d = "(parent_of ^^ k) j"
        have "parent_of ?d = c" using Suc.prems by simp
        moreover have "parent_of 0 = 0" by (simp add: parent_of_def)
        ultimately have "?d = c \<or> ?d = c * 2 + 1 \<or> ?d = c * 2 + 2" using parent_of_iff [of ?d c] by (cases "?d = 0") auto
        then show ?case using Suc.IH l(2) r(2) that by auto
      qed (use noP in simp)
      then show ?thesis using eq l(2) r(2) by (cases "l = -1"; cases "r = -1") auto
    qed
  qed
qed

lemma reaches_root: "\<exists>k. (parent_of ^^ k) j = 0"
proof (induction j rule: less_induct)
  case (less j)
  show ?case
  proof (cases "j = 0")
    case False
    then obtain k where "(parent_of ^^ k) (parent_of j) = 0" using less parent_of_less by blast
    then show ?thesis by (intro exI [of _ "Suc k"]) (simp add: funpow_swap1)
  qed (intro exI [of _ 0], simp)
qed

lemma roster_nodes: "structure_ok h L \<Longrightarrow> set (roster h) = (\<lambda>i. info (lst h ! i)) ` {0..<nat (size h)}"
  using roster_eq by (auto simp: structure_ok_def linked_def info_pay [symmetric] image_image)

lemma find_loop_roster:
  assumes "list_ok h"
  shows "\<exists>i. find_loop (\<lambda>s. Q (info s)) h 0 = Inr i \<and>
    (if \<exists>e \<in> set (roster h). Q e then 0 \<le> i \<and> i < size h \<and> Q (info (lst h ! nat i)) else i = -1)"
proof -
  obtain L where ok: "structure_ok h L" using assms by (auto simp: list_ok_def)
  then have sz: "size h \<le> int (length (lst h))" "0 \<le> size h" by (auto simp: structure_ok_def linked_def)
  obtain i where i: "find_loop (\<lambda>s. Q (info s)) h 0 = Inr i" "if i = -1 then \<forall>j k. int j < size h \<and> (parent_of ^^ k) j = 0 \<longrightarrow> \<not> Q (info (lst h ! j))
      else 0 \<le> i \<and> i < size h \<and> Q (info (lst h ! nat i))"
    using find_loop_correct [OF sz(1)] by blast
  have m: "(\<exists>e \<in> set (roster h). Q e) \<longleftrightarrow> (\<exists>j. int j < size h \<and> Q (info (lst h ! j)))"
    using roster_nodes [OF ok] sz(2) by (auto simp: image_iff) (metis atLeastLessThan_iff le0 nat_less_iff zless_nat_eq_int_zless)
  show ?thesis
  proof (cases "i = -1")
    case True
    then have "\<forall>j. int j < size h \<longrightarrow> \<not> Q (info (lst h ! j))" using i(2) reaches_root by auto
    then show ?thesis using i(1) m True by auto
  next
    case False
    then have "0 \<le> i \<and> i < size h \<and> Q (info (lst h ! nat i))" using i(2) by simp
    moreover from this have "\<exists>j. int j < size h \<and> Q (info (lst h ! j))" by (intro exI [of _ "nat i"]) auto
    ultimately show ?thesis using i(1) m by auto
  qed
qed

section \<open>Modifying\<close>

lemma modify_info:
  assumes ok: "list_ok h" and i: "0 \<le> i" "i < size h"
    and f: "\<forall>s. preNode (f s) = preNode s \<and> nextNode (f s) = nextNode s"
  shows "\<exists>h' k. modify_node h i f = Inr h' \<and> list_ok h' \<and> size h' = size h \<and> k < length (roster h) \<and>
    roster h ! k = info (lst h ! nat i) \<and> lst h' ! nat i = f (lst h ! nat i) \<and> roster h' = (roster h)[k := info (f (lst h ! nat i))] \<and>
    (\<forall>j < nat (size h). j \<noteq> nat i \<longrightarrow> key h' j = key h j)"
proof -
  obtain L where L: "structure_ok h L" using ok by (auto simp: list_ok_def)
  have len: "length (lst h) = MAXSIZE" "nat (size h) \<le> MAXSIZE" using L by (auto simp: structure_ok_def linked_def)
  let ?h = "h\<lparr>lst := (lst h)[nat i := f (lst h ! nat i)]\<rparr>"
  have n: "nat i < length (lst h)" using i len by linarith
  have m: "modify_node h i f = Inr ?h"
    using i n by (simp add: modify_node_def node_at_def put_node_def array_get_def array_set_def)
  have "pre ?h j = pre h j" "nxt ?h j = nxt h j" for j
    using f n by (auto simp: pre_def nxt_def nth_list_update)
  then have links: "pre ?h = pre h" "nxt ?h = nxt h" by auto
  have ok': "structure_ok ?h L" using L links by (simp add: structure_ok_def linked_def)
  have "i \<in> set L"
  proof -
    have "i \<in> int ` {0..<nat (size h)}" using i by (intro image_eqI [of _ _ "nat i"]) auto
    then show ?thesis using L by (simp add: structure_ok_def linked_def)
  qed
  then obtain k where k: "k < length L" "L ! k = i" by (auto simp: in_set_conv_nth)
  have pay: "pay ?h j = (if j = i then payload (f (lst h ! nat i)) else pay h j)" if "j \<in> set L" for j
    using that L i n by (auto simp: pay_def nth_list_update structure_ok_def linked_def)
  have d: "distinct L" using L by (simp add: structure_ok_def linked_def dl_def)
  have "roster ?h = (roster h)[k := info (f (lst h ! nat i))]"
    unfolding roster_eq [OF ok'] roster_eq [OF L]
  proof (rule nth_equalityI)
    fix j assume "j < length (map (snd \<circ> pay ?h) L)"
    then have j: "j < length L" "L ! j \<in> set L" by auto
    then show "map (snd \<circ> pay ?h) L ! j = (map (snd \<circ> pay h) L)[k := info (f (lst h ! nat i))] ! j"
      using pay [OF j(2)] k d nth_eq_iff_index_eq [OF d j(1) k(1)] by (auto simp: nth_list_update info_def payload_def)
  qed simp
  moreover have "roster h ! k = info (lst h ! nat i)" "k < length (roster h)"
    using roster_eq [OF L] k by (auto simp: info_pay)
  moreover have "lst ?h ! nat i = f (lst h ! nat i)" "\<forall>j < nat (size h). j \<noteq> nat i \<longrightarrow> key ?h j = key h j"
    using n by (auto simp: key_def)
  moreover have "list_ok ?h" "size ?h = size h" using ok' by (auto simp: list_ok_def)
  ultimately show ?thesis using m by blast
qed

lemma modify_node_twice: "modify_node h i f = Inr h1 \<Longrightarrow> modify_node h1 i g = modify_node h i (\<lambda>s. g (f s))"
  by (auto simp: modify_node_def node_at_def put_node_def array_get_def array_set_def andThen_eq_Inr split: if_splits)

lemma modifyIdByIndex_ok:
  assumes "heap_ok h" "0 \<le> ind"
  shows "if ind \<ge> size h then modifyIdByIndex h ind i = Inr h
    else \<exists>h' k. modifyIdByIndex h ind i = Inr h' \<and> heap_ok h' \<and> k < length (roster h) \<and> roster h ! k = info (lst h ! nat ind) \<and>
      roster h' = (roster h)[k := (i, stu_name (lst h ! nat ind))]"
proof (cases "ind \<ge> size h")
  case False
  have lo: "list_ok h" using assms(1) by (simp add: heap_ok_def)
  obtain h1 k where h1: "modify_node h ind (\<lambda>s. s\<lparr>stu_id := i\<rparr>) = Inr h1" "list_ok h1" "k < length (roster h)"
      "roster h ! k = info (lst h ! nat ind)" "roster h1 = (roster h)[k := (i, stu_name (lst h ! nat ind))]"
    using modify_info [OF lo assms(2), of "\<lambda>s. s\<lparr>stu_id := i\<rparr>"] False by (auto simp: info_def)
  then show ?thesis using initialHeap_ok [OF h1(2)] False by (auto simp: modifyIdByIndex_def)
qed (simp add: modifyIdByIndex_def)

lemma modifyNameByIndex_ok:
  assumes "heap_ok h" "0 \<le> ind"
  shows "if ind \<ge> size h then modifyNameByIndex h ind name = Inr h
    else if length name \<ge> NAMESIZE then modifyNameByIndex h ind name = Inl Out_of_bounds
    else \<exists>h' k. modifyNameByIndex h ind name = Inr h' \<and> heap_ok h' \<and> k < length (roster h) \<and> roster h ! k = info (lst h ! nat ind) \<and>
      roster h' = (roster h)[k := (stu_id (lst h ! nat ind), name)]"
proof (cases "ind \<ge> size h \<or> length name \<ge> NAMESIZE")
  case False
  have lo: "list_ok h" and hp: "heap_from 0 (nat (size h)) (key h)" using assms(1) by (auto simp: heap_ok_def)
  obtain h1 k where h1: "modify_node h ind (\<lambda>s. s\<lparr>stu_name := name\<rparr>) = Inr h1" "list_ok h1" "size h1 = size h" "k < length (roster h)"
      "roster h ! k = info (lst h ! nat ind)" "roster h1 = (roster h)[k := (stu_id (lst h ! nat ind), name)]"
      "lst h1 ! nat ind = (lst h ! nat ind)\<lparr>stu_name := name\<rparr>" "\<forall>j < nat (size h). j \<noteq> nat ind \<longrightarrow> key h1 j = key h j"
    using modify_info [OF lo assms(2), of "\<lambda>s. s\<lparr>stu_name := name\<rparr>"] False by (auto simp: info_def)
  have "key h1 j = key h j" if "j < nat (size h)" for j using h1(7,8) that by (cases "j = nat ind") (auto simp: key_def)
  then have "heap_ok h1" using heap_from_cong [OF hp] h1(2,3) by (simp add: heap_ok_def)
  then show ?thesis using h1(1,4-6) False by (auto simp: modifyNameByIndex_def strcpy_name_def)
qed (auto simp: modifyNameByIndex_def strcpy_name_def)

lemma modifyIdAndNameByIndex_ok:
  assumes "heap_ok h" "0 \<le> ind"
  shows "if ind \<ge> size h then modifyIdAndNameByIndex h ind i name = Inr h
    else if length name \<ge> NAMESIZE then modifyIdAndNameByIndex h ind i name = Inl Out_of_bounds
    else \<exists>h' k. modifyIdAndNameByIndex h ind i name = Inr h' \<and> heap_ok h' \<and> k < length (roster h) \<and>
      roster h ! k = info (lst h ! nat ind) \<and> roster h' = (roster h)[k := (i, name)]"
proof (cases "ind \<ge> size h")
  case False
  have lo: "list_ok h" using assms(1) by (simp add: heap_ok_def)
  obtain h1 where h1: "modify_node h ind (\<lambda>s. s\<lparr>stu_id := i\<rparr>) = Inr h1"
    using modify_info [OF lo assms(2), of "\<lambda>s. s\<lparr>stu_id := i\<rparr>"] False by auto
  obtain h2 k where h2: "modify_node h1 ind (\<lambda>s. s\<lparr>stu_name := name\<rparr>) = Inr h2" "list_ok h2" "k < length (roster h)"
      "roster h ! k = info (lst h ! nat ind)" "roster h2 = (roster h)[k := (i, name)]"
    using modify_info [OF lo assms(2), of "\<lambda>s. s\<lparr>stu_id := i, stu_name := name\<rparr>"] False
    unfolding modify_node_twice [OF h1] by (auto simp: info_def)
  show ?thesis using initialHeap_ok [OF h2(2)] h1 h2 False by (auto simp: modifyIdAndNameByIndex_def strcpy_name_def)
qed (simp add: modifyIdAndNameByIndex_def)

text \<open>The functions that search for the student first do the same at the index they find.\<close>

lemma findHeap_info: "findHeap h stu 0 = find_loop (\<lambda>s. info s = info stu) h 0"
  by (simp add: findHeap_def info_def)

lemma findHeap_index:
  assumes "heap_ok h"
  obtains "info stu \<notin> set (roster h)" "findHeap h stu 0 = Inr (-1)"
  | ind where "info stu \<in> set (roster h)" "findHeap h stu 0 = Inr ind" "0 \<le> ind" "ind < size h" "info (lst h ! nat ind) = info stu"
  using find_loop_roster [of h "\<lambda>e. e = info stu"] assms by (auto simp: findHeap_info heap_ok_def split: if_splits)

lemma modify_via_index:
  "findHeap h stu 0 = Inr ind \<Longrightarrow> 0 \<le> ind \<Longrightarrow> ind < size h \<Longrightarrow> modifyId h stu i = modifyIdByIndex h ind i"
  "findHeap h stu 0 = Inr ind \<Longrightarrow> 0 \<le> ind \<Longrightarrow> ind < size h \<Longrightarrow> modifyName h stu name = modifyNameByIndex h ind name"
  "findHeap h stu 0 = Inr ind \<Longrightarrow> 0 \<le> ind \<Longrightarrow> ind < size h \<Longrightarrow> modifyIdAndName h stu i name = modifyIdAndNameByIndex h ind i name"
  by (auto simp: modifyId_def modifyIdByIndex_def modifyName_def modifyNameByIndex_def modifyIdAndName_def modifyIdAndNameByIndex_def)

section \<open>A priority queue\<close>

text \<open>
  What a client of the structure relies on: the students as a list, the newest first; taking out the one with the least
  number leaves the others in their order.
\<close>

fun drain :: "('h \<Rightarrow> 'h outcome) \<Rightarrow> ('h \<Rightarrow> 'e outcome) \<Rightarrow> nat \<Rightarrow> 'h \<Rightarrow> 'e list outcome" where
  "drain pop least 0 h = Inr []"
| "drain pop least (Suc n) h =
     andThen (least h) (\<lambda>e. andThen (pop h) (\<lambda>h'. andThen (drain pop least n h') (\<lambda>es. Inr (e # es))))"

locale least_first_queue =
  fixes invar :: "'h \<Rightarrow> bool" and items :: "'h \<Rightarrow> (int \<times> string) list" and room :: "'h \<Rightarrow> string \<Rightarrow> bool"
    and push :: "'h \<Rightarrow> int \<Rightarrow> string \<Rightarrow> 'h outcome" and pop :: "'h \<Rightarrow> 'h outcome" and least :: "'h \<Rightarrow> (int \<times> string) outcome"
  assumes push_law: "invar h \<Longrightarrow> room h nm \<Longrightarrow> \<exists>h'. push h i nm = Inr h' \<and> invar h' \<and> items h' = (i, nm) # items h"
    and pop_law: "invar h \<Longrightarrow> items h \<noteq> [] \<Longrightarrow> \<exists>h' e xs ys. pop h = Inr h' \<and> invar h' \<and> least h = Inr e \<and>
      (\<forall>e' \<in> set (items h). fst e \<le> fst e') \<and> items h = xs @ e # ys \<and> items h' = xs @ ys"
begin

lemma drain_sorts:
  "invar h \<Longrightarrow> length (items h) = n \<Longrightarrow> \<exists>es. drain pop least n h = Inr es \<and> mset es = mset (items h) \<and> sorted (map fst es)"
proof (induction n arbitrary: h)
  case (Suc n)
  then have "items h \<noteq> []" by auto
  then obtain h' e xs ys where h': "pop h = Inr h'" "invar h'" "least h = Inr e" "\<forall>e' \<in> set (items h). fst e \<le> fst e'"
    "items h = xs @ e # ys" "items h' = xs @ ys" using pop_law [OF Suc.prems(1)] by blast
  then have "length (items h') = n" using Suc.prems(2) by simp
  then obtain es where es: "drain pop least n h' = Inr es" "mset es = mset (xs @ ys)" "sorted (map fst es)"
    using Suc.IH [OF h'(2)] h'(6) by auto
  have "set es = set (xs @ ys)" using es(2) by (metis set_mset_mset)
  then show ?case using h' es by auto
qed simp

lemma push_then_least:
  assumes "invar h" "room h nm" "\<forall>e \<in> set (items h). i < fst e"
  shows "\<exists>h'. push h i nm = Inr h' \<and> least h' = Inr (i, nm) \<and> (\<exists>h''. pop h' = Inr h'' \<and> items h'' = items h)"
proof -
  obtain h' where h': "push h i nm = Inr h'" "invar h'" "items h' = (i, nm) # items h" using push_law assms by blast
  then obtain h'' e xs ys where p: "pop h' = Inr h''" "least h' = Inr e" "\<forall>e' \<in> set (items h'). fst e \<le> fst e'"
    "items h' = xs @ e # ys" "items h'' = xs @ ys" using pop_law [OF h'(2)] by force
  have "fst e \<le> i" using p(3) h'(3) by simp
  then have "e \<notin> set (items h)" using assms(3) by auto
  then have "xs = []" using p(4) h'(3) by (cases xs) auto
  then show ?thesis using h' p by auto
qed

end

definition top_info :: "StaticLinkList \<Rightarrow> (int \<times> string) outcome" where
  "top_info h = map_sum id info (topHeap h)"

interpretation heap: least_first_queue heap_ok roster "\<lambda>h nm. size h < int MAXSIZE \<and> length nm < NAMESIZE" pushHeapByIdAndName popHeap top_info
proof unfold_locales
  show "\<exists>h'. pushHeapByIdAndName h i nm = Inr h' \<and> heap_ok h' \<and> roster h' = (i, nm) # roster h"
    if "heap_ok h" "size h < int MAXSIZE \<and> length nm < NAMESIZE" for h i nm
    using pushHeap_ok [OF that(1), of nm i] that(2) by simp
  show "\<exists>h' e xs ys. popHeap h = Inr h' \<and> heap_ok h' \<and> top_info h = Inr e \<and> (\<forall>e' \<in> set (roster h). fst e \<le> fst e') \<and>
      roster h = xs @ e # ys \<and> roster h' = xs @ ys" if "heap_ok h" "roster h \<noteq> []" for h
  proof -
    note ok = that(1)
    have "size h \<noteq> 0" using roster_length [of h] that by (auto simp: heap_ok_def)
    then obtain h' s xs ys where p: "popHeap h = Inr h'" "heap_ok h'" "topHeap h = Inr s" "\<forall>e \<in> set (roster h). stu_id s \<le> fst e"
      "roster h = xs @ info s # ys" "roster h' = xs @ ys" using popHeap_ok [OF ok] by auto
    then show ?thesis
      by (intro exI [of _ h'] exI [of _ "info s"] exI [of _ xs] exI [of _ ys]) (auto simp: top_info_def info_def)
  qed
qed

section \<open>Properties\<close>

definition unused_memory :: StaticLinkList where
  "unused_memory = \<lparr>lst = replicate MAXSIZE \<lparr>flag = 0, stu_id = 0, stu_name = [], preNode = 0, nextNode = 0\<rparr>, headIndex = 0,
     size = 0, unusedIndexs = initiateStack\<rparr>"

definition empty_heap :: StaticLinkList where
  "empty_heap = initialStaticLinkList unused_memory"

lemma empty_heap_ok: "heap_ok empty_heap" "list_ok empty_heap" "roster empty_heap = []" "size empty_heap = 0"
  using initial_list_ok [of unused_memory]
  by (auto simp: empty_heap_def unused_memory_def heap_ok_def initialStaticLinkList_def)

text \<open>
  C16. \<open>pushHeap\<close> on a structure with its invariant: with a free position and a name that fits, it returns, the invariant
  holds again (the heap order of the numbers, the links of the list in both directions over exactly the positions in use, the
  head, the stack of free positions), and the list shows the new student first and the others as before. On a full structure
  it writes outside the array, with a name of 20 characters or more outside the name.
\<close>

theorem pushHeap_correct:
  assumes "heap_ok h"
  shows "if size h = int MAXSIZE \<or> length (stu_name stu) \<ge> NAMESIZE then pushHeap h stu = Inl Out_of_bounds
    else \<exists>h'. pushHeap h stu = Inr h' \<and> heap_ok h' \<and> roster h' = info stu # roster h"
  using pushHeap_ok [OF assms, of "stu_name stu" "stu_id stu"] by (simp add: pushHeap_def info_def)

theorem pushHeap_correct_witness:
  "heap_ok empty_heap \<and> (\<exists>h'. pushHeap empty_heap \<lparr>flag = 0, stu_id = 7, stu_name = ''Ann'', preNode = 0, nextNode = 0\<rparr> = Inr h' \<and>
    heap_ok h' \<and> roster h' = [(7, ''Ann'')])"
  using pushHeap_correct [OF empty_heap_ok(1), of "\<lparr>flag = 0, stu_id = 7, stu_name = ''Ann'', preNode = 0, nextNode = 0\<rparr>"] empty_heap_ok
  by (simp add: MAXSIZE_def NAMESIZE_def info_def)

text \<open>
  \<open>popHeap\<close> on an empty structure changes nothing; otherwise it returns with the invariant restored, the student that
  \<open>topHeap\<close> shows has the least number of all, and exactly this entry leaves the list while the others keep their order.
\<close>

theorem popHeap_correct:
  assumes "heap_ok h"
  shows "if size h = 0 then popHeap h = Inr h
    else \<exists>h' s xs ys. popHeap h = Inr h' \<and> heap_ok h' \<and> topHeap h = Inr s \<and> (\<forall>e \<in> set (roster h). stu_id s \<le> fst e) \<and>
      roster h = xs @ info s # ys \<and> roster h' = xs @ ys"
  by (rule popHeap_ok [OF assms])

theorem popHeap_correct_witness:
  "\<exists>h. heap_ok h \<and> roster h = [(3, ''Eve''), (7, ''Ann'')] \<and> (\<exists>h'. popHeap h = Inr h' \<and> heap_ok h' \<and> roster h' = [(7, ''Ann'')])"
proof -
  have room: "(0 :: int) < int MAXSIZE" "(1 :: int) < int MAXSIZE" "length ''Ann'' < NAMESIZE" "length ''Eve'' < NAMESIZE" by (simp_all add: MAXSIZE_def NAMESIZE_def)
  obtain h1 where h1: "heap_ok h1" "roster h1 = [(7, ''Ann'')]"
    using heap.push_law [OF empty_heap_ok(1), of "''Ann''" 7] room empty_heap_ok by auto
  then have "size h1 = 1" using roster_length [of h1] by (auto simp: heap_ok_def)
  then obtain h2 where h2: "heap_ok h2" "roster h2 = [(3, ''Eve''), (7, ''Ann'')]"
    using heap.push_law [OF h1(1), of "''Eve''" 3] room h1(2) by auto
  then have "size h2 = 2" using roster_length [of h2] by (auto simp: heap_ok_def)
  then obtain h' s xs ys where p: "popHeap h2 = Inr h'" "heap_ok h'" "\<forall>e \<in> set (roster h2). stu_id s \<le> fst e"
      "roster h2 = xs @ info s # ys" "roster h' = xs @ ys" using popHeap_correct [OF h2(1)] by auto
  have "xs = []" using p(3,4) h2(2) by (auto simp: info_def Cons_eq_append_conv)
  then show ?thesis using p h2 by auto
qed

text \<open>
  C17. Building the heap with \<open>initialHeap\<close> from a list in any order and taking out all students with \<open>topHeap\<close> and
  \<open>popHeap\<close> yields every student of the list once, in the order of their numbers, and no access leaves the arrays.
\<close>

theorem heap_sorts_students:
  assumes "list_ok h"
  shows "\<exists>es. andThen (initialHeap h) (\<lambda>h'. drain popHeap top_info (nat (size h)) h') = Inr es \<and> mset es = mset (roster h) \<and> sorted (map fst es)"
proof -
  obtain h' where h': "initialHeap h = Inr h'" "heap_ok h'" "roster h' = roster h" using initialHeap_ok [OF assms] by auto
  have "length (roster h') = nat (size h)" using roster_length [OF assms] h'(3) by simp
  then show ?thesis using heap.drain_sorts [OF h'(2)] h' by auto
qed

theorem heap_sorts_students_witness:
  "\<exists>h es. list_ok h \<and> mset (roster h) = {#(3, ''Eve''), (7, ''Ann'')#} \<and>
    andThen (initialHeap h) (\<lambda>h'. drain popHeap top_info (nat (size h)) h') = Inr es \<and> mset es = {#(3, ''Eve''), (7, ''Ann'')#} \<and> sorted (map fst es)"
proof -
  let ?s = "\<lambda>i n. \<lparr>flag = 0, stu_id = i, stu_name = n, preNode = 0, nextNode = 0\<rparr>"
  obtain h1 where h1: "list_ok h1" "roster h1 = [(7, ''Ann'')]" "size h1 = 1"
    using insertListAtHead_ok [OF empty_heap_ok(2), of "?s 7 ''Ann''"] empty_heap_ok by (auto simp: info_def MAXSIZE_def)
  obtain h2 where h2: "list_ok h2" "roster h2 = [(3, ''Eve''), (7, ''Ann'')]"
    using insertListAtHead_ok [OF h1(1), of "?s 3 ''Eve''"] h1 by (auto simp: info_def MAXSIZE_def)
  show ?thesis using heap_sorts_students [OF h2(1)] h2 by (intro exI [of _ h2]) auto
qed

text \<open>
  \<open>modifyId\<close>, \<open>modifyName\<close> and \<open>modifyIdAndName\<close>: when the student is not in the structure nothing changes; otherwise
  one entry of the list equal to the student is replaced by the new data, in place, and the heap order is restored. A name of
  20 characters or more is written outside its field.
\<close>

theorem modify_correct:
  assumes "heap_ok h"
  shows "if info stu \<notin> set (roster h) then modifyId h stu i = Inr h \<and> modifyName h stu name = Inr h \<and> modifyIdAndName h stu i name = Inr h
    else (\<exists>h' k. modifyId h stu i = Inr h' \<and> heap_ok h' \<and> k < length (roster h) \<and> roster h ! k = info stu \<and>
        roster h' = (roster h)[k := (i, stu_name stu)]) \<and>
      (if length name \<ge> NAMESIZE then modifyName h stu name = Inl Out_of_bounds \<and> modifyIdAndName h stu i name = Inl Out_of_bounds
       else (\<exists>h' k. modifyName h stu name = Inr h' \<and> heap_ok h' \<and> k < length (roster h) \<and> roster h ! k = info stu \<and>
           roster h' = (roster h)[k := (stu_id stu, name)]) \<and>
         (\<exists>h' k. modifyIdAndName h stu i name = Inr h' \<and> heap_ok h' \<and> k < length (roster h) \<and> roster h ! k = info stu \<and>
           roster h' = (roster h)[k := (i, name)]))"
proof (rule findHeap_index [OF assms, of stu])
  fix ind assume a: "info stu \<in> set (roster h)" "findHeap h stu 0 = Inr ind" "0 \<le> ind" "ind < size h" "info (lst h ! nat ind) = info stu"
  have n: "stu_name (lst h ! nat ind) = stu_name stu" "stu_id (lst h ! nat ind) = stu_id stu" using a(5) by (auto simp: info_def)
  note ix = modify_via_index [OF a(2,3,4)]
  show ?thesis
    using modifyIdByIndex_ok [OF assms a(3), of i] modifyNameByIndex_ok [OF assms a(3), of name]
      modifyIdAndNameByIndex_ok [OF assms a(3), of i name] a(1,4,5) n unfolding ix by (simp cong: if_cong)
qed (simp add: modifyId_def modifyName_def modifyIdAndName_def)

theorem modify_correct_witness:
  "\<exists>h h'. heap_ok h \<and> roster h = [(7, ''Ann'')] \<and>
    modifyId h \<lparr>flag = 0, stu_id = 7, stu_name = ''Ann'', preNode = 0, nextNode = 0\<rparr> 9 = Inr h' \<and> heap_ok h' \<and> roster h' = [(9, ''Ann'')]"
proof -
  obtain h where h: "heap_ok h" "roster h = [(7, ''Ann'')]"
    using heap.push_law [OF empty_heap_ok(1), of "''Ann''" 7] empty_heap_ok by (auto simp: MAXSIZE_def NAMESIZE_def)
  show ?thesis
    using modify_correct [OF h(1), of "\<lparr>flag = 0, stu_id = 7, stu_name = ''Ann'', preNode = 0, nextNode = 0\<rparr>" 9 "''Ann''"] h
    by (auto simp: info_def)
qed

text \<open>
  The three searches from the root return: a position in use whose student matches when there is one in the list, and -1
  otherwise.
\<close>

theorem find_correct:
  assumes "list_ok h"
  shows "\<exists>i j k. findHeap h stu 0 = Inr i \<and> findHeapById h n 0 = Inr j \<and> findHeapByName h nm 0 = Inr k \<and>
    (if info stu \<in> set (roster h) then 0 \<le> i \<and> i < size h \<and> info (lst h ! nat i) = info stu else i = -1) \<and>
    (if n \<in> fst ` set (roster h) then 0 \<le> j \<and> j < size h \<and> stu_id (lst h ! nat j) = n else j = -1) \<and>
    (if nm \<in> snd ` set (roster h) then 0 \<le> k \<and> k < size h \<and> stu_name (lst h ! nat k) = nm else k = -1)"
proof -
  have e: "(\<exists>e \<in> set (roster h). e = info stu) = (info stu \<in> set (roster h))" "(\<exists>e \<in> set (roster h). fst e = n) = (n \<in> fst ` set (roster h))"
    "(\<exists>e \<in> set (roster h). snd e = nm) = (nm \<in> snd ` set (roster h))" by auto
  obtain i where i: "findHeap h stu 0 = Inr i" "if info stu \<in> set (roster h) then 0 \<le> i \<and> i < size h \<and> info (lst h ! nat i) = info stu else i = -1"
    using find_loop_roster [OF assms, of "\<lambda>e. e = info stu", unfolded e] by (auto simp: findHeap_info)
  obtain j where j: "findHeapById h n 0 = Inr j" "if n \<in> fst ` set (roster h) then 0 \<le> j \<and> j < size h \<and> stu_id (lst h ! nat j) = n else j = -1"
    using find_loop_roster [OF assms, of "\<lambda>e. fst e = n", unfolded e info_def fst_conv] by (auto simp: findHeapById_def)
  obtain k where k: "findHeapByName h nm 0 = Inr k" "if nm \<in> snd ` set (roster h) then 0 \<le> k \<and> k < size h \<and> stu_name (lst h ! nat k) = nm else k = -1"
    using find_loop_roster [OF assms, of "\<lambda>e. snd e = nm", unfolded e info_def snd_conv] by (auto simp: findHeapByName_def)
  show ?thesis by (intro exI [of _ i] exI [of _ j] exI [of _ k] conjI) (fact i j k)+
qed

theorem find_correct_witness:
  "\<exists>h. list_ok h \<and> roster h = [(7, ''Ann'')] \<and> findHeapById h 7 0 = Inr 0 \<and> findHeapByName h ''Eve'' 0 = Inr (-1)"
proof -
  obtain h where h: "heap_ok h" "roster h = [(7, ''Ann'')]"
    using heap.push_law [OF empty_heap_ok(1), of "''Ann''" 7] empty_heap_ok by (auto simp: MAXSIZE_def NAMESIZE_def)
  then have ok: "list_ok h" "size h = 1" using roster_length [of h] by (auto simp: heap_ok_def)
  show ?thesis using find_correct [OF ok(1), of undefined 7 "''Eve''"] h ok by (intro exI [of _ h]) (auto split: if_splits)
qed

end
