(* ===== verification/String_Lib.thy ===== *)
theory String_Lib
  imports Prelude
begin

text \<open>
  The functions of \<open>lab2/libs/string.c\<close>, in their portable C bodies, over a memory of bytes. A pointer is an index of the
  memory and an access outside it is a fault, so that every loop ends. \<open>size_t\<close> has 32 bits, and so has \<open>long\<close>.
\<close>

section \<open>Memory\<close>

type_synonym byte_mem = "uint8 list"

definition load :: "byte_mem \<Rightarrow> int \<Rightarrow> uint8 outcome" where
  "load m p = array_get m p"

definition store :: "byte_mem \<Rightarrow> int \<Rightarrow> uint8 \<Rightarrow> byte_mem outcome" where
  "store m p b = array_set m p b"

lemma load_Inr: "load m p = Inr b \<longleftrightarrow> 0 \<le> p \<and> p < int (length m) \<and> b = m ! nat p"
  by (auto simp: load_def array_get_def)

lemma store_Inr: "store m p b = Inr m' \<longleftrightarrow> 0 \<le> p \<and> p < int (length m) \<and> m' = m[nat p := b]"
  by (auto simp: store_def array_set_def)

lemma load_in [bounds_simps]: "0 \<le> p \<Longrightarrow> p < int (length m) \<Longrightarrow> load m p = Inr (m ! nat p)"
  by (simp add: load_def array_get_def)

lemma store_in [bounds_simps]: "0 \<le> p \<Longrightarrow> p < int (length m) \<Longrightarrow> store m p b = Inr (m[nat p := b])"
  by (simp add: store_def array_set_def)

section \<open>The functions\<close>

function strlen_loop :: "byte_mem \<Rightarrow> int \<Rightarrow> size_t \<Rightarrow> size_t outcome" where
  "strlen_loop m s cnt =
     (case load m s of Inl e \<Rightarrow> Inl e
      | Inr b \<Rightarrow> if b \<noteq> 0 then strlen_loop m (s + 1) (cnt + 1) else Inr cnt)"
  by pat_completeness auto
termination
  by (relation "measure (\<lambda>(m, s, cnt). nat (int (length m) - s))") (auto simp: load_Inr)

definition strlen :: "byte_mem \<Rightarrow> int \<Rightarrow> size_t outcome" where
  "strlen m s = strlen_loop m s 0"

text \<open>The number of characters that may still be looked at is \<open>len - cnt\<close>.\<close>

fun strnlen_loop :: "byte_mem \<Rightarrow> int \<Rightarrow> nat \<Rightarrow> size_t \<Rightarrow> size_t outcome" where
  "strnlen_loop m s 0 cnt = Inr cnt"
| "strnlen_loop m s (Suc k) cnt =
     andThen (load m s) (\<lambda>b. if b \<noteq> 0 then strnlen_loop m (s + 1) k (cnt + 1) else Inr cnt)"

definition strnlen :: "byte_mem \<Rightarrow> int \<Rightarrow> size_t \<Rightarrow> size_t outcome" where
  "strnlen m s len = strnlen_loop m s (unat len) 0"

function strcpy_loop :: "byte_mem \<Rightarrow> int \<Rightarrow> int \<Rightarrow> byte_mem outcome" where
  "strcpy_loop m p src =
     (case load m src of Inl e \<Rightarrow> Inl e
      | Inr b \<Rightarrow>
          (case store m p b of Inl e \<Rightarrow> Inl e
           | Inr m' \<Rightarrow> if b \<noteq> 0 then strcpy_loop m' (p + 1) (src + 1) else Inr m'))"
  by pat_completeness auto
termination
  by (relation "measure (\<lambda>(m, p, src). nat (int (length m) - src))") (auto simp: load_Inr store_Inr)

definition strcpy :: "byte_mem \<Rightarrow> int \<Rightarrow> int \<Rightarrow> (byte_mem \<times> int) outcome" where
  "strcpy m dst src = andThen (strcpy_loop m dst src) (\<lambda>m'. Inr (m', dst))"

fun strncpy_loop :: "byte_mem \<Rightarrow> int \<Rightarrow> int \<Rightarrow> nat \<Rightarrow> byte_mem outcome" where
  "strncpy_loop m p src 0 = Inr m"
| "strncpy_loop m p src (Suc len) =
     andThen (load m src) (\<lambda>b.
     andThen (store m p b) (\<lambda>m'.
       strncpy_loop m' (p + 1) (if b \<noteq> 0 then src + 1 else src) len))"

definition strncpy :: "byte_mem \<Rightarrow> int \<Rightarrow> int \<Rightarrow> size_t \<Rightarrow> (byte_mem \<times> int) outcome" where
  "strncpy m dst src len = andThen (strncpy_loop m dst src (unat len)) (\<lambda>m'. Inr (m', dst))"

text \<open>The difference of two characters read as \<open>unsigned char\<close>.\<close>

definition byte_diff :: "uint8 \<Rightarrow> uint8 \<Rightarrow> int" where
  "byte_diff a b = uint a - uint b"

function strcmp :: "byte_mem \<Rightarrow> int \<Rightarrow> int \<Rightarrow> int outcome" where
  "strcmp m s1 s2 =
     (case load m s1 of Inl e \<Rightarrow> Inl e
      | Inr a \<Rightarrow>
          (case load m s2 of Inl e \<Rightarrow> Inl e
           | Inr b \<Rightarrow> if a \<noteq> 0 \<and> a = b then strcmp m (s1 + 1) (s2 + 1) else Inr (byte_diff a b)))"
  by pat_completeness auto
termination
  by (relation "measure (\<lambda>(m, s1, s2). nat (int (length m) - s1))") (auto simp: load_Inr)

fun strncmp_loop :: "byte_mem \<Rightarrow> int \<Rightarrow> int \<Rightarrow> nat \<Rightarrow> int outcome" where
  "strncmp_loop m s1 s2 0 = Inr 0"
| "strncmp_loop m s1 s2 (Suc n) =
     andThen (load m s1) (\<lambda>a. andThen (load m s2) (\<lambda>b.
       if a \<noteq> 0 \<and> a = b then strncmp_loop m (s1 + 1) (s2 + 1) n else Inr (byte_diff a b)))"

definition strncmp :: "byte_mem \<Rightarrow> int \<Rightarrow> int \<Rightarrow> size_t \<Rightarrow> int outcome" where
  "strncmp m s1 s2 n = strncmp_loop m s1 s2 (unat n)"

text \<open>A null pointer is \<open>None\<close>.\<close>

function strchr :: "byte_mem \<Rightarrow> int \<Rightarrow> uint8 \<Rightarrow> int option outcome" where
  "strchr m s c =
     (case load m s of Inl e \<Rightarrow> Inl e
      | Inr b \<Rightarrow> if b \<noteq> 0 then (if b = c then Inr (Some s) else strchr m (s + 1) c) else Inr None)"
  by pat_completeness auto
termination
  by (relation "measure (\<lambda>(m, s, c). nat (int (length m) - s))") (auto simp: load_Inr)

function strfind :: "byte_mem \<Rightarrow> int \<Rightarrow> uint8 \<Rightarrow> int outcome" where
  "strfind m s c =
     (case load m s of Inl e \<Rightarrow> Inl e
      | Inr b \<Rightarrow> if b \<noteq> 0 then (if b = c then Inr s else strfind m (s + 1) c) else Inr s)"
  by pat_completeness auto
termination
  by (relation "measure (\<lambda>(m, s, c). nat (int (length m) - s))") (auto simp: load_Inr)

definition ascii :: "char \<Rightarrow> uint8" where
  "ascii c = of_nat (of_char c)"

function skip_blanks :: "byte_mem \<Rightarrow> int \<Rightarrow> int outcome" where
  "skip_blanks m s =
     (case load m s of Inl e \<Rightarrow> Inl e
      | Inr b \<Rightarrow> if b = ascii CHR '' '' \<or> b = 9 then skip_blanks m (s + 1) else Inr s)"
  by pat_completeness auto
termination
  by (relation "measure (\<lambda>(m, s). nat (int (length m) - s))") (auto simp: load_Inr)

text \<open>The value of a digit or letter.\<close>

definition digit_of :: "uint8 \<Rightarrow> int option" where
  "digit_of b =
     (if ascii CHR ''0'' \<le> b \<and> b \<le> ascii CHR ''9'' then Some (uint b - uint (ascii CHR ''0''))
      else if ascii CHR ''a'' \<le> b \<and> b \<le> ascii CHR ''z'' then Some (uint b - uint (ascii CHR ''a'') + 10)
      else if ascii CHR ''A'' \<le> b \<and> b \<le> ascii CHR ''Z'' then Some (uint b - uint (ascii CHR ''A'') + 10)
      else None)"

function digits_loop :: "byte_mem \<Rightarrow> int \<Rightarrow> int \<Rightarrow> 32 word \<Rightarrow> (32 word \<times> int) outcome" where
  "digits_loop m s base val =
     (case load m s of Inl e \<Rightarrow> Inl e
      | Inr b \<Rightarrow>
          (case digit_of b of None \<Rightarrow> Inr (val, s)
           | Some dig \<Rightarrow>
               if dig \<ge> base then Inr (val, s)
               else digits_loop m (s + 1) base (val * word_of_int base + word_of_int dig)))"
  by pat_completeness auto
termination
  by (relation "measure (\<lambda>(m, s, base, val). nat (int (length m) - s))") (auto simp: load_Inr)

text \<open>The result and the value of \<open>*endptr\<close>. The sum wraps around, as the comment in the loop admits.\<close>

definition strtol :: "byte_mem \<Rightarrow> int \<Rightarrow> int \<Rightarrow> (32 word \<times> int) outcome" where
  "strtol m s0 base0 =
     andThen (skip_blanks m s0) (\<lambda>s1.
     andThen (load m s1) (\<lambda>b1.
     let neg = (b1 = ascii CHR ''-'');
         s2 = (if b1 = ascii CHR ''+'' \<or> neg then s1 + 1 else s1) in
     andThen (load m s2) (\<lambda>c0.
     andThen (if (base0 = 0 \<or> base0 = 16) \<and> c0 = ascii CHR ''0'' then load m (s2 + 1) else Inr 0) (\<lambda>c1.
     let hex = ((base0 = 0 \<or> base0 = 16) \<and> c0 = ascii CHR ''0'' \<and> c1 = ascii CHR ''x'');
         (s3, base) = (if hex then (s2 + 2, 16)
                       else if base0 = 0 \<and> c0 = ascii CHR ''0'' then (s2 + 1, 8)
                       else if base0 = 0 then (s2, 10) else (s2, base0)) in
     andThen (digits_loop m s3 base 0) (\<lambda>(val, e).
       Inr (if neg then - val else val, e))))))"

fun memset_loop :: "byte_mem \<Rightarrow> int \<Rightarrow> uint8 \<Rightarrow> nat \<Rightarrow> byte_mem outcome" where
  "memset_loop m p c 0 = Inr m"
| "memset_loop m p c (Suc n) = andThen (store m p c) (\<lambda>m'. memset_loop m' (p + 1) c n)"

definition memset :: "byte_mem \<Rightarrow> int \<Rightarrow> uint8 \<Rightarrow> size_t \<Rightarrow> (byte_mem \<times> int) outcome" where
  "memset m s c n = andThen (memset_loop m s c (unat n)) (\<lambda>m'. Inr (m', s))"

fun copy_up :: "byte_mem \<Rightarrow> int \<Rightarrow> int \<Rightarrow> nat \<Rightarrow> byte_mem outcome" where
  "copy_up m d s 0 = Inr m"
| "copy_up m d s (Suc n) = andThen (load m s) (\<lambda>b. andThen (store m d b) (\<lambda>m'. copy_up m' (d + 1) (s + 1) n))"

fun copy_down :: "byte_mem \<Rightarrow> int \<Rightarrow> int \<Rightarrow> nat \<Rightarrow> byte_mem outcome" where
  "copy_down m d s 0 = Inr m"
| "copy_down m d s (Suc n) = andThen (load m (s - 1)) (\<lambda>b. andThen (store m (d - 1) b) (\<lambda>m'. copy_down m' (d - 1) (s - 1) n))"

definition memmove :: "byte_mem \<Rightarrow> int \<Rightarrow> int \<Rightarrow> size_t \<Rightarrow> (byte_mem \<times> int) outcome" where
  "memmove m dst src n =
     andThen (if src < dst \<and> src + uint n > dst then copy_down m (dst + uint n) (src + uint n) (unat n)
              else copy_up m dst src (unat n))
       (\<lambda>m'. Inr (m', dst))"

definition memcpy :: "byte_mem \<Rightarrow> int \<Rightarrow> int \<Rightarrow> size_t \<Rightarrow> (byte_mem \<times> int) outcome" where
  "memcpy m dst src n = andThen (copy_up m dst src (unat n)) (\<lambda>m'. Inr (m', dst))"

fun memcmp_loop :: "byte_mem \<Rightarrow> int \<Rightarrow> int \<Rightarrow> nat \<Rightarrow> int outcome" where
  "memcmp_loop m s1 s2 0 = Inr 0"
| "memcmp_loop m s1 s2 (Suc n) =
     andThen (load m s1) (\<lambda>a. andThen (load m s2) (\<lambda>b.
       if a \<noteq> b then Inr (byte_diff a b) else memcmp_loop m (s1 + 1) (s2 + 1) n))"

definition memcmp :: "byte_mem \<Rightarrow> int \<Rightarrow> int \<Rightarrow> size_t \<Rightarrow> int outcome" where
  "memcmp m v1 v2 n = memcmp_loop m v1 v2 (unat n)"

declare strlen_loop.simps [simp del] strcpy_loop.simps [simp del] strcmp.simps [simp del] strchr.simps [simp del]
  strfind.simps [simp del] skip_blanks.simps [simp del] digits_loop.simps [simp del]

section \<open>Copying\<close>

text \<open>\<open>m'\<close> is \<open>m\<close> with the bytes \<open>f 0\<close>, ..., \<open>f (n - 1)\<close> written from \<open>d\<close> on.\<close>

definition written :: "byte_mem \<Rightarrow> byte_mem \<Rightarrow> int \<Rightarrow> (nat \<Rightarrow> uint8) \<Rightarrow> nat \<Rightarrow> bool" where
  "written m m' d f n \<longleftrightarrow> length m' = length m \<and>
     (\<forall>i < length m. m' ! i = (if d \<le> int i \<and> int i < d + int n then f (nat (int i - d)) else m ! i))"

definition in_mem :: "byte_mem \<Rightarrow> int \<Rightarrow> nat \<Rightarrow> bool" where
  "in_mem m p n \<longleftrightarrow> 0 \<le> p \<and> p + int n \<le> int (length m)"

lemma in_mem_Suc: "in_mem m p (Suc n) \<longleftrightarrow> 0 \<le> p \<and> p < int (length m) \<and> in_mem m (p + 1) n"
  by (auto simp: in_mem_def)

lemma in_mem_update [simp]: "in_mem (m[i := b]) p n = in_mem m p n"
  by (simp add: in_mem_def)

lemma written_0 [simp]: "written m m d f 0"
  by (auto simp: written_def)

lemma written_cong: "written m m' d f n \<Longrightarrow> (\<And>i. i < n \<Longrightarrow> f i = g i) \<Longrightarrow> written m m' d g n"
  by (auto simp: written_def)

lemma written_first:
  assumes "written (m[nat d := f 0]) m' (d + 1) (\<lambda>i. f (Suc i)) n" "0 \<le> d"
  shows "written m m' d f (Suc n)"
  unfolding written_def
proof (intro conjI allI impI)
  show "length m' = length m" using assms(1) by (simp add: written_def)
  fix i assume i: "i < length m"
  then have e: "m' ! i = (if d + 1 \<le> int i \<and> int i < d + 1 + int n then f (Suc (nat (int i - (d + 1)))) else m[nat d := f 0] ! i)"
    using assms(1) by (simp add: written_def)
  consider "int i = d" | "int i < d" | "d + 1 \<le> int i" by linarith
  then show "m' ! i = (if d \<le> int i \<and> int i < d + int (Suc n) then f (nat (int i - d)) else m ! i)"
  proof cases
    case 3
    then have "Suc (nat (int i - (d + 1))) = nat (int i - d)" "i \<noteq> nat d" using assms(2) by linarith+
    then show ?thesis using e 3 by simp
  qed (use e i assms(2) in \<open>auto simp: nth_list_update\<close>)
qed

lemma written_last:
  assumes "written (m[nat (d + int n) := f n]) m' d f n" "0 \<le> d"
  shows "written m m' d f (Suc n)"
  unfolding written_def
proof (intro conjI allI impI)
  show "length m' = length m" using assms(1) by (simp add: written_def)
  fix i assume i: "i < length m"
  then have e: "m' ! i = (if d \<le> int i \<and> int i < d + int n then f (nat (int i - d)) else m[nat (d + int n) := f n] ! i)"
    using assms(1) by (simp add: written_def)
  show "m' ! i = (if d \<le> int i \<and> int i < d + int (Suc n) then f (nat (int i - d)) else m ! i)"
  proof (cases "int i = d + int n")
    case True
    then have "nat (d + int n) = i" "nat (int i - d) = n" by auto
    then show ?thesis using e i True by simp
  next
    case False
    then have "nat (d + int n) \<noteq> i" using assms(2) by linarith
    then show ?thesis using e False by auto
  qed
qed

lemma copy_up_written:
  assumes "in_mem m d n" "in_mem m s n" "d \<le> s \<or> s + int n \<le> d"
  shows "\<exists>m'. copy_up m d s n = Inr m' \<and> written m m' d (\<lambda>i. m ! (nat s + i)) n"
  using assms
proof (induction n arbitrary: m d s)
  case (Suc n)
  let ?m = "m[nat d := m ! nat s]"
  have r: "0 \<le> d" "d < int (length m)" "0 \<le> s" "s < int (length m)" "in_mem ?m (d + 1) n" "in_mem ?m (s + 1) n"
    using Suc.prems(1,2) by (auto simp: in_mem_Suc)
  obtain m' where m': "copy_up ?m (d + 1) (s + 1) n = Inr m'" "written ?m m' (d + 1) (\<lambda>i. ?m ! (nat (s + 1) + i)) n"
    using Suc.IH [OF r(5,6)] Suc.prems(3) by auto
  have "?m ! (nat (s + 1) + i) = m ! (nat s + Suc i)" if "i < n" for i
  proof -
    have "nat (s + 1) + i = nat s + Suc i" "nat d \<noteq> nat s + Suc i" using r Suc.prems(3) that by auto
    then show ?thesis by simp
  qed
  then have "written ?m m' (d + 1) (\<lambda>i. m ! (nat s + Suc i)) n" by (rule written_cong [OF m'(2)])
  then have "written m m' d (\<lambda>i. m ! (nat s + i)) (Suc n)" using written_first [of m d "\<lambda>i. m ! (nat s + i)"] r(1) by simp
  then show ?case using m'(1) r by (simp add: bounds_simps)
qed simp

lemma copy_down_written:
  assumes "in_mem m d n" "in_mem m s n" "s \<le> d"
  shows "\<exists>m'. copy_down m (d + int n) (s + int n) n = Inr m' \<and> written m m' d (\<lambda>i. m ! (nat s + i)) n"
  using assms
proof (induction n arbitrary: m)
  case (Suc n)
  let ?m = "m[nat (d + int n) := m ! nat (s + int n)]"
  have r: "0 \<le> d" "d + int n < int (length m)" "0 \<le> s" "s + int n < int (length m)" "in_mem ?m d n" "in_mem ?m s n"
    using Suc.prems(1,2) by (auto simp: in_mem_def)
  obtain m' where m': "copy_down ?m (d + int n) (s + int n) n = Inr m'" "written ?m m' d (\<lambda>i. ?m ! (nat s + i)) n"
    using Suc.IH [OF r(5,6) Suc.prems(3)] by auto
  have "?m ! (nat s + i) = m ! (nat s + i)" if "i < n" for i
  proof -
    have "nat (d + int n) \<noteq> nat s + i" using r Suc.prems(3) that by auto
    then show ?thesis by simp
  qed
  then have "written ?m m' d (\<lambda>i. m ! (nat s + i)) n" by (rule written_cong [OF m'(2)])
  moreover have "nat (s + int n) = nat s + n" using r by simp
  ultimately have "written m m' d (\<lambda>i. m ! (nat s + i)) (Suc n)"
    using written_last [of m d n "\<lambda>i. m ! (nat s + i)"] r(1) by simp
  then show ?case using m'(1) r by (simp add: bounds_simps)
qed simp

lemma memset_loop_written:
  assumes "in_mem m p n"
  shows "\<exists>m'. memset_loop m p c n = Inr m' \<and> written m m' p (\<lambda>i. c) n"
  using assms
proof (induction n arbitrary: m p)
  case (Suc n)
  have r: "0 \<le> p" "p < int (length m)" "in_mem (m[nat p := c]) (p + 1) n" using Suc.prems by (auto simp: in_mem_Suc)
  then show ?case using Suc.IH [OF r(3)] written_first [of m p "\<lambda>i. c"] by (auto simp: bounds_simps)
qed simp

section \<open>Strings\<close>

text \<open>The string \<open>xs\<close> with its terminating null byte stands at \<open>s\<close>.\<close>

fun string_at :: "byte_mem \<Rightarrow> int \<Rightarrow> uint8 list \<Rightarrow> bool" where
  "string_at m s [] \<longleftrightarrow> load m s = Inr 0"
| "string_at m s (x # xs) \<longleftrightarrow> x \<noteq> 0 \<and> load m s = Inr x \<and> string_at m (s + 1) xs"

lemma string_at_iff:
  "string_at m s xs \<longleftrightarrow> in_mem m s (Suc (length xs)) \<and> 0 \<notin> set xs \<and> (\<forall>i < Suc (length xs). m ! (nat s + i) = (xs @ [0]) ! i)"
proof (induction xs arbitrary: s)
  case Nil
  then show ?case by (auto simp: load_Inr in_mem_def)
next
  case (Cons x xs)
  have "0 \<le> s \<Longrightarrow> nat (s + 1) = Suc (nat s)" by simp
  then show ?case unfolding string_at.simps Cons.IH
    by (auto simp: load_Inr in_mem_Suc All_less_Suc2 simp del: nat_add_distrib)
qed

lemma strlen_loop_string: "string_at m s xs \<Longrightarrow> strlen_loop m s c = Inr (c + of_nat (length xs))"
  by (induction xs arbitrary: s c) (simp_all add: strlen_loop.simps [of m])

lemma strnlen_loop_string: "string_at m s xs \<Longrightarrow> strnlen_loop m s k c = Inr (c + of_nat (min k (length xs)))"
proof (induction k arbitrary: s c xs)
  case (Suc k)
  then show ?case by (cases xs) auto
qed simp

lemma strchr_string:
  "string_at m s xs \<Longrightarrow> strchr m s c = Inr (if c \<in> set xs then Some (s + int (length (takeWhile (\<lambda>x. x \<noteq> c) xs))) else None)"
  by (induction xs arbitrary: s) (simp_all add: strchr.simps [of m])

lemma strfind_string: "string_at m s xs \<Longrightarrow> strfind m s c = Inr (s + int (length (takeWhile (\<lambda>x. x \<noteq> c) xs)))"
  by (induction xs arbitrary: s) (simp_all add: strfind.simps [of m])

text \<open>What the comparisons return: the difference at the first place where the strings differ.\<close>

fun str_diff :: "uint8 list \<Rightarrow> uint8 list \<Rightarrow> int" where
  "str_diff [] [] = 0"
| "str_diff (x # xs) [] = uint x"
| "str_diff [] (y # ys) = - uint y"
| "str_diff (x # xs) (y # ys) = (if x = y then str_diff xs ys else byte_diff x y)"

lemma strcmp_string: "string_at m s xs \<Longrightarrow> string_at m t ys \<Longrightarrow> strcmp m s t = Inr (str_diff xs ys)"
  by (induction xs ys arbitrary: s t rule: str_diff.induct) (simp_all add: strcmp.simps [of m] byte_diff_def)

lemma strncmp_loop_string:
  "string_at m s xs \<Longrightarrow> string_at m t ys \<Longrightarrow> strncmp_loop m s t n = Inr (str_diff (take n xs) (take n ys))"
proof (induction n arbitrary: s t xs ys)
  case (Suc n)
  then show ?case by (cases xs; cases ys) (auto simp: byte_diff_def)
qed simp

lemma byte_diff_sign: "byte_diff a b = 0 \<longleftrightarrow> a = b" "byte_diff a b < 0 \<longleftrightarrow> a < b"
  by (auto simp: byte_diff_def word_less_def word_uint_eq_iff)

lemma uint_pos: "x \<noteq> 0 \<Longrightarrow> 0 < uint (x :: 'a :: len word)"
  by (metis order.not_eq_order_implies_strict uint_0_iff uint_ge_0)

lemma str_diff_sign:
  assumes "0 \<notin> set xs" "0 \<notin> set ys"
  shows "(str_diff xs ys = 0 \<longleftrightarrow> xs = ys) \<and> (str_diff xs ys < 0 \<longleftrightarrow> (xs, ys) \<in> lexord {(a, b). a < b})"
  using assms
proof (induction xs ys rule: str_diff.induct)
  case (2 x xs)
  then show ?case using uint_pos [of x] by auto
next
  case (3 y ys)
  then show ?case using uint_pos [of y] by auto
next
  case (4 x xs y ys)
  then show ?case using byte_diff_sign [of x y] by auto
qed simp

lemma str_diff_swap: "str_diff ys xs = - str_diff xs ys"
  by (induction xs ys rule: str_diff.induct) (auto simp: byte_diff_def)

lemma memcmp_loop_diff:
  assumes "in_mem m s n" "in_mem m t n"
  shows "memcmp_loop m s t n = Inr (str_diff (map (\<lambda>i. m ! (nat s + i)) [0..<n]) (map (\<lambda>i. m ! (nat t + i)) [0..<n]))"
  using assms
proof (induction n arbitrary: s t)
  case (Suc n)
  have r: "0 \<le> s" "s < int (length m)" "0 \<le> t" "t < int (length m)" "in_mem m (s + 1) n" "in_mem m (t + 1) n"
    using Suc.prems by (auto simp: in_mem_Suc)
  have sh: "map (\<lambda>i. m ! (nat p + i)) [0..<Suc n] = m ! nat p # map (\<lambda>i. m ! (nat (p + 1) + i)) [0..<n]" if "0 \<le> p" for p
    using that by (simp add: upt_conv_Cons map_Suc_upt [symmetric] nat_add_distrib del: upt_Suc)
  show ?case unfolding sh [OF r(1)] sh [OF r(3)] using Suc.IH [OF r(5,6)] r by (simp add: bounds_simps)
qed simp

lemma written_outside: "written m m' d f n \<Longrightarrow> 0 \<le> p \<Longrightarrow> p + int k \<le> d \<or> d + int n \<le> p \<Longrightarrow> i < k \<Longrightarrow> in_mem m p k \<Longrightarrow> m' ! (nat p + i) = m ! (nat p + i)"
  by (auto simp: written_def in_mem_def)

lemma written_at: "written m m' d f n \<Longrightarrow> in_mem m d n \<Longrightarrow> i < n \<Longrightarrow> m' ! (nat d + i) = f i"
  by (auto simp: written_def in_mem_def)

lemma written_in_mem: "written m m' d f n \<Longrightarrow> in_mem m' p k = in_mem m p k"
  by (simp add: written_def in_mem_def)

lemma string_written:
  assumes "written m m' d (\<lambda>i. (xs @ [0]) ! i) (Suc (length xs))" "in_mem m d (Suc (length xs))" "0 \<notin> set xs"
  shows "string_at m' d xs"
  using written_at [OF assms(1,2)] written_in_mem [OF assms(1)] assms(2,3) by (simp add: string_at_iff)

lemma string_kept:
  assumes "written m m' d f n" "string_at m s xs" "s + int (Suc (length xs)) \<le> d \<or> d + int n \<le> s"
  shows "string_at m' s xs"
proof -
  have "in_mem m s (Suc (length xs))" "0 \<le> s" using assms(2) by (auto simp: string_at_iff in_mem_def)
  then show ?thesis
    using written_outside [OF assms(1) _ assms(3)] written_in_mem [OF assms(1)] assms(2) by (simp add: string_at_iff)
qed

lemma string_store: "string_at m s xs \<Longrightarrow> p < s \<or> s + int (length xs) < p \<Longrightarrow> 0 \<le> p \<Longrightarrow> string_at (m[nat p := b]) s xs"
proof (induction xs arbitrary: s)
  case (Cons x xs)
  then have "nat p \<noteq> nat s" by (auto simp: load_Inr)
  with Cons show ?case by (auto simp: load_Inr)
qed (auto simp: load_Inr)

lemma strcpy_loop_written:
  assumes "string_at m s xs" "in_mem m d (Suc (length xs))" "d \<le> s \<or> s + int (length xs) < d"
  shows "\<exists>m'. strcpy_loop m d s = Inr m' \<and> written m m' d (\<lambda>i. (xs @ [0]) ! i) (Suc (length xs))"
  using assms
proof (induction xs arbitrary: m d s)
  case Nil
  have "written (m[nat d := 0]) (m[nat d := 0]) (d + 1) (\<lambda>i. ([] @ [0]) ! Suc i) 0" by simp
  then have "written m (m[nat d := 0]) d (\<lambda>i. ([] @ [0]) ! i) (Suc 0)"
    using written_first [of m d "\<lambda>i. ([] @ [0]) ! i"] Nil by (simp add: in_mem_Suc)
  then show ?case using Nil by (subst strcpy_loop.simps) (simp add: bounds_simps in_mem_Suc)
next
  case (Cons x xs)
  let ?m = "m[nat d := x]"
  have r: "0 \<le> d" "d < int (length m)" "in_mem ?m (d + 1) (Suc (length xs))" "x \<noteq> 0" "load m s = Inr x"
    using Cons.prems by (auto simp: in_mem_Suc)
  have st: "string_at ?m (s + 1) xs" by (rule string_store) (use Cons.prems r in auto)
  obtain m' where m': "strcpy_loop ?m (d + 1) (s + 1) = Inr m'" "written ?m m' (d + 1) (\<lambda>i. (xs @ [0]) ! i) (Suc (length xs))"
    using Cons.IH [OF st r(3)] Cons.prems(3) by auto
  then have "written m m' d (\<lambda>i. ((x # xs) @ [0]) ! i) (Suc (Suc (length xs)))"
    using written_first [of m d "\<lambda>i. ((x # xs) @ [0]) ! i"] r by simp
  then show ?case using m'(1) r by (subst strcpy_loop.simps) (simp add: bounds_simps)
qed

lemma strncpy_loop_written:
  assumes "string_at m s xs" "in_mem m d n" "d + int n \<le> s \<or> s + int (length xs) < d"
  shows "\<exists>m'. strncpy_loop m d s n = Inr m' \<and> written m m' d (\<lambda>i. if i < length xs then xs ! i else 0) n"
  using assms
proof (induction n arbitrary: m d s xs)
  case (Suc n)
  have r: "0 \<le> d" "d < int (length m)" "\<And>b. in_mem (m[nat d := b]) (d + 1) n" using Suc.prems by (auto simp: in_mem_Suc)
  show ?case
  proof (cases xs)
    case Nil
    let ?m = "m[nat d := 0]"
    have st: "string_at ?m s []" by (rule string_store) (use Suc.prems r Nil in auto)
    obtain m' where m': "strncpy_loop ?m (d + 1) s n = Inr m'" "written ?m m' (d + 1) (\<lambda>i. 0) n"
      using Suc.IH [OF st r(3)] Suc.prems(3) Nil by auto
    then show ?thesis using written_first [of m d "\<lambda>i. 0"] r Suc.prems(1) Nil by (simp add: bounds_simps)
  next
    case (Cons x ys)
    let ?m = "m[nat d := x]"
    have st: "string_at ?m (s + 1) ys" by (rule string_store) (use Suc.prems r Cons in auto)
    obtain m' where m': "strncpy_loop ?m (d + 1) (s + 1) n = Inr m'" "written ?m m' (d + 1) (\<lambda>i. if i < length ys then ys ! i else 0) n"
      using Suc.IH [OF st r(3)] Suc.prems(3) Cons by auto
    then have "written m m' d (\<lambda>i. if i < length xs then xs ! i else 0) (Suc n)"
      using written_first [of m d "\<lambda>i. if i < length xs then xs ! i else 0"] r Cons by (simp cong: if_cong)
    then show ?thesis using m'(1) r Suc.prems(1) Cons by (simp add: bounds_simps)
  qed
qed simp

section \<open>Properties\<close>

text \<open>
  C18. \<open>memmove\<close> copies the \<open>n\<close> bytes that stood at \<open>src\<close> to \<open>dst\<close> and changes nothing else, for every overlap of the
  two areas; \<open>memcpy\<close> does the same when the destination does not begin inside the source.
\<close>

theorem memmove_correct:
  assumes "in_mem m dst (unat n)" "in_mem m src (unat n)"
  shows "(\<exists>m'. memmove m dst src n = Inr (m', dst) \<and> written m m' dst (\<lambda>i. m ! (nat src + i)) (unat n)) \<and>
    (\<not> (src < dst \<and> dst < src + uint n) \<longrightarrow> memcpy m dst src n = memmove m dst src n)"
proof -
  have u: "uint n = int (unat n)" by simp
  show ?thesis
  proof (cases "src < dst \<and> src + uint n > dst")
    case True
    then show ?thesis using copy_down_written [OF assms] unfolding memmove_def u by auto
  next
    case False
    then show ?thesis using copy_up_written [OF assms] unfolding memmove_def memcpy_def u by auto
  qed
qed

theorem memmove_correct_witness:
  "in_mem [1, 2, 3, 4, 5] 1 (unat (3 :: size_t)) \<and>
    (\<exists>m'. memmove [1, 2, 3, 4, 5] 1 0 3 = Inr (m', 1) \<and> m' ! 1 = 1 \<and> m' ! 2 = 2 \<and> m' ! 3 = 3 \<and> m' ! 4 = 5)"
proof -
  have r: "in_mem [1, 2, 3, 4, 5] 1 (unat (3 :: size_t))" "in_mem [1, 2, 3, 4, 5] 0 (unat (3 :: size_t))" by (simp_all add: in_mem_def)
  obtain m' where "memmove [1, 2, 3, 4, 5] 1 0 3 = Inr (m', 1)" "written [1, 2, 3, 4, 5] m' 1 (\<lambda>i. [1, 2, 3, 4, 5] ! i) 3"
    using memmove_correct [OF r] by auto
  then show ?thesis using r(1) by (auto simp: written_def)
qed

text \<open>
  \<open>strcpy\<close> into an area that does not overlap its source and can hold the string: the copy compares equal to the source with
  \<open>strcmp\<close>, has the same \<open>strlen\<close>, and no byte outside the copy changes. \<open>strncpy\<close> writes exactly \<open>len\<close> bytes, the string and
  then null bytes.
\<close>

theorem strcpy_round_trip:
  assumes "string_at m src xs" "in_mem m dst (Suc (length xs))" "dst + int (length xs) < src \<or> src + int (length xs) < dst"
  shows "\<exists>m'. strcpy m dst src = Inr (m', dst) \<and> strcmp m' dst src = Inr 0 \<and> strlen m' dst = strlen m src \<and>
    strlen m src = Inr (of_nat (length xs)) \<and> written m m' dst (\<lambda>i. (xs @ [0]) ! i) (Suc (length xs)) \<and>
    (\<forall>len. in_mem m dst (unat len) \<and> (dst + uint len \<le> src \<or> src + int (length xs) < dst) \<longrightarrow>
      (\<exists>m''. strncpy m dst src len = Inr (m'', dst) \<and> written m m'' dst (\<lambda>i. if i < length xs then xs ! i else 0) (unat len)))"
proof -
  obtain m' where m': "strcpy_loop m dst src = Inr m'" "written m m' dst (\<lambda>i. (xs @ [0]) ! i) (Suc (length xs))"
    using strcpy_loop_written [OF assms(1,2)] assms(3) by auto
  have nz: "0 \<notin> set xs" using assms(1) by (simp add: string_at_iff)
  have copy: "string_at m' dst xs" by (rule string_written [OF m'(2) assms(2) nz])
  have orig: "string_at m' src xs" by (rule string_kept [OF m'(2) assms(1)]) (use assms(3) in auto)
  have "strcmp m' dst src = Inr 0" using strcmp_string [OF copy orig] str_diff_sign [OF nz nz] by simp
  moreover have "strlen m' dst = Inr (of_nat (length xs))" "strlen m src = Inr (of_nat (length xs))"
    using strlen_loop_string [OF copy] strlen_loop_string [OF assms(1)] by (simp_all add: strlen_def)
  moreover have "\<exists>m''. strncpy m dst src len = Inr (m'', dst) \<and> written m m'' dst (\<lambda>i. if i < length xs then xs ! i else 0) (unat len)"
    if "in_mem m dst (unat len) \<and> (dst + uint len \<le> src \<or> src + int (length xs) < dst)" for len
    using strncpy_loop_written [OF assms(1), of dst "unat len"] that by (auto simp: strncpy_def)
  ultimately show ?thesis using m' by (auto simp: strcpy_def)
qed

theorem strcpy_round_trip_witness:
  "string_at [104, 105, 0, 7, 7, 7] 0 [104, 105] \<and>
    (\<exists>m'. strcpy [104, 105, 0, 7, 7, 7] 3 0 = Inr (m', 3) \<and> strcmp m' 3 0 = Inr 0 \<and> strlen m' 3 = Inr 2)"
proof -
  have s: "string_at [104, 105, 0, 7, 7, 7] 0 [104, 105]" by (simp add: load_def array_get_def)
  show ?thesis using strcpy_round_trip [OF s, of 3] s by (force simp: in_mem_def)
qed

text \<open>
  \<open>strcmp\<close> compares strings in the lexicographic order of their unsigned bytes: 0 for equal strings, negative exactly when the
  first is smaller, and the opposite sign with the arguments exchanged; \<open>strncmp\<close> does so for the first \<open>n\<close> characters. \<open>strchr\<close>
  and \<open>strfind\<close> find the first occurrence of a character that is not null; without one they return a null pointer and the end.
\<close>

theorem strcmp_order:
  assumes "string_at m s xs" "string_at m t ys"
  shows "\<exists>r k. strcmp m s t = Inr r \<and> strcmp m t s = Inr (- r) \<and> (r = 0 \<longleftrightarrow> xs = ys) \<and> (r < 0 \<longleftrightarrow> (xs, ys) \<in> lexord {(a, b). a < b}) \<and>
    strncmp m s t n = Inr k \<and> (k = 0 \<longleftrightarrow> take (unat n) xs = take (unat n) ys) \<and>
    (k < 0 \<longleftrightarrow> (take (unat n) xs, take (unat n) ys) \<in> lexord {(a, b). a < b}) \<and>
    strchr m s c = Inr (if c \<in> set xs then Some (s + int (length (takeWhile (\<lambda>x. x \<noteq> c) xs))) else None) \<and>
    strfind m s c = Inr (s + int (length (takeWhile (\<lambda>x. x \<noteq> c) xs)))"
proof -
  have nz: "0 \<notin> set xs" "0 \<notin> set ys" "0 \<notin> set (take (unat n) xs)" "0 \<notin> set (take (unat n) ys)"
    using assms by (auto simp: string_at_iff dest: in_set_takeD)
  show ?thesis
    using strcmp_string [OF assms] strcmp_string [OF assms(2,1)] str_diff_swap [of ys xs] strncmp_loop_string [OF assms, of "unat n"]
      str_diff_sign [OF nz(1,2)] str_diff_sign [OF nz(3,4)] strchr_string [OF assms(1), of c] strfind_string [OF assms(1), of c]
    by (simp add: strncmp_def)
qed

theorem strcmp_order_witness:
  "string_at [104, 105, 0, 104, 200, 0] 0 [104, 105] \<and> string_at [104, 105, 0, 104, 200, 0] 3 [104, 200] \<and>
    (\<exists>r. strcmp [104, 105, 0, 104, 200, 0] 0 3 = Inr r \<and> r < 0)"
proof -
  have s: "string_at [104, 105, 0, 104, 200, 0] 0 [104, 105]" "string_at [104, 105, 0, 104, 200, 0] 3 [104, 200]"
    by (simp_all add: load_def array_get_def)
  have "([104 :: uint8, 105], [104, 200]) \<in> lexord {(a, b). a < b}" by simp
  then show ?thesis using strcmp_order [OF s, of 0 0] s by blast
qed

end
