(* ===== verification/Printfmt.thy ===== *)
theory Printfmt
  imports String_Lib
begin

text \<open>
  Formatted output, \<open>lab2/libs/printfmt.c\<close>: \<open>printnum\<close>, \<open>vprintfmt\<close> and \<open>vsnprintf\<close> over the byte memory of \<open>String_Lib\<close>. The
  function \<open>putch\<close> with its data is a parameter, as in the code, and so is the memory that the format and the strings are read
  from: it may depend on the data of \<open>putch\<close>, because \<open>vsnprintf\<close> writes to the memory that it reads. \<open>int\<close> has 32 bits and \<open>long long\<close> 64; arguments of a
  variable argument list are 32-bit words, a \<open>long long\<close> takes two.
\<close>

section \<open>Numbers\<close>

definition int32 :: "int \<Rightarrow> int" where
  "int32 x = sint (word_of_int x :: 32 word)"

type_synonym 's putch = "int \<Rightarrow> 's \<Rightarrow> 's outcome"

fun pad_loop :: "'s putch \<Rightarrow> int \<Rightarrow> nat \<Rightarrow> 's \<Rightarrow> 's outcome" where
  "pad_loop putch c 0 s = Inr s"
| "pad_loop putch c (Suc w) s = andThen (putch c s) (pad_loop putch c w)"

definition hex_digit :: "nat \<Rightarrow> uint8" where
  "hex_digit d = ascii (''0123456789abcdef'' ! d)"

text \<open>
  \<open>do_div\<close> of \<open>libs/x86.h\<close> divides 64 bits by 32 bits in two steps, the second with the instruction \<open>divl\<close>, whose dividend is
  \<open>upper\<close> and \<open>low\<close>. The result is the quotient and the remainder.
\<close>

definition do_div :: "64 word \<Rightarrow> nat \<Rightarrow> 64 word \<times> nat" where
  "do_div n base =
     (let low = unat n mod 2 ^ 32; high = unat n div 2 ^ 32;
          upper = (if high \<noteq> 0 then high mod base else high);
          high' = (if high \<noteq> 0 then high div base else high);
          low' = (upper * 2 ^ 32 + low) div base
      in (of_nat (high' * 2 ^ 32 + low'), (upper * 2 ^ 32 + low) mod base))"

lemma do_div_eq:
  assumes "0 < base"
  shows "do_div n base = (of_nat (unat n div base), unat n mod base)"
proof -
  define high low where "high = unat n div 2 ^ 32" and "low = unat n mod 2 ^ 32"
  define D where "D = high mod base * 2 ^ 32 + low"
  have "unat n = high * 2 ^ 32 + low" by (simp add: high_def low_def)
  moreover have "high * 2 ^ 32 = (high div base * base + high mod base) * 2 ^ 32" by simp
  then have "high * 2 ^ 32 = base * (high div base * 2 ^ 32) + high mod base * 2 ^ 32" by (simp only: add_mult_distrib mult.commute mult.left_commute)
  ultimately have "unat n = base * (high div base * 2 ^ 32) + D" by (simp add: D_def)
  then have "unat n div base = high div base * 2 ^ 32 + D div base" "unat n mod base = D mod base" using assms by simp_all
  then show ?thesis unfolding do_div_def Let_def high_def [symmetric] low_def [symmetric]
    using D_def assms by (cases "high = 0") auto
qed

text \<open>With a base below 2 the recursion would never end.\<close>

function printnum :: "'s putch \<Rightarrow> 64 word \<Rightarrow> nat \<Rightarrow> int \<Rightarrow> int \<Rightarrow> 's \<Rightarrow> 's outcome" where
  "printnum putch num base width padc s =
     (if base < 2 then Inl Diverges
      else
        let (result, r) = do_div num base in
        andThen (if unat num \<ge> base then printnum putch result base (int32 (width - 1)) padc s
                 else pad_loop putch padc (nat (int32 (width - 1))) s)
          (\<lambda>s'. putch (uint (hex_digit r)) s'))"
  by pat_completeness auto
termination
proof (relation "measure (\<lambda>(putch, num, base, width, padc, s). unat num)", simp, clarsimp)
  fix num result :: "64 word" and base r :: nat
  assume b: "\<not> base < 2" "base \<le> unat num" "(result, r) = do_div num base"
  then have "unat num div base < unat num" "unat result \<le> unat num div base"
    using take_bit_nat_less_eq_self [of 64] by (auto simp: do_div_eq unsigned_of_nat)
  then show "unat result < unat num" by linarith
qed

declare printnum.simps [simp del]

type_synonym va_list = "uint32 list"

definition va_word :: "va_list \<Rightarrow> (uint32 \<times> va_list) outcome" where
  "va_word ap = (case ap of [] \<Rightarrow> Inl Out_of_bounds | w # ap' \<Rightarrow> Inr (w, ap'))"

definition va_two :: "va_list \<Rightarrow> (64 word \<times> va_list) outcome" where
  "va_two ap = andThen (va_word ap) (\<lambda>(lo, ap1). andThen (va_word ap1) (\<lambda>(hi, ap2). Inr (push_bit 32 (ucast hi) OR ucast lo, ap2)))"

definition getuint :: "va_list \<Rightarrow> int \<Rightarrow> (64 word \<times> va_list) outcome" where
  "getuint ap lflag =
     (if lflag \<ge> 2 then va_two ap
      else andThen (va_word ap) (\<lambda>(w, ap'). Inr (ucast w, ap')))"

definition getint :: "va_list \<Rightarrow> int \<Rightarrow> (64 word \<times> va_list) outcome" where
  "getint ap lflag =
     (if lflag \<ge> 2 then va_two ap
      else andThen (va_word ap) (\<lambda>(w, ap'). Inr (scast w, ap')))"

section \<open>Directives\<close>

record fmt_flags =
  padc :: int
  width :: int
  precision :: int
  lflag :: int
  altflag :: bool

definition flags0 :: fmt_flags where
  "flags0 = \<lparr>padc = uint (ascii CHR '' ''), width = -1, precision = -1, lflag = 0, altflag = False\<rparr>"

definition is_digit :: "uint8 \<Rightarrow> bool" where
  "is_digit b \<longleftrightarrow> ascii CHR ''0'' \<le> b \<and> b \<le> ascii CHR ''9''"

function width_loop :: "byte_mem \<Rightarrow> int \<Rightarrow> uint8 \<Rightarrow> int \<Rightarrow> (int \<times> int) outcome" where
  "width_loop m fmt ch prec =
     (let prec' = int32 (prec * 10 + uint ch - uint (ascii CHR ''0'')) in
      case load m fmt of Inl e \<Rightarrow> Inl e
      | Inr c \<Rightarrow> if is_digit c then width_loop m (fmt + 1) c prec' else Inr (prec', fmt))"
  by pat_completeness auto
termination
  by (relation "measure (\<lambda>(m, fmt, ch, prec). nat (int (length m) - fmt))") (auto simp: load_Inr)

declare width_loop.simps [simp del]

definition process_precision :: "fmt_flags \<Rightarrow> fmt_flags" where
  "process_precision fl = (if width fl < 0 then fl\<lparr>width := precision fl, precision := -1\<rparr> else fl)"

lemma width_loop_forward: "width_loop m fmt ch prec = Inr (p, fmt') \<Longrightarrow> fmt \<le> fmt'"
proof (induction m fmt ch prec rule: width_loop.induct)
  case (1 m fmt ch prec)
  then show ?case by (subst (asm) (2) width_loop.simps) (force simp: Let_def split: sum.splits if_splits)
qed

text \<open>The label \<open>reswitch\<close>: flags are read up to the first character that is none.\<close>

function reswitch :: "byte_mem \<Rightarrow> int \<Rightarrow> fmt_flags \<Rightarrow> va_list \<Rightarrow> (uint8 \<times> int \<times> fmt_flags \<times> va_list) outcome" where
  "reswitch m fmt fl ap =
     (case load m fmt of Inl e \<Rightarrow> Inl e
      | Inr ch \<Rightarrow>
          if ch = ascii CHR ''-'' then reswitch m (fmt + 1) (fl\<lparr>padc := uint (ascii CHR ''-'')\<rparr>) ap
          else if ch = ascii CHR ''0'' then reswitch m (fmt + 1) (fl\<lparr>padc := uint (ascii CHR ''0'')\<rparr>) ap
          else if is_digit ch then
            (case width_loop m (fmt + 1) ch 0 of Inl e \<Rightarrow> Inl e
             | Inr r \<Rightarrow> reswitch m (snd r) (process_precision (fl\<lparr>precision := fst r\<rparr>)) ap)
          else if ch = ascii CHR ''*'' then
            (case va_word ap of Inl e \<Rightarrow> Inl e
             | Inr r \<Rightarrow> reswitch m (fmt + 1) (process_precision (fl\<lparr>precision := sint (fst r)\<rparr>)) (snd r))
          else if ch = ascii CHR ''.'' then reswitch m (fmt + 1) (if width fl < 0 then fl\<lparr>width := 0\<rparr> else fl) ap
          else if ch = ascii CHR ''#'' then reswitch m (fmt + 1) (fl\<lparr>altflag := True\<rparr>) ap
          else if ch = ascii CHR ''l'' then reswitch m (fmt + 1) (fl\<lparr>lflag := lflag fl + 1\<rparr>) ap
          else Inr (ch, fmt + 1, fl, ap))"
  by pat_completeness auto
termination
proof (relation "measure (\<lambda>(m, fmt, fl, ap). nat (int (length m) - fmt))", goal_cases)
  case (4 m fmt fl ap ch r)
  then have "fmt + 1 \<le> snd r" using width_loop_forward [of m "fmt + 1" ch 0 "fst r" "snd r"] by simp
  then show ?case using 4 by (auto simp: load_Inr)
qed (auto simp: load_Inr)

declare reswitch.simps [simp del]

section \<open>Conversions\<close>

definition c_string :: "string \<Rightarrow> byte_mem" where
  "c_string cs = map ascii cs @ [0]"

definition E_INVAL :: int where "E_INVAL = 3"
definition MAXERROR :: int where "MAXERROR = 6"

definition error_string :: "string option list" where
  "error_string = [None, Some ''unspecified error'', Some ''bad process'', Some ''invalid parameter'', Some ''out of memory'',
     Some ''out of processes'', Some ''segmentation fault'']"

text \<open>
  The memory when the data of \<open>putch\<close> are \<open>s\<close> is \<open>rd s\<close>. A loop that writes with \<open>putch\<close> and reads with \<open>rd\<close> may change
  the bytes that it is about to read, so that it need not end.
\<close>

type_synonym 's reader = "'s \<Rightarrow> byte_mem"

definition run_result :: "'a outcome option \<Rightarrow> 'a outcome" where
  "run_result r = (case r of None \<Rightarrow> Inl Diverges | Some x \<Rightarrow> x)"

lemma run_result_simps [simp]:
  "run_result None = Inl Diverges" "run_result (Some x) = x"
  "run_result (case x of Inl e \<Rightarrow> p e | Inr a \<Rightarrow> q a) = (case x of Inl e \<Rightarrow> run_result (p e) | Inr a \<Rightarrow> run_result (q a))"
  "run_result (case y of None \<Rightarrow> p' | Some b \<Rightarrow> q' b) = (case y of None \<Rightarrow> run_result p' | Some b \<Rightarrow> run_result (q' b))"
  "run_result (if c then u else v) = (if c then run_result u else run_result v)"
  by (simp_all add: run_result_def split: sum.split option.split)

text \<open>
  The characters of a string argument at \<open>p\<close>; \<open>ch\<close> is a signed character here. \<open>width\<close> goes down with each of them.
\<close>

partial_function (option) chars_run ::
  "'s putch \<Rightarrow> 's reader \<Rightarrow> bool \<Rightarrow> int \<Rightarrow> int \<Rightarrow> int \<Rightarrow> 's \<Rightarrow> ('s \<times> int) outcome option" where
  "chars_run putch rd alt p prec wd s =
     (case load (rd s) p of Inl e \<Rightarrow> Some (Inl e)
      | Inr b \<Rightarrow>
          if b \<noteq> 0 \<and> (prec < 0 \<or> prec - 1 \<ge> 0) then
            (case putch (if alt \<and> (sint b < uint (ascii CHR '' '') \<or> sint b > uint (ascii CHR ''~'')) then uint (ascii CHR ''?'') else sint b) s of
               Inl e \<Rightarrow> Some (Inl e)
             | Inr s' \<Rightarrow> chars_run putch rd alt (p + 1) (if prec < 0 then prec else prec - 1) (int32 (wd - 1)) s')
          else Some (Inr (s, wd)))"

definition chars_loop :: "'s putch \<Rightarrow> 's reader \<Rightarrow> bool \<Rightarrow> int \<Rightarrow> int \<Rightarrow> int \<Rightarrow> 's \<Rightarrow> ('s \<times> int) outcome" where
  "chars_loop putch rd alt p prec wd s = run_result (chars_run putch rd alt p prec wd s)"

lemma chars_loop_eq:
  "chars_loop putch rd alt p prec wd s =
     (case load (rd s) p of Inl e \<Rightarrow> Inl e
      | Inr b \<Rightarrow>
          if b \<noteq> 0 \<and> (prec < 0 \<or> prec - 1 \<ge> 0) then
            let ch = sint b in
            (case putch (if alt \<and> (ch < uint (ascii CHR '' '') \<or> ch > uint (ascii CHR ''~'')) then uint (ascii CHR ''?'') else ch) s of
               Inl e \<Rightarrow> Inl e
             | Inr s' \<Rightarrow> chars_loop putch rd alt (p + 1) (if prec < 0 then prec else prec - 1) (int32 (wd - 1)) s')
          else Inr (s, wd))"
  unfolding chars_loop_def Let_def by (subst chars_run.simps) (simp only: run_result_simps)

declare chars_run.simps [code]

definition print_string :: "'s putch \<Rightarrow> 's reader \<Rightarrow> int \<Rightarrow> fmt_flags \<Rightarrow> 's \<Rightarrow> 's outcome" where
  "print_string putch rd p fl s =
     andThen (if width fl > 0 \<and> padc fl \<noteq> uint (ascii CHR ''-'') then
                andThen (strnlen (rd s) p (word_of_int (precision fl))) (\<lambda>len.
                let w = int32 (width fl - uint len) in
                andThen (pad_loop putch (padc fl) (nat w) s) (\<lambda>s'. Inr (s', min w 0)))
              else Inr (s, width fl)) (\<lambda>(s1, w1).
     andThen (chars_loop putch rd (altflag fl) p (precision fl) w1 s1) (\<lambda>(s2, w2).
       pad_loop putch (uint (ascii CHR '' '')) (nat w2) s2))"

text \<open>
  The \<open>switch\<close> on a character that is no flag; \<open>None\<close> is the default case. \<open>perr\<close> prints an error number.
\<close>

definition convert :: "(int \<Rightarrow> 's \<Rightarrow> 's outcome) \<Rightarrow> 's putch \<Rightarrow> 's reader \<Rightarrow> uint8 \<Rightarrow> fmt_flags \<Rightarrow> va_list \<Rightarrow> 's \<Rightarrow> ('s \<times> va_list) option outcome" where
  "convert perr putch rd ch fl ap s =
     (if ch = ascii CHR ''c'' then
        andThen (va_word ap) (\<lambda>(w, ap'). andThen (putch (sint w) s) (\<lambda>s'. Inr (Some (s', ap'))))
      else if ch = ascii CHR ''e'' then
        andThen (va_word ap) (\<lambda>(w, ap').
        let err = (if sint w < 0 then int32 (- sint w) else sint w) in
        andThen (perr err s) (\<lambda>s'. Inr (Some (s', ap'))))
      else if ch = ascii CHR ''s'' then
        andThen (va_word ap) (\<lambda>(w, ap').
        andThen (if w = 0 then print_string putch (\<lambda>_. c_string ''(null)'') 0 fl s else print_string putch rd (uint w) fl s) (\<lambda>s'.
          Inr (Some (s', ap'))))
      else if ch = ascii CHR ''d'' then
        andThen (getint ap (lflag fl)) (\<lambda>(num, ap').
        andThen (if sint num < 0 then putch (uint (ascii CHR ''-'')) s else Inr s) (\<lambda>s1.
        andThen (printnum putch (if sint num < 0 then - num else num) 10 (width fl) (padc fl) s1) (\<lambda>s'. Inr (Some (s', ap')))))
      else if ch = ascii CHR ''u'' then
        andThen (getuint ap (lflag fl)) (\<lambda>(num, ap').
        andThen (printnum putch num 10 (width fl) (padc fl) s) (\<lambda>s'. Inr (Some (s', ap'))))
      else if ch = ascii CHR ''o'' then
        andThen (getuint ap (lflag fl)) (\<lambda>(num, ap').
        andThen (printnum putch num 8 (width fl) (padc fl) s) (\<lambda>s'. Inr (Some (s', ap'))))
      else if ch = ascii CHR ''p'' then
        andThen (putch (uint (ascii CHR ''0'')) s) (\<lambda>s1.
        andThen (putch (uint (ascii CHR ''x'')) s1) (\<lambda>s2.
        andThen (va_word ap) (\<lambda>(w, ap').
        andThen (printnum putch (ucast w) 16 (width fl) (padc fl) s2) (\<lambda>s'. Inr (Some (s', ap'))))))
      else if ch = ascii CHR ''x'' then
        andThen (getuint ap (lflag fl)) (\<lambda>(num, ap').
        andThen (printnum putch num 16 (width fl) (padc fl) s) (\<lambda>s'. Inr (Some (s', ap'))))
      else if ch = ascii CHR ''%'' then
        andThen (putch (uint ch) s) (\<lambda>s'. Inr (Some (s', ap)))
      else Inr None)"

text \<open>The default case goes back to the \<open>%\<close>, so that the rest of the directive is printed as it stands.\<close>

function back_up :: "byte_mem \<Rightarrow> int \<Rightarrow> int outcome" where
  "back_up m fmt = (case load m (fmt - 1) of Inl e \<Rightarrow> Inl e | Inr b \<Rightarrow> if b \<noteq> ascii CHR ''%'' then back_up m (fmt - 1) else Inr fmt)"
  by pat_completeness auto
termination
  by (relation "measure (\<lambda>(m, fmt). nat fmt)") (auto simp: load_Inr)

declare back_up.simps [simp del]

lemma back_up_stops: "back_up m f = Inr f' \<Longrightarrow> load m q = Inr (ascii CHR ''%'') \<Longrightarrow> q < f \<Longrightarrow> q < f' \<and> f' \<le> f"
proof (induction m f rule: back_up.induct)
  case (1 m f)
  show ?case
  proof (cases "q = f - 1")
    case True
    then show ?thesis using 1 by (subst (asm) (2) back_up.simps) auto
  next
    case False
    then show ?thesis using 1 by (subst (asm) (2) back_up.simps) (force split: sum.splits if_splits)
  qed
qed

lemma reswitch_forward: "reswitch m fmt fl ap = Inr (ch, fmt', fl', ap') \<Longrightarrow> fmt < fmt'"
proof (induction "nat (int (length m) - fmt)" arbitrary: fmt fl ap rule: less_induct)
  case less
  obtain c where c: "load m fmt = Inr c" using less.prems by (subst (asm) reswitch.simps) (auto split: sum.splits)
  have step: "fmt < fmt'" if "reswitch m f fl2 ap2 = Inr (ch, fmt', fl', ap')" "fmt < f" for f fl2 ap2
    using less.hyps [OF _ that(1)] that(2) c by (auto simp: load_Inr)
  have wl: "fmt < snd r" if "width_loop m (fmt + 1) c 0 = Inr r" for r
    using width_loop_forward [of m "fmt + 1" c 0 "fst r" "snd r"] that by simp
  show ?case using less.prems c by (subst (asm) reswitch.simps) (auto split: sum.splits if_splits dest: step wl)
qed

section \<open>vprintfmt\<close>

text \<open>
  When the default case goes back it reads the memory after the \<open>%\<close> has been printed. Were that character printed over the
  directive itself, the loop could go back further than it came.
\<close>

partial_function (option) vprintfmt_run ::
  "(int \<Rightarrow> 's \<Rightarrow> 's outcome) \<Rightarrow> 's putch \<Rightarrow> 's reader \<Rightarrow> int \<Rightarrow> va_list \<Rightarrow> 's \<Rightarrow> 's outcome option" where
  "vprintfmt_run perr putch rd fmt ap s =
     (case load (rd s) fmt of Inl e \<Rightarrow> Some (Inl e)
      | Inr ch \<Rightarrow>
          if ch \<noteq> ascii CHR ''%'' then
            (if ch = 0 then Some (Inr s)
             else (case putch (uint ch) s of Inl e \<Rightarrow> Some (Inl e) | Inr s' \<Rightarrow> vprintfmt_run perr putch rd (fmt + 1) ap s'))
          else
            (case reswitch (rd s) (fmt + 1) flags0 ap of Inl e \<Rightarrow> Some (Inl e)
             | Inr d \<Rightarrow>
                 (case convert perr putch rd (fst d) (fst (snd (snd d))) (snd (snd (snd d))) s of Inl e \<Rightarrow> Some (Inl e)
                  | Inr r \<Rightarrow>
                      (case r of
                         Some q \<Rightarrow> vprintfmt_run perr putch rd (fst (snd d)) (snd q) (fst q)
                       | None \<Rightarrow>
                           (case putch (uint (ascii CHR ''%'')) s of Inl e \<Rightarrow> Some (Inl e)
                            | Inr s' \<Rightarrow>
                                (case back_up (rd s') (fst (snd d) - 1) of Inl e \<Rightarrow> Some (Inl e)
                                 | Inr fmt' \<Rightarrow> vprintfmt_run perr putch rd fmt' (snd (snd (snd d))) s'))))))"

definition vprintfmt_loop :: "(int \<Rightarrow> 's \<Rightarrow> 's outcome) \<Rightarrow> 's putch \<Rightarrow> 's reader \<Rightarrow> int \<Rightarrow> va_list \<Rightarrow> 's \<Rightarrow> 's outcome" where
  "vprintfmt_loop perr putch rd fmt ap s = run_result (vprintfmt_run perr putch rd fmt ap s)"

lemma vprintfmt_loop_eq:
  "vprintfmt_loop perr putch rd fmt ap s =
     (case load (rd s) fmt of Inl e \<Rightarrow> Inl e
      | Inr ch \<Rightarrow>
          if ch \<noteq> ascii CHR ''%'' then
            (if ch = 0 then Inr s
             else (case putch (uint ch) s of Inl e \<Rightarrow> Inl e | Inr s' \<Rightarrow> vprintfmt_loop perr putch rd (fmt + 1) ap s'))
          else
            (case reswitch (rd s) (fmt + 1) flags0 ap of Inl e \<Rightarrow> Inl e
             | Inr d \<Rightarrow>
                 (case convert perr putch rd (fst d) (fst (snd (snd d))) (snd (snd (snd d))) s of Inl e \<Rightarrow> Inl e
                  | Inr r \<Rightarrow>
                      (case r of
                         Some q \<Rightarrow> vprintfmt_loop perr putch rd (fst (snd d)) (snd q) (fst q)
                       | None \<Rightarrow>
                           (case putch (uint (ascii CHR ''%'')) s of Inl e \<Rightarrow> Inl e
                            | Inr s' \<Rightarrow>
                                (case back_up (rd s') (fst (snd d) - 1) of Inl e \<Rightarrow> Inl e
                                 | Inr fmt' \<Rightarrow> vprintfmt_loop perr putch rd fmt' (snd (snd (snd d))) s'))))))"
  unfolding vprintfmt_loop_def by (subst vprintfmt_run.simps) (simp only: run_result_simps)

declare vprintfmt_run.simps [code]

text \<open>
  \<open>printfmt\<close> is called only with the formats \<open>error %d\<close> and \<open>%s\<close>, which have no directive \<open>%e\<close>; the message stands behind
  the format in the memory of that call.
\<close>

definition print_error :: "'s putch \<Rightarrow> int \<Rightarrow> 's \<Rightarrow> 's outcome" where
  "print_error putch err s =
     andThen (if err > MAXERROR then Inr None else array_get error_string err) (\<lambda>p.
     case p of
       None \<Rightarrow> vprintfmt_loop (\<lambda>_ _. Inl Diverges) putch (\<lambda>_. c_string ''error %d'') 0 [word_of_int err] s
     | Some msg \<Rightarrow> vprintfmt_loop (\<lambda>_ _. Inl Diverges) putch (\<lambda>_. c_string ''%s'' @ c_string msg) 0 [3] s)"

text \<open>
  \<open>vprintfmt\<close> in the memory that its output goes to, and in a memory that its output leaves as it is. The console is of the
  second kind.
\<close>

definition vprintfmt_live :: "'s putch \<Rightarrow> 's reader \<Rightarrow> int \<Rightarrow> va_list \<Rightarrow> 's \<Rightarrow> 's outcome" where
  "vprintfmt_live putch rd fmt ap s = vprintfmt_loop (print_error putch) putch rd fmt ap s"

definition vprintfmt :: "'s putch \<Rightarrow> byte_mem \<Rightarrow> int \<Rightarrow> va_list \<Rightarrow> 's \<Rightarrow> 's outcome" where
  "vprintfmt putch m fmt ap s = vprintfmt_live putch (\<lambda>_. m) fmt ap s"

section \<open>vsnprintf\<close>

text \<open>The buffer with the memory it lies in.\<close>

record sprintbuf =
  bmem :: byte_mem
  buf :: int
  ebuf :: int
  cnt :: int

definition sprintputch :: "sprintbuf putch" where
  "sprintputch ch b =
     (let b1 = b\<lparr>cnt := int32 (cnt b + 1)\<rparr> in
      if buf b1 < ebuf b1 then
        andThen (store (bmem b1) (buf b1) (word_of_int ch)) (\<lambda>m'. Inr (b1\<lparr>bmem := m', buf := buf b1 + 1\<rparr>))
      else Inr b1)"

text \<open>
  The format and its strings are read from the memory that the characters are written to, as it is at each moment. The new
  memory and the value returned.
\<close>

definition vsnprintf :: "byte_mem \<Rightarrow> int option \<Rightarrow> size_t \<Rightarrow> int \<Rightarrow> va_list \<Rightarrow> (byte_mem \<times> int) outcome" where
  "vsnprintf m str_ptr sz fmt ap =
     (case str_ptr of None \<Rightarrow> Inr (m, - E_INVAL)
      | Some str \<Rightarrow>
          let b = \<lparr>bmem = m, buf = str, ebuf = str + uint sz - 1, cnt = 0\<rparr> in
          if buf b > ebuf b then Inr (m, - E_INVAL)
          else
            andThen (vprintfmt_live sprintputch bmem fmt ap b) (\<lambda>b'.
            andThen (store (bmem b') (buf b') 0) (\<lambda>m'. Inr (m', cnt b'))))"

definition snprintf :: "byte_mem \<Rightarrow> int option \<Rightarrow> size_t \<Rightarrow> int \<Rightarrow> va_list \<Rightarrow> (byte_mem \<times> int) outcome" where
  "snprintf m str_ptr sz fmt ap = vsnprintf m str_ptr sz fmt ap"

end
