(* ===== verification/Printf_Correct.thy ===== *)
theory Printf_Correct
  imports Printfmt
begin

text \<open>
  What \<open>lab2/libs/printfmt.c\<close> guarantees: the output of a format does not depend on where it goes, \<open>vsnprintf\<close> keeps to its
  buffer, and numbers printed are read back by \<open>strtol\<close>.
\<close>

section \<open>Output does not depend on where it goes\<close>

text \<open>
  Two runs with the same arguments and two functions \<open>putch\<close>: when related states stay related under the two functions, the
  results are related. The only way in which the code touches its data is through \<open>putch\<close>.
\<close>

definition putch_rel :: "('s \<Rightarrow> 't \<Rightarrow> bool) \<Rightarrow> 's putch \<Rightarrow> 't putch \<Rightarrow> bool" where
  "putch_rel R f g \<longleftrightarrow> (\<forall>c s t. R s t \<longrightarrow> rel_sum (=) R (f c s) (g c t))"

named_theorems putch_rels \<open>related results of the parts of vprintfmt\<close>

lemma putch_relD: "putch_rel R f g \<Longrightarrow> R s t \<Longrightarrow> rel_sum (=) R (f c s) (g c t)"
  by (simp add: putch_rel_def)

lemma rel_andThen:
  assumes "rel_sum (=) Q x y" "\<And>a b. Q a b \<Longrightarrow> rel_sum (=) R (k a) (l b)"
  shows "rel_sum (=) R (andThen x k) (andThen y l)"
  using assms by (cases x; cases y) auto

lemma pad_loop_rel [putch_rels]:
  assumes "putch_rel R f g" "R s t"
  shows "rel_sum (=) R (pad_loop f c w s) (pad_loop g c w t)"
  using assms(2)
proof (induction w arbitrary: s t)
  case (Suc w)
  then show ?case by (auto intro!: rel_andThen [OF putch_relD [OF assms(1)]])
qed simp

lemma printnum_rel [putch_rels]:
  assumes "putch_rel R f g"
  shows "R s t \<Longrightarrow> rel_sum (=) R (printnum f num base w c s) (printnum g num base w c t)"
proof (induction "unat num" arbitrary: num w s t rule: less_induct)
  case less
  show ?case
  proof (cases "base < 2")
    case False
    let ?n = "of_nat (unat num div base) :: 64 word"
    have "rel_sum (=) R (if unat num \<ge> base then printnum f ?n base (int32 (w - 1)) c s else pad_loop f c (nat (int32 (w - 1))) s)
        (if unat num \<ge> base then printnum g ?n base (int32 (w - 1)) c t else pad_loop g c (nat (int32 (w - 1))) t)"
    proof (cases "unat num \<ge> base")
      case True
      then have "unat num div base < unat num" using False by simp
      moreover have "unat ?n \<le> unat num div base" using take_bit_nat_less_eq_self by (simp add: unsigned_of_nat)
      ultimately show ?thesis using less.hyps [of ?n] less.prems True by simp
    qed (use pad_loop_rel [OF assms less.prems] in simp)
    then show ?thesis using False
      by (subst (1 2) printnum.simps) (auto simp: do_div_eq intro!: rel_andThen putch_relD [OF assms] simp del: of_nat_div)
  qed (subst (1 2) printnum.simps, simp)
qed

text \<open>
  The loops that read while they write: related states show the same memory. When one run ends the other does, and
  conversely.
\<close>

definition reader_rel :: "('s \<Rightarrow> 't \<Rightarrow> bool) \<Rightarrow> 's reader \<Rightarrow> 't reader \<Rightarrow> bool" where
  "reader_rel R rd rd' \<longleftrightarrow> (\<forall>s t. R s t \<longrightarrow> rd s = rd' t)"

lemma reader_relD: "reader_rel R rd rd' \<Longrightarrow> R s t \<Longrightarrow> rd s = rd' t"
  by (simp add: reader_rel_def)

lemma reader_rel_const [simp]: "reader_rel R (\<lambda>_. m) (\<lambda>_. m)"
  by (simp add: reader_rel_def)

lemma rel_converse: "putch_rel R f g \<Longrightarrow> putch_rel R\<inverse>\<inverse> g f" "reader_rel R rd rd' \<Longrightarrow> reader_rel R\<inverse>\<inverse> rd' rd"
  by (force simp: putch_rel_def rel_sum_sel eq_commute) (simp add: reader_rel_def)

lemma rel_sum_consider:
  assumes "rel_sum (=) Q x y"
  obtains e where "x = Inl e" "y = Inl e" | a b where "x = Inr a" "y = Inr b" "Q a b"
  using assms by (cases x; cases y) auto

text \<open>How the two runs of a loop compare, for every state related to the first.\<close>

definition follows :: "('s \<Rightarrow> 't \<Rightarrow> bool) \<Rightarrow> ('a \<Rightarrow> 'b \<Rightarrow> bool) \<Rightarrow> 's \<Rightarrow> 'a outcome \<Rightarrow> ('t \<Rightarrow> 'b outcome option) \<Rightarrow> bool" where
  "follows R Q s x run \<longleftrightarrow> (\<forall>t. R s t \<longrightarrow> (\<exists>y. run t = Some y \<and> rel_sum (=) Q x y))"

lemma followsD: "follows R Q s x run \<Longrightarrow> R s t \<Longrightarrow> \<exists>y. run t = Some y \<and> rel_sum (=) Q x y"
  by (simp add: follows_def)

lemma follows_run_result:
  assumes "\<And>x. run s = Some x \<Longrightarrow> follows R Q s x run'" "\<And>y. run' t = Some y \<Longrightarrow> follows R\<inverse>\<inverse> Q' t y run" "R s t"
  shows "rel_sum (=) Q (run_result (run s)) (run_result (run' t))"
proof (cases "run s")
  case None
  then have "run' t = None" using followsD [OF assms(2), of _ s] assms(3) by (cases "run' t") auto
  then show ?thesis using None by simp
next
  case (Some x)
  then show ?thesis using followsD [OF assms(1) [OF Some] assms(3)] by auto
qed

lemma chars_run_follows:
  assumes "chars_run f rd alt p prec wd s = Some x"
  shows "putch_rel R f g \<longrightarrow> reader_rel R rd rd' \<longrightarrow> follows R (rel_prod R (=)) s x (chars_run g rd' alt p prec wd)"
proof (rule chars_run.raw_induct [OF _ assms], intro impI)
  fix run f rd alt p prec wd s x
  assume ih: "\<And>f rd alt p prec wd s x. run f rd alt p prec wd s = Some x \<Longrightarrow>
      putch_rel R f g \<longrightarrow> reader_rel R rd rd' \<longrightarrow> follows R (rel_prod R (=)) s x (chars_run g rd' alt p prec wd)"
    and f: "putch_rel R f g" and rd: "reader_rel R rd rd'"
  let ?c = "\<lambda>b. if alt \<and> (sint b < uint (ascii CHR '' '') \<or> sint b > uint (ascii CHR ''~'')) then uint (ascii CHR ''?'') else sint b"
  assume x: "(case load (rd s) p of Inl e \<Rightarrow> Some (Inl e)
      | Inr b \<Rightarrow> if b \<noteq> 0 \<and> (prec < 0 \<or> 0 \<le> prec - 1)
          then case f (?c b) s of Inl e \<Rightarrow> Some (Inl e)
               | Inr s' \<Rightarrow> run f rd alt (p + 1) (if prec < 0 then prec else prec - 1) (int32 (wd - 1)) s'
          else Some (Inr (s, wd))) = Some x"
  show "follows R (rel_prod R (=)) s x (chars_run g rd' alt p prec wd)" unfolding follows_def
  proof (intro allI impI)
    fix t assume R: "R s t"
    note m = reader_relD [OF rd R]
    show "\<exists>y. chars_run g rd' alt p prec wd t = Some y \<and> rel_sum (=) (rel_prod R (=)) x y"
    proof (cases "load (rd s) p")
      case (Inr b)
      show ?thesis
      proof (cases "b \<noteq> 0 \<and> (prec < 0 \<or> 0 \<le> prec - 1)")
        case True
        show ?thesis
        proof (rule rel_sum_consider [OF putch_relD [OF f R, of "?c b"]])
          fix e assume "f (?c b) s = Inl e" "g (?c b) t = Inl e"
          then show ?thesis using x Inr True m by (subst chars_run.simps) (auto simp del: if_split)
        next
          fix s' t' assume st: "f (?c b) s = Inr s'" "g (?c b) t = Inr t'" "R s' t'"
          then have "run f rd alt (p + 1) (if prec < 0 then prec else prec - 1) (int32 (wd - 1)) s' = Some x"
            using x Inr True by (simp del: if_split)
          from followsD [OF ih [OF this, rule_format, OF f rd] st(3)]
          show ?thesis using Inr True m st(2) by (subst chars_run.simps) (simp del: if_split)
        qed
      qed (use x Inr m R in \<open>subst chars_run.simps, auto\<close>)
    qed (use x m in \<open>subst chars_run.simps, auto\<close>)
  qed
qed

lemma chars_loop_rel [putch_rels]:
  assumes f: "putch_rel R f g" and rd: "reader_rel R rd rd'" and "R s t"
  shows "rel_sum (=) (rel_prod R (=)) (chars_loop f rd alt p prec wd s) (chars_loop g rd' alt p prec wd t)"
  unfolding chars_loop_def using chars_run_follows [rule_format, OF _ f rd] chars_run_follows [rule_format, OF _ rel_converse(1) [OF f] rel_converse(2) [OF rd]] assms(3)
  by (rule follows_run_result)

lemma print_string_rel [putch_rels]:
  assumes "putch_rel R f g" "reader_rel R rd rd'" "R s t"
  shows "rel_sum (=) R (print_string f rd p fl s) (print_string g rd' p fl t)"
proof -
  let ?first = "\<lambda>h u. if width fl > 0 \<and> padc fl \<noteq> uint (ascii CHR ''-'') then
      andThen (strnlen (rd s) p (word_of_int (precision fl))) (\<lambda>len.
        let w = int32 (width fl - uint len) in andThen (pad_loop h (padc fl) (nat w) u) (\<lambda>s'. Inr (s', min w 0)))
    else Inr (u, width fl)"
  have "rel_sum (=) (rel_prod R (=)) (?first f s) (?first g t)"
  proof (cases "width fl > 0 \<and> padc fl \<noteq> uint (ascii CHR ''-'')")
    case True
    then show ?thesis using assms
      by (cases "strnlen (rd s) p (word_of_int (precision fl))") (auto simp: Let_def intro!: rel_andThen [OF pad_loop_rel])
  qed (use assms in auto)
  then show ?thesis unfolding print_string_def reader_relD [OF assms(2,3), symmetric]
    by (rule rel_andThen) (auto intro!: rel_andThen [OF chars_loop_rel [OF assms(1,2)]] pad_loop_rel [OF assms(1)])
qed

lemma rel_if: "(b \<Longrightarrow> rel_sum Q R x y) \<Longrightarrow> (\<not> b \<Longrightarrow> rel_sum Q R x' y') \<Longrightarrow> rel_sum Q R (if b then x else x') (if b then y else y')"
  by simp

lemma convert_rel [putch_rels]:
  assumes f: "putch_rel R f g" and rd: "reader_rel R rd rd'" and pe: "putch_rel R pf pg" and R: "R s t"
  shows "rel_sum (=) (rel_option (rel_prod R (=))) (convert pf f rd ch fl ap s) (convert pg g rd' ch fl ap t)"
proof -
  have some: "rel_sum (=) (rel_option (rel_prod R (=))) (andThen x (\<lambda>s'. Inr (Some (s', a)))) (andThen y (\<lambda>s'. Inr (Some (s', a))))"
    if "rel_sum (=) R x y" for x y and a :: va_list
    using that by (auto intro!: rel_andThen)
  note rels = printnum_rel [OF f] print_string_rel [OF f rd] print_string_rel [OF f reader_rel_const] putch_relD [OF f] putch_relD [OF pe]
  have arg: "rel_sum (=) Q (andThen x k) (andThen x l)" if "\<And>r. rel_sum (=) Q (k r) (l r)" for Q :: "'c \<Rightarrow> 'd \<Rightarrow> bool" and x :: "'e outcome" and k l
    using that by (cases x) auto
  show ?thesis unfolding convert_def
    by (intro rel_if; auto simp: Let_def R split: prod.splits intro!: some arg rels rel_andThen [where Q = R])
qed

lemma vprintfmt_run_follows:
  assumes "vprintfmt_run pf f rd fmt ap s = Some x"
  shows "putch_rel R pf pg \<longrightarrow> putch_rel R f g \<longrightarrow> reader_rel R rd rd' \<longrightarrow> follows R R s x (vprintfmt_run pg g rd' fmt ap)"
proof (rule vprintfmt_run.raw_induct [OF _ assms], intro impI)
  fix run pf f rd fmt ap s x
  let ?pc = "uint (ascii CHR ''%'')"
  assume ih: "\<And>pf f rd fmt ap s x. run pf f rd fmt ap s = Some x \<Longrightarrow>
      putch_rel R pf pg \<longrightarrow> putch_rel R f g \<longrightarrow> reader_rel R rd rd' \<longrightarrow> follows R R s x (vprintfmt_run pg g rd' fmt ap)"
    and pe: "putch_rel R pf pg" and f: "putch_rel R f g" and rd: "reader_rel R rd rd'"
  assume x: "(case load (rd s) fmt of Inl e \<Rightarrow> Some (Inl e)
      | Inr ch \<Rightarrow>
          if ch \<noteq> ascii CHR ''%'' then
            (if ch = 0 then Some (Inr s)
             else (case f (uint ch) s of Inl e \<Rightarrow> Some (Inl e) | Inr s' \<Rightarrow> run pf f rd (fmt + 1) ap s'))
          else
            (case reswitch (rd s) (fmt + 1) flags0 ap of Inl e \<Rightarrow> Some (Inl e)
             | Inr d \<Rightarrow>
                 (case convert pf f rd (fst d) (fst (snd (snd d))) (snd (snd (snd d))) s of Inl e \<Rightarrow> Some (Inl e)
                  | Inr r \<Rightarrow>
                      (case r of
                         None \<Rightarrow>
                           (case f ?pc s of Inl e \<Rightarrow> Some (Inl e)
                            | Inr s' \<Rightarrow>
                                (case back_up (rd s') (fst (snd d) - 1) of Inl e \<Rightarrow> Some (Inl e)
                                 | Inr fmt' \<Rightarrow> run pf f rd fmt' (snd (snd (snd d))) s'))
                       | Some q \<Rightarrow> run pf f rd (fst (snd d)) (snd q) (fst q))))) = Some x"
  note go = ih [rule_format, OF _ pe f rd]
  show "follows R R s x (vprintfmt_run pg g rd' fmt ap)" unfolding follows_def
  proof (intro allI impI)
    fix t assume R: "R s t"
    note m = reader_relD [OF rd R] and eq = vprintfmt_run.simps [of pg g rd' fmt ap t]
    show "\<exists>y. vprintfmt_run pg g rd' fmt ap t = Some y \<and> rel_sum (=) R x y"
    proof (cases "load (rd s) fmt")
      case ch: (Inr ch)
      show ?thesis
      proof (cases "ch = ascii CHR ''%''")
        case False
        show ?thesis
        proof (cases "ch = 0")
          case nz: False
          show ?thesis
          proof (rule rel_sum_consider [OF putch_relD [OF f R, of "uint ch"]])
            fix e assume e: "f (uint ch) s = Inl e" "g (uint ch) t = Inl e"
            have "x = Inl e" using x ch False nz e(1) by simp
            then show ?thesis using ch False nz m e(2) by (simp add: eq)
          next
            fix s' t' assume st: "f (uint ch) s = Inr s'" "g (uint ch) t = Inr t'" "R s' t'"
            then have "run pf f rd (fmt + 1) ap s' = Some x" using x ch False nz by simp
            from followsD [OF go [OF this] st(3)] show ?thesis using ch False nz m st(2) by (simp add: eq)
          qed
        qed (use x ch False m R in \<open>auto simp: eq\<close>)
      next
        case True
        show ?thesis
        proof (cases "reswitch (rd s) (fmt + 1) flags0 ap")
          case d: (Inr d)
          let ?x = "convert pf f rd (fst d) (fst (snd (snd d))) (snd (snd (snd d))) s"
            and ?y = "convert pg g rd' (fst d) (fst (snd (snd d))) (snd (snd (snd d))) t"
          show ?thesis
          proof (rule rel_sum_consider [OF convert_rel [OF f rd pe R, of "fst d" "fst (snd (snd d))" "snd (snd (snd d))"]])
            fix a b assume ab: "?x = Inr a" "?y = Inr b" "rel_option (rel_prod R (=)) a b"
            show ?thesis
            proof (cases a)
              case None
              then have b: "b = None" using ab(3) by simp
              show ?thesis
              proof (rule rel_sum_consider [OF putch_relD [OF f R, of ?pc]])
                fix s' t' assume st: "f ?pc s = Inr s'" "g ?pc t = Inr t'" "R s' t'"
                note m' = reader_relD [OF rd st(3)]
                show ?thesis using x ch True d ab None b m m' st followsD [OF go st(3)]
                  by (cases "back_up (rd s') (fst (snd d) - 1)") (auto simp: eq)
              next
                fix e assume e: "f ?pc s = Inl e" "g ?pc t = Inl e"
                have "x = Inl e" using x ch True d ab None e(1) by simp
                then show ?thesis using ch True d ab b m e(2) by (simp add: eq)
              qed
            next
              case (Some r)
              then obtain r' where r': "b = Some r'" "R (fst r) (fst r')" "snd r = snd r'" using ab(3) by (cases b) (auto simp: rel_prod_sel)
              have "run pf f rd (fst (snd d)) (snd r) (fst r) = Some x" using x ch True d ab Some by simp
              from followsD [OF go [OF this] r'(2)] show ?thesis using ch True d ab m r' by (simp add: eq)
            qed
          next
            fix e assume e: "?x = Inl e" "?y = Inl e"
            have "x = Inl e" using x ch True d e(1) by simp
            then show ?thesis using ch True d m e(2) by (simp add: eq)
          qed
        qed (use x ch True m in \<open>auto simp: eq\<close>)
      qed
    qed (use x m in \<open>auto simp: eq\<close>)
  qed
qed

lemma vprintfmt_loop_rel:
  assumes f: "putch_rel R f g" and rd: "reader_rel R rd rd'" and pe: "putch_rel R pf pg" and "R s t"
  shows "rel_sum (=) R (vprintfmt_loop pf f rd fmt ap s) (vprintfmt_loop pg g rd' fmt ap t)"
  unfolding vprintfmt_loop_def using vprintfmt_run_follows [rule_format, OF _ pe f rd]
    vprintfmt_run_follows [rule_format, OF _ rel_converse(1) [OF pe] rel_converse(1) [OF f] rel_converse(2) [OF rd]] assms(4)
  by (rule follows_run_result)

lemma print_error_rel: "putch_rel R f g \<Longrightarrow> putch_rel R (print_error f) (print_error g)"
proof -
  assume f: "putch_rel R f g"
  have pe: "putch_rel R (\<lambda>_ _. Inl Diverges) (\<lambda>_ _. Inl Diverges)" by (simp add: putch_rel_def)
  have "rel_sum (=) R (print_error f err s) (print_error g err t)" if "R s t" for err s t
    unfolding print_error_def
    by (cases "if err > MAXERROR then Inr None else array_get error_string err")
      (auto split: option.split intro: vprintfmt_loop_rel [OF f reader_rel_const pe that])
  then show ?thesis by (simp add: putch_rel_def)
qed

lemma vprintfmt_live_rel:
  "putch_rel R f g \<Longrightarrow> reader_rel R rd rd' \<Longrightarrow> R s t \<Longrightarrow> rel_sum (=) R (vprintfmt_live f rd fmt ap s) (vprintfmt_live g rd' fmt ap t)"
  unfolding vprintfmt_live_def by (rule vprintfmt_loop_rel [OF _ _ print_error_rel])

lemma vprintfmt_rel:
  "putch_rel R f g \<Longrightarrow> R s t \<Longrightarrow> rel_sum (=) R (vprintfmt f m fmt ap s) (vprintfmt g m fmt ap t)"
  unfolding vprintfmt_def by (rule vprintfmt_live_rel) simp_all

text \<open>In a memory that the output leaves as it is, both loops end.\<close>

lemma chars_run_ends: "\<exists>x. chars_run f (\<lambda>_. m) alt p prec wd s = Some x"
proof (induction "nat (int (length m) - p)" arbitrary: p prec wd s rule: less_induct)
  case less
  show ?case
  proof (cases "load m p")
    case (Inr b)
    then have "nat (int (length m) - (p + 1)) < nat (int (length m) - p)" by (simp add: load_Inr)
    from less [OF this] show ?thesis using Inr by (subst chars_run.simps) (auto split: sum.split)
  qed (subst chars_run.simps, simp)
qed

lemma vprintfmt_run_ends: "\<exists>x. vprintfmt_run pe f (\<lambda>_. m) fmt ap s = Some x"
proof (induction "nat (int (length m) - fmt)" arbitrary: fmt ap s rule: less_induct)
  case less
  show ?case
  proof (cases "load m fmt")
    case (Inr ch)
    have ih: "\<exists>x. vprintfmt_run pe f (\<lambda>_. m) fmt' ap' s' = Some x" if "fmt < fmt'" for fmt' ap' s'
      by (rule less.hyps) (use that Inr in \<open>auto simp: load_Inr\<close>)
    have fw: "fmt + 1 < fst (snd d)" if "reswitch m (fmt + 1) flags0 ap = Inr d" for d
      using reswitch_forward [of m "fmt + 1" flags0 ap "fst d" "fst (snd d)" "fst (snd (snd d))" "snd (snd (snd d))"] that by simp
    have "fmt < fmt'" if "ch = ascii CHR ''%''" "reswitch m (fmt + 1) flags0 ap = Inr d" "back_up m (fst (snd d) - 1) = Inr fmt'" for d fmt'
      using back_up_stops [OF that(3), of fmt] Inr that(1) fw [OF that(2)] by simp
    then show ?thesis using Inr ih fw by (subst vprintfmt_run.simps) (force split: sum.split option.split)
  qed (subst vprintfmt_run.simps, simp)
qed

section \<open>The buffer of vsnprintf\<close>

text \<open>The characters that a format prints.\<close>

definition collect :: "int list putch" where
  "collect c out = Inr (out @ [c])"

definition format_output :: "byte_mem \<Rightarrow> int \<Rightarrow> va_list \<Rightarrow> int list outcome" where
  "format_output m fmt ap = vprintfmt collect m fmt ap []"

text \<open>
  The memory \<open>m'\<close> differs from \<open>m\<close> at most in the \<open>n\<close> bytes at \<open>str\<close>. A format lies apart from these bytes, with its strings, when
  it prints the same characters whatever they are at each moment.
\<close>

definition apart :: "byte_mem \<Rightarrow> int \<Rightarrow> nat \<Rightarrow> byte_mem \<Rightarrow> bool" where
  "apart m str n m' \<longleftrightarrow> length m' = length m \<and> (\<forall>i < length m. \<not> (str \<le> int i \<and> int i < str + int n) \<longrightarrow> m' ! i = m ! i)"

definition prints_apart :: "byte_mem \<Rightarrow> int \<Rightarrow> nat \<Rightarrow> int \<Rightarrow> va_list \<Rightarrow> int list \<Rightarrow> bool" where
  "prints_apart m str n fmt ap out \<longleftrightarrow>
     (\<forall>rd. (\<forall>so_far. apart m str n (rd so_far)) \<longrightarrow> vprintfmt_live collect rd fmt ap [] = Inr out)"

lemma prints_apartD: "prints_apart m str n fmt ap out \<Longrightarrow> format_output m fmt ap = Inr out"
  unfolding prints_apart_def format_output_def vprintfmt_def by (simp add: apart_def)

lemma apart_load: "apart m str n m' \<Longrightarrow> p < str \<or> str + int n \<le> p \<Longrightarrow> load m' p = load m p"
  by (auto simp: apart_def load_def array_get_def)

lemma apart_string:
  "apart m str n m' \<Longrightarrow> string_at m p xs \<Longrightarrow> p + int (length xs) < str \<or> str + int n \<le> p \<Longrightarrow> string_at m' p xs"
  by (induction xs arbitrary: p) (auto simp: apart_load)

definition buffered :: "byte_mem \<Rightarrow> int \<Rightarrow> nat \<Rightarrow> sprintbuf \<Rightarrow> int list \<Rightarrow> bool" where
  "buffered m str n b out \<longleftrightarrow> cnt b = int32 (int (length out)) \<and> ebuf b = str + int n \<and> buf b = str + int (min (length out) n) \<and>
     written m (bmem b) str (\<lambda>i. word_of_int (out ! i)) (min (length out) n)"

lemma int32_add: "int32 (int32 x + y) = int32 (x + y)" "int32 (y + int32 x) = int32 (y + x)"
  by (simp_all add: int32_def)

lemma written_more:
  assumes "written m m' d f n" "0 \<le> d"
  shows "written m (m'[nat (d + int n) := f n]) d f (Suc n)"
  unfolding written_def
proof (intro conjI allI impI)
  show "length (m'[nat (d + int n) := f n]) = length m" using assms(1) by (simp add: written_def)
  fix i assume i: "i < length m"
  then have e: "m' ! i = (if d \<le> int i \<and> int i < d + int n then f (nat (int i - d)) else m ! i)" "i < length m'"
    using assms(1) by (simp_all add: written_def)
  show "m'[nat (d + int n) := f n] ! i = (if d \<le> int i \<and> int i < d + int (Suc n) then f (nat (int i - d)) else m ! i)"
  proof (cases "int i = d + int n")
    case True
    then have "nat (d + int n) = i" "nat (int i - d) = n" by auto
    then show ?thesis using e True by simp
  next
    case False
    then have "nat (d + int n) \<noteq> i" using assms(2) by linarith
    then show ?thesis using e False by auto
  qed
qed

lemma sprintputch_buffered:
  assumes "in_mem m str (Suc n)"
  shows "putch_rel (buffered m str n) sprintputch collect"
proof -
  have "rel_sum (=) (buffered m str n) (sprintputch c b) (collect c out)" if b: "buffered m str n b out" for c b out
  proof (cases "length out < n")
    case True
    then have w: "written m (bmem b) str (\<lambda>i. word_of_int (out ! i)) (length out)" "buf b = str + int (length out)"
      using b by (auto simp: buffered_def)
    let ?m = "(bmem b)[nat (str + int (length out)) := word_of_int c]"
    have "written m (bmem b) str (\<lambda>i. word_of_int ((out @ [c]) ! i)) (length out)"
      by (rule written_cong [OF w(1)]) (simp add: nth_append)
    then have "written m ?m str (\<lambda>i. word_of_int ((out @ [c]) ! i)) (Suc (length out))"
      using written_more [of m "bmem b" str "\<lambda>i. word_of_int ((out @ [c]) ! i)" "length out"] assms by (simp add: in_mem_def)
    moreover have "store (bmem b) (str + int (length out)) (word_of_int c) = Inr ?m"
      by (rule store_in) (use assms True w(1) in \<open>auto simp: in_mem_def written_def\<close>)
    ultimately show ?thesis using b True w(2)
      by (auto simp: sprintputch_def collect_def Let_def buffered_def int32_add add.commute)
  next
    case False
    then have e: "min (length out) n = n" "min (length (out @ [c])) n = n" by auto
    have w: "written m (bmem b) str (\<lambda>i. word_of_int (out ! i)) n" "buf b = ebuf b" using b e by (auto simp: buffered_def)
    have "written m (bmem b) str (\<lambda>i. word_of_int ((out @ [c]) ! i)) n"
      by (rule written_cong [OF w(1)]) (use False in \<open>simp add: nth_append\<close>)
    then show ?thesis using b e w(2) by (simp add: sprintputch_def collect_def Let_def buffered_def int32_add add.commute)
  qed
  then show ?thesis by (simp add: putch_rel_def)
qed

text \<open>The memory while \<open>out\<close> goes to the buffer.\<close>

definition buffer_memory :: "byte_mem \<Rightarrow> int \<Rightarrow> nat \<Rightarrow> int list \<Rightarrow> byte_mem" where
  "buffer_memory m str n out =
     map (\<lambda>i. if str \<le> int i \<and> int i < str + int (min (length out) n) then word_of_int (out ! nat (int i - str)) else m ! i) [0..<length m]"

lemma buffered_memory: "reader_rel (buffered m str n) bmem (buffer_memory m str n)"
  by (auto simp: reader_rel_def buffered_def written_def buffer_memory_def intro!: nth_equalityI)

lemma buffer_memory_apart: "n \<le> n' \<Longrightarrow> apart m str n' (buffer_memory m str n out)"
  by (auto simp: apart_def buffer_memory_def)

section \<open>Numbers\<close>

fun digits_of :: "nat \<Rightarrow> nat \<Rightarrow> nat list" where
  "digits_of base n = (if base < 2 \<or> n < base then [n] else digits_of base (n div base) @ [n mod base])"

declare digits_of.simps [simp del]

definition from_digits :: "nat \<Rightarrow> nat list \<Rightarrow> nat" where
  "from_digits base ds = foldl (\<lambda>v d. v * base + d) 0 ds"

lemma from_digits_of: "from_digits base (digits_of base n) = n"
proof (induction base n rule: digits_of.induct)
  case (1 base n)
  then show ?case by (subst digits_of.simps) (auto simp: from_digits_def)
qed

lemma digits_of_less: "2 \<le> base \<Longrightarrow> d \<in> set (digits_of base n) \<Longrightarrow> d < base"
proof (induction base n rule: digits_of.induct)
  case (1 base n)
  then show ?case by (cases "base < 2 \<or> n < base") (auto simp: digits_of.simps [of base n])
qed

lemma digits_of_hex: "2 \<le> base \<Longrightarrow> base \<le> 16 \<Longrightarrow> d \<in> set (digits_of base n) \<Longrightarrow> d < 16"
  using digits_of_less [of base d n] by simp

lemma digits_of_nonempty: "digits_of base n \<noteq> []"
  by (subst digits_of.simps) simp

lemma digits_of_length: "2 \<le> base \<Longrightarrow> n < base ^ Suc k \<Longrightarrow> length (digits_of base n) \<le> Suc k"
proof (induction k arbitrary: n)
  case (Suc k)
  have "n div base < base ^ Suc k" using Suc.prems by (simp add: less_mult_imp_div_less mult.commute)
  then show ?case using Suc.IH [of "n div base"] Suc.prems(1) by (subst digits_of.simps) simp
qed (simp add: digits_of.simps)

lemma int32_id: "- (2 ^ 31) \<le> x \<Longrightarrow> x < 2 ^ 31 \<Longrightarrow> int32 x = x"
  by (simp add: int32_def signed_of_int signed_take_bit_int_eq_self)

lemma pad_loop_collect: "pad_loop collect c n out = Inr (out @ replicate n c)"
  by (induction n arbitrary: out) (simp_all add: collect_def)

lemma printnum_collect:
  assumes "2 \<le> base" "base \<le> 16"
  shows "- (2 ^ 31) \<le> w - int (length (digits_of base (unat num))) \<Longrightarrow> w < 2 ^ 31 \<Longrightarrow>
    printnum collect num base w c out = Inr (out @ replicate (nat (w - int (length (digits_of base (unat num))))) c @
      map (\<lambda>d. uint (hex_digit d)) (digits_of base (unat num)))"
proof (induction "unat num" arbitrary: num w rule: less_induct)
  case less
  show ?case
  proof (cases "unat num \<ge> base")
    case True
    let ?n = "of_nat (unat num div base) :: 64 word"
    have n: "unat num div base < unat num" using True assms by simp
    have u64: "unat num < 2 ^ 64" using unsigned_less [of num] by simp
    have u: "unat ?n = unat num div base"
      using n u64 by (simp add: unsigned_of_nat take_bit_nat_eq_self)
    have ds: "digits_of base (unat num) = digits_of base (unat ?n) @ [unat num mod base]"
      unfolding u using True assms(1) by (subst digits_of.simps) simp
    then have "1 \<le> length (digits_of base (unat num))" by simp
    then have w: "int32 (w - 1) = w - 1" using less.prems by (intro int32_id) auto
    have "printnum collect ?n base (w - 1) c out = Inr (out @ replicate (nat (w - 1 - int (length (digits_of base (unat ?n))))) c @
        map (\<lambda>d. uint (hex_digit d)) (digits_of base (unat ?n)))"
      by (rule less.hyps) (use n u ds less.prems in auto)
    moreover have "nat (w - 1 - int (length (digits_of base (unat ?n)))) = nat (w - int (length (digits_of base (unat num))))"
      unfolding ds by simp
    ultimately show ?thesis using True assms w ds
      by (subst printnum.simps) (simp add: do_div_eq collect_def del: of_nat_div)
  next
    case False
    then have ds: "digits_of base (unat num) = [unat num]" by (subst digits_of.simps) simp
    then have "int32 (w - 1) = w - 1" using less.prems by (intro int32_id) auto
    then show ?thesis using False assms ds by (subst printnum.simps) (simp add: do_div_eq pad_loop_collect collect_def)
  qed
qed

lemma hex_digit_table:
  "\<forall>d \<in> set [0..<16]. digit_of (hex_digit d) = Some (int d) \<and> hex_digit d \<noteq> 0 \<and> hex_digit d \<noteq> 9 \<and> hex_digit d \<noteq> ascii CHR '' '' \<and>
    hex_digit d \<noteq> ascii CHR ''+'' \<and> hex_digit d \<noteq> ascii CHR ''-'' \<and> hex_digit d \<noteq> ascii CHR ''x''"
  by code_simp

lemma hex_digit_facts:
  assumes "d < 16"
  shows "digit_of (hex_digit d) = Some (int d)" "hex_digit d \<noteq> 0" "hex_digit d \<noteq> 9" "hex_digit d \<noteq> ascii CHR '' ''" "hex_digit d \<noteq> ascii CHR ''+''"
    "hex_digit d \<noteq> ascii CHR ''-''" "hex_digit d \<noteq> ascii CHR ''x''"
  using hex_digit_table assms by simp_all

lemma digits_loop_string:
  assumes "base \<le> 16"
  shows "string_at m s (map hex_digit ds) \<Longrightarrow> \<forall>d \<in> set ds. d < base \<Longrightarrow>
    digits_loop m s (int base) v = Inr (foldl (\<lambda>v d. v * of_nat base + of_nat d) v ds, s + int (length ds))"
proof (induction ds arbitrary: s v)
  case Nil
  have "digit_of 0 = None" by (simp add: digit_of_def ascii_def)
  with Nil show ?case by (subst digits_loop.simps) simp
next
  case (Cons d ds)
  have "digit_of (hex_digit d) = Some (int d)" using Cons.prems(2) assms by (intro hex_digit_facts) auto
  then show ?case using Cons by (subst digits_loop.simps) simp
qed

lemma foldl_word: "foldl (\<lambda>v d. v * of_nat base + of_nat d) (of_nat a) ds = (of_nat (foldl (\<lambda>v d. v * base + d) a ds) :: 'a :: len word)"
  by (induction ds arbitrary: a) (simp_all flip: of_nat_mult of_nat_add)

lemma digits_loop_digits:
  assumes "2 \<le> base" "base \<le> 16" "string_at m s (map hex_digit (digits_of base n))"
  shows "digits_loop m s (int base) 0 = Inr (of_nat n, s + int (length (digits_of base n)))"
  using digits_loop_string [OF assms(2,3), of 0] digits_of_less [OF assms(1)] foldl_word [of base 0 "digits_of base n"] from_digits_of [of base n]
  by (simp add: from_digits_def)

section \<open>One directive\<close>

definition no_flag :: "uint8 \<Rightarrow> bool" where
  "no_flag c \<longleftrightarrow> c \<noteq> ascii CHR ''-'' \<and> \<not> is_digit c \<and> c \<noteq> ascii CHR ''*'' \<and> c \<noteq> ascii CHR ''.'' \<and> c \<noteq> ascii CHR ''#'' \<and> c \<noteq> ascii CHR ''l''"

lemma reswitch_no_flag:
  assumes "load m fmt = Inr c" "no_flag c"
  shows "reswitch m fmt fl ap = Inr (c, fmt + 1, fl, ap)"
proof -
  have "is_digit (ascii CHR ''0'')" by (simp add: is_digit_def ascii_def)
  then have "c \<noteq> ascii CHR ''0''" using assms(2) by (auto simp: no_flag_def)
  then show ?thesis using assms by (subst reswitch.simps) (simp add: no_flag_def)
qed

lemma one_directive_live:
  assumes "\<And>s. string_at (rd s) fmt [ascii CHR ''%'', c]" "no_flag c" "convert (print_error f) f rd c flags0 ap s = Inr (Some (s', ap'))"
  shows "vprintfmt_live f rd fmt ap s = Inr s'"
proof -
  have l: "load (rd s) fmt = Inr (ascii CHR ''%'')" "load (rd s) (fmt + 1) = Inr c" "load (rd s) (fmt + 1 + 1) = Inr 0" for s
    using assms(1) [of s] by auto
  have "vprintfmt_loop (print_error f) f rd (fmt + 1 + 1) ap' s' = Inr s'"
    using l(3) by (subst vprintfmt_loop_eq) (simp add: ascii_def)
  then show ?thesis unfolding vprintfmt_live_def
    by (subst vprintfmt_loop_eq) (simp add: l(1) reswitch_no_flag [OF l(2) assms(2)] assms(3))
qed

lemma one_directive:
  assumes "string_at m fmt [ascii CHR ''%'', c]" "no_flag c" "convert (print_error f) f (\<lambda>_. m) c flags0 ap s = Inr (Some (s', ap'))"
  shows "vprintfmt f m fmt ap s = Inr s'"
  unfolding vprintfmt_def by (rule one_directive_live [OF assms])

text \<open>The conversions of one 32-bit argument, and the base in which \<open>strtol\<close> reads it back.\<close>

definition conversion_base :: "char \<Rightarrow> nat option" where
  "conversion_base c =
     (if c = CHR ''d'' \<or> c = CHR ''u'' then Some 10 else if c = CHR ''o'' then Some 8 else if c = CHR ''x'' then Some 16 else None)"

definition printed_digits :: "char \<Rightarrow> nat \<Rightarrow> uint32 \<Rightarrow> uint8 list" where
  "printed_digits c base w =
     (if c = CHR ''d'' \<and> sint w < 0 then ascii CHR ''-'' # map hex_digit (digits_of base (nat (- sint w)))
      else map hex_digit (digits_of base (unat w)))"

lemma conversion_base_cases:
  assumes "conversion_base c = Some base"
  shows "2 \<le> base" "base \<le> 16" "8 \<le> base" "no_flag (ascii c)" "base \<noteq> 0"
  using assms by (auto simp: conversion_base_def no_flag_def is_digit_def ascii_def split: if_splits)

lemma digits_length_32:
  assumes "8 \<le> base" "n < 2 ^ 32"
  shows "length (digits_of base n) \<le> 11"
proof -
  have "n < 8 ^ 11" using assms(2) by simp
  also have "(8 :: nat) ^ 11 \<le> base ^ 11" by (rule power_mono [OF assms(1)]) simp
  finally show ?thesis using digits_of_length [of base n 10] assms(1) by simp
qed

lemma printnum_default:
  assumes "8 \<le> base" "base \<le> 16" "unat num < 2 ^ 32"
  shows "printnum collect num base (-1) c out = Inr (out @ map (\<lambda>d. uint (hex_digit d)) (digits_of base (unat num)))"
proof -
  have "length (digits_of base (unat num)) \<le> 11" by (rule digits_length_32 [OF assms(1,3)])
  then show ?thesis using printnum_collect [of base "-1" num c out] assms(1,2) by simp
qed

lemma sint_of_small: "- (2 ^ 63) \<le> k \<Longrightarrow> k < 2 ^ 63 \<Longrightarrow> sint (word_of_int k :: 64 word) = k"
  by (simp add: signed_of_int signed_take_bit_int_eq_self)

lemma unat_of_small: "0 \<le> k \<Longrightarrow> k < 2 ^ 64 \<Longrightarrow> unat (word_of_int k :: 64 word) = nat k"
  by (simp add: unsigned_of_int take_bit_int_eq_self)

lemma wide_argument:
  fixes w :: uint32
  shows "unat (ucast w :: 64 word) = unat w" "sint (scast w :: 64 word) = sint w"
    "0 \<le> sint w \<Longrightarrow> unat (scast w :: 64 word) = unat w" "sint w < 0 \<Longrightarrow> unat (- scast w :: 64 word) = nat (- sint w)"
    "unat w < 2 ^ 32" "sint w < 0 \<Longrightarrow> nat (- sint w) < 2 ^ 32"
proof -
  have r: "- (2 ^ 31) \<le> sint w" "sint w < 2 ^ 31" using sint_ge [of w] sint_lt [of w] by simp_all
  show u: "unat w < 2 ^ 32" using unsigned_less [of w] by simp
  show "unat (ucast w :: 64 word) = unat w" using u by (simp add: unsigned_ucast_eq take_bit_nat_eq_self)
  have s: "scast w = (word_of_int (sint w) :: 64 word)" by simp
  show "sint (scast w :: 64 word) = sint w" unfolding s by (rule sint_of_small) (use r in auto)
  show "unat (- scast w :: 64 word) = nat (- sint w)" if "sint w < 0"
  proof -
    have "- scast w = (word_of_int (- sint w) :: 64 word)" unfolding s by simp
    moreover have "unat (word_of_int (- sint w) :: 64 word) = nat (- sint w)" by (rule unat_of_small) (use r that in auto)
    ultimately show ?thesis by (rule ssubst)
  qed
  show "nat (- sint w) < 2 ^ 32" if "sint w < 0" using r that by (simp add: nat_less_iff)
  show "unat (scast w :: 64 word) = unat w" if "0 \<le> sint w"
  proof -
    have "unat (word_of_int (sint w) :: 64 word) = nat (sint w)" by (rule unat_of_small) (use r that in auto)
    moreover have "sint w = uint w" using r that uint_sint [of w] by (simp add: take_bit_int_eq_self)
    ultimately show ?thesis unfolding s by (metis unat_eq_nat_uint)
  qed
qed

lemma convert_number:
  assumes "conversion_base c = Some base"
  shows "convert (print_error collect) collect rd (ascii c) flags0 [w] [] = Inr (Some (map uint (printed_digits c base w), []))"
proof -
  consider "c = CHR ''d''" "base = 10" | "c = CHR ''u''" "base = 10" | "c = CHR ''o''" "base = 8" | "c = CHR ''x''" "base = 16"
    using assms by (auto simp: conversion_base_def split: if_splits)
  then show ?thesis
  proof cases
    case 1
    show ?thesis
    proof (cases "sint w < 0")
      case True
      then show ?thesis using 1 wide_argument [of w] printnum_default [of 10 "- scast w" _ "[45]"]
        by (simp add: convert_def getint_def va_word_def flags0_def printed_digits_def collect_def ascii_def)
    next
      case False
      then show ?thesis using 1 wide_argument [of w] printnum_default [of 10 "scast w" _ "[]"]
        by (simp add: convert_def getint_def va_word_def flags0_def printed_digits_def collect_def ascii_def)
    qed
  qed (use wide_argument [of w] printnum_default [of base "ucast w" _ "[]"] in
      \<open>simp add: convert_def getuint_def va_word_def flags0_def printed_digits_def ascii_def\<close>)+
qed

text \<open>A number without a prefix is read by the loop over its digits.\<close>

lemma strtol_no_prefix:
  assumes b: "2 \<le> base" "base \<le> 16" and s: "string_at m q (map hex_digit ds)" and ds: "ds \<noteq> []" "\<forall>d \<in> set ds. d < base"
    and start: "skip_blanks m p = Inr p1" "load m p1 = Inr b1" "q = (if b1 = ascii CHR ''+'' \<or> b1 = ascii CHR ''-'' then p1 + 1 else p1)"
    and val: "digits_loop m q (int base) 0 = Inr (v, e)"
  shows "strtol m p (int base) = Inr (if b1 = ascii CHR ''-'' then - v else v, e)"
proof -
  obtain d ds' where d: "ds = d # ds'" using ds(1) by (cases ds) auto
  then have l0: "load m q = Inr (hex_digit d)" and tail: "string_at m (q + 1) (map hex_digit ds')" using s by auto
  have l1: "\<exists>c1. load m (q + 1) = Inr c1 \<and> c1 \<noteq> ascii CHR ''x''"
  proof (cases ds')
    case Nil then show ?thesis using tail by (auto simp: ascii_def)
  next
    case (Cons d' xs) then show ?thesis using tail hex_digit_facts(7) [of d'] ds(2) d b(2) by auto
  qed
  then obtain c1 where c1: "load m (q + 1) = Inr c1" "c1 \<noteq> ascii CHR ''x''" by blast
  have "int base \<noteq> 0" using b by simp
  then show ?thesis unfolding strtol_def start(1,2) andThen_simps Let_def start(3) [symmetric] l0
    by (cases "int base = 16 \<and> hex_digit d = ascii CHR ''0''") (use val in \<open>auto simp: c1\<close>)
qed

lemma strtol_digits:
  assumes c: "conversion_base c = Some base" and s: "string_at m p (printed_digits c base w)"
  shows "strtol m p (int base) = Inr (w, p + int (length (printed_digits c base w)))"
proof -
  note b = conversion_base_cases [OF c]
  have less: "\<forall>d \<in> set (digits_of base n). d < base" for n using digits_of_less b(1) by blast
  have stop: "skip_blanks m p = Inr p" if "load m p = Inr x" "x \<noteq> 9" "x \<noteq> ascii CHR '' ''" for x
    using that by (subst skip_blanks.simps) simp
  show ?thesis
  proof (cases "c = CHR ''d'' \<and> sint w < 0")
    case True
    let ?n = "nat (- sint w)"
    have s': "load m p = Inr (ascii CHR ''-'')" "string_at m (p + 1) (map hex_digit (digits_of base ?n))"
      using s True by (auto simp: printed_digits_def)
    have "strtol m p (int base) = Inr (- of_nat ?n, p + 1 + int (length (digits_of base ?n)))"
      using strtol_no_prefix [OF b(1,2) s'(2) digits_of_nonempty less stop [OF s'(1)] s'(1) _ digits_loop_digits [OF b(1,2) s'(2)]]
      by (simp add: ascii_def)
    moreover have "- of_nat ?n = w"
    proof -
      have "(of_nat ?n :: 32 word) = word_of_int (- sint w)" using True by (metis neg_0_le_iff_le of_int_of_nat_eq order_less_imp_le int_nat_eq)
      then show ?thesis by simp
    qed
    ultimately show ?thesis using True by (simp add: printed_digits_def)
  next
    case False
    then have pd: "printed_digits c base w = map hex_digit (digits_of base (unat w))" unfolding printed_digits_def by (rule if_not_P)
    have s': "string_at m p (map hex_digit (digits_of base (unat w)))" using s unfolding pd .
    obtain d ds where d: "digits_of base (unat w) = d # ds" using digits_of_nonempty by (metis list.exhaust)
    then have l: "load m p = Inr (hex_digit d)" and d16: "d < 16" using s' less [of "unat w"] b(2) by auto
    note hx = hex_digit_facts [OF d16]
    show ?thesis
      using strtol_no_prefix [OF b(1,2) s' digits_of_nonempty less stop [OF l hx(3,4)] l _ digits_loop_digits [OF b(1,2) s']] hx
      by (simp add: pd)
  qed
qed

section \<open>Properties\<close>

lemma vsnprintf_output:
  assumes "in_mem m str (unat sz)" "sz \<noteq> 0" "prints_apart m str (unat sz) fmt ap out"
  defines "k \<equiv> min (length out) (unat sz - 1)"
  shows "\<exists>m'. vsnprintf m (Some str) sz fmt ap = Inr (m', int32 (int (length out))) \<and>
    written m m' str (\<lambda>i. if i < k then word_of_int (out ! i) else 0) (Suc k)"
proof -
  define n where "n = unat sz - 1"
  have "unat sz \<noteq> 0" using assms(2) by (metis unsigned_eq_0_iff)
  then have sz: "unat sz = Suc n" by (simp add: n_def)
  then have sz': "uint sz = int (Suc n)" using uint_nat [of sz] by simp
  have mem: "in_mem m str (Suc n)" using assms(1) unfolding sz .
  let ?b = "\<lparr>bmem = m, buf = str, ebuf = str + uint sz - 1, cnt = 0\<rparr>"
  have "buffered m str n ?b []" using sz' by (simp add: buffered_def int32_def)
  then have "rel_sum (=) (buffered m str n) (vprintfmt_live sprintputch bmem fmt ap ?b) (vprintfmt_live collect (buffer_memory m str n) fmt ap [])"
    by (rule vprintfmt_live_rel [OF sprintputch_buffered [OF mem] buffered_memory])
  moreover have "vprintfmt_live collect (buffer_memory m str n) fmt ap [] = Inr out"
    using assms(3) buffer_memory_apart [of n "unat sz" m str] sz by (simp add: prints_apart_def)
  ultimately obtain b where b: "vprintfmt_live sprintputch bmem fmt ap ?b = Inr b" "buffered m str n b out"
    by (cases "vprintfmt_live sprintputch bmem fmt ap ?b") auto
  have k: "k = min (length out) n" by (simp add: k_def n_def)
  let ?f = "\<lambda>i. if i < k then word_of_int (out ! i) else 0"
  have w: "written m (bmem b) str (\<lambda>i. word_of_int (out ! i)) k" "buf b = str + int k" "cnt b = int32 (int (length out))"
    using b(2) k by (auto simp: buffered_def)
  have "written m (bmem b) str ?f k" by (rule written_cong [OF w(1)]) simp
  then have "written m ((bmem b)[nat (str + int k) := 0]) str ?f (Suc k)"
    using written_more [of m "bmem b" str ?f k] mem by (simp add: in_mem_def)
  moreover have "store (bmem b) (buf b) 0 = Inr ((bmem b)[nat (str + int k) := 0])"
    unfolding w(2) by (rule store_in) (use mem w(1) k in \<open>auto simp: in_mem_def written_def\<close>)
  ultimately show ?thesis using b(1) w(3) sz' by (simp add: vsnprintf_def Let_def)
qed

text \<open>
  C19. A 32-bit number printed with \<open>snprintf\<close> and \<open>%d\<close>, \<open>%u\<close>, \<open>%o\<close> or \<open>%x\<close> into a buffer of at least 12 bytes, which does not overlap
  the three bytes of the format, is read back by \<open>strtol\<close> with base 10, 10, 8 or 16: the same 32 bits, with the end pointer behind the last character printed, whose number is
  the result of \<open>snprintf\<close>.
\<close>

theorem snprintf_strtol_round_trip:
  assumes "conversion_base c = Some base" "string_at m fmt [ascii CHR ''%'', ascii c]" "in_mem m str (unat sz)" "12 \<le> unat sz"
    "fmt + 3 \<le> str \<or> str + int (unat sz) \<le> fmt"
  shows "\<exists>m' n. snprintf m (Some str) sz fmt [w] = Inr (m', n) \<and> strtol m' str (int base) = Inr (w, str + n)"
proof -
  note b = conversion_base_cases [OF assms(1)]
  let ?ds = "printed_digits c base w" and ?out = "map uint (printed_digits c base w)"
  have len: "length ?ds \<le> 11"
  proof (cases "c = CHR ''d'' \<and> sint w < 0")
    case True
    then have "base = 10" using assms(1) by (simp add: conversion_base_def)
    moreover have "nat (- sint w) < 10 ^ Suc 9" using sint_ge [of w] by (simp add: nat_less_iff)
    ultimately show ?thesis using True digits_of_length [of 10 "nat (- sint w)" 9] by (simp add: printed_digits_def)
  next
    case False
    then have "?ds = map hex_digit (digits_of base (unat w))" unfolding printed_digits_def by (rule if_not_P)
    then show ?thesis using digits_length_32 [OF b(3) wide_argument(5) [of w]] by simp
  qed
  have "0 \<notin> set (map hex_digit (digits_of base n))" for n
    using hex_digit_facts(2) [OF digits_of_hex [OF b(1,2)]] by (metis (no_types, lifting) image_iff list.set_map)
  then have nz: "0 \<notin> set ?ds" by (auto simp: printed_digits_def ascii_def)
  have out: "prints_apart m str (unat sz) fmt [w] ?out" unfolding prints_apart_def
  proof (intro allI impI)
    fix rd assume "\<forall>so_far :: int list. apart m str (unat sz) (rd so_far)"
    then have "string_at (rd so_far) fmt [ascii CHR ''%'', ascii c]" for so_far
      using apart_string [OF _ assms(2), of str "unat sz" "rd so_far"] assms(5) by auto
    then show "vprintfmt_live collect rd fmt [w] [] = Inr ?out" by (rule one_directive_live [OF _ b(4) convert_number [OF assms(1)]])
  qed
  have k: "min (length ?out) (unat sz - 1) = length ?ds" using len assms(4) by simp
  have "sz \<noteq> 0" using assms(4) by auto
  from vsnprintf_output [OF assms(3) this out] obtain m' where m': "snprintf m (Some str) sz fmt [w] = Inr (m', int32 (int (length ?ds)))"
      "written m m' str (\<lambda>i. if i < length ?ds then word_of_int (?out ! i) else 0) (Suc (length ?ds))"
    unfolding k snprintf_def by auto
  have "written m m' str (\<lambda>i. (?ds @ [0]) ! i) (Suc (length ?ds))"
    by (rule written_cong [OF m'(2)]) (auto simp: nth_append)
  moreover have "in_mem m str (Suc (length ?ds))" using assms(3,4) len unfolding in_mem_def by linarith
  ultimately have "string_at m' str ?ds" using nz by (intro string_written)
  then have "strtol m' str (int base) = Inr (w, str + int (length ?ds))" by (rule strtol_digits [OF assms(1)])
  moreover have "int32 (int (length ?ds)) = int (length ?ds)" using len by (intro int32_id) auto
  ultimately show ?thesis using m'(1) by simp
qed

theorem snprintf_strtol_round_trip_witness:
  "\<exists>m' n. snprintf ([37, 100, 0] @ replicate 12 0) (Some 3) 12 0 [- 5] = Inr (m', n) \<and> strtol m' 3 10 = Inr (- 5, 3 + n)"
proof -
  have "conversion_base CHR ''d'' = Some 10" by (simp add: conversion_base_def)
  moreover have "string_at ([37, 100, 0] @ replicate 12 0) 0 [ascii CHR ''%'', ascii CHR ''d'']"
    by (simp add: load_def array_get_def ascii_def)
  moreover have "in_mem ([37, 100, 0] @ replicate 12 0) 3 (unat (12 :: size_t))" by (simp add: in_mem_def)
  ultimately show ?thesis using snprintf_strtol_round_trip [of "CHR ''d''" 10 "[37, 100, 0] @ replicate 12 0" 0 3 12 "- 5"] by simp
qed

text \<open>
  The format is read while the buffer is written. A format in the buffer is read again after it has been written over: here
  \<open>%s\<close> stands at the start of the buffer, and the string \<open>xyz\<close> is followed by characters of it that are read as the format.
\<close>

lemma overlapping_format:
  "case snprintf (map ascii ''%s'' @ [0, 0, 0, 0] @ map ascii ''xyz'' @ [0]) (Some 0) 6 0 [6] of
     Inl e \<Rightarrow> False | Inr (m', n) \<Rightarrow> take 6 m' = map ascii ''xyzzz'' @ [0] \<and> n = 6"
  by code_simp

text \<open>
  C20. \<open>vsnprintf\<close> with any format and any arguments: with a null pointer or size 0 it returns \<open>-E_INVAL\<close> and writes nothing.
  Otherwise, when the format and its strings lie apart from the buffer, so that the format prints the characters \<open>out\<close> whatever
  the buffer holds while it is written, \<open>vsnprintf\<close> writes the first \<open>size - 1\<close> of them and a null byte, no byte outside
  the buffer changes, and the result is the number of all characters of \<open>out\<close>.
\<close>

theorem vsnprintf_bounds:
  assumes "in_mem m str (unat sz)" "prints_apart m str (unat sz) fmt ap out"
  shows "vsnprintf m None sz fmt ap = Inr (m, - E_INVAL) \<and>
    (if sz = 0 then vsnprintf m (Some str) sz fmt ap = Inr (m, - E_INVAL)
     else \<exists>m' k. k = min (length out) (unat sz - 1) \<and> vsnprintf m (Some str) sz fmt ap = Inr (m', int32 (int (length out))) \<and>
       written m m' str (\<lambda>i. if i < k then word_of_int (out ! i) else 0) (Suc k))"
  using vsnprintf_output [OF assms(1) _ assms(2)] by (auto simp: vsnprintf_def Let_def)

theorem vsnprintf_bounds_witness:
  "\<exists>m'. vsnprintf [104, 101, 121, 0, 7, 7, 7, 7] (Some 4) 3 0 [] = Inr (m', 3) \<and> m' ! 4 = 104 \<and> m' ! 5 = 101 \<and> m' ! 6 = 0 \<and> m' ! 7 = 7"
proof -
  let ?m = "[104, 101, 121, 0, 7, 7, 7, 7] :: byte_mem"
  have "prints_apart ?m 4 (unat (3 :: size_t)) 0 [] [104, 101, 121]" unfolding prints_apart_def
  proof (intro allI impI)
    fix rd assume "\<forall>so_far :: int list. apart ?m 4 (unat (3 :: size_t)) (rd so_far)"
    then have "load (rd so_far) p = load ?m p" if "p < 4" for so_far p using apart_load [of ?m 4 3 "rd so_far" p] that by simp
    then show "vprintfmt_live collect rd 0 [] [] = Inr [104, 101, 121]"
      by (simp add: vprintfmt_live_def vprintfmt_loop_eq [of _ _ rd] load_def [of ?m] array_get_def ascii_def collect_def)
  qed
  moreover have "in_mem ?m 4 (unat (3 :: size_t))" by (simp add: in_mem_def)
  ultimately obtain m' where m': "vsnprintf ?m (Some 4) 3 0 [] = Inr (m', int32 3)"
      "written ?m m' 4 (\<lambda>i. if i < Suc (Suc 0) then word_of_int ([104, 101, 121] ! i) else 0) (Suc (Suc (Suc 0)))"
    using vsnprintf_bounds [of ?m 4 3 0 "[]" "[104, 101, 121]"] by auto
  have "m' ! 4 = 104" "m' ! 5 = 101" "m' ! 6 = 0" "m' ! 7 = 7" using m'(2) by (auto simp: written_def)
  then show ?thesis using m'(1) by (simp add: int32_id)
qed

text \<open>
  \<open>printnum\<close> with a base from 2 to 16 prints the digits of the number, most significant first, from which the number can be
  read back, after as many padding characters as are missing to the width; the division in two steps of \<open>do_div\<close> never loses a bit.
\<close>

theorem printnum_correct:
  assumes "2 \<le> base" "base \<le> 16" "- (2 ^ 31) + 64 \<le> w" "w < 2 ^ 31"
  shows "\<exists>ds. printnum collect num base w c out = Inr (out @ replicate (nat (w - int (length ds))) c @ map (\<lambda>d. uint (hex_digit d)) ds) \<and>
    from_digits base ds = unat num \<and> (\<forall>d \<in> set ds. d < base \<and> digit_of (hex_digit d) = Some (int d)) \<and> (hd ds = 0 \<longrightarrow> num = 0)"
proof -
  let ?ds = "digits_of base (unat num)"
  have "unat num < 2 ^ 64" using unsigned_less [of num] by simp
  also have "(2 :: nat) ^ 64 \<le> base ^ 64" by (rule power_mono [OF assms(1)]) simp
  finally have "length ?ds \<le> 64" using digits_of_length [OF assms(1), of "unat num" 63] by simp
  then have "printnum collect num base w c out = Inr (out @ replicate (nat (w - int (length ?ds))) c @ map (\<lambda>d. uint (hex_digit d)) ?ds)"
    using assms by (intro printnum_collect) auto
  moreover have "hd (digits_of base n) = 0 \<longrightarrow> n = 0" for n
  proof (induction base n rule: digits_of.induct)
    case (1 base n)
    then show ?case using digits_of_nonempty [of base "n div base"]
      by (cases "base < 2 \<or> n < base") (auto simp: digits_of.simps [of base n] div_eq_0_iff)
  qed
  ultimately show ?thesis
    using from_digits_of [of base "unat num"] digits_of_less [OF assms(1)] hex_digit_facts(1) [OF digits_of_hex [OF assms(1,2)]]
    by (intro exI [of _ ?ds]) (metis unsigned_eq_0_iff)
qed

theorem printnum_correct_witness:
  "\<exists>ds. printnum collect 255 16 6 48 [] = Inr (replicate (nat (6 - int (length ds))) 48 @ map (\<lambda>d. uint (hex_digit d)) ds) \<and> from_digits 16 ds = 255"
  using printnum_correct [of 16 6 255 48 "[]"] by auto

end
