(* ===== verification/Page_Table.thy ===== *)
theory Page_Table
  imports First_Fit Printfmt
begin

text \<open>
  Page tables and physical memory of \<open>lab2/kern/mm/pmm.c\<close>, \<open>pmm.h\<close> and \<open>mmu.h\<close>. Physical memory is an array of pages, a page that holds a
  page directory or a page table an array of 1024 words; a pointer to an entry is the number of its page and an index. The page allocator is
  reached through \<open>struct pmm_manager\<close>, a record of functions.
\<close>

section \<open>Addresses (mmu.h, pmm.h)\<close>

definition PTXSHIFT :: nat where "PTXSHIFT = 12"
definition PDXSHIFT :: nat where "PDXSHIFT = 22"
definition PGSIZE :: uint32 where "PGSIZE = 4096"
definition KERNBASE :: uint32 where "KERNBASE = 0xC0000000"
definition VPT :: uint32 where "VPT = 0xFAC00000"
definition KMEMSIZE :: "64 word" where "KMEMSIZE = 0x38000000"

definition PTE_P :: uint32 where "PTE_P = 0x001"
definition PTE_W :: uint32 where "PTE_W = 0x002"
definition PTE_U :: uint32 where "PTE_U = 0x004"
definition PTE_USER :: uint32 where "PTE_USER = PTE_U OR PTE_W OR PTE_P"

definition PDX :: "uint32 \<Rightarrow> uint32" where "PDX la = drop_bit PDXSHIFT la AND 0x3FF"
definition PTX :: "uint32 \<Rightarrow> uint32" where "PTX la = drop_bit PTXSHIFT la AND 0x3FF"
definition PPN :: "uint32 \<Rightarrow> uint32" where "PPN la = drop_bit PTXSHIFT la"
definition PGOFF :: "uint32 \<Rightarrow> uint32" where "PGOFF la = la AND 0xFFF"
definition PGADDR :: "uint32 \<Rightarrow> uint32 \<Rightarrow> uint32 \<Rightarrow> uint32" where
  "PGADDR d t f = push_bit PDXSHIFT d OR push_bit PTXSHIFT t OR f"
definition PTE_ADDR :: "uint32 \<Rightarrow> uint32" where "PTE_ADDR pte = pte AND NOT 0xFFF"
definition PDE_ADDR :: "uint32 \<Rightarrow> uint32" where "PDE_ADDR pde = PTE_ADDR pde"

text \<open>The macros of \<open>defs.h\<close> convert their argument to the 32 bits of \<open>size_t\<close>.\<close>

definition ROUNDDOWN :: "size_t \<Rightarrow> size_t \<Rightarrow> size_t" where "ROUNDDOWN a n = a - a mod n"
definition ROUNDUP :: "size_t \<Rightarrow> size_t \<Rightarrow> size_t" where "ROUNDUP a n = ROUNDDOWN (a + n - 1) n"

section \<open>State\<close>

text \<open>\<open>struct pmm_manager\<close>: the functions that the kernel calls through the pointer.\<close>

record pmm_ops =
  init_memmap_op :: "nat \<Rightarrow> size_t \<Rightarrow> kmem \<Rightarrow> kmem outcome"
  alloc_op :: "size_t \<Rightarrow> kmem \<Rightarrow> (nat option \<times> kmem) outcome"
  free_op :: "nat \<Rightarrow> size_t \<Rightarrow> kmem \<Rightarrow> kmem outcome"
  nr_free_op :: "kmem \<Rightarrow> size_t"

definition default_pmm_manager :: pmm_ops where
  "default_pmm_manager = \<lparr>init_memmap_op = default_init_memmap, alloc_op = default_alloc_pages, free_op = default_free_pages,
     nr_free_op = default_nr_free_pages\<rparr>"

text \<open>
  The page descriptors with the allocator's data, the memory that holds page tables, the number of pages, the register \<open>cr3\<close>, and the
  translations that the processor has cached, by page number of the linear address.
\<close>

record vm =
  kmem :: kmem
  ram :: "nat \<Rightarrow> nat \<Rightarrow> uint32"
  npage :: size_t
  cr3 :: uint32
  tlb :: "uint32 \<Rightarrow> uint32 option"

type_synonym entry_ptr = "nat \<times> nat"

definition read_entry :: "vm \<Rightarrow> entry_ptr \<Rightarrow> uint32" where
  "read_entry s e = ram s (fst e) (snd e)"

definition write_entry :: "entry_ptr \<Rightarrow> uint32 \<Rightarrow> vm \<Rightarrow> vm" where
  "write_entry e v s = s\<lparr>ram := (ram s)(fst e := (ram s (fst e))(snd e := v))\<rparr>"

section \<open>Pages and addresses (pmm.h)\<close>

text \<open>\<open>KADDR\<close> and \<open>PADDR\<close> panic outside physical memory and below the kernel's part of the address space.\<close>

definition KADDR :: "vm \<Rightarrow> uint32 \<Rightarrow> uint32 outcome" where
  "KADDR s pa = (if PPN pa \<ge> npage s then Inl Panicked else Inr (pa + KERNBASE))"

definition PADDR :: "uint32 \<Rightarrow> uint32 outcome" where
  "PADDR kva = (if kva < KERNBASE then Inl Panicked else Inr (kva - KERNBASE))"

definition page2ppn :: "nat \<Rightarrow> uint32" where
  "page2ppn p = of_nat p"

definition page2pa :: "nat \<Rightarrow> uint32" where
  "page2pa p = push_bit PTXSHIFT (page2ppn p)"

definition pa2page :: "vm \<Rightarrow> uint32 \<Rightarrow> nat outcome" where
  "pa2page s pa = (if PPN pa \<ge> npage s then Inl Panicked else Inr (unat (PPN pa)))"

definition page2kva :: "vm \<Rightarrow> nat \<Rightarrow> uint32 outcome" where
  "page2kva s p = KADDR s (page2pa p)"

definition kva2page :: "vm \<Rightarrow> uint32 \<Rightarrow> nat outcome" where
  "kva2page s kva = andThen (PADDR kva) (pa2page s)"

definition pte2page :: "vm \<Rightarrow> uint32 \<Rightarrow> nat outcome" where
  "pte2page s pte = (if pte AND PTE_P = 0 then Inl Panicked else pa2page s (PTE_ADDR pte))"

definition pde2page :: "vm \<Rightarrow> uint32 \<Rightarrow> nat outcome" where
  "pde2page s pde = pa2page s (PDE_ADDR pde)"

definition page_ref :: "nat \<Rightarrow> vm \<Rightarrow> int" where
  "page_ref p s = ref (page (kmem s) p)"

definition put_page_ref :: "nat \<Rightarrow> int \<Rightarrow> vm \<Rightarrow> vm" where
  "put_page_ref p v s = s\<lparr>kmem := set_page_ref p v (kmem s)\<rparr>"

definition page_ref_inc :: "nat \<Rightarrow> vm \<Rightarrow> int \<times> vm" where
  "page_ref_inc p s = (let s' = put_page_ref p (page_ref p s + 1) s in (page_ref p s', s'))"

definition page_ref_dec :: "nat \<Rightarrow> vm \<Rightarrow> int \<times> vm" where
  "page_ref_dec p s = (let s' = put_page_ref p (page_ref p s - 1) s in (page_ref p s', s'))"

section \<open>Allocation through the manager\<close>

text \<open>Interrupts are disabled around the call, so that it is one step.\<close>

definition alloc_pages :: "pmm_ops \<Rightarrow> size_t \<Rightarrow> vm \<Rightarrow> (nat option \<times> vm) outcome" where
  "alloc_pages pmm n s = andThen (alloc_op pmm n (kmem s)) (\<lambda>(r, k). Inr (r, s\<lparr>kmem := k\<rparr>))"

definition free_pages :: "pmm_ops \<Rightarrow> nat \<Rightarrow> size_t \<Rightarrow> vm \<Rightarrow> vm outcome" where
  "free_pages pmm p n s = andThen (free_op pmm p n (kmem s)) (\<lambda>k. Inr (s\<lparr>kmem := k\<rparr>))"

definition nr_free_pages :: "pmm_ops \<Rightarrow> vm \<Rightarrow> size_t" where
  "nr_free_pages pmm s = nr_free_op pmm (kmem s)"

definition init_memmap :: "pmm_ops \<Rightarrow> nat \<Rightarrow> size_t \<Rightarrow> vm \<Rightarrow> vm outcome" where
  "init_memmap pmm base n s = andThen (init_memmap_op pmm base n (kmem s)) (\<lambda>k. Inr (s\<lparr>kmem := k\<rparr>))"

definition boot_alloc_page :: "pmm_ops \<Rightarrow> vm \<Rightarrow> (uint32 \<times> vm) outcome" where
  "boot_alloc_page pmm s =
     andThen (alloc_pages pmm 1 s) (\<lambda>(r, s1).
       case r of None \<Rightarrow> Inl Panicked | Some p \<Rightarrow> andThen (page2kva s1 p) (\<lambda>a. Inr (a, s1)))"

section \<open>Page tables\<close>

text \<open>
  The page directory is the page with number \<open>pgdir\<close>. \<open>KADDR\<close> of an aligned physical address is the page with number \<open>PPN\<close>.
\<close>

definition table_page :: "vm \<Rightarrow> uint32 \<Rightarrow> nat outcome" where
  "table_page s pa = andThen (KADDR s pa) (\<lambda>_. Inr (unat (PPN pa)))"

definition clear_page :: "nat \<Rightarrow> vm \<Rightarrow> vm" where
  "clear_page p s = s\<lparr>ram := (ram s)(p := (\<lambda>i. 0))\<rparr>"

definition get_pte :: "pmm_ops \<Rightarrow> nat \<Rightarrow> uint32 \<Rightarrow> bool \<Rightarrow> vm \<Rightarrow> (entry_ptr option \<times> vm) outcome" where
  "get_pte pmm pgdir la create s =
     (let pdep = (pgdir, unat (PDX la));
          found = (\<lambda>s'. andThen (table_page s' (PDE_ADDR (read_entry s' pdep))) (\<lambda>t. Inr (Some (t, unat (PTX la)), s'))) in
      if read_entry s pdep AND PTE_P = 0 then
        if \<not> create then Inr (None, s)
        else
          andThen (alloc_pages pmm 1 s) (\<lambda>(r, s1).
            case r of None \<Rightarrow> Inr (None, s1)
            | Some p \<Rightarrow>
                let s2 = put_page_ref p 1 s1; pa = page2pa p in
                andThen (table_page s2 pa) (\<lambda>t.
                let s3 = clear_page t s2;
                    s4 = write_entry pdep (pa OR PTE_U OR PTE_W OR PTE_P) s3 in
                found s4))
      else found s)"

text \<open>The result and the value stored through \<open>ptep_store\<close>.\<close>

definition get_page :: "pmm_ops \<Rightarrow> nat \<Rightarrow> uint32 \<Rightarrow> vm \<Rightarrow> (nat option \<times> entry_ptr option) outcome" where
  "get_page pmm pgdir la s =
     andThen (get_pte pmm pgdir la False s) (\<lambda>(r, s1).
       case r of None \<Rightarrow> Inr (None, None)
       | Some ptep \<Rightarrow>
           if read_entry s1 ptep AND PTE_P \<noteq> 0 then andThen (pte2page s1 (read_entry s1 ptep)) (\<lambda>p. Inr (Some p, Some ptep))
           else Inr (None, Some ptep))"

definition tlb_invalidate :: "nat \<Rightarrow> uint32 \<Rightarrow> vm \<Rightarrow> vm" where
  "tlb_invalidate pgdir la s = (if cr3 s = page2pa pgdir then s\<lparr>tlb := (tlb s)(PPN la := None)\<rparr> else s)"

definition page_remove_pte :: "pmm_ops \<Rightarrow> nat \<Rightarrow> uint32 \<Rightarrow> entry_ptr \<Rightarrow> vm \<Rightarrow> vm outcome" where
  "page_remove_pte pmm pgdir la ptep s =
     (if read_entry s ptep AND PTE_P \<noteq> 0 then
        andThen (pte2page s (read_entry s ptep)) (\<lambda>p.
        let (r, s1) = page_ref_dec p s in
        andThen (if r = 0 then free_pages pmm p 1 s1 else Inr s1) (\<lambda>s2.
          Inr (tlb_invalidate pgdir la (write_entry ptep 0 s2))))
      else Inr s)"

definition page_remove :: "pmm_ops \<Rightarrow> nat \<Rightarrow> uint32 \<Rightarrow> vm \<Rightarrow> vm outcome" where
  "page_remove pmm pgdir la s =
     andThen (get_pte pmm pgdir la False s) (\<lambda>(r, s1).
       case r of None \<Rightarrow> Inr s1 | Some ptep \<Rightarrow> page_remove_pte pmm pgdir la ptep s1)"

definition E_NO_MEM :: int where "E_NO_MEM = 4"

definition page_insert :: "pmm_ops \<Rightarrow> nat \<Rightarrow> nat \<Rightarrow> uint32 \<Rightarrow> uint32 \<Rightarrow> vm \<Rightarrow> (int \<times> vm) outcome" where
  "page_insert pmm pgdir pg la perm s =
     andThen (get_pte pmm pgdir la True s) (\<lambda>(r, s1).
       case r of None \<Rightarrow> Inr (- E_NO_MEM, s1)
       | Some ptep \<Rightarrow>
           let s2 = snd (page_ref_inc pg s1) in
           andThen (if read_entry s2 ptep AND PTE_P \<noteq> 0 then
                      andThen (pte2page s2 (read_entry s2 ptep)) (\<lambda>p.
                        if p = pg then Inr (snd (page_ref_dec pg s2)) else page_remove_pte pmm pgdir la ptep s2)
                    else Inr s2) (\<lambda>s3.
           Inr (0, tlb_invalidate pgdir la (write_entry ptep (page2pa pg OR PTE_P OR perm) s3))))"

fun map_loop :: "pmm_ops \<Rightarrow> nat \<Rightarrow> nat \<Rightarrow> uint32 \<Rightarrow> uint32 \<Rightarrow> uint32 \<Rightarrow> vm \<Rightarrow> vm outcome" where
  "map_loop pmm pgdir 0 la pa perm s = Inr s"
| "map_loop pmm pgdir (Suc n) la pa perm s =
     andThen (get_pte pmm pgdir la True s) (\<lambda>(r, s1).
       case r of None \<Rightarrow> Inl Assert_failed
       | Some ptep \<Rightarrow> map_loop pmm pgdir n (la + PGSIZE) (pa + PGSIZE) perm (write_entry ptep (pa OR PTE_P OR perm) s1))"

definition boot_map_segment :: "pmm_ops \<Rightarrow> nat \<Rightarrow> uint32 \<Rightarrow> size_t \<Rightarrow> uint32 \<Rightarrow> uint32 \<Rightarrow> vm \<Rightarrow> vm outcome" where
  "boot_map_segment pmm pgdir la sz pa perm s =
     (if PGOFF la \<noteq> PGOFF pa then Inl Assert_failed
      else map_loop pmm pgdir (unat (ROUNDUP (sz + PGOFF la) PGSIZE div PGSIZE)) (ROUNDDOWN la PGSIZE) (ROUNDDOWN pa PGSIZE) perm s)"

section \<open>Detecting physical memory\<close>

text \<open>
  The entries of the memory map that the boot loader leaves at \<open>0x8000\<close>; its length is \<open>nr_map\<close>. \<open>kend\<close> is the address of the linker
  symbol \<open>end\<close>, behind which the page descriptors are put, and a descriptor takes 20 bytes.
\<close>

record e820entry =
  e_addr :: "64 word"
  e_size :: "64 word"
  e_type :: uint32

definition E820_ARM :: uint32 where "E820_ARM = 1"
definition sizeof_Page :: uint32 where "sizeof_Page = 20"

fun maxpa_loop :: "e820entry list \<Rightarrow> 64 word \<Rightarrow> 64 word" where
  "maxpa_loop [] maxpa = maxpa"
| "maxpa_loop (m # ms) maxpa =
     (let begin = e_addr m; fin = begin + e_size m in
      maxpa_loop ms (if e_type m = E820_ARM \<and> maxpa < fin \<and> begin < KMEMSIZE then fin else maxpa))"

definition maxpa_of :: "e820entry list \<Rightarrow> 64 word" where
  "maxpa_of ms = (let maxpa = maxpa_loop ms 0 in if maxpa > KMEMSIZE then KMEMSIZE else maxpa)"

text \<open>
  The descriptors are put behind the kernel, and are written while the page directory of \<open>kern/init/entry.S\<close> is in use, which maps only the 4 MB above
  \<open>KERNBASE\<close>. \<open>SetPageReserved\<close> accesses the word \<open>flags\<close>, bytes 4 to 7 of the descriptor; outside this range the access is a fault.
\<close>

definition BOOT_MAPPED :: uint32 where "BOOT_MAPPED = 0x400000"

definition flags_mapped :: "uint32 \<Rightarrow> nat \<Rightarrow> bool" where
  "flags_mapped pages i \<longleftrightarrow> KERNBASE \<le> pages \<and> unat pages + unat sizeof_Page * i + 8 \<le> unat KERNBASE + unat BOOT_MAPPED"

fun reserve_loop :: "uint32 \<Rightarrow> nat \<Rightarrow> nat \<Rightarrow> kmem \<Rightarrow> kmem outcome" where
  "reserve_loop pages i 0 k = Inr k"
| "reserve_loop pages i (Suc n) k =
     (if flags_mapped pages i then reserve_loop pages (i + 1) n (SetPageReserved i k) else Inl Out_of_bounds)"

fun memmap_loop :: "pmm_ops \<Rightarrow> uint32 \<Rightarrow> e820entry list \<Rightarrow> vm \<Rightarrow> vm outcome" where
  "memmap_loop pmm freemem [] s = Inr s"
| "memmap_loop pmm freemem (m # ms) s =
     (let begin = e_addr m; fin = begin + e_size m in
      andThen
        (if e_type m = E820_ARM then
           let begin1 = (if begin < ucast freemem then ucast freemem else begin);
               end1 = (if fin > KMEMSIZE then KMEMSIZE else fin) in
           if begin1 < end1 then
             let begin2 = (ucast (ROUNDUP (ucast begin1) PGSIZE) :: 64 word);
                 end2 = (ucast (ROUNDDOWN (ucast end1) PGSIZE) :: 64 word) in
             if begin2 < end2 then
               andThen (pa2page s (ucast begin2)) (\<lambda>p. init_memmap pmm p (ucast ((end2 - begin2) div 4096)) s)
             else Inr s
           else Inr s
         else Inr s)
        (memmap_loop pmm freemem ms))"

definition page_init :: "pmm_ops \<Rightarrow> uint32 \<Rightarrow> e820entry list \<Rightarrow> vm \<Rightarrow> vm outcome" where
  "page_init pmm kend ms s =
     (let np = ucast (maxpa_of ms div 4096);
          pages = ROUNDUP kend PGSIZE in
      andThen (reserve_loop pages 0 (unat np) (kmem s)) (\<lambda>k.
      andThen (PADDR (pages + sizeof_Page * np)) (\<lambda>freemem. memmap_loop pmm freemem ms (s\<lparr>npage := np, kmem := k\<rparr>))))"

section \<open>Printing the page tables\<close>

text \<open>
  The first run of present entries with equal permissions at or after \<open>start\<close>: the permissions, and the bounds of the run that are stored
  through the two pointers. Nothing is stored when there is none.
\<close>

function skip_absent :: "nat \<Rightarrow> nat \<Rightarrow> (nat \<Rightarrow> uint32) \<Rightarrow> nat" where
  "skip_absent right start table = (if start < right \<and> table start AND PTE_P = 0 then skip_absent right (start + 1) table else start)"
  by pat_completeness auto
termination
  by (relation "measure (\<lambda>(right, start, table). right - start)") auto

function skip_equal :: "nat \<Rightarrow> nat \<Rightarrow> (nat \<Rightarrow> uint32) \<Rightarrow> uint32 \<Rightarrow> nat" where
  "skip_equal right start table perm = (if start < right \<and> table start AND PTE_USER = perm then skip_equal right (start + 1) table perm else start)"
  by pat_completeness auto
termination
  by (relation "measure (\<lambda>(right, start, table, perm). right - start)") auto

declare skip_absent.simps [simp del] skip_equal.simps [simp del]

definition get_pgtable_items :: "nat \<Rightarrow> nat \<Rightarrow> (nat \<Rightarrow> uint32) \<Rightarrow> uint32 \<times> (nat \<times> nat) option" where
  "get_pgtable_items right start table =
     (if start \<ge> right then (0, None)
      else
        let start1 = skip_absent right start table in
        if start1 < right then
          let perm = table start1 AND PTE_USER in (perm, Some (start1, skip_equal right (start1 + 1) table perm))
        else (0, None))"

definition perm2str :: "uint32 \<Rightarrow> string" where
  "perm2str perm = [if perm AND PTE_U \<noteq> 0 then CHR ''u'' else CHR ''-'', CHR ''r'', if perm AND PTE_W \<noteq> 0 then CHR ''w'' else CHR ''-'']"

end
