(* ===== verification/Page_Map.thy ===== *)
theory Page_Map
  imports Page_Table
begin

text \<open>
  What the page-table functions of \<open>lab2/kern/mm/pmm.c\<close> do to the translation of linear addresses, to the reference counts of pages and to
  the set of free pages, for every page allocator that keeps the contract of \<open>Pmm_Manager\<close>.
\<close>

section \<open>Entries and addresses\<close>

lemma mask_consts: "(0xFFF :: uint32) = mask 12" "(0x3FF :: uint32) = mask 10"
  by (simp_all add: mask_eq_exp_minus_1)

lemma address_nat:
  "unat (PDX la) = unat la div 2 ^ 22 mod 1024" "unat (PTX la) = unat la div 2 ^ 12 mod 1024" "unat (PPN la) = unat la div 2 ^ 12"
  "unat (PGOFF la) = unat la mod 2 ^ 12"
  unfolding PDX_def PTX_def PPN_def PGOFF_def PDXSHIFT_def PTXSHIFT_def mask_consts
  by (simp_all add: drop_bit_eq_div take_bit_eq_mod unat_div_distrib unat_mod_distrib flip: take_bit_eq_mask)

lemma unat_32: "unat (w :: uint32) < 2 ^ 32"
  using unsigned_less [of w] by simp

lemma index_bounds: "unat (PDX la) < 1024" "unat (PTX la) < 1024" "unat (PGOFF la) < 4096" "unat (PPN la) < 2 ^ 20"
  using unat_32 [of la] by (simp_all add: address_nat)

lemma same_page_iff: "PPN la' = PPN la \<longleftrightarrow> PDX la' = PDX la \<and> PTX la' = PTX la"
proof -
  have s: "unat (PPN x) = unat (PDX x) * 1024 + unat (PTX x)" for x
  proof -
    have "unat x div 2 ^ 22 mod 1024 = unat x div 2 ^ 12 div 1024"
      using unat_32 [of x] by (simp add: div_mult2_eq [symmetric] less_mult_imp_div_less)
    then show ?thesis using div_mult_mod_eq [of "unat x div 2 ^ 12" 1024] by (simp add: address_nat)
  qed
  show ?thesis
  proof
    assume "PPN la' = PPN la"
    then have "unat (PDX la') * 1024 + unat (PTX la') = unat (PDX la) * 1024 + unat (PTX la)" using s by metis
    moreover from this have "unat (PDX la') = unat (PDX la)" using index_bounds [of la] index_bounds [of la'] by linarith
    ultimately have "unat (PDX la') = unat (PDX la)" "unat (PTX la') = unat (PTX la)" by simp_all
    then show "PDX la' = PDX la \<and> PTX la' = PTX la" by (simp add: word_unat_eq_iff)
  next
    assume "PDX la' = PDX la \<and> PTX la' = PTX la"
    then show "PPN la' = PPN la" using s [of la] s [of la'] by (simp add: word_unat_eq_iff)
  qed
qed

lemma PGADDR_split: "PGADDR (PDX la) (PTX la) (PGOFF la) = la"
proof (rule bit_word_eqI)
  fix n assume "n < LENGTH(32)"
  moreover have "n < 12 \<or> 12 \<le> n \<and> n < 22 \<or> 22 \<le> n" by linarith
  ultimately show "bit (PGADDR (PDX la) (PTX la) (PGOFF la)) n = bit la n"
    by (elim disjE) (auto simp: PGADDR_def PGOFF_def PDX_def PTX_def mask_consts PTXSHIFT_def PDXSHIFT_def bit_simps)
qed

lemma small_iff: "x < 4096 \<longleftrightarrow> drop_bit 12 x = 0" for x :: uint32
  by (auto simp: word_less_nat_alt drop_bit_eq_div word_unat_eq_iff unat_div_distrib div_eq_0_iff)

lemma ppn_page2pa: "p < 2 ^ 20 \<Longrightarrow> PPN (page2pa p) = of_nat p"
proof (rule bit_word_eqI)
  fix n assume p: "p < 2 ^ 20" and n: "n < LENGTH(32)"
  have "bit p n \<Longrightarrow> n < 20" using p by (metis bit_take_bit_iff take_bit_nat_eq_self)
  then show "bit (PPN (page2pa p)) n = bit (word_of_nat p :: uint32) n"
    using n by (auto simp: PPN_def page2pa_def page2ppn_def PTXSHIFT_def bit_simps)
qed

lemma ppn_entry: "PPN (PTE_ADDR x) = PPN x"
  unfolding PPN_def PTE_ADDR_def mask_consts PTXSHIFT_def by (rule bit_word_eqI) (auto simp: bit_simps dest: bit_imp_le_length)

lemma entry_ppn:
  assumes "p < 2 ^ 20" "f < 4096"
  shows "PPN (PTE_ADDR (page2pa p OR f)) = of_nat p"
proof -
  have "PPN (page2pa p OR f) = PPN (page2pa p) OR drop_bit 12 f" by (simp add: PPN_def PTXSHIFT_def drop_bit_or)
  moreover have "drop_bit 12 f = 0" using assms(2) by (simp add: small_iff)
  ultimately show ?thesis using ppn_page2pa [OF assms(1)] by (simp add: ppn_entry)
qed

lemma unat_page: "p < 2 ^ 20 \<Longrightarrow> unat (of_nat p :: uint32) = p"
  by (simp add: unsigned_of_nat take_bit_nat_eq_self)

lemma entry_present: "(x OR PTE_P OR y) AND PTE_P \<noteq> 0" "(x OR y OR PTE_P) AND PTE_P \<noteq> 0"
proof -
  have b: "bit ((x OR 1 OR y) AND 1 :: uint32) 0" "bit ((x OR y OR 1) AND 1 :: uint32) 0" by (simp_all add: bit_simps)
  then show "(x OR PTE_P OR y) AND PTE_P \<noteq> 0" "(x OR y OR PTE_P) AND PTE_P \<noteq> 0" unfolding PTE_P_def by (metis bit_0_eq bot_apply bot_bool_def)+
qed

lemma flags_small: "PTE_U OR PTE_W OR PTE_P < 4096" "f < 4096 \<Longrightarrow> PTE_P OR f < 4096"
proof -
  show "PTE_U OR PTE_W OR PTE_P < 4096" by (simp add: PTE_U_def PTE_W_def PTE_P_def)
  show "PTE_P OR f < 4096" if "f < 4096" using that unfolding small_iff by (simp add: PTE_P_def drop_bit_or)
qed

lemma mod_shift_neq: "b < m \<Longrightarrow> 0 < i \<Longrightarrow> i < m \<Longrightarrow> (b + i) mod m \<noteq> (b :: nat)"
  by (cases "b + i < m") (auto simp: le_mod_geq)

lemma PPN_step: "0 < i \<Longrightarrow> i < 2 ^ 20 \<Longrightarrow> PPN (la + of_nat i * PGSIZE) \<noteq> PPN la"
proof -
  assume i: "0 < i" "i < 2 ^ 20"
  have u: "unat (la + of_nat i * PGSIZE) = (unat la + i * 4096) mod 2 ^ 32"
    using i by (simp add: PGSIZE_def unat_word_ariths unsigned_of_nat take_bit_nat_eq_self mod_simps)
  have "(a + i * 4096) mod (2 ^ 20 * 4096) div 4096 \<noteq> a div 4096" if a: "a < 2 ^ 20 * 4096" for a :: nat
  proof -
    have "(a + i * 4096) mod (2 ^ 20 * 4096) div 4096 = (a div 4096 + i) mod 2 ^ 20"
      by (simp only: mult.commute [of "2 ^ 20"] mod_mult2_eq) (simp add: add.commute)
    moreover have "a div 4096 < 2 ^ 20" using a by (simp add: less_mult_imp_div_less)
    ultimately show ?thesis using mod_shift_neq [OF _ i] by simp
  qed
  from this [of "unat la"] have "unat (la + of_nat i * PGSIZE) div 2 ^ 12 \<noteq> unat la div 2 ^ 12" unfolding u using unat_32 [of la] by simp
  then show ?thesis by (metis address_nat(3))
qed

section \<open>The translation\<close>

text \<open>
  The entry of the directory for the region at \<open>VPT\<close> may point to the directory itself (\<open>pmm_init\<close> puts it there); it is no page table of its own.
\<close>

definition has_table :: "vm \<Rightarrow> nat \<Rightarrow> nat \<Rightarrow> bool" where
  "has_table s pgdir d \<longleftrightarrow> d < 1024 \<and> d \<noteq> unat (PDX VPT) \<and> ram s pgdir d AND PTE_P \<noteq> 0"

definition entry_page :: "uint32 \<Rightarrow> nat" where
  "entry_page e = unat (PPN (PTE_ADDR e))"

definition table_at :: "vm \<Rightarrow> nat \<Rightarrow> nat \<Rightarrow> nat" where
  "table_at s pgdir d = entry_page (ram s pgdir d)"

definition tables :: "vm \<Rightarrow> nat \<Rightarrow> nat set" where
  "tables s pgdir = insert pgdir (table_at s pgdir ` {d. has_table s pgdir d})"

text \<open>The entry for a pair of indices, 0 when there is no table, and the pair of a linear address.\<close>

fun pt :: "vm \<Rightarrow> nat \<Rightarrow> nat \<times> nat \<Rightarrow> uint32" where
  "pt s pgdir (d, t) = (if has_table s pgdir d then ram s (table_at s pgdir d) t else 0)"

definition slot :: "uint32 \<Rightarrow> nat \<times> nat" where
  "slot la = (unat (PDX la), unat (PTX la))"

definition maps :: "vm \<Rightarrow> nat \<Rightarrow> nat \<times> nat \<Rightarrow> nat \<Rightarrow> bool" where
  "maps s pgdir v q \<longleftrightarrow> pt s pgdir v AND PTE_P \<noteq> 0 \<and> entry_page (pt s pgdir v) = q"

definition shape_ok :: "vm \<Rightarrow> nat \<Rightarrow> nat set \<Rightarrow> bool" where
  "shape_ok s pgdir F \<longleftrightarrow> unat (npage s) \<le> 2 ^ 20 \<and> pgdir \<notin> F \<and> inj_on (table_at s pgdir) {d. has_table s pgdir d} \<and>
     (\<forall>d. has_table s pgdir d \<longrightarrow> table_at s pgdir d < unat (npage s) \<and> table_at s pgdir d \<notin> F \<and> table_at s pgdir d \<noteq> pgdir)"

text \<open>
  The mappings in \<open>V\<close> are to allocated pages that are no tables, and the reference count of such a page is the number of its mappings and of
  the references \<open>held\<close> elsewhere.
  \<open>U\<close> are the pages that the allocator manages, \<open>F\<close> those that are free, which have no references.
\<close>

definition refs_ok :: "nat set \<Rightarrow> (nat \<Rightarrow> nat) \<Rightarrow> vm \<Rightarrow> nat \<Rightarrow> (nat \<times> nat) set \<Rightarrow> nat set \<Rightarrow> bool" where
  "refs_ok U held s pgdir V F \<longleftrightarrow> finite V \<and> U \<subseteq> {..<unat (npage s)} \<and>
     (\<forall>v \<in> V. \<forall>q. maps s pgdir v q \<longrightarrow> q \<in> U - F - tables s pgdir) \<and>
     (\<forall>q \<in> U - F - tables s pgdir. page_ref q s = int (card {v \<in> V. maps s pgdir v q} + held q)) \<and>
     (\<forall>q \<in> F. page_ref q s = 0)"

lemma entry_page_new: "pg < 2 ^ 20 \<Longrightarrow> perm < 4096 \<Longrightarrow> entry_page (page2pa pg OR PTE_P OR perm) = pg"
  using entry_ppn [OF _ flags_small(2)] by (simp add: entry_page_def unat_page)

lemma slot_eq_iff: "slot la' = slot la \<longleftrightarrow> PPN la' = PPN la"
  using same_page_iff [of la' la] by (simp add: slot_def word_unat_eq_iff)

lemma slot_step: "0 < i \<Longrightarrow> i < 2 ^ 20 \<Longrightarrow> slot (la + of_nat i * PGSIZE) \<noteq> slot la"
  using PPN_step by (simp add: slot_eq_iff)

lemma not_maps_0 [simp]: "pt s pgdir v = 0 \<Longrightarrow> \<not> maps s pgdir v q"
  by (simp add: maps_def)

lemma npage_page: "p < unat (npage s) \<Longrightarrow> unat (npage s) \<le> 2 ^ 20 \<Longrightarrow> \<not> npage s \<le> of_nat p"
  by (simp add: word_le_nat_alt unat_page)

lemma table_page_ok:
  assumes "shape_ok s pgdir F" "has_table s pgdir d"
  shows "table_page s (PDE_ADDR (ram s pgdir d)) = Inr (table_at s pgdir d)"
proof -
  have "unat (PPN (PDE_ADDR (ram s pgdir d))) < unat (npage s)" using assms by (simp add: shape_ok_def table_at_def entry_page_def PDE_ADDR_def)
  then show ?thesis by (simp add: table_page_def KADDR_def table_at_def entry_page_def PDE_ADDR_def word_le_nat_alt)
qed

lemma get_pte_found:
  assumes "shape_ok s pgdir F" "has_table s pgdir (unat (PDX la))"
  shows "get_pte pmm pgdir la create s = Inr (Some (table_at s pgdir (unat (PDX la)), unat (PTX la)), s)"
  using table_page_ok [OF assms] assms(2) by (simp add: get_pte_def Let_def read_entry_def has_table_def)

lemma get_pte_absent: "\<not> has_table s pgdir (unat (PDX la)) \<Longrightarrow> PDX la \<noteq> PDX VPT \<Longrightarrow> get_pte pmm pgdir la False s = Inr (None, s)"
  using index_bounds(1) [of la] by (simp add: get_pte_def read_entry_def has_table_def word_unat_eq_iff)

text \<open>Writing an entry of a table changes the translation in one place.\<close>

lemma write_entry_pt:
  fixes t :: nat and x :: uint32
  assumes sh: "shape_ok s pgdir F" and h: "has_table s pgdir d"
  defines "s' \<equiv> write_entry (table_at s pgdir d, t) x s"
  shows "has_table s' pgdir = has_table s pgdir" "table_at s' pgdir = table_at s pgdir" "tables s' pgdir = tables s pgdir"
    "pt s' pgdir v = (if v = (d, t) then x else pt s pgdir v)" "shape_ok s' pgdir F" "page_ref q s' = page_ref q s"
    "npage s' = npage s" "kmem s' = kmem s" "cr3 s' = cr3 s" "tlb s' = tlb s"
proof -
  have ne: "table_at s pgdir d \<noteq> pgdir" using sh h by (simp add: shape_ok_def)
  then have r: "ram s' pgdir = ram s pgdir" by (auto simp: s'_def write_entry_def)
  show ht: "has_table s' pgdir = has_table s pgdir" using r by (simp add: has_table_def fun_eq_iff)
  show ta: "table_at s' pgdir = table_at s pgdir" using r by (simp add: table_at_def fun_eq_iff)
  show "tables s' pgdir = tables s pgdir" by (simp add: tables_def ht ta)
  show "npage s' = npage s" "kmem s' = kmem s" "cr3 s' = cr3 s" "tlb s' = tlb s" "page_ref q s' = page_ref q s"
    by (simp_all add: s'_def write_entry_def page_ref_def)
  then show "shape_ok s' pgdir F" using sh by (simp add: shape_ok_def ht ta)
  show "pt s' pgdir v = (if v = (d, t) then x else pt s pgdir v)"
  proof (cases v)
    case (Pair d' t')
    have "table_at s pgdir d' = table_at s pgdir d \<longleftrightarrow> d' = d" if "has_table s pgdir d'"
      using sh h that by (auto simp: shape_ok_def inj_on_def)
    moreover have "ram s' p i = (if p = table_at s pgdir d \<and> i = t then x else ram s p i)" for p i by (simp add: s'_def write_entry_def)
    ultimately show ?thesis using Pair h by (simp add: ht ta)
  qed
qed

lemma tlb_invalidate_pt [simp]:
  "ram (tlb_invalidate pgdir la s) = ram s" "npage (tlb_invalidate pgdir la s) = npage s" "kmem (tlb_invalidate pgdir la s) = kmem s"
  "cr3 (tlb_invalidate pgdir la s) = cr3 s"
  by (simp_all add: tlb_invalidate_def)

text \<open>The translation and its invariants depend on the page tables, the number of pages and the reference counts only.\<close>

lemma same_tables:
  assumes "ram s' = ram s"
  shows "has_table s' = has_table s" "table_at s' = table_at s" "tables s' = tables s" "pt s' = pt s" "maps s' = maps s"
proof -
  show h: "has_table s' = has_table s" "table_at s' = table_at s" using assms by (auto simp: fun_eq_iff has_table_def table_at_def)
  then show "tables s' = tables s" by (auto simp: fun_eq_iff tables_def)
  show p: "pt s' = pt s" using h assms by (auto simp: fun_eq_iff)
  then show "maps s' = maps s" by (auto simp: fun_eq_iff maps_def)
qed

lemma shape_insert: "shape_ok s pgdir F \<Longrightarrow> q \<notin> tables s pgdir \<Longrightarrow> shape_ok s pgdir (insert q F)"
  by (auto simp: shape_ok_def tables_def)

lemma shape_ok_cong: "ram s' = ram s \<Longrightarrow> npage s' = npage s \<Longrightarrow> shape_ok s' pgdir F = shape_ok s pgdir F"
  using same_tables [of s' s] by (simp add: shape_ok_def)

text \<open>A cached translation of the directory in use is the one in the tables.\<close>

definition tlb_ok :: "vm \<Rightarrow> nat \<Rightarrow> bool" where
  "tlb_ok s pgdir \<longleftrightarrow> (cr3 s = page2pa pgdir \<longrightarrow> (\<forall>la e. tlb s (PPN la) = Some e \<longrightarrow> e = pt s pgdir (slot la)))"

lemma tlb_ok_update:
  assumes "tlb_ok s pgdir" "cr3 s' = cr3 s" "\<forall>v. v \<noteq> slot la \<longrightarrow> pt s' pgdir v = pt s pgdir v"
    "cr3 s = page2pa pgdir \<Longrightarrow> tlb s' = (tlb s)(PPN la := None)"
  shows "tlb_ok s' pgdir"
  unfolding tlb_ok_def
proof (intro impI allI)
  fix la' e assume c: "cr3 s' = page2pa pgdir" "tlb s' (PPN la') = Some e"
  then have "tlb s (PPN la') = Some e" "PPN la' \<noteq> PPN la" using assms(2,4) by (auto split: if_splits)
  moreover from this have "pt s' pgdir (slot la') = pt s pgdir (slot la')" using assms(3) slot_eq_iff [of la' la] by blast
  ultimately show "e = pt s' pgdir (slot la')" using assms(1,2) c(1) by (metis tlb_ok_def)
qed

section \<open>The manager and the page tables\<close>

definition dir_ok :: "(kmem \<Rightarrow> nat set \<Rightarrow> bool) \<Rightarrow> (kmem \<Rightarrow> nat set) \<Rightarrow> (nat \<Rightarrow> nat) \<Rightarrow> vm \<Rightarrow> nat \<Rightarrow> (nat \<times> nat) set \<Rightarrow> nat set \<Rightarrow> bool" where
  "dir_ok rep usable held s pgdir V F \<longleftrightarrow> rep (kmem s) F \<and> shape_ok s pgdir F \<and> refs_ok (usable (kmem s)) held s pgdir V F"

text \<open>\<open>s3\<close> is \<open>s1\<close> with the entry of \<open>la\<close> out of the way, ready for the page \<open>pg\<close> to be entered.\<close>

definition cleared :: "nat \<Rightarrow> uint32 \<Rightarrow> nat \<Rightarrow> vm \<Rightarrow> nat set \<Rightarrow> vm \<Rightarrow> nat set \<Rightarrow> bool" where
  "cleared pgdir la pg s1 F1 s3 F3 \<longleftrightarrow> has_table s3 pgdir = has_table s1 pgdir \<and> table_at s3 pgdir = table_at s1 pgdir \<and>
     (\<forall>u. u \<noteq> slot la \<longrightarrow> pt s3 pgdir u = pt s1 pgdir u) \<and> cr3 s3 = cr3 s1 \<and>
     (cr3 s1 = page2pa pgdir \<longrightarrow> (tlb s3)(PPN la := None) = (tlb s1)(PPN la := None)) \<and> pg \<notin> F3 \<and>
     F3 = F1 \<union> {q. maps s1 pgdir (slot la) q \<and> q \<noteq> pg \<and> page_ref q s1 = 1} \<and> shape_ok s3 pgdir F3"

text \<open>
  What the page tables need of a manager beyond its contract: it leaves the reference counts of other pages alone, and does not care about
  them itself.
\<close>

locale page_manager = pmm_manager rep usable reserved init "init_memmap_op pmm" "alloc_op pmm" "free_op pmm" "nr_free_op pmm"
  for rep :: "kmem \<Rightarrow> nat set \<Rightarrow> bool" and usable :: "kmem \<Rightarrow> nat set" and reserved :: "kmem \<Rightarrow> nat set" and init :: "kmem \<Rightarrow> kmem"
    and pmm :: pmm_ops +
  assumes alloc_ref: "alloc_op pmm n k = Inr (r, k') \<Longrightarrow> ref (page k' q) = ref (page k q)"
    and free_ref: "free_op pmm b n k = Inr k' \<Longrightarrow> q \<notin> {b..<b + unat n} \<Longrightarrow> ref (page k' q) = ref (page k q)"
    and free_zero: "free_op pmm b n k = Inr k' \<Longrightarrow> q \<in> {b..<b + unat n} \<Longrightarrow> ref (page k' q) = 0"
    and set_ref_rep: "rep (set_page_ref p i k) F = rep k F"
    and set_ref_usable: "usable (set_page_ref p i k) = usable k"
begin

lemma put_ref_facts:
  "usable (kmem (put_page_ref p i s)) = usable (kmem s)" "rep (kmem (put_page_ref p i s)) F = rep (kmem s) F"
  "page_ref q (put_page_ref p i s) = (if q = p then i else page_ref q s)" "ram (put_page_ref p i s) = ram s"
  "npage (put_page_ref p i s) = npage s" "cr3 (put_page_ref p i s) = cr3 s" "tlb (put_page_ref p i s) = tlb s"
  using set_ref_rep set_ref_usable by (auto simp: put_page_ref_def page_ref_def set_page_ref_def update_page_def)

text \<open>A new page table: an allocated page that is cleared and entered in the directory.\<close>

lemma new_table:
  assumes ok: "dir_ok rep usable held s pgdir V F" and no: "\<not> has_table s pgdir d" "d < 1024" "d \<noteq> unat (PDX VPT)" and p: "p \<in> F" and rep: "rep k (F - {p})" "usable k = usable (kmem s)"
    and ref: "\<And>q. ref (page k q) = page_ref q s"
  defines "s' \<equiv> write_entry (pgdir, d) (page2pa p OR PTE_U OR PTE_W OR PTE_P) (clear_page p (put_page_ref p 1 (s\<lparr>kmem := k\<rparr>)))"
  shows "dir_ok rep usable held s' pgdir V (F - {p})" "pt s' pgdir v = pt s pgdir v" "has_table s' pgdir d" "\<forall>q. q \<noteq> p \<longrightarrow> page_ref q s' = page_ref q s"
    "tables s' pgdir = insert p (tables s pgdir)" "usable (kmem s') = usable (kmem s)" "npage s' = npage s" "cr3 s' = cr3 s" "tlb s' = tlb s"
    "has_table s' pgdir d' \<longleftrightarrow> d' = d \<or> has_table s pgdir d'"
proof -
  have sh: "shape_ok s pgdir F" and re: "refs_ok (usable (kmem s)) held s pgdir V F" and "rep (kmem s) F" using ok by (auto simp: dir_ok_def)
  then have pU: "p \<in> usable (kmem s)" "p < unat (npage s)" "p < 2 ^ 20" using p rep_usable [of "kmem s" F] by (auto simp: refs_ok_def shape_ok_def)
  have pg: "p \<noteq> pgdir" using sh p by (auto simp: shape_ok_def)
  let ?e = "page2pa p OR PTE_U OR PTE_W OR PTE_P"
  have ep: "entry_page ?e = p" using entry_ppn [OF pU(3) flags_small(1)] pU(3) by (simp add: entry_page_def unat_page)
  have pr: "?e AND PTE_P \<noteq> 0" using entry_present(2) [of "page2pa p OR PTE_U" PTE_W] by (simp add: or.assoc)
  have ram: "ram s' x i = (if x = pgdir \<and> i = d then ?e else if x = p then 0 else ram s x i)" for x i
    using pg by (auto simp: s'_def write_entry_def clear_page_def put_page_ref_def)
  show fr: "npage s' = npage s" "cr3 s' = cr3 s" "tlb s' = tlb s"
    by (simp_all add: s'_def write_entry_def clear_page_def put_page_ref_def)
  have km: "kmem s' = set_page_ref p 1 k" by (simp add: s'_def write_entry_def clear_page_def put_page_ref_def)
  show us: "usable (kmem s') = usable (kmem s)" using rep(2) by (simp add: km set_ref_usable)
  have rp: "rep (kmem s') (F - {p})" using rep(1) by (simp add: km set_ref_rep)
  show rf: "\<forall>q. q \<noteq> p \<longrightarrow> page_ref q s' = page_ref q s" using ref by (simp add: page_ref_def km set_page_ref_def update_page_def)
  show ht: "has_table s' pgdir d' \<longleftrightarrow> d' = d \<or> has_table s pgdir d'" for d'
    using no pr pg by (auto simp: has_table_def ram)
  then show "has_table s' pgdir d" by simp
  have ta: "table_at s' pgdir d' = (if d' = d then p else table_at s pgdir d')" for d' using ep pg by (simp add: table_at_def ram)
  have old: "table_at s pgdir d' \<noteq> p" if "has_table s pgdir d'" for d' using sh p that by (auto simp: shape_ok_def)
  show ptv: "pt s' pgdir v = pt s pgdir v" for v
  proof (cases v)
    case (Pair d' t)
    have "table_at s pgdir d' \<noteq> pgdir" if "has_table s pgdir d'" using sh that by (auto simp: shape_ok_def)
    then show ?thesis using Pair no old pg by (auto simp: ht ta ram)
  qed
  have "{d'. has_table s' pgdir d'} = insert d {d'. has_table s pgdir d'}" using ht by auto
  then show tb: "tables s' pgdir = insert p (tables s pgdir)" using no(1) by (auto simp: tables_def ta image_iff)
  have sh': "shape_ok s' pgdir (F - {p})"
    using sh pU(2) pg old no by (auto simp: shape_ok_def inj_on_def ht ta fr)
  have mp: "maps s' pgdir = maps s pgdir" using ptv by (simp add: maps_def fun_eq_iff)
  have "p \<notin> tables s pgdir" using old pg by (auto simp: tables_def)
  then have "U - (F - {p}) - insert p (tables s pgdir) = U - F - tables s pgdir" for U using p by auto
  moreover have "page_ref q s' = page_ref q s" if "q \<notin> F" for q using rf p that by (cases "q = p") auto
  moreover have "\<forall>q \<in> F - {p}. page_ref q s' = 0" using rf re by (simp add: refs_ok_def)
  ultimately have "refs_ok (usable (kmem s')) held s' pgdir V (F - {p})"
    using re unfolding refs_ok_def us tb mp fr by simp
  then show "dir_ok rep usable held s' pgdir V (F - {p})" using rp sh' by (simp add: dir_ok_def)
qed

lemma get_pte_create:
  assumes ok: "dir_ok rep usable held s pgdir V F" and la: "PDX la \<noteq> PDX VPT"
  shows "\<exists>r s' F'. get_pte pmm pgdir la True s = Inr (r, s') \<and> dir_ok rep usable held s' pgdir V F' \<and> F' = F - tables s' pgdir \<and> pt s' pgdir = pt s pgdir \<and>
    (\<forall>q. q \<notin> F \<longrightarrow> page_ref q s' = page_ref q s) \<and> tables s' pgdir - F = tables s pgdir \<and> usable (kmem s') = usable (kmem s) \<and> npage s' = npage s \<and>
    cr3 s' = cr3 s \<and> tlb s' = tlb s \<and>
    (case r of None \<Rightarrow> F = {} \<and> \<not> has_table s pgdir (unat (PDX la))
     | Some e \<Rightarrow> has_table s' pgdir (unat (PDX la)) \<and> e = (table_at s' pgdir (unat (PDX la)), unat (PTX la)) \<and>
         (\<forall>d. has_table s' pgdir d \<longleftrightarrow> d = unat (PDX la) \<or> has_table s pgdir d) \<and>
         card F = card F' + (if has_table s pgdir (unat (PDX la)) then 0 else 1))"
proof (cases "has_table s pgdir (unat (PDX la))")
  case True
  have sh: "shape_ok s pgdir F" using ok by (simp add: dir_ok_def)
  then have "tables s pgdir - F = tables s pgdir" by (auto simp: shape_ok_def tables_def)
  moreover from this have "F = F - tables s pgdir" by blast
  ultimately show ?thesis using get_pte_found [OF sh True] ok True by (intro exI [of _ "Some (table_at s pgdir (unat (PDX la)), unat (PTX la))"] exI [of _ s] exI [of _ F]) auto
next
  case False
  let ?d = "unat (PDX la)"
  have d: "?d < 1024" "?d \<noteq> unat (PDX VPT)" using index_bounds(1) la by (simp_all add: word_unat_eq_iff)
  have np: "ram s pgdir ?d AND PTE_P = 0" using False d by (simp add: has_table_def)
  have sh: "shape_ok s pgdir F" and rep: "rep (kmem s) F" and re: "refs_ok (usable (kmem s)) held s pgdir V F" using ok by (auto simp: dir_ok_def)
  have tF: "tables s pgdir - F = tables s pgdir" using sh by (auto simp: shape_ok_def tables_def)
  obtain r k where k: "alloc_op pmm 1 (kmem s) = Inr (r, k)" "usable k = usable (kmem s)"
      "case r of None \<Rightarrow> rep k F | Some p \<Rightarrow> {p..<p + unat (1 :: size_t)} \<subseteq> F \<and> rep k (F - {p..<p + unat (1 :: size_t)})"
    using alloc_ok [OF rep, of 1] by auto
  have ref: "ref (page k q) = page_ref q s" for q using alloc_ref [OF k(1)] by (simp add: page_ref_def)
  show ?thesis
  proof (cases r)
    case None
    let ?s = "s\<lparr>kmem := k\<rparr>"
    have F: "F = {}" using alloc_one [OF rep] k(1) None by auto
    have eq: "ram ?s = ram s" "npage ?s = npage s" by simp_all
    have "dir_ok rep usable held ?s pgdir V F"
      using k None re sh ref shape_ok_cong [OF eq] same_tables [OF eq(1)] by (simp add: dir_ok_def refs_ok_def page_ref_def)
    moreover have "get_pte pmm pgdir la True s = Inr (None, ?s)"
      using np k(1) None by (simp add: get_pte_def Let_def read_entry_def alloc_pages_def)
    moreover have "F = F - tables ?s pgdir" unfolding F by simp
    ultimately show ?thesis using k(2) ref tF F False same_tables [OF eq(1)]
      by (intro exI [of _ None] exI [of _ ?s] exI [of _ F]) (simp add: page_ref_def)
  next
    case (Some p)
    then have p: "p \<in> F" "rep k (F - {p})" using k(3) by (auto simp: atLeastLessThan_singleton)
    let ?s = "write_entry (pgdir, ?d) (page2pa p OR PTE_U OR PTE_W OR PTE_P) (clear_page p (put_page_ref p 1 (s\<lparr>kmem := k\<rparr>)))"
    note nt = new_table [OF ok False d p k(2) ref]
    have pn: "p < unat (npage s)" "p < 2 ^ 20" using p(1) rep_usable [OF rep] re sh by (auto simp: refs_ok_def shape_ok_def)
    have "table_page (put_page_ref p 1 (s\<lparr>kmem := k\<rparr>)) (page2pa p) = Inr p"
      using npage_page [OF pn(1)] sh unat_page [OF pn(2)] ppn_page2pa [OF pn(2)] by (simp add: table_page_def KADDR_def put_page_ref_def shape_ok_def)
    moreover have "shape_ok ?s pgdir (F - {p})" using nt(1) by (simp add: dir_ok_def)
    note table_page_ok [OF this nt(3)]
    ultimately have "get_pte pmm pgdir la True s = Inr (Some (table_at ?s pgdir ?d, unat (PTX la)), ?s)"
      using np k(1) Some by (simp add: get_pte_def Let_def read_entry_def alloc_pages_def)
    moreover have "pt ?s pgdir = pt s pgdir" using nt(2) by (simp add: fun_eq_iff)
    moreover have "tables ?s pgdir - F = tables s pgdir" using nt(5) p(1) tF by auto
    moreover have "\<forall>q. q \<notin> F \<longrightarrow> page_ref q ?s = page_ref q s" using nt(4) p(1) by metis
    moreover have "F - {p} = F - tables ?s pgdir" using nt(5) p(1) tF by auto
    moreover have "card F = card (F - {p}) + 1" using p(1) rep_usable [OF rep] card_Suc_Diff1 [of F p] by simp
    ultimately show ?thesis using nt(1,3,6-10) False
      by (intro exI [of _ "Some (table_at ?s pgdir ?d, unat (PTX la))"] exI [of _ ?s] exI [of _ "F - {p}"]) auto
  qed
qed

lemma dir_ok_parts:
  assumes "dir_ok rep usable held s pgdir V F"
  shows "rep (kmem s) F" "shape_ok s pgdir F" "refs_ok (usable (kmem s)) held s pgdir V F" "finite V" "usable (kmem s) \<subseteq> {..<unat (npage s)}"
    "v \<in> V \<Longrightarrow> maps s pgdir v q \<Longrightarrow> q \<in> usable (kmem s) - F - tables s pgdir"
    "q \<in> usable (kmem s) - F - tables s pgdir \<Longrightarrow> page_ref q s = int (card {v \<in> V. maps s pgdir v q} + held q)" "q \<in> F \<Longrightarrow> page_ref q s = 0"
  using assms unfolding dir_ok_def refs_ok_def by blast+

lemma dir_ok_put_ref:
  assumes ok: "dir_ok rep usable held s pgdir V F" and q: "q \<in> usable (kmem s) - F - tables s pgdir"
    and i: "i = int (card {v \<in> V. maps s pgdir v q} + n)"
  shows "dir_ok rep usable (held(q := n)) (put_page_ref q i s) pgdir V F"
proof -
  have eq: "ram (put_page_ref q i s) = ram s" "npage (put_page_ref q i s) = npage s" by (simp_all add: put_page_ref_def)
  show ?thesis
    using ok i q shape_ok_cong [OF eq] same_tables [OF eq(1)] put_ref_facts [where p = q and i = i and s = s] by (auto simp: dir_ok_def refs_ok_def)
qed

text \<open>Counting the mappings of a page after one entry has changed.\<close>

lemma count_change:
  assumes "finite V" "v \<in> V" "\<And>w. w \<noteq> v \<Longrightarrow> B w = A w"
  shows "int (card {w \<in> V. B w}) = int (card {w \<in> V. A w}) + (if B v then 1 else 0) - (if A v then 1 else 0)"
proof -
  let ?C = "{w \<in> V - {v}. A w}"
  have split: "{w \<in> V. D w} = (if D v then insert v {w \<in> V - {v}. D w} else {w \<in> V - {v}. D w})" for D using assms(2) by auto
  have "{w \<in> V - {v}. B w} = ?C" using assms(3) by auto
  then have "{w \<in> V. B w} = (if B v then insert v ?C else ?C)" "{w \<in> V. A w} = (if A v then insert v ?C else ?C)"
    using split [of A] split [of B] by simp_all
  moreover have "finite ?C" "v \<notin> ?C" using assms(1) by auto
  ultimately show ?thesis by simp
qed

lemma dir_ok_write:
  assumes ok: "dir_ok rep usable held s pgdir V F" and h: "has_table s pgdir d" and v: "(d, t) \<in> V"
    and new: "\<And>q. x AND PTE_P \<noteq> 0 \<Longrightarrow> q = entry_page x \<Longrightarrow> q \<in> usable (kmem s) - F - tables s pgdir"
    and held': "\<And>q. q \<in> usable (kmem s) - F - tables s pgdir \<Longrightarrow> int (held' q) = int (held q) + (if maps s pgdir (d, t) q then 1 else 0) -
      (if x AND PTE_P \<noteq> 0 \<and> entry_page x = q then 1 else 0)"
  shows "dir_ok rep usable held' (write_entry (table_at s pgdir d, t) x s) pgdir V F"
proof -
  let ?s = "write_entry (table_at s pgdir d, t) x s"
  note p = dir_ok_parts [OF ok] and w = write_entry_pt [OF dir_ok_parts(2) [OF ok] h, where t = t and x = x]
  have m: "maps ?s pgdir u q = (if u = (d, t) then x AND PTE_P \<noteq> 0 \<and> entry_page x = q else maps s pgdir u q)" for u q
    by (simp add: maps_def w(4))
  have "q \<in> usable (kmem s) - F - tables s pgdir" if "u \<in> V" "maps ?s pgdir u q" for u q
    using that p(6) new by (cases "u = (d, t)") (auto simp: m)
  moreover have "page_ref q ?s = int (card {u \<in> V. maps ?s pgdir u q} + held' q)" if q: "q \<in> usable (kmem s) - F - tables s pgdir" for q
    using count_change [OF p(4) v, of "\<lambda>u. maps ?s pgdir u q" "\<lambda>u. maps s pgdir u q"] p(7) [OF q] held' [OF q] w(6) by (simp add: m)
  ultimately show ?thesis using p(1,4,5,8) w by (simp add: dir_ok_def refs_ok_def)
qed

text \<open>Clearing the entry of a mapped page drops a reference and frees the page when it was the last one.\<close>

lemma remove_mapped:
  assumes ok: "dir_ok rep usable held s pgdir V F" and h: "has_table s pgdir (unat (PDX la))" and v: "slot la \<in> V" and m: "maps s pgdir (slot la) q"
  shows "\<exists>s' F'. page_remove_pte pmm pgdir la (table_at s pgdir (unat (PDX la)), unat (PTX la)) s = Inr s' \<and>
    dir_ok rep usable held s' pgdir V F' \<and> F' = (if page_ref q s = 1 then insert q F else F) \<and>
    pt s' pgdir = (pt s pgdir)(slot la := 0) \<and> tables s' pgdir = tables s pgdir \<and> table_at s' pgdir = table_at s pgdir \<and>
    has_table s' pgdir = has_table s pgdir \<and> usable (kmem s') = usable (kmem s) \<and> npage s' = npage s \<and> cr3 s' = cr3 s \<and>
    tlb s' = (if cr3 s = page2pa pgdir then (tlb s)(PPN la := None) else tlb s) \<and> (\<forall>p. p \<noteq> q \<longrightarrow> page_ref p s' = page_ref p s)"
proof -
  let ?d = "unat (PDX la)" and ?t = "unat (PTX la)"
  let ?e = "(table_at s pgdir ?d, ?t)"
  note p = dir_ok_parts [OF ok]
  have q: "q \<in> usable (kmem s) - F - tables s pgdir" using p(6) [OF v m] .
  then have qn: "q < unat (npage s)" using p(5) by auto
  have e: "read_entry s ?e = pt s pgdir (slot la)" using h by (simp add: read_entry_def slot_def)
  then have pq: "pte2page s (read_entry s ?e) = Inr q" "read_entry s ?e AND PTE_P \<noteq> 0"
    using m qn by (auto simp: maps_def pte2page_def pa2page_def entry_page_def word_le_nat_alt)
  define c where "c = card {u \<in> V. maps s pgdir u q}"
  have c: "page_ref q s = int (c + held q)" using p(7) [OF q] by (simp add: c_def)
  have "{u \<in> V. maps s pgdir u q} \<noteq> {}" using v m by blast
  then have c1: "1 \<le> c" unfolding c_def using p(4) by (simp add: Suc_le_eq card_gt_0_iff)
  let ?s1 = "put_page_ref q (page_ref q s - 1) s"
  have eq1: "ram ?s1 = ram s" "npage ?s1 = npage s" by (simp_all add: put_page_ref_def)
  note same = same_tables [OF eq1(1)] and refs = put_ref_facts [where p = q and i = "page_ref q s - 1" and s = s]
  have dec: "page_ref_dec q s = (page_ref q s - 1, ?s1)" using refs(3) by (simp add: page_ref_dec_def Let_def)
  have sh1: "shape_ok ?s1 pgdir F" using shape_ok_cong [OF eq1] p(2) by simp
  let ?s2 = "write_entry ?e 0 ?s1"
  note w = write_entry_pt [OF sh1 h [folded same(1)], where t = ?t and x = 0, unfolded same]
  have m2: "maps ?s2 pgdir u r = (u \<noteq> slot la \<and> maps s pgdir u r)" for u r by (simp add: maps_def w(4) slot_def)
  have cnt: "int (card {u \<in> V. maps ?s2 pgdir u r}) = int (card {u \<in> V. maps s pgdir u r}) - (if r = q then 1 else 0)" for r
  proof -
    have "maps s pgdir (slot la) r \<longleftrightarrow> r = q" using m by (auto simp: maps_def)
    then show ?thesis using count_change [OF p(4) v, of "\<lambda>u. maps ?s2 pgdir u r" "\<lambda>u. maps s pgdir u r"] by (simp add: m2)
  qed
  have refs2: "page_ref r ?s2 = int (card {u \<in> V. maps ?s2 pgdir u r} + held r)" if "r \<in> usable (kmem s) - F - tables s pgdir" for r
    using w(6) refs(3) cnt [of r] p(7) [OF that] by auto
  have map2: "r \<in> usable (kmem s) - F - tables s pgdir" if "u \<in> V" "maps ?s2 pgdir u r" for u r using p(6) that by (simp add: m2)
  have pt2: "pt ?s2 pgdir = (pt s pgdir)(slot la := 0)" using w(4) by (auto simp: fun_eq_iff slot_def)
  show ?thesis
  proof (cases "page_ref q s = 1")
    case False
    let ?s3 = "tlb_invalidate pgdir la ?s2"
    have eq3: "ram ?s3 = ram ?s2" "npage ?s3 = npage ?s2" by simp_all
    note same3 = same_tables [OF eq3(1)]
    have "page_remove_pte pmm pgdir la ?e s = Inr ?s3" using pq dec False by (simp add: page_remove_pte_def)
    moreover have "\<forall>r \<in> F. page_ref r ?s3 = 0" using p(8) refs(3) w(6) q by (auto simp: page_ref_def)
    then have "dir_ok rep usable held ?s3 pgdir V F"
      using refs2 map2 w(3,5,7,8) refs(1,2,5) p(1,4,5) shape_ok_cong [OF eq3] same3 by (simp add: dir_ok_def refs_ok_def page_ref_def)
    ultimately show ?thesis using False pt2 w refs same3
      by (intro exI [of _ ?s3] exI [of _ F]) (simp add: tlb_invalidate_def page_ref_def)
  next
    case True
    have "c = 1" "held q = 0" using c c1 True by auto
    then have c0: "card {u \<in> V. maps ?s2 pgdir u q} = 0" using cnt [of q] by (simp add: c_def)
    have fin: "finite {u \<in> V. maps ?s2 pgdir u q}" by (rule finite_subset [OF _ p(4)]) blast
    have noq: "\<not> maps ?s2 pgdir u q" if "u \<in> V" for u using c0 [unfolded card_0_eq [OF fin]] that by blast
    have "{q..<q + unat (1 :: size_t)} = {q}" by (simp add: atLeastLessThan_singleton)
    then obtain k where k: "free_op pmm q 1 (kmem ?s1) = Inr k" "rep k (F \<union> {q})" "usable k = usable (kmem s)"
      using free_ok [of "kmem ?s1" F 1 q] refs(1,2) p(1) q by auto
    let ?s3 = "tlb_invalidate pgdir la (write_entry ?e 0 (?s1\<lparr>kmem := k\<rparr>))"
    have eq3: "ram ?s3 = ram ?s2" "npage ?s3 = npage ?s2" by (simp_all add: write_entry_def)
    note same3 = same_tables [OF eq3(1)]
    have k3: "kmem ?s3 = k" by (simp add: write_entry_def)
    have r3: "page_ref r ?s3 = page_ref r s" if "r \<noteq> q" for r
    proof -
      have "page_ref r ?s3 = ref (page k r)" unfolding page_ref_def [of r] k3 ..
      also have "\<dots> = page_ref r ?s1" using free_ref [OF k(1), of r] that unfolding page_ref_def [of r] by simp
      finally show ?thesis using refs(3) that by simp
    qed
    have "page_remove_pte pmm pgdir la ?e s = Inr ?s3" using pq dec True k(1) by (simp add: page_remove_pte_def free_pages_def)
    moreover have "shape_ok ?s3 pgdir (insert q F)"
      unfolding shape_ok_cong [OF eq3] by (rule shape_insert [OF w(5)]) (use q w(3) in simp)
    moreover have "refs_ok (usable k) held ?s3 pgdir V (insert q F)"
      unfolding refs_ok_def same3 w(3) k(3) eq3(2) w(7) refs(5)
    proof (intro conjI ballI allI impI)
      show "finite V" "usable (kmem s) \<subseteq> {..<unat (npage s)}" using p(4,5) .
      fix u r assume "u \<in> V" "maps ?s2 pgdir u r"
      then show "r \<in> usable (kmem s) - insert q F - tables s pgdir" using map2 [of u r] noq [of u] by auto
    next
      fix r assume r: "r \<in> usable (kmem s) - insert q F - tables s pgdir"
      then show "page_ref r ?s3 = int (card {u \<in> V. maps ?s2 pgdir u r} + held r)" using refs2 [of r] r3 [of r] w(6) refs(3) by auto
    next
      fix r assume "r \<in> insert q F"
      moreover have "page_ref q ?s3 = ref (page k q)" by (subst page_ref_def) (simp only: k3)
      then have "page_ref q ?s3 = 0" using free_zero [OF k(1), of q] by simp
      ultimately show "page_ref r ?s3 = 0" using p(8) [of r] r3 [of r] by (cases "r = q") auto
    qed
    moreover have "tlb ?s3 = (if cr3 s = page2pa pgdir then (tlb s)(PPN la := None) else tlb s)" "cr3 ?s3 = cr3 s"
      using refs(6,7) by (simp_all add: tlb_invalidate_def write_entry_def)
    moreover have "npage ?s3 = npage s" unfolding eq3 w(7) refs(5) ..
    ultimately have "page_remove_pte pmm pgdir la ?e s = Inr ?s3 \<and> dir_ok rep usable held ?s3 pgdir V (insert q F) \<and>
        pt ?s3 pgdir = (pt s pgdir)(slot la := 0) \<and> tables ?s3 pgdir = tables s pgdir \<and> table_at ?s3 pgdir = table_at s pgdir \<and>
        has_table ?s3 pgdir = has_table s pgdir \<and> usable (kmem ?s3) = usable (kmem s) \<and> npage ?s3 = npage s \<and> cr3 ?s3 = cr3 s \<and>
        tlb ?s3 = (if cr3 s = page2pa pgdir then (tlb s)(PPN la := None) else tlb s) \<and> (\<forall>p. p \<noteq> q \<longrightarrow> page_ref p ?s3 = page_ref p s)"
      unfolding dir_ok_def k3 same3 pt2 w(1,2,3) k(3) using k(2) r3 by simp
    then show ?thesis using True by (intro exI [of _ ?s3] exI [of _ "insert q F"]) simp
  qed
qed

lemma page_remove_ok:
  assumes ok: "dir_ok rep usable held s pgdir V F" and la: "PDX la \<noteq> PDX VPT" and v: "slot la \<in> V"
  shows "if pt s pgdir (slot la) AND PTE_P = 0 then page_remove pmm pgdir la s = Inr s
    else \<exists>s' q. q = entry_page (pt s pgdir (slot la)) \<and> page_remove pmm pgdir la s = Inr s' \<and> pt s' pgdir = (pt s pgdir)(slot la := 0) \<and>
      dir_ok rep usable held s' pgdir V (if page_ref q s = 1 then insert q F else F) \<and> (tlb_ok s pgdir \<longrightarrow> tlb_ok s' pgdir)"
proof (cases "has_table s pgdir (unat (PDX la))")
  case False
  then have "pt s pgdir (slot la) = 0" by (simp add: slot_def)
  then show ?thesis using get_pte_absent [OF False la] by (simp add: page_remove_def)
next
  case True
  note g = get_pte_found [OF dir_ok_parts(2) [OF ok] True, of pmm False]
  let ?e = "(table_at s pgdir (unat (PDX la)), unat (PTX la))"
  have e: "read_entry s ?e = pt s pgdir (slot la)" using True by (simp add: read_entry_def slot_def)
  show ?thesis
  proof (cases "pt s pgdir (slot la) AND PTE_P = 0")
    case absent: True
    then show ?thesis using g e by (simp add: page_remove_def page_remove_pte_def)
  next
    case present: False
    let ?q = "entry_page (pt s pgdir (slot la))"
    have "maps s pgdir (slot la) ?q" using present by (simp add: maps_def)
    from remove_mapped [OF ok True v this] obtain s' where s': "page_remove_pte pmm pgdir la ?e s = Inr s'"
        "dir_ok rep usable held s' pgdir V (if page_ref ?q s = 1 then insert ?q F else F)" "pt s' pgdir = (pt s pgdir)(slot la := 0)" "cr3 s' = cr3 s"
        "tlb s' = (if cr3 s = page2pa pgdir then (tlb s)(PPN la := None) else tlb s)" by blast
    have "tlb_ok s pgdir \<longrightarrow> tlb_ok s' pgdir" using tlb_ok_update [of s pgdir s' la] s'(3-5) by simp
    then show ?thesis using present s'(1-3) g by (simp add: page_remove_def)
  qed
qed

lemma dir_ok_tlb [simp]: "dir_ok rep usable held (tlb_invalidate pgdir la s) pgdir V F = dir_ok rep usable held s pgdir V F"
proof -
  have eq: "ram (tlb_invalidate pgdir la s) = ram s" "npage (tlb_invalidate pgdir la s) = npage s" by simp_all
  show ?thesis using shape_ok_cong [OF eq] same_tables [OF eq(1)] by (simp add: dir_ok_def refs_ok_def page_ref_def)
qed

text \<open>Entering a page for which a reference is held: the reference becomes that of the mapping.\<close>

lemma enter_page:
  assumes ok: "dir_ok rep usable (held(pg := Suc (held pg))) s pgdir V F" and h: "has_table s pgdir (unat (PDX la))" and v: "slot la \<in> V"
    and pg: "pg \<in> usable (kmem s) - F - tables s pgdir" and free: "pt s pgdir (slot la) AND PTE_P = 0" and perm: "perm < 4096"
  shows "dir_ok rep usable held (write_entry (table_at s pgdir (unat (PDX la)), unat (PTX la)) (page2pa pg OR PTE_P OR perm) s) pgdir V F"
proof (rule dir_ok_write [OF ok h])
  let ?x = "page2pa pg OR PTE_P OR perm"
  show "(unat (PDX la), unat (PTX la)) \<in> V" using v by (simp add: slot_def)
  have "pg < 2 ^ 20" using dir_ok_parts(2,5) [OF ok] pg by (auto simp: shape_ok_def)
  then have ep: "entry_page ?x = pg" by (rule entry_page_new [OF _ perm])
  show "q \<in> usable (kmem s) - F - tables s pgdir" if "?x AND PTE_P \<noteq> 0" "q = entry_page ?x" for q using ep pg that(2) by simp
  have nm: "\<not> maps s pgdir (unat (PDX la), unat (PTX la)) q" for q using free by (simp add: maps_def slot_def)
  show "int (held q) = int ((held(pg := Suc (held pg))) q) + (if maps s pgdir (unat (PDX la), unat (PTX la)) q then 1 else 0) -
      (if ?x AND PTE_P \<noteq> 0 \<and> entry_page ?x = q then 1 else 0)" for q
    using nm ep entry_present(1) [of "page2pa pg" perm] by simp
qed

text \<open>The entry of \<open>la\<close> is out of the way after the middle part of \<open>page_insert\<close>, on each of its three branches.\<close>

lemma page_ref_inc_dec: "page_ref_inc q s = (page_ref q s + 1, put_page_ref q (page_ref q s + 1) s)" "page_ref_dec q s = (page_ref q s - 1, put_page_ref q (page_ref q s - 1) s)"
  using put_ref_facts(3) by (simp_all add: page_ref_inc_def page_ref_dec_def Let_def)

lemma inc_ok:
  assumes ok: "dir_ok rep usable held s pgdir V F" and pg: "pg \<in> usable (kmem s) - F - tables s pgdir"
  shows "dir_ok rep usable (held(pg := Suc (held pg))) (snd (page_ref_inc pg s)) pgdir V F"
  unfolding page_ref_inc_dec snd_conv by (rule dir_ok_put_ref [OF ok pg]) (use dir_ok_parts(7) [OF ok pg] in simp)

lemma inc_same:
  fixes s :: vm and pg :: nat
  defines "s2 \<equiv> snd (page_ref_inc pg s)"
  shows "has_table s2 = has_table s" "table_at s2 = table_at s" "tables s2 = tables s" "pt s2 = pt s" "maps s2 = maps s" "ram s2 = ram s"
    "npage s2 = npage s" "cr3 s2 = cr3 s" "tlb s2 = tlb s" "usable (kmem s2) = usable (kmem s)"
proof -
  show r: "ram s2 = ram s" "npage s2 = npage s" "cr3 s2 = cr3 s" "tlb s2 = tlb s" "usable (kmem s2) = usable (kmem s)"
    unfolding s2_def page_ref_inc_dec snd_conv by (rule put_ref_facts)+
  show "has_table s2 = has_table s" "table_at s2 = table_at s" "tables s2 = tables s" "pt s2 = pt s" "maps s2 = maps s" by (rule same_tables [OF r(1)])+
qed

lemma insert_absent:
  assumes ok: "dir_ok rep usable held s pgdir V F" and h: "has_table s pgdir (unat (PDX la))" and v: "slot la \<in> V"
    and pg: "pg \<in> usable (kmem s) - F - tables s pgdir" and free: "pt s pgdir (slot la) AND PTE_P = 0" and perm: "perm < 4096"
  defines "s2 \<equiv> snd (page_ref_inc pg s)"
  shows "dir_ok rep usable held (write_entry (table_at s pgdir (unat (PDX la)), unat (PTX la)) (page2pa pg OR PTE_P OR perm) s2) pgdir V F"
    "cleared pgdir la pg s F s2 F"
proof -
  note ok2 = inc_ok [OF ok pg] and same = inc_same [of pg s]
  show "dir_ok rep usable held (write_entry (table_at s pgdir (unat (PDX la)), unat (PTX la)) (page2pa pg OR PTE_P OR perm) s2) pgdir V F"
    using enter_page [OF ok2 _ v _ _ perm] h pg free unfolding same s2_def by simp
  have "{q. maps s pgdir (slot la) q \<and> q \<noteq> pg \<and> page_ref q s = 1} = {}" using free by (simp add: maps_def)
  then show "cleared pgdir la pg s F s2 F" using dir_ok_parts(2) [OF ok2] pg unfolding cleared_def same s2_def by auto
qed

lemma insert_same_page:
  assumes ok: "dir_ok rep usable held s pgdir V F" and h: "has_table s pgdir (unat (PDX la))" and v: "slot la \<in> V"
    and pg: "pg \<in> usable (kmem s) - F - tables s pgdir" and m: "maps s pgdir (slot la) pg" and perm: "perm < 4096"
  defines "s3 \<equiv> snd (page_ref_dec pg (snd (page_ref_inc pg s)))"
  shows "dir_ok rep usable held (write_entry (table_at s pgdir (unat (PDX la)), unat (PTX la)) (page2pa pg OR PTE_P OR perm) s3) pgdir V F"
    "cleared pgdir la pg s F s3 F"
proof -
  let ?x = "page2pa pg OR PTE_P OR perm" and ?s2 = "snd (page_ref_inc pg s)"
  note ok2 = inc_ok [OF ok pg] and same = inc_same [of pg s]
  have s3: "s3 = put_page_ref pg (page_ref pg ?s2 - 1) ?s2" unfolding s3_def page_ref_inc_dec(2) snd_conv ..
  note refs3 = put_ref_facts [where p = pg and i = "page_ref pg ?s2 - 1" and s = ?s2, folded s3]
  note same3 = same_tables [OF refs3(4)]
  have pg2: "pg \<in> usable (kmem ?s2) - F - tables ?s2 pgdir" using pg same by simp
  have "dir_ok rep usable (held(pg := Suc (held pg), pg := held pg)) s3 pgdir V F"
    unfolding s3_def page_ref_inc_dec(2) snd_conv by (rule dir_ok_put_ref [OF ok2 pg2]) (use dir_ok_parts(7) [OF ok2 pg2] in simp)
  then have ok3: "dir_ok rep usable held s3 pgdir V F" by simp
  have pg3: "pg \<in> usable (kmem s3) - F - tables s3 pgdir" using pg2 unfolding refs3(1) same3 .
  have "pg < 2 ^ 20" using dir_ok_parts(2,5) [OF ok] pg by (auto simp: shape_ok_def)
  then have ep: "entry_page ?x = pg" by (rule entry_page_new [OF _ perm])
  have m3: "maps s3 pgdir (unat (PDX la), unat (PTX la)) q \<longleftrightarrow> q = pg" for q
    using m unfolding same3 same by (auto simp: maps_def slot_def)
  have "dir_ok rep usable held (write_entry (table_at s3 pgdir (unat (PDX la)), unat (PTX la)) ?x s3) pgdir V F"
  proof (rule dir_ok_write [OF ok3])
    show "has_table s3 pgdir (unat (PDX la))" using h unfolding same3 same .
    show "(unat (PDX la), unat (PTX la)) \<in> V" using v by (simp add: slot_def)
  qed (use ep pg3 m3 entry_present(1) [of "page2pa pg" perm] in auto)
  then show "dir_ok rep usable held (write_entry (table_at s pgdir (unat (PDX la)), unat (PTX la)) ?x s3) pgdir V F" unfolding same3 same .
  have "{q. maps s pgdir (slot la) q \<and> q \<noteq> pg \<and> page_ref q s = 1} = {}" using m by (auto simp: maps_def)
  then show "cleared pgdir la pg s F s3 F"
    using dir_ok_parts(2) [OF ok3] pg unfolding cleared_def same3 same refs3(6,7) by auto
qed

lemma insert_other_page:
  assumes ok: "dir_ok rep usable held s pgdir V F" and h: "has_table s pgdir (unat (PDX la))" and v: "slot la \<in> V"
    and pg: "pg \<in> usable (kmem s) - F - tables s pgdir" and m: "maps s pgdir (slot la) p" "p \<noteq> pg" and perm: "perm < 4096"
  defines "e \<equiv> (table_at s pgdir (unat (PDX la)), unat (PTX la))"
  shows "\<exists>s3 F3. page_remove_pte pmm pgdir la e (snd (page_ref_inc pg s)) = Inr s3 \<and>
    dir_ok rep usable held (write_entry e (page2pa pg OR PTE_P OR perm) s3) pgdir V F3 \<and> cleared pgdir la pg s F s3 F3"
proof -
  let ?s2 = "snd (page_ref_inc pg s)"
  note ok2 = inc_ok [OF ok pg] and same = inc_same [of pg s]
  let ?F3 = "if page_ref p ?s2 = 1 then insert p F else F"
  obtain s3 where s3: "page_remove_pte pmm pgdir la e ?s2 = Inr s3" "dir_ok rep usable (held(pg := Suc (held pg))) s3 pgdir V ?F3"
      "pt s3 pgdir = (pt s pgdir)(slot la := 0)" "tables s3 pgdir = tables s pgdir" "table_at s3 pgdir = table_at s pgdir"
      "has_table s3 pgdir = has_table s pgdir" "usable (kmem s3) = usable (kmem s)" "cr3 s3 = cr3 s"
      "tlb s3 = (if cr3 s = page2pa pgdir then (tlb s)(PPN la := None) else tlb s)"
    using remove_mapped [OF ok2, of la p] h v m(1) unfolding same e_def by blast
  have pg3: "pg \<in> usable (kmem s3) - ?F3 - tables s3 pgdir" using pg m(2) unfolding s3(4,7) by auto
  have "dir_ok rep usable held (write_entry e (page2pa pg OR PTE_P OR perm) s3) pgdir V ?F3"
    using enter_page [OF s3(2) _ v pg3 _ perm] h unfolding s3(3,5,6) e_def by simp
  moreover have "page_ref p ?s2 = page_ref p s" using m(2) put_ref_facts(3) by (simp add: page_ref_inc_dec)
  then have "?F3 = F \<union> {q. maps s pgdir (slot la) q \<and> q \<noteq> pg \<and> page_ref q s = 1}" using m by (auto simp: maps_def)
  then have "cleared pgdir la pg s F s3 ?F3"
    using dir_ok_parts(2) [OF s3(2)] pg3 unfolding cleared_def s3(3,5,6,8,9) by auto
  ultimately show ?thesis using s3(1) by blast
qed

lemma insert_middle:
  assumes ok: "dir_ok rep usable held s pgdir V F" and h: "has_table s pgdir (unat (PDX la))" and v: "slot la \<in> V"
    and pg: "pg \<in> usable (kmem s) - F - tables s pgdir" and perm: "perm < 4096"
  defines "e \<equiv> (table_at s pgdir (unat (PDX la)), unat (PTX la))" and "s2 \<equiv> snd (page_ref_inc pg s)"
  shows "\<exists>s3 F3. (if read_entry s2 e AND PTE_P \<noteq> 0 then andThen (pte2page s2 (read_entry s2 e)) (\<lambda>p.
        if p = pg then Inr (snd (page_ref_dec pg s2)) else page_remove_pte pmm pgdir la e s2) else Inr s2) = Inr s3 \<and>
    dir_ok rep usable held (write_entry e (page2pa pg OR PTE_P OR perm) s3) pgdir V F3 \<and> cleared pgdir la pg s F s3 F3"
proof -
  have rd: "read_entry s2 e = pt s pgdir (slot la)" using h inc_same(6) [of pg s] by (simp add: read_entry_def slot_def s2_def e_def)
  show ?thesis
  proof (cases "pt s pgdir (slot la) AND PTE_P = 0")
    case True
    show ?thesis unfolding rd using True insert_absent [OF ok h v pg True perm] by (auto simp: s2_def e_def)
  next
    case present: False
    let ?p = "entry_page (pt s pgdir (slot la))"
    have m: "maps s pgdir (slot la) ?p" using present by (simp add: maps_def)
    have "?p < unat (npage s)" using dir_ok_parts(5) [OF ok] dir_ok_parts(6) [OF ok v m] by auto
    then have p2: "pte2page s2 (pt s pgdir (slot la)) = Inr ?p"
      using present inc_same(7) [of pg s] by (auto simp: pte2page_def pa2page_def entry_page_def word_le_nat_alt s2_def)
    show ?thesis
    proof (cases "?p = pg")
      case True
      then show ?thesis unfolding rd using p2 present insert_same_page [OF ok h v pg m [unfolded True] perm] by (auto simp: s2_def e_def)
    next
      case False
      then show ?thesis unfolding rd using p2 present insert_other_page [OF ok h v pg m False perm] by (simp add: s2_def e_def)
    qed
  qed
qed

lemma page_insert_ok:
  assumes ok: "dir_ok rep usable held s pgdir V F" and la: "PDX la \<noteq> PDX VPT" and v: "slot la \<in> V" and pg: "pg \<in> usable (kmem s) - F - tables s pgdir" and perm: "perm < 4096"
  shows "\<exists>r s' F'. page_insert pmm pgdir pg la perm s = Inr (r, s') \<and> dir_ok rep usable held s' pgdir V F' \<and> (tlb_ok s pgdir \<longrightarrow> tlb_ok s' pgdir) \<and>
    (r = 0 \<and> pt s' pgdir = (pt s pgdir)(slot la := page2pa pg OR PTE_P OR perm) \<and>
       F' = F - tables s' pgdir \<union> {q. maps s pgdir (slot la) q \<and> q \<noteq> pg \<and> page_ref q s = 1} \<and> pg \<notin> F' \<or>
     r = - E_NO_MEM \<and> F = {} \<and> \<not> has_table s pgdir (unat (PDX la)) \<and> pt s' pgdir = pt s pgdir \<and> F' = {})"
proof -
  let ?d = "unat (PDX la)" and ?x = "page2pa pg OR PTE_P OR perm"
  obtain r s1 F1 where g: "get_pte pmm pgdir la True s = Inr (r, s1)" "dir_ok rep usable held s1 pgdir V F1" "F1 = F - tables s1 pgdir" "pt s1 pgdir = pt s pgdir"
      "\<forall>q. q \<notin> F \<longrightarrow> page_ref q s1 = page_ref q s" "tables s1 pgdir - F = tables s pgdir" "usable (kmem s1) = usable (kmem s)" "cr3 s1 = cr3 s" "tlb s1 = tlb s"
      "case r of None \<Rightarrow> F = {} \<and> \<not> has_table s pgdir ?d
       | Some e \<Rightarrow> has_table s1 pgdir ?d \<and> e = (table_at s1 pgdir ?d, unat (PTX la)) \<and>
         (\<forall>d. has_table s1 pgdir d \<longleftrightarrow> d = ?d \<or> has_table s pgdir d) \<and> card F = card F1 + (if has_table s pgdir ?d then 0 else 1)"
    using get_pte_create [OF ok la] by blast
  show ?thesis
  proof (cases r)
    case None
    then have "tlb_ok s pgdir \<longrightarrow> tlb_ok s1 pgdir" using g(4,8,9) by (simp add: tlb_ok_def)
    then show ?thesis using None g by (intro exI [of _ "- E_NO_MEM"] exI [of _ s1] exI [of _ F1]) (simp add: page_insert_def)
  next
    case (Some e)
    let ?e = "(table_at s1 pgdir ?d, unat (PTX la))"
    have h1: "has_table s1 pgdir ?d" and e: "e = ?e" using Some g(10) by auto
    have pg1: "pg \<in> usable (kmem s1) - F1 - tables s1 pgdir" using pg g(3,6,7) by blast
    obtain s3 F3 where s3: "(let s2 = snd (page_ref_inc pg s1) in if read_entry s2 ?e AND PTE_P \<noteq> 0 then andThen (pte2page s2 (read_entry s2 ?e)) (\<lambda>p.
          if p = pg then Inr (snd (page_ref_dec pg s2)) else page_remove_pte pmm pgdir la ?e s2) else Inr s2) = Inr s3"
        "dir_ok rep usable held (write_entry ?e ?x s3) pgdir V F3" "cleared pgdir la pg s1 F1 s3 F3"
      using insert_middle [OF g(2) h1 v pg1 perm] unfolding Let_def by blast
    let ?w = "write_entry ?e ?x s3" and ?s = "tlb_invalidate pgdir la (write_entry ?e ?x s3)"
    have run: "page_insert pmm pgdir pg la perm s = Inr (0, ?s)" using s3(1) unfolding page_insert_def g(1) Some e by (simp add: Let_def)
    have c: "has_table s3 pgdir = has_table s1 pgdir" "shape_ok s3 pgdir F3" "table_at s3 pgdir = table_at s1 pgdir" "\<forall>u. u \<noteq> slot la \<longrightarrow> pt s3 pgdir u = pt s pgdir u"
        "cr3 s3 = cr3 s" "cr3 s = page2pa pgdir \<longrightarrow> (tlb s3)(PPN la := None) = (tlb s)(PPN la := None)" "pg \<notin> F3"
        "F3 = F1 \<union> {q. maps s pgdir (slot la) q \<and> q \<noteq> pg \<and> page_ref q s1 = 1}"
      using s3(3) unfolding cleared_def maps_def g(4,8,9) by blast+
    note w = write_entry_pt [OF c(2) h1 [folded c(1)], where t = "unat (PTX la)" and x = ?x, unfolded c(3)]
    have "pt ?s pgdir u = ((pt s pgdir)(slot la := ?x)) u" for u
    proof -
      have "pt ?s pgdir u = pt ?w pgdir u" using same_tables(4) [of ?s ?w] by simp
      then show ?thesis using w(4) [of u] c(4) [rule_format, of u] by (auto simp: slot_def)
    qed
    then have pts: "pt ?s pgdir = (pt s pgdir)(slot la := ?x)" by blast
    have tables_s: "tables ?s pgdir = tables s1 pgdir" using same_tables(3) [of ?s ?w] w(3) c(1,3) by (simp add: tables_def)
    have "tlb_ok s pgdir \<longrightarrow> tlb_ok ?s pgdir"
    proof
      assume "tlb_ok s pgdir"
      then show "tlb_ok ?s pgdir"
      proof (rule tlb_ok_update)
        show "\<forall>u. u \<noteq> slot la \<longrightarrow> pt ?s pgdir u = pt s pgdir u" unfolding pts by (metis fun_upd_other)
        show "tlb ?s = (tlb s)(PPN la := None)" if "cr3 s = page2pa pgdir" using that c(5,6) w(9,10) by (simp add: tlb_invalidate_def)
        show "cr3 ?s = cr3 s" using c(5) w(9) by (simp add: tlb_invalidate_def)
      qed
    qed
    moreover have "page_ref q s1 = page_ref q s" if "maps s pgdir (slot la) q" for q using dir_ok_parts(6) [OF ok v that] g(5) by blast
    then have "F3 = F - tables ?s pgdir \<union> {q. maps s pgdir (slot la) q \<and> q \<noteq> pg \<and> page_ref q s = 1}"
      using c(8) g(3) tables_s by auto
    ultimately show ?thesis using run pts s3(2) c(7) by (intro exI [of _ 0] exI [of _ ?s] exI [of _ F3]) simp
  qed
qed

text \<open>An allocated page has no references.\<close>

lemma alloc_page_ok:
  assumes ok: "dir_ok rep usable held s pgdir V F" and F: "F \<noteq> {}"
  shows "\<exists>p s'. alloc_pages pmm 1 s = Inr (Some p, s') \<and> p \<in> F \<and> dir_ok rep usable (held(p := 0)) s' pgdir V (F - {p}) \<and> ram s' = ram s \<and>
    (\<forall>q. page_ref q s' = page_ref q s) \<and> usable (kmem s') = usable (kmem s) \<and> npage s' = npage s \<and> cr3 s' = cr3 s \<and> tlb s' = tlb s"
proof -
  note parts = dir_ok_parts [OF ok]
  obtain p k where k: "alloc_op pmm 1 (kmem s) = Inr (Some p, k)" using alloc_one [OF parts(1) F] by blast
  have "{p..<p + unat (1 :: size_t)} = {p}" by (simp add: atLeastLessThan_singleton)
  then have p: "p \<in> F" "rep k (F - {p})" "usable k = usable (kmem s)" using alloc_some [OF parts(1) _ k] by simp_all
  let ?s = "s\<lparr>kmem := k\<rparr>"
  have eq: "ram ?s = ram s" "npage ?s = npage s" by simp_all
  have ref: "page_ref q ?s = page_ref q s" for q using alloc_ref [OF k] by (simp add: page_ref_def)
  have "{v \<in> V. maps s pgdir v p} = {}" using parts(6) p(1) by blast
  then have "page_ref p s = int (card {v \<in> V. maps s pgdir v p} + 0)" using parts(8) [OF p(1)] by (simp only: card.empty add_0 of_nat_0)
  then have "page_ref q s = int (card {v \<in> V. maps s pgdir v q} + (held(p := 0)) q)" if "q \<in> usable (kmem s) - (F - {p}) - tables s pgdir" for q
    using parts(7) [of q] that by (cases "q = p") auto
  moreover have "q \<in> usable (kmem s) - (F - {p}) - tables s pgdir" if "v \<in> V" "maps s pgdir v q" for v q using parts(6) [OF that] by blast
  ultimately have "refs_ok (usable k) (held(p := 0)) ?s pgdir V (F - {p})"
    using parts(4,5,8) same_tables [OF eq(1)] ref p(3) by (simp add: refs_ok_def)
  moreover have "shape_ok s pgdir (F - {p})" using parts(2) by (simp add: shape_ok_def)
  ultimately have "dir_ok rep usable (held(p := 0)) ?s pgdir V (F - {p})" using p shape_ok_cong [OF eq] by (simp add: dir_ok_def)
  then show ?thesis using k p ref by (intro exI [of _ p] exI [of _ ?s]) (simp add: alloc_pages_def)
qed

text \<open>\<open>boot_map_segment\<close> enters consecutive pages whose mappings are not counted.\<close>

lemma dir_ok_write_uncounted:
  assumes ok: "dir_ok rep usable held s pgdir V F" and h: "has_table s pgdir d" and v: "(d, t) \<notin> V"
  shows "dir_ok rep usable held (write_entry (table_at s pgdir d, t) x s) pgdir V F"
proof -
  note p = dir_ok_parts [OF ok] and w = write_entry_pt [OF dir_ok_parts(2) [OF ok] h, where t = t and x = x]
  have m: "maps (write_entry (table_at s pgdir d, t) x s) pgdir u q = maps s pgdir u q" if "u \<in> V" for u q
    using that v by (auto simp: maps_def w(4))
  then have "{u \<in> V. maps (write_entry (table_at s pgdir d, t) x s) pgdir u q} = {u \<in> V. maps s pgdir u q}" for q by blast
  then show ?thesis using ok m w by (simp add: dir_ok_def refs_ok_def)
qed

lemma map_loop_ok:
  assumes "dir_ok rep usable held s pgdir V F" "n \<le> 2 ^ 20" "\<forall>i < n. slot (la + of_nat i * PGSIZE) \<notin> V \<and> PDX (la + of_nat i * PGSIZE) \<noteq> PDX VPT"
    "card {d \<in> (\<lambda>i. fst (slot (la + of_nat i * PGSIZE))) ` {..<n}. \<not> has_table s pgdir d} \<le> card F"
  shows "\<exists>s' F'. map_loop pmm pgdir n la pa perm s = Inr s' \<and> dir_ok rep usable held s' pgdir V F' \<and>
    (\<forall>i < n. pt s' pgdir (slot (la + of_nat i * PGSIZE)) = (pa + of_nat i * PGSIZE) OR PTE_P OR perm) \<and>
    (\<forall>v. v \<notin> (\<lambda>i. slot (la + of_nat i * PGSIZE)) ` {..<n} \<longrightarrow> pt s' pgdir v = pt s pgdir v)"
  using assms
proof (induction n arbitrary: la pa s F)
  case (Suc n)
  let ?d = "unat (PDX la)" and ?x = "pa OR PTE_P OR perm" and ?L = "\<lambda>i. la + PGSIZE + of_nat i * PGSIZE"
  have L: "?L i = la + of_nat (Suc i) * PGSIZE" for i by (simp add: algebra_simps)
  let ?M = "{d \<in> (\<lambda>i. fst (slot (la + of_nat i * PGSIZE))) ` {..<Suc n}. \<not> has_table s pgdir d}"
  have finM: "finite ?M" by simp
  have dM: "?d \<in> ?M" if "\<not> has_table s pgdir ?d" using that by (auto simp: slot_def intro!: image_eqI [of _ _ 0])
  have la0: "PDX la \<noteq> PDX VPT" using Suc.prems(3) [rule_format, of 0] by simp
  obtain r s1 F1 where g: "get_pte pmm pgdir la True s = Inr (r, s1)" "dir_ok rep usable held s1 pgdir V F1" "pt s1 pgdir = pt s pgdir"
      "case r of None \<Rightarrow> F = {} \<and> \<not> has_table s pgdir ?d
       | Some e \<Rightarrow> has_table s1 pgdir ?d \<and> e = (table_at s1 pgdir ?d, unat (PTX la)) \<and>
         (\<forall>d. has_table s1 pgdir d \<longleftrightarrow> d = ?d \<or> has_table s pgdir d) \<and> card F = card F1 + (if has_table s pgdir ?d then 0 else 1)"
    using get_pte_create [OF Suc.prems(1) la0] by blast
  have "r \<noteq> None"
  proof
    assume "r = None"
    then have "card F = 0" "?M \<noteq> {}" using g(4) dM by force+
    then show False using Suc.prems(4) card_gt_0_iff [of ?M] finM by linarith
  qed
  then obtain e where "r = Some e" by blast
  then have r: "r = Some (table_at s1 pgdir ?d, unat (PTX la))" "has_table s1 pgdir ?d" "\<And>d. has_table s1 pgdir d \<longleftrightarrow> d = ?d \<or> has_table s pgdir d"
      "card F = card F1 + (if has_table s pgdir ?d then 0 else 1)" using g(4) by auto
  let ?s2 = "write_entry (table_at s1 pgdir ?d, unat (PTX la)) ?x s1"
  note w = write_entry_pt [OF dir_ok_parts(2) [OF g(2)] r(2), where t = "unat (PTX la)" and x = ?x]
  have v0: "(?d, unat (PTX la)) \<notin> V" using Suc.prems(3) [rule_format, of 0] by (simp add: slot_def)
  have V': "\<forall>i < n. slot (?L i) \<notin> V \<and> PDX (?L i) \<noteq> PDX VPT" unfolding L using Suc.prems(3) by (metis Suc_less_eq)
  let ?M' = "{d \<in> (\<lambda>i. fst (slot (?L i))) ` {..<n}. \<not> has_table ?s2 pgdir d}"
  have "(\<lambda>i. fst (slot (?L i))) ` {..<n} \<subseteq> (\<lambda>i. fst (slot (la + of_nat i * PGSIZE))) ` {..<Suc n}" unfolding L by blast
  then have "?M' \<subseteq> ?M - {?d}" unfolding w(1) r(3) by blast
  then have "card ?M' \<le> card (?M - {?d})" by (intro card_mono) simp_all
  also have "\<dots> \<le> card F1" using Suc.prems(4) dM r(4) finM by (auto simp: card_Diff_singleton_if split: if_splits)
  finally have M': "card ?M' \<le> card F1" .
  obtain s' F' where s': "map_loop pmm pgdir n (la + PGSIZE) (pa + PGSIZE) perm ?s2 = Inr s'" "dir_ok rep usable held s' pgdir V F'"
      "\<forall>i < n. pt s' pgdir (slot (?L i)) = (pa + PGSIZE + of_nat i * PGSIZE) OR PTE_P OR perm"
      "\<forall>v. v \<notin> (\<lambda>i. slot (?L i)) ` {..<n} \<longrightarrow> pt s' pgdir v = pt ?s2 pgdir v"
    using Suc.IH [OF dir_ok_write_uncounted [OF g(2) r(2) v0] _ V' M', where pa = "pa + PGSIZE"] Suc.prems(2) by auto
  have "slot (la + of_nat (Suc i) * PGSIZE) \<noteq> slot la" if "i < n" for i by (rule slot_step) (use Suc.prems(2) that in simp_all)
  then have "slot la \<notin> (\<lambda>i. slot (?L i)) ` {..<n}" unfolding L by (metis (no_types, lifting) imageE lessThan_iff)
  then have s0: "pt s' pgdir (slot la) = ?x" using s'(4) w(4) [of "slot la"] by (metis slot_def)
  have "pt s' pgdir (slot (la + of_nat i * PGSIZE)) = (pa + of_nat i * PGSIZE) OR PTE_P OR perm" if "i < Suc n" for i
  proof (cases i)
    case (Suc j)
    then show ?thesis using s'(3) [rule_format, of j] that L [of j] by (simp add: algebra_simps)
  qed (use s0 in simp)
  moreover have "pt s' pgdir v = pt s pgdir v" if v: "v \<notin> (\<lambda>i. slot (la + of_nat i * PGSIZE)) ` {..<Suc n}" for v
  proof -
    have "v \<notin> (\<lambda>i. slot (?L i)) ` {..<n}" unfolding L using v by blast
    moreover have "v \<noteq> slot la" using v by (auto simp: image_iff dest: bspec [of _ _ 0])
    ultimately show ?thesis using s'(4) w(4) [of v] g(3) by (metis slot_def)
  qed
  ultimately show ?case using s'(1,2) g(1) r(1) by (intro exI [of _ s'] exI [of _ F']) simp
qed (use assms in auto)

end

section \<open>The first-fit allocator and the reference counts\<close>

lemma ref_upd [simp]:
  "ref (page (SetPageProperty p s) q) = ref (page s q)"
  "ref (page (ClearPageProperty p s) q) = ref (page s q)"
  "ref (page (set_page_ref p v s) q) = (if q = p then v else ref (page s q))"
  "ref (page (set_flags p w s) q) = ref (page s q)"
  "ref (page (set_property p w s) q) = ref (page s q)"
  "ref (page (on_links f s) q) = ref (page s q)"
  by (simp_all add: page_op_defs)

lemma default_alloc_ref: "default_alloc_pages n k = Inr (r, k') \<Longrightarrow> ref (page k' q) = ref (page k q)"
  by (auto simp: default_alloc_pages_def take_block_def Let_def andThen_def split: if_splits sum.splits entry.splits)

lemma free_loop_ref: "free_pages_loop p m k = Inr k' \<Longrightarrow> ref (page k' q) = (if q \<in> {p..<p + m} then 0 else ref (page k q))"
  by (induction p m k rule: free_pages_loop.induct) (auto split: if_splits)

lemma merge_step_ref: "ref (page (snd (merge_step p base k)) q) = ref (page k q)"
  by (simp add: merge_step_def)

lemma merge_loop_ref: "merge_loop le base k = Some r \<Longrightarrow> ref (page (snd r) q) = ref (page k q)"
  by (rule merge_loop.raw_induct [where P = "\<lambda>le base k r. ref (page (snd r) q) = ref (page k q)"])
    (auto simp: merge_step_ref split: entry.splits)

lemma default_free_ref:
  assumes "default_free_pages b n k = Inr k'"
  shows "ref (page k' q) = (if q \<in> {b..<b + unat n} then 0 else ref (page k q))"
  using assms free_loop_ref [of b "unat n" k _ q]
  by (auto simp: default_free_pages_def andThen_def loop_result_def dest!: merge_loop_ref [where q = q] split: if_splits sum.splits option.splits)

lemma set_ref_inv: "ff_inv N (set_page_ref p i k) bs = ff_inv N k bs"
  by (simp add: ff_inv_def pages_ok_def)

interpretation pm: page_manager "ff_rep max_pages" "usable_pages max_pages" "reserved_pages max_pages" default_init default_pmm_manager
proof (rule page_manager.intro)
  show "pmm_manager (ff_rep max_pages) (usable_pages max_pages) (reserved_pages max_pages) default_init (init_memmap_op default_pmm_manager)
      (alloc_op default_pmm_manager) (free_op default_pmm_manager) (nr_free_op default_pmm_manager)"
    using ff.pmm_manager_axioms by (simp add: default_pmm_manager_def)
  show "page_manager_axioms (ff_rep max_pages) (usable_pages max_pages) default_pmm_manager"
    by (rule page_manager_axioms.intro)
      (auto simp: default_pmm_manager_def ff_rep_def usable_pages_def set_ref_inv default_alloc_ref default_free_ref)
qed

section \<open>A small machine for the witnesses\<close>

lemma init_loop_ref: "init_memmap_loop base n p k s = Inr s' \<Longrightarrow> \<forall>q. ref (page s q) = 0 \<Longrightarrow> ref (page s' q) = 0"
  by (induction base n p k s rule: init_memmap_loop.induct) (auto simp: Let_def split: if_splits)

lemma init_memmap_ref: "default_init_memmap base n s = Inr s' \<Longrightarrow> \<forall>q. ref (page s q) = 0 \<Longrightarrow> ref (page s' q) = 0"
  by (auto simp: default_init_memmap_def andThen_def split: if_splits sum.splits dest: init_loop_ref)

lemma demo_vm:
  assumes "finite V"
  shows "\<exists>s. dir_ok (ff_rep max_pages) (usable_pages max_pages) (\<lambda>_. 0) s 30 V ({0..<4} \<union> {16..<25}) \<and> tlb_ok s 30 \<and> ram s = (\<lambda>_ _. 0) \<and> npage s = 32"
proof -
  obtain k1 k where k: "default_init_memmap 0 4 (default_init demo_mem) = Inr k1" "default_init_memmap 16 9 k1 = Inr k"
      "ff_inv max_pages k [(0, 4), (16, 9)]" "\<forall>q. PageReserved q k \<longleftrightarrow> q \<notin> {0..<4} \<union> {16..<25}"
    using demo_two_blocks by blast
  have "\<forall>q. ref (page (default_init demo_mem) q) = 0" by (simp add: default_init_def demo_mem_def on_links_def)
  then have ref: "ref (page k q) = 0" for q using init_memmap_ref [OF k(1)] init_memmap_ref [OF k(2)] by blast
  let ?s = "\<lparr>kmem = k, ram = \<lambda>_ _. 0, npage = 32, cr3 = page2pa 30, tlb = \<lambda>_. None\<rparr>" and ?F = "{0..<4} \<union> {16..<25} :: nat set"
  have "?F \<subseteq> {..<max_pages}" by (auto simp: max_pages_def)
  moreover have "usable_pages max_pages k = {p. p < max_pages \<and> p \<in> ?F}" unfolding usable_pages_def using k(4) by presburger
  ultimately have us: "usable_pages max_pages k = ?F" by blast
  have nt: "\<not> has_table ?s 30 d" for d by (simp add: has_table_def)
  have "shape_ok ?s 30 ?F" using nt by (simp add: shape_ok_def)
  moreover have "ff_rep max_pages k ?F" using ff_repI [OF k(3)] by simp
  moreover have "refs_ok ?F (\<lambda>_. 0) ?s 30 V ?F" using assms ref nt by (auto simp: refs_ok_def maps_def page_ref_def)
  ultimately have "dir_ok (ff_rep max_pages) (usable_pages max_pages) (\<lambda>_. 0) ?s 30 V ?F" using us by (simp add: dir_ok_def)
  then show ?thesis by (intro exI [of _ ?s]) (simp add: tlb_ok_def)
qed

text \<open>The same machine with one page taken, to be mapped.\<close>

lemma demo_vm_page:
  assumes "finite V"
  shows "\<exists>s F p. dir_ok (ff_rep max_pages) (usable_pages max_pages) (\<lambda>_. 0) s 30 V F \<and> tlb_ok s 30 \<and> ram s = (\<lambda>_ _. 0) \<and>
    p \<in> usable_pages max_pages (kmem s) - F - tables s 30 \<and> F \<noteq> {}"
proof -
  let ?F = "{0..<4} \<union> {16..<25} :: nat set"
  obtain s where s: "dir_ok (ff_rep max_pages) (usable_pages max_pages) (\<lambda>_. 0) s 30 V ?F" "tlb_ok s 30" "ram s = (\<lambda>_ _. 0)"
    using demo_vm [OF assms] by blast
  have "?F \<noteq> {}" by auto
  from pm.alloc_page_ok [OF s(1) this] obtain p s' where s': "p \<in> ?F" "dir_ok (ff_rep max_pages) (usable_pages max_pages) ((\<lambda>_. 0)(p := 0)) s' 30 V (?F - {p})"
      "ram s' = ram s" "usable_pages max_pages (kmem s') = usable_pages max_pages (kmem s)" "cr3 s' = cr3 s" "tlb s' = tlb s" by blast
  have "p \<in> usable_pages max_pages (kmem s)" using s'(1) pm.rep_usable [OF pm.dir_ok_parts(1) [OF s(1)]] by blast
  moreover have "tables s' 30 = {30}" using s(3) s'(3) by (simp add: tables_def has_table_def)
  moreover have "tlb_ok s' 30" using s(2) s'(3,5,6) same_tables(4) [of s' s] by (simp add: tlb_ok_def)
  moreover have "(if p = 0 then 1 else 0) \<in> ?F - {p}" by simp
  then have "?F - {p} \<noteq> {}" by blast
  moreover have "p \<noteq> 30" using s'(1) by auto
  ultimately show ?thesis using s'(2,3,4) s(3) by (intro exI [of _ s'] exI [of _ "?F - {p}"] exI [of _ p]) (simp add: fun_upd_idem)
qed

end
