(* ===== verification/Memory_Detect.thy ===== *)
theory Memory_Detect
  imports Page_Map
begin

text \<open>
  What \<open>page_init\<close> of \<open>lab2/kern/mm/pmm.c\<close> makes of the memory map of the firmware: the free pages are exactly the whole pages of the usable
  ranges behind the kernel and the page descriptors.
\<close>

section \<open>Rounding\<close>

lemma unat_ROUNDDOWN: "unat (ROUNDDOWN a PGSIZE) = unat a div 4096 * 4096"
proof -
  have m: "unat (a mod 4096) = unat a mod 4096" by (simp add: unat_mod_distrib)
  then have "unat (a - a mod 4096) = unat a - unat a mod 4096" by (subst unat_sub) (simp_all add: word_le_nat_alt)
  then show ?thesis by (simp add: ROUNDDOWN_def PGSIZE_def minus_mod_eq_div_mult)
qed

lemma unat_ROUNDUP: "unat a + 4095 < 2 ^ 32 \<Longrightarrow> unat (ROUNDUP a PGSIZE) = (unat a + 4095) div 4096 * 4096"
proof -
  assume "unat a + 4095 < 2 ^ 32"
  then have "unat (a + 4095) = unat a + 4095" by (simp add: unat_word_ariths)
  moreover have "a + PGSIZE - 1 = a + 4095" by (simp add: PGSIZE_def)
  ultimately have "unat (a + PGSIZE - 1) = unat a + 4095" by (simp only:)
  then show ?thesis using unat_ROUNDDOWN [of "a + PGSIZE - 1"] by (simp add: ROUNDUP_def)
qed

section \<open>The usable pages of a map entry\<close>

definition arm_page :: "uint32 \<Rightarrow> e820entry \<Rightarrow> nat \<Rightarrow> bool" where
  "arm_page freemem m p \<longleftrightarrow> e_type m = E820_ARM \<and> unat freemem \<le> p * 4096 \<and> unat (e_addr m) \<le> p * 4096 \<and>
     (p + 1) * 4096 \<le> unat (e_addr m + e_size m) \<and> (p + 1) * 4096 \<le> unat KMEMSIZE"

definition arm_overlap :: "e820entry \<Rightarrow> e820entry \<Rightarrow> bool" where
  "arm_overlap m m' \<longleftrightarrow> e_type m = E820_ARM \<and> e_type m' = E820_ARM \<and>
     {unat (e_addr m)..<unat (e_addr m + e_size m)} \<inter> {unat (e_addr m')..<unat (e_addr m' + e_size m')} \<noteq> {}"

lemma arm_page_overlap: "arm_page f m p \<Longrightarrow> arm_page f m' p \<Longrightarrow> arm_overlap m m'"
  by (force simp: arm_page_def arm_overlap_def disjoint_iff)

lemma maxpa_loop_bound:
  "a \<le> maxpa_loop ms a \<and> (\<forall>m \<in> set ms. e_type m = E820_ARM \<longrightarrow> e_addr m < KMEMSIZE \<longrightarrow> e_addr m + e_size m \<le> maxpa_loop ms a)"
proof (induction ms arbitrary: a)
  case (Cons m ms)
  let ?a = "if e_type m = E820_ARM \<and> a < e_addr m + e_size m \<and> e_addr m < KMEMSIZE then e_addr m + e_size m else a"
  have "a \<le> ?a" "e_type m = E820_ARM \<longrightarrow> e_addr m < KMEMSIZE \<longrightarrow> e_addr m + e_size m \<le> ?a" by (auto simp: not_less)
  then show ?case using Cons.IH [of ?a] by (auto simp: Let_def intro: order_trans)
qed simp

lemma KMEM_nat: "unat KMEMSIZE = max_pages * 4096"
  by (simp add: KMEMSIZE_def max_pages_def)

lemma maxpa_of_bound: "unat (maxpa_of ms) \<le> max_pages * 4096"
  using KMEM_nat by (auto simp: maxpa_of_def Let_def word_le_nat_alt not_less)

definition npage_of :: "e820entry list \<Rightarrow> size_t" where
  "npage_of ms = ucast (maxpa_of ms div 4096)"

lemma npage_of_nat: "unat (npage_of ms) = unat (maxpa_of ms) div 4096" "unat (npage_of ms) \<le> max_pages"
proof -
  have d: "unat (maxpa_of ms div 4096) = unat (maxpa_of ms) div 4096" by (simp add: unat_div_distrib)
  have b: "unat (maxpa_of ms) div 4096 \<le> max_pages" using maxpa_of_bound [of ms] by (simp add: div_le_mono [of _ "max_pages * 4096" 4096, simplified])
  then show "unat (npage_of ms) = unat (maxpa_of ms) div 4096"
    by (simp add: npage_of_def unsigned_ucast_eq d take_bit_nat_eq_self max_pages_def)
  then show "unat (npage_of ms) \<le> max_pages" using b by simp
qed

lemma arm_page_bound: "m \<in> set ms \<Longrightarrow> arm_page f m p \<Longrightarrow> p < unat (npage_of ms)"
proof -
  assume m: "m \<in> set ms" "arm_page f m p"
  then have "e_addr m < KMEMSIZE" by (auto simp: arm_page_def word_less_nat_alt)
  then have "e_addr m + e_size m \<le> maxpa_loop ms 0" using maxpa_loop_bound [of 0 ms] m by (auto simp: arm_page_def)
  then have "(p + 1) * 4096 \<le> unat (maxpa_loop ms 0)" using m(2) by (auto simp: arm_page_def word_le_nat_alt)
  then have "(p + 1) * 4096 \<le> unat (maxpa_of ms)" using m(2) by (auto simp: arm_page_def maxpa_of_def Let_def)
  then show ?thesis by (simp add: npage_of_nat)
qed

section \<open>The second loop\<close>

text \<open>The block that the loop registers for an entry, from the first to behind the last usable page.\<close>

definition arm_block :: "uint32 \<Rightarrow> e820entry \<Rightarrow> nat \<times> nat" where
  "arm_block f m = ((max (unat (e_addr m)) (unat f) + 4095) div 4096, min (unat (e_addr m + e_size m)) (unat KMEMSIZE) div 4096)"

lemma arm_block_pages: "e_type m = E820_ARM \<Longrightarrow> {fst (arm_block f m)..<snd (arm_block f m)} = {p. arm_page f m p}"
proof (intro set_eqI)
  fix p assume "e_type m = E820_ARM"
  moreover have "(x + 4095) div 4096 \<le> p \<longleftrightarrow> x \<le> p * 4096" "p < x div 4096 \<longleftrightarrow> (p + 1) * 4096 \<le> x" for x :: nat
    using less_eq_div_iff_mult_less_eq [of 4096 "p + 1" x] by (linarith, simp add: Suc_le_eq)
  ultimately show "p \<in> {fst (arm_block f m)..<snd (arm_block f m)} \<longleftrightarrow> p \<in> {p. arm_page f m p}"
    by (auto simp: arm_block_def arm_page_def)
qed

lemma memmap_loop_Cons: "memmap_loop pmm f (m # ms) s = andThen (memmap_loop pmm f [m] s) (memmap_loop pmm f ms)"
  by (simp add: Let_def andThen_def split: sum.split)

lemma unat_low: "unat (a :: 64 word) < 2 ^ 32 \<Longrightarrow> unat (ucast a :: uint32) = unat a"
  by (simp add: unsigned_ucast_eq take_bit_nat_eq_self)

lemma unat_high: "unat (ucast (a :: uint32) :: 64 word) = unat a"
  using unat_32 [of a] by (simp add: unsigned_ucast_eq take_bit_nat_eq_self)

lemma unat_small: "x < 2 ^ 32 \<Longrightarrow> unat (of_nat x :: size_t) = x"
  by (simp add: unsigned_of_nat take_bit_nat_eq_self)

lemma word_of_unat: "unat (w :: uint32) = x \<Longrightarrow> w = of_nat x"
  by auto

lemma memmap_one:
  "memmap_loop pmm f [m] s =
    (let b = fst (arm_block f m); e = snd (arm_block f m) in
     if e_type m = E820_ARM \<and> b < e then
       if of_nat b \<ge> npage s then Inl Panicked else init_memmap pmm b (of_nat (e - b)) s
     else Inr s)"
proof -
  let ?b1 = "if e_addr m < ucast f then ucast f else e_addr m" and ?e = "e_addr m + e_size m"
  let ?e1 = "if ?e > KMEMSIZE then KMEMSIZE else ?e"
  have uf: "unat (ucast f :: 64 word) = unat f" by (rule unat_high)
  have b1: "unat ?b1 = max (unat (e_addr m)) (unat f)" using uf by (simp add: word_less_nat_alt)
  have e1: "unat ?e1 = min (unat ?e) (unat KMEMSIZE)" by (simp add: word_less_nat_alt)
  show ?thesis
  proof (cases "?b1 < ?e1")
    case False
    then have "snd (arm_block f m) \<le> fst (arm_block f m)"
      using b1 e1 div_le_mono [of "unat ?e1" "unat ?b1 + 4095" 4096] by (simp add: word_less_nat_alt arm_block_def)
    then show ?thesis using False by (simp add: Let_def)
  next
    case True
    let ?B = "fst (arm_block f m)" and ?E = "snd (arm_block f m)"
    let ?b2 = "ucast (ROUNDUP (ucast ?b1) PGSIZE) :: 64 word" and ?e2 = "ucast (ROUNDDOWN (ucast ?e1) PGSIZE) :: 64 word"
    have lt: "unat ?b1 < unat ?e1" "unat ?e1 \<le> 939524096" using True e1 KMEM_nat by (simp_all add: word_less_nat_alt max_pages_def)
    have b32: "unat (ucast ?b1 :: uint32) = unat ?b1" "unat (ucast ?e1 :: uint32) = unat ?e1" using lt by (auto intro!: unat_low)
    have "unat (ucast ?b1 :: uint32) + 4095 < 2 ^ 32" using lt b32(1) order.strict_trans2 [OF lt] by simp
    then have b2: "unat ?b2 = ?B * 4096" using unat_ROUNDUP [of "ucast ?b1"] b32(1) b1 by (simp only: arm_block_def fst_conv unat_high)
    have e2: "unat ?e2 = ?E * 4096" using unat_ROUNDDOWN [of "ucast ?e1"] b32(2) e1 by (simp only: arm_block_def snd_conv unat_high)
    have E: "?E \<le> max_pages" using e1 lt(2) div_le_mono [of "unat ?e1" 939524096 4096] by (simp add: arm_block_def max_pages_def)
    have cmp: "?b2 < ?e2 \<longleftrightarrow> ?B < ?E" using b2 e2 by (simp add: word_less_nat_alt)
    show ?thesis
    proof (cases "?B < ?E")
      case False
      then show ?thesis using True cmp by (simp add: Let_def)
    next
      case lt2: True
      have "unat (ucast ?b2 :: uint32) = ?B * 4096" using unat_low [of ?b2] b2 lt2 E by (simp add: max_pages_def)
      then have B: "unat (PPN (ucast ?b2)) = ?B" by (simp add: address_nat)
      then have "PPN (ucast ?b2) = of_nat ?B" by (rule word_of_unat)
      then have pa: "pa2page s (ucast ?b2) = (if of_nat ?B \<ge> npage s then Inl Panicked else Inr ?B)" using B by (simp add: pa2page_def)
      have "unat (?e2 - ?b2) = (?E - ?B) * 4096" using b2 e2 lt2 by (subst unat_sub) (simp_all add: word_le_nat_alt diff_mult_distrib)
      then have "unat ((?e2 - ?b2) div 4096) = ?E - ?B" by (simp add: unat_div_distrib)
      then have "unat (ucast ((?e2 - ?b2) div 4096) :: uint32) = ?E - ?B" using E by (subst unat_low) (simp_all add: max_pages_def)
      then have n: "ucast ((?e2 - ?b2) div 4096) = (of_nat (?E - ?B) :: uint32)" by (rule word_of_unat)
      have "memmap_loop pmm f [m] s = (if e_type m = E820_ARM then andThen (pa2page s (ucast ?b2)) (\<lambda>p. init_memmap pmm p (ucast ((?e2 - ?b2) div 4096)) s) else Inr s)"
        using True lt2 [folded cmp] by (simp add: Let_def andThen_def split: sum.split)
      then show ?thesis unfolding pa n using lt2 by (simp add: Let_def)
    qed
  qed
qed

lemma memmap_step_ok:
  assumes inv: "ff_inv N (kmem s) bs" "N = unat (npage s)"
    and new: "\<And>p. arm_page f m p \<Longrightarrow> p < N \<and> PageReserved p (kmem s)"
  shows "\<exists>s' bs'. memmap_loop default_pmm_manager f [m] s = Inr s' \<and> ff_inv N (kmem s') bs' \<and> npage s' = npage s \<and>
    pages_of bs' = pages_of bs \<union> {p. arm_page f m p} \<and> (\<forall>q. PageReserved q (kmem s') \<longleftrightarrow> PageReserved q (kmem s) \<and> \<not> arm_page f m q)"
proof (cases "e_type m = E820_ARM \<and> fst (arm_block f m) < snd (arm_block f m)")
  case False
  then have "{p. arm_page f m p} = {}" using arm_block_pages [of m f] by (auto simp: arm_page_def)
  then have "\<not> arm_page f m p" for p by blast
  then show ?thesis using False inv memmap_one [of default_pmm_manager f m s] by (auto simp: Let_def)
next
  case True
  let ?B = "fst (arm_block f m)" and ?E = "snd (arm_block f m)"
  have P: "{?B..<?E} = {p. arm_page f m p}" using arm_block_pages True by blast
  have N: "N < 2 ^ 32" using inv(2) unat_32 [of "npage s"] by simp
  have in_N: "q < N \<and> PageReserved q (kmem s)" if "q \<in> {?B..<?E}" for q using that P new by blast
  have "?E - 1 < N" by (rule conjunct1 [OF in_N]) (use True in auto)
  then have E: "?E \<le> N" by linarith
  then have n: "unat (of_nat (?E - ?B) :: size_t) = ?E - ?B" "(0 :: size_t) < of_nat (?E - ?B)"
    using N True unat_small [of "?E - ?B"] by (linarith, metis unat_small word_neq_0_conv unsigned_0 zero_less_diff le_less_trans diff_le_self less_irrefl)
  have R: "{?B..<?B + (?E - ?B)} = {?B..<?E}" using True by simp
  obtain k where k: "default_init_memmap ?B (of_nat (?E - ?B)) (kmem s) = Inr k" "ff_inv N k (bs @ [(?B, ?E - ?B)])"
      "\<forall>q. PageReserved q k = (q \<notin> {?B..<?E} \<and> PageReserved q (kmem s))"
    using init_memmap_refines [OF inv(1) n(2), of ?B, unfolded n(1) R] in_N by blast
  have "unat (of_nat ?B :: size_t) < N" using E True N by (simp add: unsigned_of_nat take_bit_nat_eq_self)
  then have "\<not> npage s \<le> of_nat ?B" using inv(2) by (simp add: word_le_nat_alt)
  then have "memmap_loop default_pmm_manager f [m] s = Inr (s\<lparr>kmem := k\<rparr>)"
    using memmap_one [of default_pmm_manager f m s] True k(1) by (simp add: Let_def init_memmap_def default_pmm_manager_def)
  moreover have "pages_of (bs @ [(?B, ?E - ?B)]) = pages_of bs \<union> {p. arm_page f m p}" using True P by simp
  moreover have "PageReserved q k \<longleftrightarrow> PageReserved q (kmem s) \<and> \<not> arm_page f m q" for q using k(3) P by auto
  ultimately show ?thesis using k(2) by (intro exI [of _ "s\<lparr>kmem := k\<rparr>"] exI [of _ "bs @ [(?B, ?E - ?B)]"]) simp
qed

lemma memmap_loop_ok:
  assumes "ff_inv N (kmem s) bs" "N = unat (npage s)"
    and "\<And>p m. m \<in> set ms \<Longrightarrow> arm_page f m p \<Longrightarrow> p < N \<and> PageReserved p (kmem s)"
    and "sorted_wrt (\<lambda>m m'. \<not> arm_overlap m m') ms"
  shows "\<exists>s' bs'. memmap_loop default_pmm_manager f ms s = Inr s' \<and> ff_inv N (kmem s') bs' \<and> npage s' = npage s \<and>
    pages_of bs' = pages_of bs \<union> {p. \<exists>m \<in> set ms. arm_page f m p} \<and>
    (\<forall>q. PageReserved q (kmem s') \<longleftrightarrow> PageReserved q (kmem s) \<and> (\<forall>m \<in> set ms. \<not> arm_page f m q))"
  using assms
proof (induction ms arbitrary: s bs)
  case (Cons m ms)
  have new: "\<And>p. arm_page f m p \<Longrightarrow> p < N \<and> PageReserved p (kmem s)" by (rule Cons.prems(3)) auto
  obtain s1 bs1 where s1: "memmap_loop default_pmm_manager f [m] s = Inr s1" "ff_inv N (kmem s1) bs1" "npage s1 = npage s"
      "pages_of bs1 = pages_of bs \<union> {p. arm_page f m p}" "\<And>q. PageReserved q (kmem s1) \<longleftrightarrow> PageReserved q (kmem s) \<and> \<not> arm_page f m q"
    using memmap_step_ok [OF Cons.prems(1,2) new] by blast
  have "p < N \<and> PageReserved p (kmem s1)" if "m' \<in> set ms" "arm_page f m' p" for p m'
    using that Cons.prems(3,4) arm_page_overlap [of f m p m'] by (auto simp: s1(5))
  with Cons.IH [OF s1(2)] Cons.prems(2,4) s1(3) obtain s' bs' where
      s': "memmap_loop default_pmm_manager f ms s1 = Inr s'" "ff_inv N (kmem s') bs'" "npage s' = npage s1"
        "pages_of bs' = pages_of bs1 \<union> {p. \<exists>m \<in> set ms. arm_page f m p}"
        "\<And>q. PageReserved q (kmem s') \<longleftrightarrow> PageReserved q (kmem s1) \<and> (\<forall>m \<in> set ms. \<not> arm_page f m q)" by auto
  have "memmap_loop default_pmm_manager f (m # ms) s = Inr s'" using s1(1) s'(1) by (subst memmap_loop_Cons) simp
  moreover have "pages_of bs' = pages_of bs \<union> {p. \<exists>m \<in> set (m # ms). arm_page f m p}" unfolding s'(4) s1(4) by auto
  moreover have "PageReserved q (kmem s') \<longleftrightarrow> PageReserved q (kmem s) \<and> (\<forall>m \<in> set (m # ms). \<not> arm_page f m q)" for q
    unfolding s'(5) s1(5) by auto
  ultimately show ?case using s'(2,3) s1(3) by (intro exI [of _ s'] exI [of _ bs']) simp
qed auto

lemma reserve_loop_links:
  "reserve_loop pages i n k = Inr k' \<Longrightarrow> free_links k' = free_links k \<and> nr_free k' = nr_free k"
proof (induction n arbitrary: i k)
  case (Suc n)
  then show ?case using Suc.IH [of "i + 1" "SetPageReserved i k"] by (auto simp: page_op_defs split: if_splits)
qed auto

lemma reserve_loop_pages: "reserve_loop pages i n k = Inr k' \<Longrightarrow> PageReserved q k' \<longleftrightarrow> PageReserved q k \<or> i \<le> q \<and> q < i + n"
proof (induction n arbitrary: i k)
  case (Suc n)
  have "PageReserved q (SetPageReserved i k) \<longleftrightarrow> q = i \<or> PageReserved q k" by (auto simp: page_op_defs bit_simps)
  then show ?case using Suc.IH [of "i + 1" "SetPageReserved i k"] Suc.prems by (auto split: if_splits)
qed auto

lemma flags_mapped_less: "flags_mapped pages j \<Longrightarrow> i \<le> j \<Longrightarrow> flags_mapped pages i"
proof -
  assume j: "flags_mapped pages j" "i \<le> j"
  then have "unat sizeof_Page * i \<le> unat sizeof_Page * j" by (intro mult_le_mono2) simp
  then show ?thesis using j(1) unfolding flags_mapped_def by linarith
qed

text \<open>The loop succeeds exactly when the flags of the last descriptor are mapped.\<close>

lemma reserve_loop_runs:
  "if flags_mapped pages (i + n) then \<exists>k'. reserve_loop pages i (Suc n) k = Inr k' else reserve_loop pages i (Suc n) k = Inl Out_of_bounds"
proof (induction n arbitrary: i k)
  case (Suc n)
  show ?case
  proof (cases "flags_mapped pages i")
    case True
    then have "reserve_loop pages i (Suc (Suc n)) k = reserve_loop pages (Suc i) (Suc n) (SetPageReserved i k)" by (subst reserve_loop.simps) simp
    then show ?thesis using Suc.IH [of "Suc i" "SetPageReserved i k"] by (simp del: reserve_loop.simps)
  next
    case False
    then have "\<not> flags_mapped pages (i + Suc n)" using flags_mapped_less [of pages "i + Suc n" i] by auto
    then show ?thesis using False by simp
  qed
qed simp

section \<open>page_init\<close>

definition freemem_of :: "uint32 \<Rightarrow> e820entry list \<Rightarrow> nat" where
  "freemem_of kend ms = (unat kend + 4095) div 4096 * 4096 + 20 * unat (npage_of ms) - unat KERNBASE"

lemma freemem_word:
  assumes "KERNBASE \<le> kend" "unat kend + 4095 + 20 * unat (npage_of ms) < 2 ^ 32"
  defines "f \<equiv> ROUNDUP kend PGSIZE + sizeof_Page * npage_of ms - KERNBASE"
  shows "PADDR (ROUNDUP kend PGSIZE + sizeof_Page * npage_of ms) = Inr f" "unat f = freemem_of kend ms"
proof -
  let ?r = "(unat kend + 4095) div 4096 * 4096" and ?np = "npage_of ms"
  have r: "unat (ROUNDUP kend PGSIZE) = ?r" "unat kend \<le> ?r" "?r \<le> unat kend + 4095" using assms(2) by (simp_all add: unat_ROUNDUP)
  have "unat (sizeof_Page * ?np) = 20 * unat ?np" using assms(2) by (simp add: sizeof_Page_def unat_word_ariths)
  then have u: "unat (ROUNDUP kend PGSIZE + sizeof_Page * ?np) = ?r + 20 * unat ?np" using r assms(2) by (simp add: unat_word_ariths)
  then have ge: "KERNBASE \<le> ROUNDUP kend PGSIZE + sizeof_Page * ?np" using r(2) assms(1) by (simp add: word_le_nat_alt)
  then show "PADDR (ROUNDUP kend PGSIZE + sizeof_Page * ?np) = Inr f" by (simp add: PADDR_def f_def not_less)
  show "unat f = freemem_of kend ms" unfolding f_def freemem_of_def using unat_sub [OF ge] u by simp
qed

text \<open>
  The kernel lies in the memory mapped at boot. Behind it there is room for all descriptors, or at least for the flags of the last one.
\<close>

definition kernel_placed :: "uint32 \<Rightarrow> bool" where
  "kernel_placed kend \<longleftrightarrow> KERNBASE \<le> kend \<and> (unat kend + 4095) div 4096 * 4096 \<le> unat KERNBASE + unat BOOT_MAPPED"

definition descriptors_fit :: "uint32 \<Rightarrow> e820entry list \<Rightarrow> bool" where
  "descriptors_fit kend ms \<longleftrightarrow> (unat kend + 4095) div 4096 * 4096 + 20 * unat (npage_of ms) \<le> unat KERNBASE + unat BOOT_MAPPED"

definition flags_fit :: "uint32 \<Rightarrow> e820entry list \<Rightarrow> bool" where
  "flags_fit kend ms \<longleftrightarrow> npage_of ms = 0 \<or>
     (unat kend + 4095) div 4096 * 4096 + 20 * (unat (npage_of ms) - 1) + 8 \<le> unat KERNBASE + unat BOOT_MAPPED"

lemma descriptors_flags_fit: "descriptors_fit kend ms \<Longrightarrow> flags_fit kend ms"
proof (cases "unat (npage_of ms)")
  case 0
  then show ?thesis by (simp add: flags_fit_def unsigned_eq_0_iff)
next
  case (Suc n)
  assume "descriptors_fit kend ms"
  then show ?thesis unfolding descriptors_fit_def flags_fit_def Suc by simp
qed

lemma boot_end: "unat KERNBASE + unat BOOT_MAPPED = 0xC0400000"
  by (simp add: KERNBASE_def BOOT_MAPPED_def)

lemma reserve_descriptors:
  assumes "kernel_placed kend"
  shows "if flags_fit kend ms then \<exists>k'. reserve_loop (ROUNDUP kend PGSIZE) 0 (unat (npage_of ms)) k = Inr k'
    else reserve_loop (ROUNDUP kend PGSIZE) 0 (unat (npage_of ms)) k = Inl Out_of_bounds"
proof -
  let ?r = "(unat kend + 4095) div 4096 * 4096"
  have le: "unat kend \<le> ?r" "?r \<le> 0xC0400000" using assms boot_end by (simp_all add: kernel_placed_def)
  then have r: "unat (ROUNDUP kend PGSIZE) = ?r" by (intro unat_ROUNDUP) simp
  then have b: "KERNBASE \<le> ROUNDUP kend PGSIZE" using assms le(1) by (simp add: kernel_placed_def word_le_nat_alt)
  show ?thesis
  proof (cases "unat (npage_of ms)")
    case 0
    then show ?thesis by (simp add: flags_fit_def unsigned_eq_0_iff)
  next
    case (Suc n)
    then have "npage_of ms \<noteq> 0" by auto
    then have "flags_mapped (ROUNDUP kend PGSIZE) (0 + n) \<longleftrightarrow> flags_fit kend ms"
      unfolding flags_mapped_def flags_fit_def r Suc using b by (simp add: sizeof_Page_def)
    then show ?thesis using reserve_loop_runs [of "ROUNDUP kend PGSIZE" 0 n k] unfolding Suc by simp
  qed
qed

lemma page_init_ok:
  assumes placed: "kernel_placed kend" "descriptors_fit kend ms" and "sorted_wrt (\<lambda>m m'. \<not> arm_overlap m m') ms" "kmem s = default_init k"
  shows "\<exists>s'. page_init default_pmm_manager kend ms s = Inr s' \<and> npage s' = npage_of ms \<and>
    (\<exists>bs. ff_inv (unat (npage_of ms)) (kmem s') bs \<and> pages_of bs = {p. \<exists>m \<in> set ms. arm_page (of_nat (freemem_of kend ms)) m p}) \<and>
    (\<forall>q < unat (npage_of ms). PageReserved q (kmem s') \<longleftrightarrow> (\<forall>m \<in> set ms. \<not> arm_page (of_nat (freemem_of kend ms)) m q))"
proof -
  define f where "f = ROUNDUP kend PGSIZE + sizeof_Page * npage_of ms - KERNBASE"
  have "unat kend \<le> (unat kend + 4095) div 4096 * 4096" by simp
  then have room: "KERNBASE \<le> kend" "unat kend + 4095 + 20 * unat (npage_of ms) < 2 ^ 32"
    using placed boot_end by (simp_all add: kernel_placed_def descriptors_fit_def)
  note f = freemem_word [OF room, folded f_def]
  obtain k' where k': "reserve_loop (ROUNDUP kend PGSIZE) 0 (unat (npage_of ms)) (kmem s) = Inr k'"
    using reserve_descriptors [OF placed(1), of ms "kmem s"] descriptors_flags_fit [OF placed(2)] by auto
  have fw: "of_nat (freemem_of kend ms) = f" using f(2) by (simp flip: f(2))
  let ?N = "unat (npage_of ms)"
  let ?s = "s\<lparr>npage := npage_of ms, kmem := k'\<rparr>"
  note links = reserve_loop_links [OF k']
  have res: "PageReserved q (kmem ?s)" if "q < ?N" for q using that reserve_loop_pages [OF k'] by simp
  have inv: "ff_inv ?N (kmem ?s) []"
  proof -
    have "links_ok (kmem ?s) []" by (simp add: links_ok_def links assms(4) default_init_def ring_init)
    moreover have "pages_ok ?N (kmem ?s) []" using res by (auto simp: pages_ok_def blocks_disjoint_def)
    ultimately show ?thesis using unat_32 [of "npage_of ms"] by (simp add: ff_inv_def links assms(4) default_init_def)
  qed
  obtain s' bs' where s': "memmap_loop default_pmm_manager f ms ?s = Inr s'" "ff_inv ?N (kmem s') bs'" "npage s' = npage_of ms"
      "pages_of bs' = {p. \<exists>m \<in> set ms. arm_page f m p}" "\<And>q. PageReserved q (kmem s') \<longleftrightarrow> PageReserved q (kmem ?s) \<and> (\<forall>m \<in> set ms. \<not> arm_page f m q)"
    using memmap_loop_ok [OF inv, of ms f] arm_page_bound res assms(3) by auto
  have "page_init default_pmm_manager kend ms s = Inr s'" using f(1) s'(1) k' by (simp add: page_init_def Let_def npage_of_def [symmetric])
  then show ?thesis unfolding fw using s'(2-5) res by blast
qed

end
