(* ===== verification/Paging.thy ===== *)
theory Paging
  imports Memory_Detect
begin

text \<open>
  The properties of the virtual memory of the kernel, for the first-fit allocator: entering and removing pages, mapping a segment at boot,
  and the memory that \<open>page_init\<close> hands to the allocator.
\<close>

section \<open>Entering and removing pages\<close>

text \<open>
  C21. \<open>page_insert\<close>: in a directory whose entries in \<open>V\<close> are counted, an allocated page that holds no page table is entered at every address
  outside the region of \<open>VPT\<close>. The call never panics; it fails only when a page table is missing and no page is free, and then the
  translation is unchanged. Otherwise exactly the entry of this address changes; of the free pages exactly the new page table, if one was needed, is taken, and another
  page that was there goes back to the allocator exactly when this was its last reference; reference counts again equal the numbers of mappings, and the
  processor keeps no stale translation.
\<close>

theorem page_insert_maps:
  assumes "dir_ok (ff_rep max_pages) (usable_pages max_pages) held s pgdir V F" "tlb_ok s pgdir"
    and "PDX la \<noteq> PDX VPT" "slot la \<in> V" "pg \<in> usable_pages max_pages (kmem s) - F - tables s pgdir" "perm < 4096"
  shows "\<exists>r s' F'. page_insert default_pmm_manager pgdir pg la perm s = Inr (r, s') \<and>
    dir_ok (ff_rep max_pages) (usable_pages max_pages) held s' pgdir V F' \<and> tlb_ok s' pgdir \<and>
    (r = 0 \<and> pt s' pgdir = (pt s pgdir)(slot la := page2pa pg OR PTE_P OR perm) \<and> maps s' pgdir (slot la) pg \<and>
       F' = F - tables s' pgdir \<union> {q. maps s pgdir (slot la) q \<and> q \<noteq> pg \<and> page_ref q s = 1} \<and> pg \<notin> F' \<or>
     r = - E_NO_MEM \<and> F = {} \<and> \<not> has_table s pgdir (unat (PDX la)) \<and> pt s' pgdir = pt s pgdir \<and> F' = {})"
proof -
  obtain r s' F' where s': "page_insert default_pmm_manager pgdir pg la perm s = Inr (r, s')"
      "dir_ok (ff_rep max_pages) (usable_pages max_pages) held s' pgdir V F'" "tlb_ok s pgdir \<longrightarrow> tlb_ok s' pgdir"
      "r = 0 \<and> pt s' pgdir = (pt s pgdir)(slot la := page2pa pg OR PTE_P OR perm) \<and> F' = F - tables s' pgdir \<union> {q. maps s pgdir (slot la) q \<and> q \<noteq> pg \<and> page_ref q s = 1} \<and> pg \<notin> F' \<or>
       r = - E_NO_MEM \<and> F = {} \<and> \<not> has_table s pgdir (unat (PDX la)) \<and> pt s' pgdir = pt s pgdir \<and> F' = {}"
    using pm.page_insert_ok [OF assms(1,3-6)] by blast
  have "pg < 2 ^ 20" using pm.dir_ok_parts(2,5) [OF assms(1)] assms(5) by (auto simp: shape_ok_def)
  then have "entry_page (page2pa pg OR PTE_P OR perm) = pg" by (rule entry_page_new [OF _ assms(6)])
  then have "maps s' pgdir (slot la) pg" if "pt s' pgdir = (pt s pgdir)(slot la := page2pa pg OR PTE_P OR perm)"
    using that entry_present(1) [of "page2pa pg" perm] by (simp add: maps_def)
  then show ?thesis using s' assms(2) by blast
qed

theorem page_insert_maps_witness:
  "\<exists>s s' p. page_insert default_pmm_manager 30 p 0x1000 PTE_W s = Inr (0, s') \<and> pt s 30 (0, 1) = 0 \<and> maps s' 30 (0, 1) p"
proof -
  obtain s F p where s: "dir_ok (ff_rep max_pages) (usable_pages max_pages) (\<lambda>_. 0) s 30 {(0, 1)} F" "tlb_ok s 30" "ram s = (\<lambda>_ _. 0)"
      "p \<in> usable_pages max_pages (kmem s) - F - tables s 30" "F \<noteq> {}"
    using demo_vm_page [of "{(0, 1)}"] by auto
  have la: "PDX 0x1000 \<noteq> PDX VPT" "slot 0x1000 = (0, 1)" "PTE_W < 4096"
    by (simp_all add: PDX_def PTX_def PDXSHIFT_def PTXSHIFT_def VPT_def slot_def PTE_W_def)
  then have "slot 0x1000 \<in> {(0, 1)}" by simp
  then obtain s' where s': "page_insert default_pmm_manager 30 p 0x1000 PTE_W s = Inr (0, s')" "maps s' 30 (slot 0x1000) p"
    using page_insert_maps [OF s(1,2) la(1) _ s(4) la(3)] s(5) by blast
  have "pt s 30 (0, 1) = 0" using s(3) by (simp add: has_table_def)
  then show ?thesis using s' unfolding la(2) by blast
qed

text \<open>
  C22. \<open>page_remove\<close>: removing the page at an address clears exactly its entry; the page keeps the references of its other mappings and
  goes back to the allocator exactly when this was the last one, and the processor keeps no stale translation. Nothing happens when the
  address is not mapped.
\<close>

theorem page_remove_unmaps:
  assumes "dir_ok (ff_rep max_pages) (usable_pages max_pages) held s pgdir V F" "tlb_ok s pgdir" "PDX la \<noteq> PDX VPT" "slot la \<in> V"
  shows "\<exists>s' F'. page_remove default_pmm_manager pgdir la s = Inr s' \<and> dir_ok (ff_rep max_pages) (usable_pages max_pages) held s' pgdir V F' \<and>
    tlb_ok s' pgdir \<and> (\<forall>q. \<not> maps s' pgdir (slot la) q) \<and> (\<forall>v. v \<noteq> slot la \<longrightarrow> pt s' pgdir v = pt s pgdir v) \<and>
    F' = F \<union> {q. maps s pgdir (slot la) q \<and> page_ref q s = 1}"
proof (cases "pt s pgdir (slot la) AND PTE_P = 0")
  case True
  then have "{q. maps s pgdir (slot la) q \<and> page_ref q s = 1} = {}" "\<forall>q. \<not> maps s pgdir (slot la) q" by (simp_all add: maps_def)
  then show ?thesis using pm.page_remove_ok [OF assms(1,3,4)] True assms(1,2) by (metis Un_empty_right)
next
  case False
  define q where "q = entry_page (pt s pgdir (slot la))"
  have m: "maps s pgdir (slot la) p \<longleftrightarrow> p = q" for p using False by (auto simp: maps_def q_def)
  obtain s' where s': "page_remove default_pmm_manager pgdir la s = Inr s'" "pt s' pgdir = (pt s pgdir)(slot la := 0)"
      "dir_ok (ff_rep max_pages) (usable_pages max_pages) held s' pgdir V (if page_ref q s = 1 then insert q F else F)" "tlb_ok s' pgdir"
    using pm.page_remove_ok [OF assms(1,3,4)] False assms(2) unfolding q_def by auto
  have F': "(if page_ref q s = 1 then insert q F else F) = F \<union> {p. maps s pgdir (slot la) p \<and> page_ref p s = 1}" unfolding m by auto
  have "\<not> maps s' pgdir (slot la) p" for p unfolding maps_def s'(2) by simp
  moreover have "pt s' pgdir v = pt s pgdir v" if "v \<noteq> slot la" for v unfolding s'(2) using that by (rule fun_upd_other)
  ultimately show ?thesis using s'(1,3,4) unfolding F' by blast
qed

theorem page_remove_unmaps_witness:
  "\<exists>s s1 s2 p F. page_insert default_pmm_manager 30 p 0x1000 PTE_W s = Inr (0, s1) \<and> page_remove default_pmm_manager 30 0x1000 s1 = Inr s2 \<and>
     ff_rep max_pages (kmem s2) F \<and> p \<in> F"
proof -
  obtain s F p where s: "dir_ok (ff_rep max_pages) (usable_pages max_pages) (\<lambda>_. 0) s 30 {(0, 1)} F" "tlb_ok s 30" "ram s = (\<lambda>_ _. 0)"
      "p \<in> usable_pages max_pages (kmem s) - F - tables s 30" "F \<noteq> {}"
    using demo_vm_page [of "{(0, 1)}"] by auto
  have la: "PDX 0x1000 \<noteq> PDX VPT" "slot 0x1000 = (0, 1)" "PTE_W < 4096"
    by (simp_all add: PDX_def PTX_def PDXSHIFT_def PTXSHIFT_def VPT_def slot_def PTE_W_def)
  then have v: "slot 0x1000 \<in> {(0, 1)}" by simp
  obtain s1 F1 where s1: "page_insert default_pmm_manager 30 p 0x1000 PTE_W s = Inr (0, s1)"
      "dir_ok (ff_rep max_pages) (usable_pages max_pages) (\<lambda>_. 0) s1 30 {(0, 1)} F1" "tlb_ok s1 30"
      "pt s1 30 = (pt s 30)(slot 0x1000 := page2pa p OR PTE_P OR PTE_W)"
    using pm.page_insert_ok [OF s(1) la(1) v s(4) la(3)] s(2,5) by blast
  have "p < 2 ^ 20" using pm.dir_ok_parts(2,5) [OF s(1)] s(4) by (auto simp: shape_ok_def)
  then have m: "maps s1 30 (slot 0x1000) p"
    using s1(4) entry_page_new [OF _ la(3)] entry_present(1) [of "page2pa p" PTE_W] by (simp add: maps_def)
  then have "page_ref p s1 = int (card {v \<in> {(0, 1)}. maps s1 30 v p} + 0)"
    using pm.dir_ok_parts(6) [OF s1(2) v] pm.dir_ok_parts(7) [OF s1(2)] by blast
  moreover have "{v \<in> {(0, 1)}. maps s1 30 v p} = {(0, 1)}" using m la(2) by auto
  ultimately have "page_ref p s1 = 1" by simp
  then obtain s2 where "page_remove default_pmm_manager 30 0x1000 s1 = Inr s2"
      "dir_ok (ff_rep max_pages) (usable_pages max_pages) (\<lambda>_. 0) s2 30 {(0, 1)} (F1 \<union> {q. maps s1 30 (slot 0x1000) q \<and> page_ref q s1 = 1})"
    using page_remove_unmaps [OF s1(2,3) la(1) v] by blast
  then show ?thesis using s1(1) m \<open>page_ref p s1 = 1\<close> pm.dir_ok_parts(1) by blast
qed

section \<open>Mapping a segment at boot\<close>

text \<open>
  C23. \<open>boot_map_segment\<close>: for addresses with equal offsets in their pages and a range outside the counted entries and the region of \<open>VPT\<close>,
  when there are enough free pages for the missing page tables, every page of the range is mapped to the page at the same
  distance from the physical address, with the given permissions; no other translation changes and the allocator stays consistent.
\<close>

theorem boot_map_segment_maps:
  fixes la pa :: uint32 and sz :: size_t
  defines "n \<equiv> unat (ROUNDUP (sz + PGOFF la) PGSIZE) div 4096" and "at \<equiv> \<lambda>i. ROUNDDOWN la PGSIZE + of_nat i * PGSIZE"
  assumes "dir_ok (ff_rep max_pages) (usable_pages max_pages) held s pgdir V F" and "PGOFF la = PGOFF pa"
    and "\<forall>i < n. slot (at i) \<notin> V \<and> PDX (at i) \<noteq> PDX VPT"
    and "card {d \<in> (\<lambda>i. fst (slot (at i))) ` {..<n}. \<not> has_table s pgdir d} \<le> card F"
  shows "\<exists>s' F'. boot_map_segment default_pmm_manager pgdir la sz pa perm s = Inr s' \<and>
    dir_ok (ff_rep max_pages) (usable_pages max_pages) held s' pgdir V F' \<and>
    (\<forall>i < n. pt s' pgdir (slot (at i)) = (ROUNDDOWN pa PGSIZE + of_nat i * PGSIZE) OR PTE_P OR perm) \<and>
    (\<forall>v. v \<notin> (\<lambda>i. slot (at i)) ` {..<n} \<longrightarrow> pt s' pgdir v = pt s pgdir v)"
proof -
  have n: "unat (ROUNDUP (sz + PGOFF la) PGSIZE div PGSIZE) = n" by (simp add: n_def PGSIZE_def unat_div_distrib)
  have "n \<le> 2 ^ 20" using unat_32 [of "ROUNDUP (sz + PGOFF la) PGSIZE"] by (simp add: n_def)
  from pm.map_loop_ok [OF assms(3) this, of "ROUNDDOWN la PGSIZE" "ROUNDDOWN pa PGSIZE" perm] assms(4-6)
  show ?thesis unfolding at_def boot_map_segment_def n by simp
qed

theorem boot_map_segment_maps_witness:
  "\<exists>s s'. boot_map_segment default_pmm_manager 30 0xC0000000 0x2000 0 PTE_W s = Inr s' \<and> pt s' 30 (768, 1) = 0x1003"
proof -
  obtain s where s: "dir_ok (ff_rep max_pages) (usable_pages max_pages) (\<lambda>_. 0) s 30 {} ({0..<4} \<union> {16..<25})" using demo_vm [of "{}"] by auto
  have n: "unat (ROUNDUP (0x2000 + PGOFF 0xC0000000) PGSIZE) div 4096 = 2" "PGOFF 0xC0000000 = PGOFF 0"
    by (simp_all add: ROUNDUP_def ROUNDDOWN_def PGSIZE_def PGOFF_def)
  have at: "slot (ROUNDDOWN 0xC0000000 PGSIZE + of_nat i * PGSIZE) = (768, i)" "PDX (ROUNDDOWN 0xC0000000 PGSIZE + of_nat i * PGSIZE) \<noteq> PDX VPT" if "i < 2" for i
    using that by (auto simp: slot_def ROUNDDOWN_def PGSIZE_def PDX_def PTX_def PDXSHIFT_def PTXSHIFT_def VPT_def less_2_cases_iff)
  have "(\<lambda>i. fst (slot (ROUNDDOWN 0xC0000000 PGSIZE + of_nat i * PGSIZE))) ` {..<2} \<subseteq> {768}" using at(1) by auto
  then have "card {d \<in> (\<lambda>i. fst (slot (ROUNDDOWN 0xC0000000 PGSIZE + of_nat i * PGSIZE))) ` {..<2}. \<not> has_table s 30 d} \<le> card {768 :: nat}"
    by (intro card_mono) auto
  also have "\<dots> \<le> card ({0..<4} \<union> {16..<25} :: nat set)" by (simp add: card_Un_disjoint)
  finally have c: "card {d \<in> (\<lambda>i. fst (slot (ROUNDDOWN 0xC0000000 PGSIZE + of_nat i * PGSIZE))) ` {..<2}. \<not> has_table s 30 d} \<le> card ({0..<4} \<union> {16..<25} :: nat set)" .
  obtain s' where s': "boot_map_segment default_pmm_manager 30 0xC0000000 0x2000 0 PTE_W s = Inr s'"
      "\<forall>i < 2. pt s' 30 (slot (ROUNDDOWN 0xC0000000 PGSIZE + of_nat i * PGSIZE)) = (ROUNDDOWN 0 PGSIZE + of_nat i * PGSIZE) OR PTE_P OR PTE_W"
    using boot_map_segment_maps [OF s n(2), of "0x2000" PTE_W, unfolded n(1)] at c by auto
  have "pt s' 30 (768, 1) = 0x1003" using s'(2) [rule_format, of 1] at(1) [of 1] by (simp add: ROUNDDOWN_def PGSIZE_def PTE_P_def PTE_W_def)
  then show ?thesis using s'(1) by blast
qed

section \<open>The memory of the machine\<close>

text \<open>
  C24. \<open>page_init\<close>, for every memory map whose usable ranges do not overlap and a kernel that lies in the 4 MB mapped at boot. When the page descriptors fit
  behind the kernel in these 4 MB, detection succeeds; the free pages are exactly the pages that lie wholly in a usable range, below
  \<open>KMEMSIZE\<close> and behind the kernel and the descriptors, whatever the order and alignment of the ranges, all other pages are reserved, and
  the allocator's counter is the number of free pages. No 64-bit address of the map is truncated. When the flags of the last descriptor lie behind the 4 MB,
  the kernel faults in the loop that reserves the pages. That is so above about 590 MB of memory.
\<close>

theorem page_init_frees_usable_memory:
  assumes "kernel_placed kend" "sorted_wrt (\<lambda>m m'. \<not> arm_overlap m m') ms" "kmem s = default_init k"
  defines "F \<equiv> {p. \<exists>m \<in> set ms. arm_page (of_nat (freemem_of kend ms)) m p}"
  shows "(descriptors_fit kend ms \<longrightarrow>
      (\<exists>s'. page_init default_pmm_manager kend ms s = Inr s' \<and> unat (npage s') \<le> max_pages \<and> F \<subseteq> {..<unat (npage s')} \<and>
        ff_rep (unat (npage s')) (kmem s') F \<and> usable_pages (unat (npage s')) (kmem s') = F \<and>
        unat (nr_free_pages default_pmm_manager s') = card F)) \<and>
    (\<not> flags_fit kend ms \<longrightarrow> page_init default_pmm_manager kend ms s = Inl Out_of_bounds)"
proof (intro conjI impI)
  assume "\<not> flags_fit kend ms"
  then have "reserve_loop (ROUNDUP kend PGSIZE) 0 (unat (npage_of ms)) (kmem s) = Inl Out_of_bounds"
    using reserve_descriptors [OF assms(1), of ms "kmem s"] by simp
  then show "page_init default_pmm_manager kend ms s = Inl Out_of_bounds" by (simp add: page_init_def Let_def npage_of_def [symmetric])
next
  assume True: "descriptors_fit kend ms"
  obtain s' bs where s': "page_init default_pmm_manager kend ms s = Inr s'" "npage s' = npage_of ms" "ff_inv (unat (npage_of ms)) (kmem s') bs"
      "pages_of bs = F" "\<forall>q < unat (npage_of ms). PageReserved q (kmem s') \<longleftrightarrow> q \<notin> F"
    using page_init_ok [OF assms(1) True assms(2,3)] unfolding F_def by blast
  have F: "F \<subseteq> {..<unat (npage_of ms)}" using arm_page_bound unfolding F_def by blast
  then have "usable_pages (unat (npage_of ms)) (kmem s') = F" using s'(5) by (auto simp: usable_pages_def)
  moreover have "unat (nr_free_pages default_pmm_manager s') = card F"
    using s'(3,4) card_pages_of [of bs]
    by (simp add: nr_free_pages_def default_pmm_manager_def default_nr_free_pages_def ff_inv_def pages_ok_def)
  ultimately show "\<exists>s'. page_init default_pmm_manager kend ms s = Inr s' \<and> unat (npage s') \<le> max_pages \<and> F \<subseteq> {..<unat (npage s')} \<and>
      ff_rep (unat (npage s')) (kmem s') F \<and> usable_pages (unat (npage s')) (kmem s') = F \<and>
      unat (nr_free_pages default_pmm_manager s') = card F"
    using s'(1,2) F npage_of_nat(2) [of ms] ff_repI [OF s'(3)] s'(4) by auto
qed

text \<open>The map of a machine with 128 MB: low memory, the firmware, and the memory from 1 MB.\<close>

definition demo_map :: "e820entry list" where
  "demo_map = [\<lparr>e_addr = 0, e_size = 0x9fc00, e_type = 1\<rparr>, \<lparr>e_addr = 0x9fc00, e_size = 0x400, e_type = 2\<rparr>,
     \<lparr>e_addr = 0x100000, e_size = 0x7ee0000, e_type = 1\<rparr>]"

theorem page_init_frees_usable_memory_witness:
  "\<exists>s s'. page_init default_pmm_manager 0xC0118000 demo_map s = Inr s' \<and> npage s' = 0x7fe0 \<and> usable_pages 0x7fe0 (kmem s') = {0x1b8..<0x7fe0}"
proof -
  have np: "npage_of demo_map = 0x7fe0"
    by (simp add: npage_of_def maxpa_of_def demo_map_def Let_def E820_ARM_def KMEMSIZE_def)
  then have fm: "freemem_of 0xC0118000 demo_map = 0x1b7d80" by (simp add: freemem_of_def KERNBASE_def)
  have h: "kernel_placed 0xC0118000" "descriptors_fit 0xC0118000 demo_map" "sorted_wrt (\<lambda>m m'. \<not> arm_overlap m m') demo_map"
    by (simp add: kernel_placed_def KERNBASE_def BOOT_MAPPED_def, simp add: descriptors_fit_def np KERNBASE_def BOOT_MAPPED_def,
        simp add: demo_map_def arm_overlap_def E820_ARM_def)
  let ?s = "\<lparr>kmem = default_init demo_mem, ram = \<lambda>_ _. 0, npage = 0, cr3 = 0, tlb = \<lambda>_. None\<rparr>"
  have k: "kmem ?s = default_init demo_mem" by simp
  have "(\<exists>m \<in> set demo_map. arm_page (of_nat (freemem_of 0xC0118000 demo_map)) m p) \<longleftrightarrow> p \<in> {0x1b8..<0x7fe0}" for p
    unfolding fm by (auto simp: demo_map_def arm_page_def E820_ARM_def KMEMSIZE_def)
  then have F: "{p. \<exists>m \<in> set demo_map. arm_page (of_nat (freemem_of 0xC0118000 demo_map)) m p} = {0x1b8..<0x7fe0}" by blast
  obtain s' where s': "page_init default_pmm_manager 0xC0118000 demo_map ?s = Inr s'"
      "usable_pages (unat (npage s')) (kmem s') = {0x1b8..<0x7fe0}"
    using page_init_frees_usable_memory [OF h(1,3) k] h(2) unfolding F by blast
  have "npage s' = 0x7fe0" using page_init_ok [OF h k] s'(1) np by auto
  then show ?thesis using s' by (intro exI [of _ ?s] exI [of _ s']) simp
qed

text \<open>With 896 MB and a kernel that ends at \<open>0xC0118000\<close> the descriptors take 4.4 MB, and detection faults.\<close>

lemma page_init_faults_above_boot_mapping:
  "page_init default_pmm_manager 0xC0118000 [\<lparr>e_addr = 0x100000, e_size = 0x37f00000, e_type = 1\<rparr>] s = Inl Out_of_bounds"
proof -
  let ?ms = "[\<lparr>e_addr = 0x100000, e_size = 0x37f00000, e_type = 1\<rparr>]"
  have np: "npage_of ?ms = 0x38000" by (simp add: npage_of_def maxpa_of_def Let_def E820_ARM_def KMEMSIZE_def)
  have k: "kernel_placed 0xC0118000" and "\<not> flags_fit 0xC0118000 ?ms"
    by (simp add: kernel_placed_def KERNBASE_def BOOT_MAPPED_def, simp add: flags_fit_def np KERNBASE_def BOOT_MAPPED_def)
  then have "reserve_loop (ROUNDUP 0xC0118000 PGSIZE) 0 (unat (npage_of ?ms)) (kmem s) = Inl Out_of_bounds"
    using reserve_descriptors [OF k, of ?ms "kmem s"] by (simp only: if_False)
  then show ?thesis unfolding page_init_def Let_def npage_of_def [symmetric] by simp
qed

end
