(* ===== verification/Peterson.thy ===== *)
theory Peterson
  imports Prelude
begin

text \<open>
  The lock for \<open>max_num\<close> threads of \<open>Labweek14/alg.15-1-peterson-counter.c\<close>. Every read or write of a shared variable is one step of its
  thread, and the steps of the threads interleave in any order: the scan of the levels is not atomic. Memory is sequentially consistent.
\<close>

section \<open>The threads\<close>

datatype location =
    Next nat \<comment> \<open>head of the \<open>for\<close> loop over \<open>lev\<close>\<close>
  | Set_waiting nat \<comment> \<open>before \<open>waiting[lev] = thread_num\<close>\<close>
  | While nat \<comment> \<open>head of the \<open>while\<close> loop\<close>
  | Scan nat nat \<comment> \<open>reads \<open>level[k]\<close>\<close>
  | Recheck nat nat \<comment> \<open>reads \<open>waiting[lev]\<close> again\<close>
  | Inc_read
  | Inc_write int
  | Check
  | Dec_read
  | Dec_write int
  | Leave
  | Exited

record lock =
  level :: "nat \<Rightarrow> int"
  waiting :: "nat \<Rightarrow> int"
  counter :: int
  killed :: bool
  loc :: "nat \<Rightarrow> location"

definition MAX_N :: int where "MAX_N = 1024"

definition goto :: "nat \<Rightarrow> location \<Rightarrow> lock \<Rightarrow> lock" where
  "goto t l s = s\<lparr>loc := (loc s)(t := l)\<rparr>"

text \<open>One step of thread \<open>t\<close> in \<open>ftn\<close>, \<open>None\<close> when it has exited or the process was killed.\<close>

definition ftn :: "nat \<Rightarrow> nat \<Rightarrow> lock \<Rightarrow> lock option" where
  "ftn max_num t s =
     (if killed s then None
      else case loc s t of
        Next lev \<Rightarrow> Some (if lev + 1 < max_num then goto t (Set_waiting lev) (s\<lparr>level := (level s)(t := int lev)\<rparr>) else goto t Inc_read s)
      | Set_waiting lev \<Rightarrow> Some (goto t (While lev) (s\<lparr>waiting := (waiting s)(lev := int t)\<rparr>))
      | While lev \<Rightarrow> Some (goto t (if waiting s lev = int t then Scan lev 0 else Next (lev + 1)) s)
      | Scan lev k \<Rightarrow> Some (goto t (if k < max_num then if level s k \<ge> int lev \<and> k \<noteq> t then While lev else Recheck lev k else Next (lev + 1)) s)
      | Recheck lev k \<Rightarrow> Some (goto t (if waiting s lev \<noteq> int t then While lev else Scan lev (k + 1)) s)
      | Inc_read \<Rightarrow> Some (goto t (Inc_write (counter s)) s)
      | Inc_write c \<Rightarrow> Some (goto t Check (s\<lparr>counter := c + 1\<rparr>))
      | Check \<Rightarrow> Some (if counter s > 1 then s\<lparr>killed := True\<rparr> else goto t Dec_read s)
      | Dec_read \<Rightarrow> Some (goto t (Dec_write (counter s)) s)
      | Dec_write c \<Rightarrow> Some (goto t Leave (s\<lparr>counter := c - 1\<rparr>))
      | Leave \<Rightarrow> Some (goto t Exited (s\<lparr>level := (level s)(t := -1)\<rparr>))
      | Exited \<Rightarrow> None)"

text \<open>The state in which \<open>main\<close> creates the threads; \<open>None\<close> when it refuses the number.\<close>

definition peterson_main :: "int \<Rightarrow> lock option" where
  "peterson_main max_num =
     (if max_num < 0 \<or> max_num > MAX_N then None
      else Some \<lparr>level = (\<lambda>_. -1), waiting = (\<lambda>_. -1), counter = 0, killed = False, loc = (\<lambda>_. Next 0)\<rparr>)"

inductive peterson_run :: "nat \<Rightarrow> lock \<Rightarrow> bool" for max_num where
  start: "peterson_main (int max_num) = Some s \<Longrightarrow> peterson_run max_num s"
| step: "peterson_run max_num s \<Longrightarrow> t < max_num \<Longrightarrow> ftn max_num t s = Some s' \<Longrightarrow> peterson_run max_num s'"

inductive_cases peterson_runE: "peterson_run max_num s"

section \<open>Where the threads are\<close>

text \<open>
  The number of levels a thread has passed; the threads that have passed level \<open>l\<close>; the threads that wait at level \<open>l\<close>, which
  have announced themselves in \<open>waiting[l]\<close>.
\<close>

fun passed :: "nat \<Rightarrow> location \<Rightarrow> nat" where
  "passed n (Next l) = l"
| "passed n (Set_waiting l) = l"
| "passed n (While l) = l"
| "passed n (Scan l k) = l"
| "passed n (Recheck l k) = l"
| "passed n Exited = 0"
| "passed n _ = n - 1"

fun waits_at :: "location \<Rightarrow> nat \<Rightarrow> bool" where
  "waits_at (While l) l' = (l = l')"
| "waits_at (Scan l k) l' = (l = l')"
| "waits_at (Recheck l k) l' = (l = l')"
| "waits_at _ l' = False"

fun in_critical :: "location \<Rightarrow> bool" where
  "in_critical (Next l) = False"
| "in_critical (Set_waiting l) = False"
| "in_critical (While l) = False"
| "in_critical (Scan l k) = False"
| "in_critical (Recheck l k) = False"
| "in_critical Exited = False"
| "in_critical _ = True"

definition beyond :: "nat \<Rightarrow> lock \<Rightarrow> nat \<Rightarrow> nat set" where
  "beyond n s l = {t. t < n \<and> l < passed n (loc s t)}"

definition waiters :: "nat \<Rightarrow> lock \<Rightarrow> nat \<Rightarrow> nat set" where
  "waiters n s l = {t. t < n \<and> waits_at (loc s t) l}"

definition critical :: "nat \<Rightarrow> lock \<Rightarrow> nat set" where
  "critical n s = {t. t < n \<and> in_critical (loc s t)}"

text \<open>The value of \<open>level[t]\<close> at each location, and the bounds of the indices.\<close>

fun level_of :: "nat \<Rightarrow> location \<Rightarrow> int" where
  "level_of n (Next l) = int l - 1"
| "level_of n (Set_waiting l) = int l"
| "level_of n (While l) = int l"
| "level_of n (Scan l k) = int l"
| "level_of n (Recheck l k) = int l"
| "level_of n Exited = -1"
| "level_of n _ = int (n - 1) - 1"

fun in_range :: "nat \<Rightarrow> location \<Rightarrow> bool" where
  "in_range n (Next l) = (l < n)"
| "in_range n (Set_waiting l) = (l + 1 < n)"
| "in_range n (While l) = (l + 1 < n)"
| "in_range n (Scan l k) = (l + 1 < n \<and> k \<le> n)"
| "in_range n (Recheck l k) = (l + 1 < n \<and> k < n)"
| "in_range n _ = True"

text \<open>The threads whose level a scanning thread has already read.\<close>

fun scanned :: "location \<Rightarrow> nat set" where
  "scanned (Scan l k) = {..<k}"
| "scanned (Recheck l k) = {..k}"
| "scanned _ = {}"

section \<open>The invariant\<close>

definition levels_ok :: "nat \<Rightarrow> lock \<Rightarrow> bool" where
  "levels_ok n s \<longleftrightarrow> (\<forall>t < n. level s t = level_of n (loc s t) \<and> in_range n (loc s t))"

text \<open>
  A thread that is last at its level has seen, of the threads that it has scanned, only lower levels; such a thread may since
  have entered the level, but then it has not announced itself.
\<close>

definition scan_ok :: "nat \<Rightarrow> lock \<Rightarrow> bool" where
  "scan_ok n s \<longleftrightarrow> (\<forall>t < n. \<forall>l. waits_at (loc s t) l \<longrightarrow> waiting s l = int t \<longrightarrow>
     (\<forall>k \<in> scanned (loc s t). k \<noteq> t \<longrightarrow> k < n \<longrightarrow> level s k < int l \<or> loc s k = Set_waiting l))"

definition last_waits :: "nat \<Rightarrow> lock \<Rightarrow> bool" where
  "last_waits n s \<longleftrightarrow> (\<forall>l. waiters n s l \<noteq> {} \<longrightarrow> (\<exists>w. waiting s l = int w \<and> w \<in> waiters n s l))"

definition one_stays :: "nat \<Rightarrow> lock \<Rightarrow> bool" where
  "one_stays n s \<longleftrightarrow> (\<forall>l. 2 \<le> card (beyond n s l) \<longrightarrow> waiters n s l \<noteq> {})"

definition lock_inv :: "nat \<Rightarrow> lock \<Rightarrow> bool" where
  "lock_inv n s \<longleftrightarrow> levels_ok n s \<and> scan_ok n s \<and> last_waits n s \<and> one_stays n s"

lemma start_inv: "peterson_main (int n) = Some s \<Longrightarrow> lock_inv n s"
  by (auto simp: peterson_main_def lock_inv_def levels_ok_def scan_ok_def last_waits_def one_stays_def waiters_def beyond_def split: if_splits)

lemma finite_beyond: "finite (beyond n s l)"
  by (simp add: beyond_def)

lemma levels_step:
  assumes "levels_ok n s" "t < n" "ftn n t s = Some s'"
  shows "levels_ok n s'"
proof -
  have t: "level s t = level_of n (loc s t)" "in_range n (loc s t)" using assms by (auto simp: levels_ok_def)
  have "level s' t = level_of n (loc s' t) \<and> in_range n (loc s' t)"
    using t assms(2,3) by (cases "loc s t") (auto simp: ftn_def goto_def split: if_splits)
  moreover have "level s' k = level s k" "loc s' k = loc s k" if "k \<noteq> t" for k
    using that assms(3) by (auto simp: ftn_def goto_def split: if_splits location.splits)
  ultimately show ?thesis using assms(1) unfolding levels_ok_def by metis
qed

text \<open>What a step of one thread leaves alone.\<close>

lemma ftn_others:
  assumes "ftn n t s = Some s'" "k \<noteq> t"
  shows "loc s' k = loc s k" "level s' k = level s k" "waiting s' l = int k \<Longrightarrow> waiting s l = int k"
  using assms by (auto simp: ftn_def goto_def split: if_splits location.splits)

lemma scan_step:
  assumes inv: "levels_ok n s" "scan_ok n s" and t: "t < n" "ftn n t s = Some s'"
  shows "scan_ok n s'"
  unfolding scan_ok_def
proof (intro allI impI ballI)
  fix u l k assume u: "u < n" "waits_at (loc s' u) l" "waiting s' l = int u" and k: "k \<in> scanned (loc s' u)" "k \<noteq> u" "k < n"
  show "level s' k < int l \<or> loc s' k = Set_waiting l"
  proof (cases "u = t")
    case True
    then have k': "loc s' k = loc s k" "level s' k = level s k" using ftn_others [OF t(2)] k(2) by blast+
    have old: "level s k < int l \<or> loc s k = Set_waiting l" if "waits_at (loc s t) l" "waiting s l = int t" "k \<in> scanned (loc s t)"
      using inv(2) t(1) that k(2,3) True by (auto simp: scan_ok_def)
    show ?thesis unfolding k' using old t(2) u k True
      by (cases "loc s t") (auto simp: ftn_def goto_def less_Suc_eq_le le_less split: if_splits)
  next
    case False
    note us = ftn_others [OF t(2) False]
    have old: "level s k < int l \<or> loc s k = Set_waiting l" using inv(2) u k us by (auto simp: scan_ok_def)
    show ?thesis
    proof (cases "k = t")
      case False
      then show ?thesis using old ftn_others [OF t(2) False] by simp
    next
      case True
      have "level s t = level_of n (loc s t)" using inv(1) t(1) by (simp add: levels_ok_def)
      moreover have "waiting s' l \<noteq> int t" using u(3) \<open>u \<noteq> t\<close> by simp
      ultimately show ?thesis using old t(2) True by (cases "loc s t") (auto simp: ftn_def goto_def split: if_splits)
    qed
  qed
qed

text \<open>How a step changes the sets: a thread announces itself, passes a level, or neither.\<close>

definition announces :: "nat \<Rightarrow> nat \<Rightarrow> lock \<Rightarrow> lock \<Rightarrow> nat \<Rightarrow> bool" where
  "announces n t s s' l \<longleftrightarrow> waiting s' = (waiting s)(l := int t) \<and> (\<forall>l'. beyond n s' l' = beyond n s l') \<and>
     (\<forall>l'. waiters n s' l' = (if l' = l then insert t (waiters n s l) else waiters n s l'))"

definition passes :: "nat \<Rightarrow> nat \<Rightarrow> lock \<Rightarrow> lock \<Rightarrow> nat \<Rightarrow> bool" where
  "passes n t s s' l \<longleftrightarrow> waiting s' = waiting s \<and> t \<in> waiters n s l \<and>
     (\<forall>l'. beyond n s' l' = (if l' = l then insert t (beyond n s l) else beyond n s l')) \<and>
     (\<forall>l'. waiters n s' l' = (if l' = l then waiters n s l - {t} else waiters n s l')) \<and>
     (waiting s l = int t \<longrightarrow> (\<forall>k < n. k \<noteq> t \<longrightarrow> level s k < int l \<or> loc s k = Set_waiting l))"

definition stays :: "nat \<Rightarrow> lock \<Rightarrow> lock \<Rightarrow> bool" where
  "stays n s s' \<longleftrightarrow> waiting s' = waiting s \<and> (\<forall>l. beyond n s' l \<subseteq> beyond n s l \<and> waiters n s' l = waiters n s l)"

lemma set_changes:
  assumes "ftn n t s = Some s'" "t < n"
  shows "beyond n s' l = (if l < passed n (loc s' t) then insert t (beyond n s l) else beyond n s l - {t})"
    "waiters n s' l = (if waits_at (loc s' t) l then insert t (waiters n s l) else waiters n s l - {t})"
proof -
  have "x \<in> beyond n s' l \<longleftrightarrow> (if x = t then l < passed n (loc s' t) else x \<in> beyond n s l)"
    "x \<in> waiters n s' l \<longleftrightarrow> (if x = t then waits_at (loc s' t) l else x \<in> waiters n s l)" for x
    using assms(2) ftn_others(1) [OF assms(1), of x] by (cases "x = t"; auto simp: beyond_def waiters_def)+
  then show "beyond n s' l = (if l < passed n (loc s' t) then insert t (beyond n s l) else beyond n s l - {t})"
    "waiters n s' l = (if waits_at (loc s' t) l then insert t (waiters n s l) else waiters n s l - {t})"
    by (auto simp: set_eq_iff)
qed

lemma step_effect:
  assumes inv: "levels_ok n s" "scan_ok n s" and t: "t < n" "ftn n t s = Some s'"
  shows "stays n s s' \<or> (\<exists>l. announces n t s s' l) \<or> (\<exists>l. passes n t s s' l)"
proof -
  note ch = set_changes [OF t(2,1)]
  have r: "in_range n (loc s t)" using inv(1) t(1) by (simp add: levels_ok_def)
  have me: "t \<in> beyond n s l \<longleftrightarrow> l < passed n (loc s t)" "t \<in> waiters n s l \<longleftrightarrow> waits_at (loc s t) l" for l
    using t(1) by (auto simp: beyond_def waiters_def)
  consider (ann) l where "loc s t = Set_waiting l" | (pass) l where "waits_at (loc s t) l" "loc s' t = Next (l + 1)"
    | (rest) "waiting s' = waiting s" "passed n (loc s' t) = passed n (loc s t) \<or> loc s' t = Exited" "waits_at (loc s' t) = waits_at (loc s t)"
    using t r by (cases "loc s t") (auto simp: ftn_def goto_def fun_eq_iff split: if_splits)
  then show ?thesis
  proof cases
    case ann
    then have "announces n t s s' l" using t me unfolding announces_def ch by (auto simp: ftn_def goto_def split: if_splits)
    then show ?thesis by blast
  next
    case pass
    then have l: "passed n (loc s t) = l" "waiting s' = waiting s"
      using t(2) by (cases "loc s t", auto simp: ftn_def goto_def split: if_splits)+
    have "level s k < int l \<or> loc s k = Set_waiting l" if "waiting s l = int t" "k < n" "k \<noteq> t" for k
    proof -
      have "{..<n} \<subseteq> scanned (loc s t)" using pass t(2) that(1) r by (cases "loc s t") (auto simp: ftn_def goto_def split: if_splits)
      then show ?thesis using inv(2) t(1) pass(1) that unfolding scan_ok_def by blast
    qed
    moreover have "waits_at (loc s t) l' \<longleftrightarrow> l' = l" for l' using pass(1) by (cases "loc s t") auto
    ultimately have "passes n t s s' l" using l me pass unfolding passes_def ch by auto
    then show ?thesis by blast
  next
    case rest
    then have "stays n s s'" using me unfolding stays_def ch by auto
    then show ?thesis by blast
  qed
qed

lemma beyond_level: "levels_ok n s \<Longrightarrow> k \<in> beyond n s l \<Longrightarrow> k < n \<and> int l \<le> level s k \<and> loc s k \<noteq> Set_waiting l"
  by (cases "loc s k") (auto simp: beyond_def levels_ok_def)

lemma waiter_level: "levels_ok n s \<Longrightarrow> k \<in> waiters n s l \<Longrightarrow> k < n \<and> level s k = int l \<and> loc s k \<noteq> Set_waiting l \<and> k \<notin> beyond n s l"
  by (cases "loc s k") (auto simp: beyond_def waiters_def levels_ok_def)

lemma pass_leaves_one:
  assumes inv: "levels_ok n s" "last_waits n s" and p: "passes n t s s' l"
  shows "beyond n s l = {} \<and> waiters n s l = {t} \<or> (\<exists>w. waiting s l = int w \<and> w \<in> waiters n s l - {t})"
proof -
  have "t \<in> waiters n s l" using p by (simp add: passes_def)
  then obtain w where w: "waiting s l = int w" "w \<in> waiters n s l" using inv(2) unfolding last_waits_def by blast
  show ?thesis
  proof (cases "w = t")
    case True
    then have low: "\<forall>k < n. k \<noteq> t \<longrightarrow> level s k < int l \<or> loc s k = Set_waiting l" using p w by (simp add: passes_def)
    have "k \<notin> beyond n s l" for k
    proof (cases "k = t")
      case True
      then show ?thesis using waiter_level [OF inv(1) \<open>t \<in> waiters n s l\<close>] by simp
    next
      case False
      then show ?thesis using low beyond_level [OF inv(1), of k l] by force
    qed
    moreover have "k = t" if "k \<in> waiters n s l" for k using low waiter_level [OF inv(1) that] by force
    ultimately show ?thesis using \<open>t \<in> waiters n s l\<close> by blast
  qed (use w in blast)
qed

lemma lock_inv_step:
  assumes inv: "lock_inv n s" and t: "t < n" "ftn n t s = Some s'"
  shows "lock_inv n s'"
proof -
  have i: "levels_ok n s" "scan_ok n s" "last_waits n s" "one_stays n s" using inv by (auto simp: lock_inv_def)
  have "last_waits n s' \<and> one_stays n s'"
    using step_effect [OF i(1,2) t]
  proof (elim disjE exE)
    assume st: "stays n s s'"
    then have "card (beyond n s' l) \<le> card (beyond n s l)" for l by (simp add: stays_def card_mono finite_beyond)
    then show ?thesis using st i(3,4) unfolding stays_def last_waits_def one_stays_def by (metis order_trans)
  next
    fix l assume a: "announces n t s s' l"
    then show ?thesis using i(3,4) unfolding announces_def last_waits_def one_stays_def by auto
  next
    fix l assume p: "passes n t s s' l"
    note one = pass_leaves_one [OF i(1,3) p]
    have "\<exists>w. waiting s l = int w \<and> w \<in> waiters n s l - {t}" if "waiters n s l - {t} \<noteq> {}" using one that by auto
    then have "last_waits n s'" using p i(3) unfolding passes_def last_waits_def by auto
    moreover have "waiters n s l - {t} \<noteq> {}" if "2 \<le> card (insert t (beyond n s l))" using one that by auto
    then have "one_stays n s'" using p i(4) unfolding passes_def one_stays_def by auto
    ultimately show ?thesis by simp
  qed
  then show ?thesis using levels_step [OF i(1) t] scan_step [OF i(1,2) t] by (simp add: lock_inv_def)
qed

lemma run_inv: "peterson_run n s \<Longrightarrow> lock_inv n s"
  by (induction rule: peterson_run.induct) (auto intro: start_inv lock_inv_step)

section \<open>Mutual exclusion\<close>

lemma inside_previous: "levels_ok n s \<Longrightarrow> waiters n s (Suc l) \<union> beyond n s (Suc l) \<subseteq> beyond n s l"
proof
  fix k assume ok: "levels_ok n s" and "k \<in> waiters n s (Suc l) \<union> beyond n s (Suc l)"
  then show "k \<in> beyond n s l" by (cases "loc s k") (auto simp: beyond_def waiters_def)
qed

lemma beyond_smaller:
  assumes "levels_ok n s" "one_stays n s" "2 \<le> card (beyond n s l)" "finite B" "waiters n s l \<union> beyond n s l \<subseteq> B"
  shows "card (beyond n s l) < card B"
proof -
  obtain w where "w \<in> waiters n s l" using assms(2,3) by (auto simp: one_stays_def)
  then have "w \<in> B" "w \<notin> beyond n s l" using assms(5) waiter_level [OF assms(1)] by auto
  then have "beyond n s l \<subset> B" using assms(5) by blast
  then show ?thesis using assms(4) by (rule psubset_card_mono [rotated])
qed

lemma beyond_bound:
  assumes "levels_ok n s" "one_stays n s"
  shows "card (beyond n s l) \<le> max 1 (n - 1 - l)"
proof (induction l)
  case 0
  have "waiters n s 0 \<union> beyond n s 0 \<subseteq> {..<n}" by (auto simp: waiters_def beyond_def)
  then show ?case using beyond_smaller [OF assms, of 0 "{..<n}"] by fastforce
next
  case (Suc l)
  show ?case using beyond_smaller [OF assms _ finite_beyond inside_previous [OF assms(1)], of l] Suc by fastforce
qed

lemma critical_bound:
  assumes "levels_ok n s" "one_stays n s"
  shows "card (critical n s) \<le> 1"
proof (cases "n \<le> 1")
  case True
  have "critical n s \<subseteq> {..<n}" by (auto simp: critical_def)
  then have "card (critical n s) \<le> n" using card_mono [of "{..<n}"] by fastforce
  then show ?thesis using True by simp
next
  case False
  have "passed n (loc s k) = n - 1" if "in_critical (loc s k)" for k using that by (cases "loc s k") auto
  then have "critical n s \<subseteq> beyond n s (n - 2)" using False by (auto simp: critical_def beyond_def)
  then have "card (critical n s) \<le> card (beyond n s (n - 2))" by (rule card_mono [OF finite_beyond])
  then show ?thesis using beyond_bound [OF assms, of "n - 2"] False by simp
qed

text \<open>The counter counts the threads between its increment and its decrement.\<close>

fun counts :: "location \<Rightarrow> int \<Rightarrow> bool" where
  "counts Inc_read c = (c = 0)"
| "counts (Inc_write v) c = (v = 0 \<and> c = 0)"
| "counts Check c = (c = 1)"
| "counts Dec_read c = (c = 1)"
| "counts (Dec_write v) c = (v = 1 \<and> c = 1)"
| "counts Leave c = (c = 0)"
| "counts _ c = True"

definition counter_ok :: "nat \<Rightarrow> lock \<Rightarrow> bool" where
  "counter_ok n s \<longleftrightarrow> \<not> killed s \<and> (critical n s = {} \<longrightarrow> counter s = 0) \<and> (\<forall>t < n. counts (loc s t) (counter s))"

lemma not_critical_counts: "\<not> in_critical l \<Longrightarrow> counts l c"
  by (cases l) auto

lemma only_critical: "card (critical n s) \<le> 1 \<Longrightarrow> t \<in> critical n s \<Longrightarrow> u < n \<Longrightarrow> u \<noteq> t \<Longrightarrow> \<not> in_critical (loc s u)"
proof
  assume c: "card (critical n s) \<le> 1" "t \<in> critical n s" "u < n" "u \<noteq> t" "in_critical (loc s u)"
  then have "{t, u} \<subseteq> critical n s" by (simp add: critical_def)
  moreover have "finite (critical n s)" by (simp add: critical_def)
  ultimately have "card {t, u} \<le> card (critical n s)" by (rule card_mono [rotated])
  then show False using c by simp
qed

lemma counter_step:
  assumes ok: "counter_ok n s" and c: "card (critical n s) \<le> 1" "card (critical n s') \<le> 1" and t: "t < n" "ftn n t s = Some s'"
  shows "counter_ok n s'"
proof -
  note oth = ftn_others(1) [OF t(2)]
  have tc: "counts (loc s t) (counter s)" using ok t(1) by (simp add: counter_ok_def)
  have nk: "\<not> killed s" using ok by (simp add: counter_ok_def)
  show ?thesis
  proof (cases "in_critical (loc s t)")
    case True
    then have "t \<in> critical n s" using t(1) by (simp add: critical_def)
    then have "\<not> in_critical (loc s u)" if "u < n" "u \<noteq> t" for u using only_critical [OF c(1)] that by blast
    then have o: "\<not> in_critical (loc s' u)" if "u < n" "u \<noteq> t" for u using oth that by simp
    have me: "\<not> killed s'" "counts (loc s' t) (counter s')" "\<not> in_critical (loc s' t) \<Longrightarrow> counter s' = 0"
      using True tc t(2) nk by (cases "loc s t"; auto simp: ftn_def goto_def split: if_splits)+
    have "counts (loc s' u) (counter s')" if "u < n" for u using o [OF that] me(2) not_critical_counts by (cases "u = t") auto
    moreover have "counter s' = 0" if "critical n s' = {}" using that me(3) t(1) by (auto simp: critical_def)
    ultimately show ?thesis using me(1) by (simp add: counter_ok_def)
  next
    case False
    then have same: "counter s' = counter s" "\<not> killed s'" "in_critical (loc s' t) \<Longrightarrow> loc s' t = Inc_read"
      using t(2) nk by (cases "loc s t"; auto simp: ftn_def goto_def split: if_splits)+
    have "critical n s \<subseteq> critical n s'" using False oth unfolding critical_def by (metis (mono_tags, lifting) Collect_mono)
    moreover have "critical n s = {}" if new: "in_critical (loc s' t)"
    proof -
      have "t \<in> critical n s'" using new t(1) by (simp add: critical_def)
      then have "\<not> in_critical (loc s' u)" if "u < n" "u \<noteq> t" for u using only_critical [OF c(2)] that by blast
      then show ?thesis using False oth unfolding critical_def by (metis (mono_tags, lifting) empty_Collect_eq)
    qed
    moreover have "counts (loc s' u) (counter s)" if "u < n" for u
    proof (cases "u = t")
      case True
      then show ?thesis using same(3) calculation(2) ok not_critical_counts by (cases "in_critical (loc s' t)") (auto simp: counter_ok_def)
    qed (use ok that oth in \<open>auto simp: counter_ok_def\<close>)
    ultimately show ?thesis using ok same by (auto simp: counter_ok_def)
  qed
qed

lemma run_counter: "peterson_run n s \<Longrightarrow> counter_ok n s"
proof (induction rule: peterson_run.induct)
  case (start s)
  then show ?case by (auto simp: peterson_main_def counter_ok_def critical_def split: if_splits)
next
  case (step s t s')
  have "card (critical n s) \<le> 1" "card (critical n s') \<le> 1"
    using run_inv [OF step.hyps(1)] run_inv [OF peterson_run.step [OF step.hyps]] critical_bound by (auto simp: lock_inv_def)
  then show ?case using counter_step [OF step.IH _ _ step.hyps(2,3)] by blast
qed

section \<open>Progress\<close>

definition thread_step :: "nat \<Rightarrow> lock \<Rightarrow> lock \<Rightarrow> bool" where
  "thread_step n s s' \<longleftrightarrow> (\<exists>t < n. ftn n t s = Some s')"

lemma run_steps: "(thread_step n)^** s s' \<Longrightarrow> peterson_run n s \<Longrightarrow> peterson_run n s'"
  by (induction rule: rtranclp_induct) (auto simp: thread_step_def intro: peterson_run.step)

text \<open>How far a thread has come; waiting is one point on its way.\<close>

fun progress :: "nat \<Rightarrow> location \<Rightarrow> nat" where
  "progress n (Next l) = 3 * l"
| "progress n (Set_waiting l) = 3 * l + 1"
| "progress n (While l) = 3 * l + 2"
| "progress n (Scan l k) = 3 * l + 2"
| "progress n (Recheck l k) = 3 * l + 2"
| "progress n Inc_read = 3 * n + 1"
| "progress n (Inc_write c) = 3 * n + 2"
| "progress n Check = 3 * n + 3"
| "progress n Dec_read = 3 * n + 4"
| "progress n (Dec_write c) = 3 * n + 5"
| "progress n Leave = 3 * n + 6"
| "progress n Exited = 3 * n + 7"

definition total :: "nat \<Rightarrow> lock \<Rightarrow> nat" where
  "total n s = (\<Sum>t < n. progress n (loc s t))"

lemma total_step:
  assumes "ftn n t s = Some s'" "t < n"
  shows "total n s' + progress n (loc s t) = total n s + progress n (loc s' t)"
proof -
  have "total n s = progress n (loc s t) + (\<Sum>u \<in> {..<n} - {t}. progress n (loc s u))" for s
    unfolding total_def using assms(2) by (subst sum.remove [of _ t]) auto
  moreover have "(\<Sum>u \<in> {..<n} - {t}. progress n (loc s' u)) = (\<Sum>u \<in> {..<n} - {t}. progress n (loc s u))"
    using ftn_others(1) [OF assms(1)] by (intro sum.cong) auto
  ultimately show ?thesis by simp
qed

lemma solo_move: "t < n \<Longrightarrow> ftn n t s = Some (goto t l s) \<Longrightarrow> (thread_step n)^** (goto t l s) s' \<Longrightarrow> (thread_step n)^** s s'"
  by (rule converse_rtranclp_into_rtranclp) (auto simp: thread_step_def)

lemma goto_goto [simp]: "goto t l (goto t l' s) = goto t l s" "loc (goto t l s) = (loc s)(t := l)" "killed (goto t l s) = killed s"
  "waiting (goto t l s) = waiting s" "level (goto t l s) = level s"
  by (simp_all add: goto_def)

text \<open>A waiting thread that is not the last at its level passes it.\<close>

lemma kicked_out:
  assumes "\<not> killed s" "t < n" "in_range n (loc s t)" "waits_at (loc s t) l" "waiting s l \<noteq> int t"
  shows "(thread_step n)^** s (goto t (Next (l + 1)) s)"
proof -
  have w: "(thread_step n)^** s' (goto t (Next (l + 1)) s)" if "s' = goto t (While l) s" for s'
    unfolding that using solo_move [of t n "goto t (While l) s" "Next (l + 1)"] assms(1,2,5) by (simp add: ftn_def)
  have rc: "(thread_step n)^** s' (goto t (Next (l + 1)) s)" if "s' = goto t (Recheck l k) s" for s' k
    unfolding that using solo_move [of t n "goto t (Recheck l k) s" "While l"] w assms(1,2,5) by (simp add: ftn_def)
  have self: "goto t (loc s t) s = s" by (simp add: goto_def)
  show ?thesis
  proof (cases "loc s t")
    case (While l')
    then show ?thesis using w [of s] self assms(4) by simp
  next
    case (Scan l' k)
    then have l: "l' = l" using assms(4) by simp
    have "(thread_step n)^** (goto t (Next (l + 1)) s) (goto t (Next (l + 1)) s)" by simp
    then have "(thread_step n)^** (goto t (if k < n then if level s k \<ge> int l \<and> k \<noteq> t then While l else Recheck l k else Next (l + 1)) s) (goto t (Next (l + 1)) s)"
      using w rc by simp
    then show ?thesis using solo_move [of t n s] assms(1,2) Scan l by (simp add: ftn_def)
  next
    case (Recheck l' k)
    then show ?thesis using rc [of s k] self assms(4) by simp
  qed (use assms(4) in auto)
qed

text \<open>A thread above all others passes its level.\<close>

lemma highest_passes:
  assumes "\<not> killed s" "t < n" "in_range n (loc s t)" "waits_at (loc s t) l" "waiting s l = int t" "\<forall>k < n. k \<noteq> t \<longrightarrow> level s k < int l"
  shows "(thread_step n)^** s (goto t (Next (l + 1)) s)"
proof -
  have sc: "(thread_step n)^** (goto t (Scan l k) s) (goto t (Next (l + 1)) s)" if "k \<le> n" for k
    using that
  proof (induction "n - k" arbitrary: k)
    case 0
    then show ?case using solo_move [of t n "goto t (Scan l k) s" "Next (l + 1)"] assms(1,2) by (simp add: ftn_def)
  next
    case (Suc d)
    have "(thread_step n)^** (goto t (Scan l (k + 1)) s) (goto t (Next (l + 1)) s)" using Suc by simp
    then have "(thread_step n)^** (goto t (Recheck l k) s) (goto t (Next (l + 1)) s)"
      using solo_move [of t n "goto t (Recheck l k) s" "Scan l (k + 1)"] assms(1,2,5) by (simp add: ftn_def)
    moreover have "k < n" using Suc by simp
    moreover from this have "(if level s k \<ge> int l \<and> k \<noteq> t then While l else Recheck l k) = Recheck l k" using assms(6) by (auto simp: not_le)
    ultimately show ?case using solo_move [of t n "goto t (Scan l k) s" "Recheck l k"] assms(1,2) by (simp add: ftn_def)
  qed
  have self: "goto t (loc s t) s = s" by (simp add: goto_def)
  show ?thesis
  proof (cases "loc s t")
    case (While l')
    then show ?thesis using solo_move [of t n s "Scan l 0"] sc [of 0] assms(1,2,4,5) by (simp add: ftn_def)
  next
    case (Scan l' k)
    then show ?thesis using sc [of k] self assms(3,4) by simp
  next
    case (Recheck l' k)
    then show ?thesis using solo_move [of t n s "Scan l (k + 1)"] sc [of "k + 1"] assms(1-5) by (simp add: ftn_def)
  qed (use assms(4) in auto)
qed

lemma total_goto: "t < n \<Longrightarrow> progress n (loc s t) < progress n l \<Longrightarrow> total n s < total n (goto t l s)"
  unfolding total_def by (rule sum_strict_mono_ex1) auto

lemma moving_thread:
  assumes ok: "counter_ok n s" "levels_ok n s" and t: "t < n" "loc s t \<noteq> Exited" "\<forall>l. \<not> waits_at (loc s t) l"
  shows "\<exists>s'. thread_step n s s' \<and> total n s < total n s'"
proof -
  have nk: "\<not> killed s" and c: "counts (loc s t) (counter s)" and r: "in_range n (loc s t)"
    using ok t(1) by (auto simp: counter_ok_def levels_ok_def)
  have "\<exists>s'. ftn n t s = Some s' \<and> progress n (loc s t) < progress n (loc s' t)"
    using t(2,3) nk c r by (cases "loc s t") (auto simp: ftn_def)
  then obtain s' where s': "ftn n t s = Some s'" "progress n (loc s t) < progress n (loc s' t)" by blast
  then have "total n s < total n s'" using total_step [OF s'(1) t(1)] by linarith
  then show ?thesis using s'(1) t(1) by (auto simp: thread_step_def)
qed

lemma waiting_thread:
  assumes inv: "lock_inv n s" "\<not> killed s" and t: "t < n" "loc s t \<noteq> Exited"
    and all: "\<forall>u < n. loc s u = Exited \<or> (\<exists>l. waits_at (loc s u) l)"
  shows "\<exists>s'. (thread_step n)^** s s' \<and> total n s < total n s'"
proof -
  have lv: "levels_ok n s" "last_waits n s" using inv by (auto simp: lock_inv_def)
  let ?L = "{l. waiters n s l \<noteq> {}}"
  have "waits_at (loc s u) l \<Longrightarrow> u < n \<Longrightarrow> l < n" for u l using lv(1) by (cases "loc s u") (auto simp: levels_ok_def dest!: spec [of _ u])
  then have "?L \<subseteq> {..<n}" by (auto simp: waiters_def)
  then have fin: "finite ?L" using finite_subset by blast
  obtain l0 where "waits_at (loc s t) l0" using all t by blast
  then have ne: "?L \<noteq> {}" using t(1) by (auto simp: waiters_def)
  define l where "l = Max ?L"
  have l: "waiters n s l \<noteq> {}" using Max_in [OF fin ne] by (simp add: l_def)
  then obtain w where w: "waiting s l = int w" "w \<in> waiters n s l" using lv(2) by (auto simp: last_waits_def)
  have "\<exists>u \<in> waiters n s l. (thread_step n)^** s (goto u (Next (l + 1)) s)"
  proof (cases "waiters n s l = {w}")
    case False
    then obtain u where u: "u \<in> waiters n s l" "u \<noteq> w" using w(2) by blast
    then have "(thread_step n)^** s (goto u (Next (l + 1)) s)"
      using kicked_out [of s u n l] inv(2) lv(1) w(1) by (auto simp: waiters_def levels_ok_def)
    then show ?thesis using u by blast
  next
    case True
    have "level s k < int l" if k: "k < n" "k \<noteq> w" for k
    proof (cases "loc s k = Exited")
      case True
      then show ?thesis using lv(1) k by (simp add: levels_ok_def)
    next
      case False
      then obtain l' where l': "waits_at (loc s k) l'" using all k by blast
      then have kw: "k \<in> waiters n s l'" using k by (simp add: waiters_def)
      then have "l' \<le> l" unfolding l_def using Max_ge [OF fin] by blast
      moreover have "l' \<noteq> l" using kw True k by blast
      ultimately show ?thesis using waiter_level [OF lv(1) kw] by simp
    qed
    then have "(thread_step n)^** s (goto w (Next (l + 1)) s)"
      using highest_passes [of s w n l] inv(2) lv(1) w by (auto simp: waiters_def levels_ok_def)
    then show ?thesis using w by blast
  qed
  then obtain u where u: "u \<in> waiters n s l" "(thread_step n)^** s (goto u (Next (l + 1)) s)" by blast
  have "progress n (loc s u) < progress n (Next (l + 1))" "u < n" using u(1) by (cases "loc s u"; auto simp: waiters_def)+
  then show ?thesis using u(2) total_goto by blast
qed

lemma total_bound: "levels_ok n s \<Longrightarrow> total n s \<le> n * (3 * n + 7)"
proof -
  assume ok: "levels_ok n s"
  have "progress n (loc s t) \<le> 3 * n + 7" if "t < n" for t
  proof -
    have "in_range n (loc s t)" using ok that by (simp add: levels_ok_def)
    then show ?thesis by (cases "loc s t") auto
  qed
  then have "total n s \<le> (\<Sum>t < n. 3 * n + 7)" unfolding total_def by (intro sum_mono) simp
  then show ?thesis by simp
qed

lemma all_can_exit: "peterson_run n s \<Longrightarrow> \<exists>s'. (thread_step n)^** s s' \<and> (\<forall>t < n. loc s' t = Exited)"
proof (induction "n * (3 * n + 7) - total n s" arbitrary: s rule: less_induct)
  case less
  note inv = run_inv [OF less.prems] and cnt = run_counter [OF less.prems]
  have nk: "\<not> killed s" and lv: "levels_ok n s" using inv cnt by (auto simp: lock_inv_def counter_ok_def)
  show ?case
  proof (cases "\<forall>t < n. loc s t = Exited")
    case False
    then obtain t where t: "t < n" "loc s t \<noteq> Exited" by blast
    have "\<exists>s'. (thread_step n)^** s s' \<and> total n s < total n s'"
    proof (cases "\<forall>u < n. loc s u = Exited \<or> (\<exists>l. waits_at (loc s u) l)")
      case True
      then show ?thesis using waiting_thread [OF inv nk t] by blast
    next
      case False
      then show ?thesis using moving_thread [OF cnt lv] by blast
    qed
    then obtain s' where s': "(thread_step n)^** s s'" "total n s < total n s'" by blast
    have run: "peterson_run n s'" using run_steps s'(1) less.prems by blast
    then have "total n s' \<le> n * (3 * n + 7)" using run_inv total_bound by (auto simp: lock_inv_def)
    then have "n * (3 * n + 7) - total n s' < n * (3 * n + 7) - total n s" using s'(2) by simp
    from less.hyps [OF this run] s'(1) show ?thesis by (meson rtranclp_trans)
  qed auto
qed

section \<open>Properties\<close>

text \<open>
  C25. Mutual exclusion: in every interleaving of any number of threads at most one thread is between the last level and \<open>level[thread_num] = -1\<close>,
  although a thread reads the levels of the others one after the other; so the counter is 0 or 1, the process never kills itself, and
  the indices of \<open>level\<close> and \<open>waiting\<close> stay below \<open>max_num\<close> and \<open>max_num - 1\<close>.
\<close>

theorem peterson_mutual_exclusion:
  assumes "peterson_run max_num s"
  shows "card (critical max_num s) \<le> 1 \<and> counter s \<in> {0, 1} \<and> \<not> killed s \<and> (\<forall>t < max_num. in_range max_num (loc s t))"
proof -
  have inv: "levels_ok max_num s" "one_stays max_num s" using run_inv [OF assms] by (auto simp: lock_inv_def)
  have c: "counter_ok max_num s" by (rule run_counter [OF assms])
  have "counter s \<in> {0, 1}"
  proof (cases "critical max_num s = {}")
    case False
    then obtain t where t: "t < max_num" "in_critical (loc s t)" by (auto simp: critical_def)
    then have "counts (loc s t) (counter s)" using c by (simp add: counter_ok_def)
    then show ?thesis using t(2) by (cases "loc s t") auto
  qed (use c in \<open>simp add: counter_ok_def\<close>)
  then show ?thesis using critical_bound [OF inv] c inv(1) by (auto simp: counter_ok_def levels_ok_def)
qed

fun schedule :: "nat \<Rightarrow> nat list \<Rightarrow> lock \<Rightarrow> lock option" where
  "schedule n [] s = Some s"
| "schedule n (t # ts) s = (case ftn n t s of None \<Rightarrow> None | Some s' \<Rightarrow> schedule n ts s')"

lemma schedule_run: "peterson_run n s \<Longrightarrow> \<forall>t \<in> set ts. t < n \<Longrightarrow> schedule n ts s = Some s' \<Longrightarrow> peterson_run n s'"
  by (induction ts arbitrary: s) (auto intro: peterson_run.step split: option.splits)

text \<open>Two threads: both enter level 0, the second one waits while the first is in its critical section.\<close>

lemma demo_schedule:
  "\<exists>s. peterson_run 2 s \<and> in_critical (loc s 0) \<and> loc s 1 = While 0"
proof -
  let ?s = "\<lparr>level = (\<lambda>_. -1), waiting = (\<lambda>_. -1), counter = 0, killed = False, loc = (\<lambda>_. Next 0)\<rparr>"
  have run: "peterson_run 2 ?s" by (rule peterson_run.start) (simp add: peterson_main_def MAX_N_def)
  have "\<exists>s. schedule 2 [0, 0, 1, 1, 0, 0, 0] ?s = Some s \<and> in_critical (loc s 0) \<and> loc s 1 = While 0"
    by (simp add: ftn_def goto_def)
  then show ?thesis using schedule_run [OF run, of "[0, 0, 1, 1, 0, 0, 0]"] by auto
qed

theorem peterson_mutual_exclusion_witness:
  "\<exists>s. peterson_run 2 s \<and> in_critical (loc s 0) \<and> loc s 1 = While 0 \<and> card (critical 2 s) \<le> 1"
  using demo_schedule peterson_mutual_exclusion by blast

text \<open>
  C26. No deadlock: from every reachable state the threads can be scheduled so that all of them pass all levels and exit.
\<close>

theorem peterson_no_deadlock:
  assumes "peterson_run max_num s"
  shows "\<exists>s'. (thread_step max_num)^** s s' \<and> (\<forall>t < max_num. loc s' t = Exited)"
  using all_can_exit [OF assms] .

theorem peterson_no_deadlock_witness:
  "\<exists>s s'. peterson_run 2 s \<and> loc s 1 = While 0 \<and> (thread_step 2)^** s s' \<and> loc s' 1 = Exited"
proof -
  obtain s where s: "peterson_run 2 s" "loc s 1 = While 0" using demo_schedule by blast
  obtain s' where "(thread_step 2)^** s s'" "\<forall>t < 2. loc s' t = Exited" using peterson_no_deadlock [OF s(1)] by blast
  moreover from this(2) have "loc s' 1 = Exited" by simp
  ultimately show ?thesis using s by blast
qed

end
