(* ===== verification/Producer_Consumer.thy ===== *)
theory Producer_Consumer
  imports Prelude
begin

text \<open>
  Producers and consumers over a bounded buffer in shared memory: \<open>Labweek15/alg.18-6-syn-pc-con-6.c\<close> with its header, which sets the memory up,
  \<open>alg.18-7-syn-pc-producer-6.c\<close> and \<open>alg.18-8-syn-pc-consumer-6.c\<close>. Every access of the shared memory or of a semaphore is a step of its
  thread, and the steps interleave in any order. The invariant counts threads by where they are.
\<close>

section \<open>The shared memory\<close>

definition BASE_ADDR :: int where "BASE_ADDR = 10"

record data_pc_st =
  item_no :: int
  pro_tid :: int

datatype producer_at =
    P_test \<comment> \<open>head of the \<open>while\<close> loop\<close>
  | P_wait_empty | P_wait_mutex
  | P_check \<comment> \<open>the second test of \<open>item_num\<close>\<close>
  | P_count | P_enqueue | P_store | P_store_tid | P_print | P_flag | P_post_stock
  | P_return \<comment> \<open>the \<open>else\<close> branch\<close>
  | P_post_mutex | P_exited

datatype consumer_at =
    C_test \<comment> \<open>reads \<open>consume_num\<close>\<close>
  | C_test_item int \<comment> \<open>compares the value read with \<open>item_num\<close>\<close>
  | C_test_end \<comment> \<open>reads \<open>END_FLAG\<close>\<close>
  | C_wait_stock | C_wait_mutex
  | C_check | C_dequeue | C_print | C_count | C_post_empty
  | C_return \<comment> \<open>the \<open>else\<close> branch\<close>
  | C_post_mutex | C_exited

datatype main_at = Join nat | Post nat | Returned

datatype line =
    Prepared int int int \<comment> \<open>thread, item, \<open>enqueue\<close>\<close>
  | Taken int int int int \<comment> \<open>thread, item, producer, \<open>dequeue\<close>\<close>

record ctln_pc_st =
  BUFFER_SIZE :: int
  MAX_ITEM_NUM :: int
  THREAD_PRO :: int
  THREAD_CONS :: int
  sem_mutex :: int
  stock :: int
  emptyslot :: int
  item_num :: int
  consume_num :: int
  enqueue :: int
  dequeue :: int
  END_FLAG :: int
  data :: "data_pc_st list"
  printed :: "line list"
  pro_at :: "nat \<Rightarrow> producer_at"
  cons_at :: "nat \<Rightarrow> consumer_at"
  pro_main :: main_at
  cons_main :: main_at

text \<open>The first \<open>BASE_ADDR\<close> units of the memory hold the control data; the list \<open>data\<close> has all units.\<close>

definition unit_update :: "(data_pc_st \<Rightarrow> data_pc_st) \<Rightarrow> int \<Rightarrow> ctln_pc_st \<Rightarrow> ctln_pc_st outcome" where
  "unit_update f i s =
     andThen (array_get (data s) (i + BASE_ADDR)) (\<lambda>u.
     andThen (array_set (data s) (i + BASE_ADDR) (f u)) (\<lambda>d. Inr (s\<lparr>data := d\<rparr>)))"

text \<open>The loop of \<open>main\<close> that reads the four numbers; \<open>None\<close> when the user quits.\<close>

fun read_sizes :: "int list \<Rightarrow> (int \<times> int \<times> int \<times> int) option" where
  "read_sizes [] = None"
| "read_sizes (b # xs) =
     (if b \<le> 0 then None else if b > 100 then read_sizes xs
      else case xs of [] \<Rightarrow> None | m # ys \<Rightarrow>
        if m \<le> 0 then None else if m > 10000 then read_sizes ys
        else case ys of p # c # zs \<Rightarrow> if p \<le> 0 \<or> c \<le> 0 then None else Some (b, m, p, c) | _ \<Rightarrow> None)"

text \<open>The memory may hold old data.\<close>

definition console_main :: "(nat \<Rightarrow> data_pc_st) \<Rightarrow> int list \<Rightarrow> ctln_pc_st option" where
  "console_main old input =
     (case read_sizes input of None \<Rightarrow> None | Some (buffer_size, max_item_num, thread_pro, thread_cons) \<Rightarrow>
        Some \<lparr>BUFFER_SIZE = buffer_size, MAX_ITEM_NUM = max_item_num, THREAD_PRO = thread_pro, THREAD_CONS = thread_cons,
              sem_mutex = 1, stock = 0, emptyslot = buffer_size, item_num = 0, consume_num = 0, enqueue = 0, dequeue = 0, END_FLAG = 0,
              data = map old [0..<nat (buffer_size + BASE_ADDR)], printed = [],
              pro_at = (\<lambda>_. P_test), cons_at = (\<lambda>_. C_test), pro_main = Join 0, cons_main = Join 0\<rparr>)"

section \<open>The threads\<close>

definition pro_goto :: "nat \<Rightarrow> producer_at \<Rightarrow> ctln_pc_st \<Rightarrow> ctln_pc_st" where
  "pro_goto t l s = s\<lparr>pro_at := (pro_at s)(t := l)\<rparr>"

definition cons_goto :: "nat \<Rightarrow> consumer_at \<Rightarrow> ctln_pc_st \<Rightarrow> ctln_pc_st" where
  "cons_goto t l s = s\<lparr>cons_at := (cons_at s)(t := l)\<rparr>"

text \<open>
  One step of producer \<open>t\<close>; \<open>None\<close> when it waits or has exited. The argument \<open>gettid\<close> is the number of its thread.
\<close>

definition producer :: "(nat \<Rightarrow> int) \<Rightarrow> nat \<Rightarrow> ctln_pc_st \<Rightarrow> ctln_pc_st outcome option" where
  "producer gettid t s =
     (case pro_at s t of
        P_test \<Rightarrow> Some (Inr (if item_num s < MAX_ITEM_NUM s then pro_goto t P_wait_empty s else pro_goto t P_exited s))
      | P_wait_empty \<Rightarrow> if 0 < emptyslot s then Some (Inr (pro_goto t P_wait_mutex (s\<lparr>emptyslot := emptyslot s - 1\<rparr>))) else None
      | P_wait_mutex \<Rightarrow> if 0 < sem_mutex s then Some (Inr (pro_goto t P_check (s\<lparr>sem_mutex := sem_mutex s - 1\<rparr>))) else None
      | P_check \<Rightarrow> Some (Inr (if item_num s < MAX_ITEM_NUM s then pro_goto t P_count s else pro_goto t P_return s))
      | P_count \<Rightarrow> Some (Inr (pro_goto t P_enqueue (s\<lparr>item_num := item_num s + 1\<rparr>)))
      | P_enqueue \<Rightarrow> Some (Inr (pro_goto t P_store (s\<lparr>enqueue := (enqueue s + 1) mod BUFFER_SIZE s\<rparr>)))
      | P_store \<Rightarrow> Some (andThen (unit_update (\<lambda>u. u\<lparr>item_no := item_num s\<rparr>) (enqueue s) s) (\<lambda>s'. Inr (pro_goto t P_store_tid s')))
      | P_store_tid \<Rightarrow> Some (andThen (unit_update (\<lambda>u. u\<lparr>pro_tid := gettid t\<rparr>) (enqueue s) s) (\<lambda>s'. Inr (pro_goto t P_print s')))
      | P_print \<Rightarrow> Some (andThen (array_get (data s) (enqueue s + BASE_ADDR)) (\<lambda>u.
          Inr (pro_goto t P_flag (s\<lparr>printed := printed s @ [Prepared (pro_tid u) (item_no u) (enqueue s)]\<rparr>))))
      | P_flag \<Rightarrow> Some (Inr (pro_goto t P_post_stock (if item_num s = MAX_ITEM_NUM s then s\<lparr>END_FLAG := 1\<rparr> else s)))
      | P_post_stock \<Rightarrow> Some (Inr (pro_goto t P_post_mutex (s\<lparr>stock := stock s + 1\<rparr>)))
      | P_return \<Rightarrow> Some (Inr (pro_goto t P_post_mutex (s\<lparr>emptyslot := emptyslot s + 1\<rparr>)))
      | P_post_mutex \<Rightarrow> Some (Inr (pro_goto t P_test (s\<lparr>sem_mutex := sem_mutex s + 1\<rparr>)))
      | P_exited \<Rightarrow> None)"

text \<open>The operands of the test of the loop are read from left to right.\<close>

definition consumer :: "(nat \<Rightarrow> int) \<Rightarrow> nat \<Rightarrow> ctln_pc_st \<Rightarrow> ctln_pc_st outcome option" where
  "consumer gettid t s =
     (case cons_at s t of
        C_test \<Rightarrow> Some (Inr (cons_goto t (C_test_item (consume_num s)) s))
      | C_test_item c \<Rightarrow> Some (Inr (if c < item_num s then cons_goto t C_wait_stock s else cons_goto t C_test_end s))
      | C_test_end \<Rightarrow> Some (Inr (if END_FLAG s = 0 then cons_goto t C_wait_stock s else cons_goto t C_exited s))
      | C_wait_stock \<Rightarrow> if 0 < stock s then Some (Inr (cons_goto t C_wait_mutex (s\<lparr>stock := stock s - 1\<rparr>))) else None
      | C_wait_mutex \<Rightarrow> if 0 < sem_mutex s then Some (Inr (cons_goto t C_check (s\<lparr>sem_mutex := sem_mutex s - 1\<rparr>))) else None
      | C_check \<Rightarrow> Some (Inr (if consume_num s < item_num s then cons_goto t C_dequeue s else cons_goto t C_return s))
      | C_dequeue \<Rightarrow> Some (Inr (cons_goto t C_print (s\<lparr>dequeue := (dequeue s + 1) mod BUFFER_SIZE s\<rparr>)))
      | C_print \<Rightarrow> Some (andThen (array_get (data s) (dequeue s + BASE_ADDR)) (\<lambda>u.
          Inr (cons_goto t C_count (s\<lparr>printed := printed s @ [Taken (gettid t) (item_no u) (pro_tid u) (dequeue s)]\<rparr>))))
      | C_count \<Rightarrow> Some (Inr (cons_goto t C_post_empty (s\<lparr>consume_num := consume_num s + 1\<rparr>)))
      | C_post_empty \<Rightarrow> Some (Inr (cons_goto t C_post_mutex (s\<lparr>emptyslot := emptyslot s + 1\<rparr>)))
      | C_return \<Rightarrow> Some (Inr (cons_goto t C_post_mutex (s\<lparr>stock := stock s + 1\<rparr>)))
      | C_post_mutex \<Rightarrow> Some (Inr (cons_goto t C_test (s\<lparr>sem_mutex := sem_mutex s + 1\<rparr>)))
      | C_exited \<Rightarrow> None)"

text \<open>The two \<open>main\<close> functions, after they have created their threads.\<close>

definition producer_main :: "ctln_pc_st \<Rightarrow> ctln_pc_st outcome option" where
  "producer_main s =
     (case pro_main s of
        Join i \<Rightarrow> if int i < THREAD_PRO s then if pro_at s i = P_exited then Some (Inr (s\<lparr>pro_main := Join (i + 1)\<rparr>)) else None
                  else Some (Inr (s\<lparr>pro_main := Post 0\<rparr>))
      | Post i \<Rightarrow> Some (Inr (if int i < THREAD_CONS s - 1 then s\<lparr>pro_main := Post (i + 1), stock := stock s + 1\<rparr> else s\<lparr>pro_main := Returned\<rparr>))
      | Returned \<Rightarrow> None)"

definition consumer_main :: "ctln_pc_st \<Rightarrow> ctln_pc_st outcome option" where
  "consumer_main s =
     (case cons_main s of
        Join i \<Rightarrow> if int i < THREAD_CONS s then if cons_at s i = C_exited then Some (Inr (s\<lparr>cons_main := Join (i + 1)\<rparr>)) else None
                  else Some (Inr (s\<lparr>cons_main := Returned\<rparr>))
      | _ \<Rightarrow> None)"

datatype agent = Producer nat | Consumer nat | Producer_main | Consumer_main

definition pc_move :: "(nat \<Rightarrow> int) \<Rightarrow> agent \<Rightarrow> ctln_pc_st \<Rightarrow> ctln_pc_st outcome option" where
  "pc_move gettid a s =
     (case a of
        Producer t \<Rightarrow> if int t < THREAD_PRO s then producer gettid t s else None
      | Consumer t \<Rightarrow> if int t < THREAD_CONS s then consumer gettid t s else None
      | Producer_main \<Rightarrow> producer_main s
      | Consumer_main \<Rightarrow> consumer_main s)"

inductive pc_run :: "(nat \<Rightarrow> int) \<Rightarrow> (nat \<Rightarrow> data_pc_st) \<Rightarrow> int list \<Rightarrow> ctln_pc_st \<Rightarrow> bool" for gettid old input where
  start: "console_main old input = Some s \<Longrightarrow> pc_run gettid old input s"
| move: "pc_run gettid old input s \<Longrightarrow> pc_move gettid a s = Some (Inr s') \<Longrightarrow> pc_run gettid old input s'"

section \<open>Counting threads\<close>

definition total :: "('l \<Rightarrow> int) \<Rightarrow> int \<Rightarrow> (nat \<Rightarrow> 'l) \<Rightarrow> int" where
  "total w n f = (\<Sum>i < nat n. w (f i))"

definition number :: "'l set \<Rightarrow> int \<Rightarrow> (nat \<Rightarrow> 'l) \<Rightarrow> int" where
  "number A = total (\<lambda>l. of_bool (l \<in> A))"

lemma total_update [simp]: "int t < n \<Longrightarrow> total w n (f(t := l)) = total w n f + w l - w (f t)"
proof -
  assume "int t < n"
  then have t: "t \<in> {..<nat n}" by simp
  have "(\<Sum>i \<in> {..<nat n} - {t}. w ((f(t := l)) i)) = (\<Sum>i \<in> {..<nat n} - {t}. w (f i))" by (rule sum.cong) auto
  then show ?thesis unfolding total_def using sum.remove [OF _ t, of "\<lambda>i. w (f i)"] sum.remove [OF _ t, of "\<lambda>i. w ((f(t := l)) i)"] by simp
qed

lemma number_update [simp]: "int t < n \<Longrightarrow> number A n (f(t := l)) = number A n f + of_bool (l \<in> A) - of_bool (f t \<in> A)"
  by (simp add: number_def)

lemma number_const [simp]: "number A n (\<lambda>_. l) = (if l \<in> A \<and> 0 \<le> n then n else 0)"
  by (simp add: number_def total_def)

lemma number_nonneg: "0 \<le> number A n f"
  by (simp add: number_def total_def sum_nonneg)

lemma number_mono: "A \<subseteq> B \<Longrightarrow> number A n f \<le> number B n f"
  unfolding number_def total_def by (rule sum_mono) auto

lemma number_one: "int t < n \<Longrightarrow> f t \<in> A \<Longrightarrow> 1 \<le> number A n f"
proof -
  assume t: "int t < n" "f t \<in> A"
  then have "of_bool (f t \<in> A) \<le> (\<Sum>i < nat n. of_bool (f i \<in> A) :: int)" by (intro member_le_sum) auto
  then show ?thesis using t by (simp add: number_def total_def)
qed

lemma number_zero: "number A n f = 0 \<longleftrightarrow> (\<forall>t. int t < n \<longrightarrow> f t \<notin> A)"
  unfolding number_def total_def by (subst sum_nonneg_eq_0_iff) (auto simp: zless_nat_eq_int_zless)

lemma number_disjoint: "A \<inter> B = {} \<Longrightarrow> number (A \<union> B) n f = number A n f + number B n f"
  unfolding number_def total_def sum.distrib [symmetric] by (intro sum.cong refl) auto

text \<open>A thread that is alone in \<open>B\<close> decides the number of threads in every part of \<open>B\<close>.\<close>

lemma number_alone:
  assumes "int t < n" "f t \<in> B" "number B n f \<le> 1" "A \<subseteq> B"
  shows "number A n f = of_bool (f t \<in> A)"
proof (cases "f t \<in> A")
  case True
  then show ?thesis using number_one [of t n f A] number_mono [of A B n f] assms by simp
next
  case False
  have "B = A \<union> (B - A)" using assms(4) by blast
  then have "number B n f = number A n f + number (B - A) n f" using number_disjoint [of A "B - A" n f] by auto
  then show ?thesis using number_one [of t n f "B - A"] number_nonneg [of A n f] False assms by simp
qed

section \<open>The invariant\<close>

abbreviation "in_producer \<equiv> {P_check, P_count, P_enqueue, P_store, P_store_tid, P_print, P_flag, P_post_stock, P_return, P_post_mutex}"
abbreviation "in_consumer \<equiv> {C_check, C_dequeue, C_print, C_count, C_post_empty, C_return, C_post_mutex}"

text \<open>Producers with a free slot; producers with an item not yet announced; consumers with an announced item.\<close>

abbreviation "with_slot \<equiv> {P_wait_mutex, P_check, P_count, P_return}"
abbreviation "with_item \<equiv> {P_enqueue, P_store, P_store_tid, P_print, P_flag, P_post_stock}"
abbreviation "with_stock \<equiv> {C_wait_mutex, C_check, C_dequeue, C_print, C_count, C_return}"

definition pcount :: "producer_at set \<Rightarrow> ctln_pc_st \<Rightarrow> int" where
  "pcount A s = number A (THREAD_PRO s) (pro_at s)"

definition ccount :: "consumer_at set \<Rightarrow> ctln_pc_st \<Rightarrow> int" where
  "ccount A s = number A (THREAD_CONS s) (cons_at s)"

fun extra_posts :: "int \<Rightarrow> main_at \<Rightarrow> int" where
  "extra_posts n (Join i) = 0"
| "extra_posts n (Post i) = int i"
| "extra_posts n Returned = n - 1"

definition sizes_ok :: "ctln_pc_st \<Rightarrow> bool" where
  "sizes_ok s \<longleftrightarrow> 0 < BUFFER_SIZE s \<and> 0 < MAX_ITEM_NUM s \<and> 0 < THREAD_PRO s \<and> 0 < THREAD_CONS s \<and> int (length (data s)) = BUFFER_SIZE s + BASE_ADDR"

definition semaphores_ok :: "ctln_pc_st \<Rightarrow> bool" where
  "semaphores_ok s \<longleftrightarrow> 0 \<le> sem_mutex s \<and> 0 \<le> emptyslot s \<and> 0 \<le> stock s
     \<and> sem_mutex s + pcount in_producer s + ccount in_consumer s = 1
     \<and> emptyslot s + pcount with_slot s + (item_num s - consume_num s) + ccount {C_post_empty} s = BUFFER_SIZE s
     \<and> stock s + pcount with_item s + ccount with_stock s = item_num s - consume_num s + extra_posts (THREAD_CONS s) (pro_main s)"

definition counts_ok :: "ctln_pc_st \<Rightarrow> bool" where
  "counts_ok s \<longleftrightarrow> 0 \<le> consume_num s \<and> consume_num s \<le> item_num s \<and> item_num s \<le> MAX_ITEM_NUM s
     \<and> (MAX_ITEM_NUM s \<le> item_num s \<longrightarrow> pcount {P_count} s = 0)
     \<and> (item_num s < MAX_ITEM_NUM s \<longrightarrow> pcount {P_return, P_exited} s = 0)
     \<and> (item_num s \<le> consume_num s \<longrightarrow> ccount {C_dequeue, C_print, C_count} s = 0)
     \<and> (END_FLAG s = 0 \<or> END_FLAG s = 1 \<and> MAX_ITEM_NUM s \<le> item_num s)
     \<and> (MAX_ITEM_NUM s \<le> item_num s \<and> pcount {P_enqueue, P_store, P_store_tid, P_print, P_flag} s = 0 \<longrightarrow> END_FLAG s = 1)"

definition mains_ok :: "ctln_pc_st \<Rightarrow> bool" where
  "mains_ok s \<longleftrightarrow> (case pro_main s of
       Join i \<Rightarrow> int i \<le> THREAD_PRO s \<and> (\<forall>t < i. pro_at s t = P_exited)
     | Post i \<Rightarrow> int i \<le> THREAD_CONS s - 1 \<and> (\<forall>t. int t < THREAD_PRO s \<longrightarrow> pro_at s t = P_exited)
     | Returned \<Rightarrow> \<forall>t. int t < THREAD_PRO s \<longrightarrow> pro_at s t = P_exited)"

lemmas pc_simps = pcount_def ccount_def pro_goto_def cons_goto_def

lemma pc_move_cases:
  assumes "pc_move gettid a s = Some r"
  obtains (P) t where "a = Producer t" "int t < THREAD_PRO s" "producer gettid t s = Some r"
  | (C) t where "a = Consumer t" "int t < THREAD_CONS s" "consumer gettid t s = Some r"
  | (PM) "a = Producer_main" "producer_main s = Some r"
  | (CM) "a = Consumer_main" "consumer_main s = Some r"
  using assms by (cases a) (auto simp: pc_move_def split: if_splits)

lemma unit_update_Inr: "unit_update f i s = Inr s' \<longleftrightarrow>
    0 \<le> i + BASE_ADDR \<and> i + BASE_ADDR < int (length (data s)) \<and>
    s' = s\<lparr>data := (data s)[nat (i + BASE_ADDR) := f (data s ! nat (i + BASE_ADDR))]\<rparr>"
  by (auto simp: unit_update_def array_get_def array_set_def)

lemma sizes_step:
  assumes "sizes_ok s" "pc_move gettid a s = Some (Inr s')"
  shows "sizes_ok s'" "BUFFER_SIZE s' = BUFFER_SIZE s" "MAX_ITEM_NUM s' = MAX_ITEM_NUM s" "THREAD_PRO s' = THREAD_PRO s" "THREAD_CONS s' = THREAD_CONS s"
  using assms(2,1) by (cases rule: pc_move_cases; auto simp: sizes_ok_def producer_def consumer_def producer_main_def consumer_main_def
      pro_goto_def cons_goto_def andThen_eq_Inr unit_update_Inr split: producer_at.splits consumer_at.splits main_at.splits if_splits)+

section \<open>Mutual exclusion\<close>

lemma alone_producer:
  assumes "semaphores_ok s" "int t < THREAD_PRO s" "pro_at s t \<in> in_producer"
  shows "A \<subseteq> in_producer \<Longrightarrow> pcount A s = of_bool (pro_at s t \<in> A)" "B \<subseteq> in_consumer \<Longrightarrow> ccount B s = 0" "sem_mutex s = 0"
proof -
  have one: "1 \<le> pcount in_producer s" unfolding pcount_def using number_one [where f = "pro_at s", OF assms(2,3)] .
  have "0 \<le> ccount in_consumer s" unfolding ccount_def by (rule number_nonneg)
  then have n: "sem_mutex s = 0" "pcount in_producer s = 1" "ccount in_consumer s = 0" using assms(1) one by (auto simp: semaphores_ok_def)
  show "sem_mutex s = 0" by (rule n)
  show "A \<subseteq> in_producer \<Longrightarrow> pcount A s = of_bool (pro_at s t \<in> A)"
    unfolding pcount_def by (rule number_alone [where f = "pro_at s", OF assms(2,3) eq_refl [OF n(2) [unfolded pcount_def]]])
  show "B \<subseteq> in_consumer \<Longrightarrow> ccount B s = 0"
    using number_mono [of B in_consumer "THREAD_CONS s" "cons_at s"] number_nonneg [of B "THREAD_CONS s" "cons_at s"] n(3) unfolding ccount_def by linarith
qed

lemma alone_consumer:
  assumes "semaphores_ok s" "int t < THREAD_CONS s" "cons_at s t \<in> in_consumer"
  shows "A \<subseteq> in_consumer \<Longrightarrow> ccount A s = of_bool (cons_at s t \<in> A)" "B \<subseteq> in_producer \<Longrightarrow> pcount B s = 0" "sem_mutex s = 0"
proof -
  have one: "1 \<le> ccount in_consumer s" unfolding ccount_def using number_one [where f = "cons_at s", OF assms(2,3)] .
  have "0 \<le> pcount in_producer s" unfolding pcount_def by (rule number_nonneg)
  then have n: "sem_mutex s = 0" "ccount in_consumer s = 1" "pcount in_producer s = 0" using assms(1) one by (auto simp: semaphores_ok_def)
  show "sem_mutex s = 0" by (rule n)
  show "A \<subseteq> in_consumer \<Longrightarrow> ccount A s = of_bool (cons_at s t \<in> A)"
    unfolding ccount_def by (rule number_alone [where f = "cons_at s", OF assms(2,3) eq_refl [OF n(2) [unfolded ccount_def]]])
  show "B \<subseteq> in_producer \<Longrightarrow> pcount B s = 0"
    using number_mono [of B in_producer "THREAD_PRO s" "pro_at s"] number_nonneg [of B "THREAD_PRO s" "pro_at s"] n(3) unfolding pcount_def by linarith
qed

lemma pcount_zero: "pcount A s = 0 \<Longrightarrow> int t < THREAD_PRO s \<Longrightarrow> pro_at s t \<notin> A"
  by (simp add: pcount_def number_zero)

lemma ccount_zero: "ccount A s = 0 \<Longrightarrow> int t < THREAD_CONS s \<Longrightarrow> cons_at s t \<notin> A"
  by (simp add: ccount_def number_zero)

lemma other_producers:
  assumes "semaphores_ok s" "int t < THREAD_PRO s" "pro_at s t \<in> in_producer" "int u < THREAD_PRO s" "u \<noteq> t"
  shows "pro_at s u \<notin> in_producer"
proof -
  have "pcount in_producer s = 1" using alone_producer(1) [OF assms(1-3)] assms(3) by auto
  then have "number in_producer (THREAD_PRO s) ((pro_at s)(t := P_test)) = 0" using assms(2,3) by (simp add: pcount_def)
  then show ?thesis using assms(4,5) unfolding number_zero by (metis fun_upd_other)
qed

lemma other_consumers:
  assumes "semaphores_ok s" "int t < THREAD_CONS s" "cons_at s t \<in> in_consumer" "int u < THREAD_CONS s" "u \<noteq> t"
  shows "cons_at s u \<notin> in_consumer"
proof -
  have "ccount in_consumer s = 1" using alone_consumer(1) [OF assms(1-3)] assms(3) by auto
  then have "number in_consumer (THREAD_CONS s) ((cons_at s)(t := C_test)) = 0" using assms(2,3) by (simp add: ccount_def)
  then show ?thesis using assms(4,5) unfolding number_zero by (metis fun_upd_other)
qed

lemma consumer_outside:
  assumes "semaphores_ok s" "int t < THREAD_PRO s" "pro_at s t \<in> in_producer" "int u < THREAD_CONS s"
  shows "cons_at s u \<notin> in_consumer"
  using alone_producer(2) [OF assms(1-3), of in_consumer] ccount_zero [OF _ assms(4)] by blast

lemma producer_outside:
  assumes "semaphores_ok s" "int t < THREAD_CONS s" "cons_at s t \<in> in_consumer" "int u < THREAD_PRO s"
  shows "pro_at s u \<notin> in_producer"
  using alone_consumer(2) [OF assms(1-3), of in_producer] pcount_zero [OF _ assms(4)] by blast

section \<open>The steps keep the invariant\<close>

lemma semaphores_step:
  assumes "semaphores_ok s" "mains_ok s" "pc_move gettid a s = Some (Inr s')"
  shows "semaphores_ok s'"
  using assms(3)
proof (cases rule: pc_move_cases)
  case (P t)
  then show ?thesis using assms(1)
    by (cases "pro_at s t") (auto simp: producer_def semaphores_ok_def pc_simps andThen_eq_Inr unit_update_Inr split: if_splits)
next
  case (C t)
  then show ?thesis using assms(1)
    by (cases "cons_at s t") (auto simp: consumer_def semaphores_ok_def pc_simps andThen_eq_Inr split: if_splits)
next
  case PM
  then show ?thesis using assms(1,2)
    by (cases "pro_main s") (auto simp: producer_main_def semaphores_ok_def mains_ok_def pc_simps split: if_splits)
next
  case CM
  then show ?thesis using assms(1)
    by (cases "cons_main s") (auto simp: consumer_main_def semaphores_ok_def pc_simps split: if_splits)
qed

lemma mains_step:
  assumes "sizes_ok s" "mains_ok s" "pc_move gettid a s = Some (Inr s')"
  shows "mains_ok s'"
  using assms(3)
proof (cases rule: pc_move_cases)
  case (P t)
  have "pro_at s t \<noteq> P_exited" using P by (auto simp: producer_def)
  then show ?thesis using P assms(2)
    by (cases "pro_at s t"; cases "pro_main s") (auto simp: producer_def mains_ok_def pc_simps andThen_eq_Inr unit_update_Inr split: if_splits)
next
  case (C t)
  then show ?thesis using assms(2)
    by (cases "cons_at s t") (auto simp: consumer_def mains_ok_def pc_simps andThen_eq_Inr split: if_splits main_at.splits)
next
  case PM
  then show ?thesis using assms(1,2)
    by (cases "pro_main s") (auto simp: producer_main_def mains_ok_def sizes_ok_def less_Suc_eq split: if_splits)
next
  case CM
  then show ?thesis using assms(2)
    by (cases "cons_main s") (auto simp: consumer_main_def mains_ok_def split: if_splits main_at.splits)
qed

lemma counts_producer:
  assumes inv: "semaphores_ok s" "counts_ok s" and t: "int t < THREAD_PRO s" "producer gettid t s = Some (Inr s')"
  shows "counts_ok s'"
proof -
  have n: "pcount {P_enqueue, P_store, P_store_tid, P_print, P_flag} s = of_bool (pro_at s t = P_flag)"
     "pcount {P_count} s = of_bool (pro_at s t = P_count)" if "pro_at s t \<in> {P_count, P_flag}"
  proof -
    from that have t': "pro_at s t \<in> in_producer" by auto
    show "pcount {P_enqueue, P_store, P_store_tid, P_print, P_flag} s = of_bool (pro_at s t = P_flag)"
      using alone_producer(1) [OF inv(1) t(1) t', of "{P_enqueue, P_store, P_store_tid, P_print, P_flag}"] that by auto
    show "pcount {P_count} s = of_bool (pro_at s t = P_count)"
      using alone_producer(1) [OF inv(1) t(1) t', of "{P_count}"] by simp
  qed
  have r: "MAX_ITEM_NUM s \<le> item_num s" if "pro_at s t = P_return"
    using inv(2) pcount_zero [OF _ t(1), of "{P_return, P_exited}"] that by (force simp: counts_ok_def)
  show ?thesis using inv(2) t n r
    by (cases "pro_at s t"; clarsimp simp: producer_def andThen_eq_Inr unit_update_Inr split: if_splits; clarsimp simp: counts_ok_def pc_simps)
qed

lemma counts_consumer:
  assumes inv: "semaphores_ok s" "counts_ok s" and t: "int t < THREAD_CONS s" "consumer gettid t s = Some (Inr s')"
  shows "counts_ok s'"
proof -
  have n: "ccount {C_dequeue, C_print, C_count} s = 1" if "cons_at s t = C_count"
    using alone_consumer(1) [OF inv(1) t(1), of "{C_dequeue, C_print, C_count}"] that by simp
  show ?thesis using inv(2) t n
    by (cases "cons_at s t"; clarsimp simp: consumer_def andThen_eq_Inr split: if_splits; clarsimp simp: counts_ok_def pc_simps)
qed

lemma counts_step:
  assumes "semaphores_ok s" "counts_ok s" "pc_move gettid a s = Some (Inr s')"
  shows "counts_ok s'"
  using assms(3)
proof (cases rule: pc_move_cases)
  case PM
  then show ?thesis using assms(2)
    by (cases "pro_main s"; clarsimp simp: producer_main_def split: if_splits; clarsimp simp: counts_ok_def pc_simps)
next
  case CM
  then show ?thesis using assms(2)
    by (cases "cons_main s"; clarsimp simp: consumer_main_def split: if_splits; clarsimp simp: counts_ok_def pc_simps)
qed (auto intro: counts_producer [OF assms(1,2)] counts_consumer [OF assms(1,2)])

end
