(* ===== verification/Producer_Consumer_Correct.thy ===== *)
theory Producer_Consumer_Correct
  imports Producer_Consumer "HOL-Library.Sublist"
begin

text \<open>
  The threads of \<open>Labweek15/alg.18-7-syn-pc-producer-6.c\<close> and \<open>alg.18-8-syn-pc-consumer-6.c\<close> deliver the items in order, each once; every run comes to an end; and
  items stay behind only through the unprotected test of the loop of the consumers.
\<close>

section \<open>The contents of the buffer\<close>

fun prepared_item :: "line \<Rightarrow> (int \<times> int) list" where
  "prepared_item (Prepared tid no e) = [(no, tid)]"
| "prepared_item (Taken tid no pro d) = []"

fun taken_item :: "line \<Rightarrow> (int \<times> int) list" where
  "taken_item (Prepared tid no e) = []"
| "taken_item (Taken tid no pro d) = [(no, pro)]"

text \<open>The items, each with its producer, in the order in which the lines for them were printed.\<close>

definition made :: "ctln_pc_st \<Rightarrow> (int \<times> int) list" where
  "made s = concat (map prepared_item (printed s))"

definition taken :: "ctln_pc_st \<Rightarrow> (int \<times> int) list" where
  "taken s = concat (map taken_item (printed s))"

definition slot :: "ctln_pc_st \<Rightarrow> int \<Rightarrow> data_pc_st" where
  "slot s k = data s ! nat (k mod BUFFER_SIZE s + BASE_ADDR)"

definition numbered :: "(nat \<Rightarrow> int) \<Rightarrow> int \<Rightarrow> (int \<times> int) list \<Rightarrow> bool" where
  "numbered gettid n xs \<longleftrightarrow> (\<forall>i < length xs. fst (xs ! i) = int i + 1 \<and> snd (xs ! i) \<in> gettid ` {t. int t < n})"

definition buffer_ok :: "(nat \<Rightarrow> int) \<Rightarrow> ctln_pc_st \<Rightarrow> bool" where
  "buffer_ok gettid s \<longleftrightarrow>
     enqueue s = (item_num s - pcount {P_enqueue} s) mod BUFFER_SIZE s
   \<and> dequeue s = (consume_num s + ccount {C_print, C_count} s) mod BUFFER_SIZE s
   \<and> int (length (made s)) = item_num s - pcount {P_enqueue, P_store, P_store_tid, P_print} s
   \<and> int (length (taken s)) = consume_num s + ccount {C_count} s
   \<and> numbered gettid (THREAD_PRO s) (made s)
   \<and> (\<forall>i < length (made s). consume_num s \<le> int i \<longrightarrow> slot s (int i + 1) = \<lparr>item_no = fst (made s ! i), pro_tid = snd (made s ! i)\<rparr>)
   \<and> prefix (taken s) (made s)
   \<and> (pcount {P_store_tid} s = 1 \<longrightarrow> item_no (slot s (item_num s)) = item_num s)
   \<and> (pcount {P_print} s = 1 \<longrightarrow> item_no (slot s (item_num s)) = item_num s \<and> pro_tid (slot s (item_num s)) \<in> gettid ` {t. int t < THREAD_PRO s})"

lemmas buffer_simps = buffer_ok_def made_def taken_def slot_def

lemma buffer_frame:
  assumes "buffer_ok gettid s" "enqueue s' = enqueue s" "dequeue s' = dequeue s" "item_num s' = item_num s" "consume_num s' = consume_num s"
    "data s' = data s" "printed s' = printed s" "BUFFER_SIZE s' = BUFFER_SIZE s" "THREAD_PRO s' = THREAD_PRO s"
    "pcount {P_enqueue} s' = pcount {P_enqueue} s" "pcount {P_store_tid} s' = pcount {P_store_tid} s" "pcount {P_print} s' = pcount {P_print} s"
    "pcount {P_enqueue, P_store, P_store_tid, P_print} s' = pcount {P_enqueue, P_store, P_store_tid, P_print} s"
    "ccount {C_count} s' = ccount {C_count} s" "ccount {C_print, C_count} s' = ccount {C_print, C_count} s"
  shows "buffer_ok gettid s'"
  using assms(1) unfolding buffer_simps assms(2-) .

lemma slot_store:
  assumes "sizes_ok s" "data s' = (data s)[nat (j mod BUFFER_SIZE s + BASE_ADDR) := u]" "BUFFER_SIZE s' = BUFFER_SIZE s"
  shows "slot s' k = (if k mod BUFFER_SIZE s = j mod BUFFER_SIZE s then u else slot s k)"
proof -
  have B: "0 < BUFFER_SIZE s" and l: "int (length (data s)) = BUFFER_SIZE s + BASE_ADDR" using assms(1) by (auto simp: sizes_ok_def)
  have j: "0 \<le> j mod BUFFER_SIZE s" "j mod BUFFER_SIZE s < BUFFER_SIZE s" and k: "0 \<le> k mod BUFFER_SIZE s" using B by simp_all
  have "nat (j mod BUFFER_SIZE s + BASE_ADDR) < length (data s)" using j l by (simp add: BASE_ADDR_def)
  moreover have "nat (k mod BUFFER_SIZE s + BASE_ADDR) = nat (j mod BUFFER_SIZE s + BASE_ADDR) \<longleftrightarrow> k mod BUFFER_SIZE s = j mod BUFFER_SIZE s"
    using j k unfolding BASE_ADDR_def by (subst eq_nat_nat_iff) auto
  ultimately show ?thesis by (cases "k mod BUFFER_SIZE s = j mod BUFFER_SIZE s") (auto simp: slot_def assms nth_list_update)
qed

lemma mod_apart:
  fixes a b B :: int
  assumes "0 < b - a" "b - a < B"
  shows "a mod B \<noteq> b mod B"
proof
  assume "a mod B = b mod B"
  then have "B dvd b - a" by (metis mod_eq_dvd_iff)
  then show False using assms zdvd_not_zless by blast
qed

lemma outstanding:
  assumes "semaphores_ok s" "counts_ok s"
  shows "item_num s - consume_num s \<le> BUFFER_SIZE s"
  using assms number_nonneg [of with_slot "THREAD_PRO s" "pro_at s"] number_nonneg [of "{C_post_empty}" "THREAD_CONS s" "cons_at s"]
  unfolding semaphores_ok_def pcount_def ccount_def by linarith

lemma made_snoc: "printed s' = printed s @ [l] \<Longrightarrow> made s' = made s @ prepared_item l \<and> taken s' = taken s @ taken_item l"
  by (simp add: made_def taken_def)

lemma made_same: "printed s' = printed s \<Longrightarrow> made s' = made s \<and> taken s' = taken s"
  by (simp add: made_def taken_def)

lemma producer_alone:
  assumes "semaphores_ok s" "int t < THREAD_PRO s" "pro_at s t \<in> in_producer"
  shows "pcount {P_enqueue} s = of_bool (pro_at s t = P_enqueue)" "pcount {P_store_tid} s = of_bool (pro_at s t = P_store_tid)"
    "pcount {P_print} s = of_bool (pro_at s t = P_print)"
    "pcount {P_enqueue, P_store, P_store_tid, P_print} s = of_bool (pro_at s t \<in> {P_enqueue, P_store, P_store_tid, P_print})"
    "ccount {C_count} s = 0" "ccount {C_print, C_count} s = 0"
  using alone_producer(1) [OF assms, of "{P_enqueue}"] alone_producer(1) [OF assms, of "{P_store_tid}"] alone_producer(1) [OF assms, of "{P_print}"]
    alone_producer(1) [OF assms, of "{P_enqueue, P_store, P_store_tid, P_print}"] alone_producer(2) [OF assms, of "{C_count}"]
    alone_producer(2) [OF assms, of "{C_print, C_count}"] by simp_all

lemma consumer_alone:
  assumes "semaphores_ok s" "int t < THREAD_CONS s" "cons_at s t \<in> in_consumer"
  shows "pcount {P_enqueue} s = 0" "pcount {P_store_tid} s = 0" "pcount {P_print} s = 0" "pcount {P_enqueue, P_store, P_store_tid, P_print} s = 0"
    "ccount {C_count} s = of_bool (cons_at s t = C_count)" "ccount {C_print, C_count} s = of_bool (cons_at s t \<in> {C_print, C_count})"
  using alone_consumer(2) [OF assms, of "{P_enqueue}"] alone_consumer(2) [OF assms, of "{P_store_tid}"] alone_consumer(2) [OF assms, of "{P_print}"]
    alone_consumer(2) [OF assms, of "{P_enqueue, P_store, P_store_tid, P_print}"] alone_consumer(1) [OF assms, of "{C_count}"]
    alone_consumer(1) [OF assms, of "{C_print, C_count}"] by simp_all

text \<open>The slot that a producer fills is not the slot of an item that waits.\<close>

lemma slot_of_new_item:
  assumes "semaphores_ok s" "counts_ok s" "consume_num s \<le> int i" "int i < item_num s - 1"
  shows "(int i + 1) mod BUFFER_SIZE s \<noteq> item_num s mod BUFFER_SIZE s"
  by (rule mod_apart) (use assms(3,4) outstanding [OF assms(1,2)] in linarith)+

lemma buffer_count:
  assumes inv: "semaphores_ok s" "buffer_ok gettid s" and t: "int t < THREAD_PRO s" "pro_at s t = P_count"
    and s': "s' = pro_goto t P_enqueue (s\<lparr>item_num := item_num s + 1\<rparr>)"
  shows "buffer_ok gettid s'"
proof -
  have "pro_at s t \<in> in_producer" using t(2) by simp
  note n = producer_alone [OF inv(1) t(1) this, unfolded pc_simps]
  show ?thesis using inv(2) n t unfolding s' by (simp add: buffer_simps pc_simps)
qed

lemma buffer_enqueue:
  assumes inv: "semaphores_ok s" "buffer_ok gettid s" and t: "int t < THREAD_PRO s" "pro_at s t = P_enqueue"
    and s': "s' = pro_goto t P_store (s\<lparr>enqueue := (enqueue s + 1) mod BUFFER_SIZE s\<rparr>)"
  shows "buffer_ok gettid s'"
proof -
  have "pro_at s t \<in> in_producer" using t(2) by simp
  note n = producer_alone [OF inv(1) t(1) this, unfolded pc_simps]
  show ?thesis using inv(2) n t unfolding s' by (simp add: buffer_simps pc_simps mod_add_left_eq)
qed

text \<open>A store into the slot of the new item.\<close>

lemma buffer_store_at:
  assumes inv: "sizes_ok s" "semaphores_ok s" "counts_ok s" "buffer_ok gettid s" and t: "int t < THREAD_PRO s" "pro_at s t \<in> {P_store, P_store_tid}"
    and l: "l \<in> {P_store_tid, P_print}" and u: "unit_update f (enqueue s) s = Inr s1" and s': "s' = pro_goto t l s1"
    and no: "item_no (f (slot s (item_num s))) = item_num s" and tid: "l = P_print \<Longrightarrow> pro_tid (f (slot s (item_num s))) \<in> gettid ` {t. int t < THREAD_PRO s}"
  shows "buffer_ok gettid s'"
proof -
  have "pro_at s t \<in> in_producer" using t(2) by auto
  note n = producer_alone [OF inv(2) t(1) this]
  have e: "enqueue s = item_num s mod BUFFER_SIZE s" using inv(4) n t(2) by (auto simp: buffer_ok_def)
  have s1: "s1 = s\<lparr>data := (data s)[nat (item_num s mod BUFFER_SIZE s + BASE_ADDR) := f (slot s (item_num s))]\<rparr>"
    using u unfolding unit_update_Inr e by (simp add: slot_def)
  have sl: "slot s' k = (if k mod BUFFER_SIZE s = item_num s mod BUFFER_SIZE s then f (slot s (item_num s)) else slot s k)" for k
    by (rule slot_store [OF inv(1)]) (simp_all add: s' s1 pro_goto_def)
  have m: "made s' = made s" "taken s' = taken s" using made_same [of s' s] by (simp_all add: s' s1 pro_goto_def)
  have len: "int (length (made s)) = item_num s - 1" using inv(4) n t(2) by (auto simp: buffer_ok_def)
  have w: "slot s' (int i + 1) = slot s (int i + 1)" if "consume_num s \<le> int i" "i < length (made s)" for i
    using slot_of_new_item [OF inv(2,3) that(1)] that(2) len by (simp add: sl)
  have f: "enqueue s' = enqueue s" "dequeue s' = dequeue s" "item_num s' = item_num s" "consume_num s' = consume_num s" "BUFFER_SIZE s' = BUFFER_SIZE s"
    "THREAD_PRO s' = THREAD_PRO s" "ccount {C_count} s' = ccount {C_count} s" "ccount {C_print, C_count} s' = ccount {C_print, C_count} s"
    by (simp_all add: s' s1 pc_simps)
  have c: "pcount {P_enqueue} s' = 0" "pcount {P_print} s' = of_bool (l = P_print)" "pcount {P_enqueue, P_store, P_store_tid, P_print} s' = 1"
    using n t l by (auto simp: s' s1 pc_simps)
  show ?thesis using inv(4) n t(2) w no tid unfolding buffer_ok_def f m c by (auto simp: sl)
qed

lemma buffer_print:
  assumes inv: "sizes_ok s" "semaphores_ok s" "buffer_ok gettid s" and t: "int t < THREAD_PRO s" "pro_at s t = P_print"
    and u: "array_get (data s) (enqueue s + BASE_ADDR) = Inr u"
    and s': "s' = pro_goto t P_flag (s\<lparr>printed := printed s @ [Prepared (pro_tid u) (item_no u) (enqueue s)]\<rparr>)"
  shows "buffer_ok gettid s'"
proof -
  have "pro_at s t \<in> in_producer" using t(2) by auto
  note n = producer_alone [OF inv(2) t(1) this]
  have e: "enqueue s = item_num s mod BUFFER_SIZE s" using inv(3) n t(2) by (auto simp: buffer_ok_def)
  have u': "u = slot s (item_num s)" using u by (auto simp: array_get_def slot_def e split: if_splits)
  have U: "item_no u = item_num s" "pro_tid u \<in> gettid ` {t. int t < THREAD_PRO s}" using inv(3) n t(2) unfolding u' by (auto simp: buffer_ok_def)
  have len: "int (length (made s)) = item_num s - 1" using inv(3) n t(2) by (auto simp: buffer_ok_def)
  have m: "made s' = made s @ [(item_no u, pro_tid u)]" "taken s' = taken s" using made_snoc [of s' s] by (simp_all add: s' pro_goto_def)
  have sl: "slot s' k = slot s k" for k by (simp add: s' slot_def pro_goto_def)
  have f: "enqueue s' = enqueue s" "dequeue s' = dequeue s" "item_num s' = item_num s" "consume_num s' = consume_num s" "BUFFER_SIZE s' = BUFFER_SIZE s"
    "THREAD_PRO s' = THREAD_PRO s" "ccount {C_count} s' = ccount {C_count} s" "ccount {C_print, C_count} s' = ccount {C_print, C_count} s"
    by (simp_all add: s' pc_simps)
  have c: "pcount {P_enqueue} s' = 0" "pcount {P_print} s' = 0" "pcount {P_store_tid} s' = 0" "pcount {P_enqueue, P_store, P_store_tid, P_print} s' = 0"
    using n t by (simp_all add: s' pc_simps)
  have nu: "numbered gettid (THREAD_PRO s) (made s @ [(item_no u, pro_tid u)])"
    using inv(3) U len by (auto simp: buffer_ok_def numbered_def nth_append less_Suc_eq)
  have last: "slot s (int (length (made s)) + 1) = \<lparr>item_no = item_no u, pro_tid = pro_tid u\<rparr>" using len by (simp add: u')
  show ?thesis using inv(3) n t(2) nu last len unfolding buffer_ok_def f m c sl by (auto simp: nth_append less_Suc_eq)
qed

lemma buffer_dequeue:
  assumes inv: "semaphores_ok s" "buffer_ok gettid s" and t: "int t < THREAD_CONS s" "cons_at s t = C_dequeue"
    and s': "s' = cons_goto t C_print (s\<lparr>dequeue := (dequeue s + 1) mod BUFFER_SIZE s\<rparr>)"
  shows "buffer_ok gettid s'"
proof -
  have "cons_at s t \<in> in_consumer" using t(2) by simp
  note n = consumer_alone [OF inv(1) t(1) this, unfolded pc_simps]
  show ?thesis using inv(2) n t unfolding s' by (simp add: buffer_simps pc_simps mod_add_left_eq)
qed

lemma buffer_count_taken:
  assumes inv: "semaphores_ok s" "buffer_ok gettid s" and t: "int t < THREAD_CONS s" "cons_at s t = C_count"
    and s': "s' = cons_goto t C_post_empty (s\<lparr>consume_num := consume_num s + 1\<rparr>)"
  shows "buffer_ok gettid s'"
proof -
  have "cons_at s t \<in> in_consumer" using t(2) by simp
  note n = consumer_alone [OF inv(1) t(1) this, unfolded pc_simps]
  show ?thesis using inv(2) n t unfolding s' by (simp add: buffer_simps pc_simps)
qed

lemma buffer_take:
  assumes inv: "semaphores_ok s" "counts_ok s" "buffer_ok gettid s" and t: "int t < THREAD_CONS s" "cons_at s t = C_print"
    and u: "array_get (data s) (dequeue s + BASE_ADDR) = Inr u"
    and s': "s' = cons_goto t C_count (s\<lparr>printed := printed s @ [Taken (gettid t) (item_no u) (pro_tid u) (dequeue s)]\<rparr>)"
  shows "buffer_ok gettid s'"
proof -
  have "cons_at s t \<in> in_consumer" using t(2) by auto
  note n = consumer_alone [OF inv(1) t(1) this]
  have ci: "consume_num s < item_num s"
    using inv(2) ccount_zero [OF _ t(1), of "{C_dequeue, C_print, C_count}"] t(2) by (force simp: counts_ok_def)
  define i where "i = length (taken s)"
  have b: "dequeue s = (consume_num s + 1) mod BUFFER_SIZE s" "int (length (made s)) = item_num s" "int i = consume_num s"
    and p: "prefix (taken s) (made s)" using inv(3) n t(2) by (auto simp: buffer_ok_def i_def)
  have i: "i < length (made s)" using b ci by linarith
  have "u = slot s (int i + 1)" using u by (auto simp: array_get_def slot_def b split: if_splits)
  then have u': "(item_no u, pro_tid u) = made s ! i" using inv(3) i b(3) by (auto simp: buffer_ok_def)
  have m: "made s' = made s" "taken s' = taken s @ [made s ! i]" using made_snoc [of s' s] by (simp_all add: s' cons_goto_def u')
  have p': "prefix (taken s @ [made s ! i]) (made s)"
    using p i by (metis append_one_prefix i_def)
  have sl: "slot s' k = slot s k" for k by (simp add: s' slot_def cons_goto_def)
  have f: "enqueue s' = enqueue s" "dequeue s' = dequeue s" "item_num s' = item_num s" "consume_num s' = consume_num s" "BUFFER_SIZE s' = BUFFER_SIZE s"
    "THREAD_PRO s' = THREAD_PRO s" "pcount A s' = pcount A s" for A
    by (simp_all add: s' pc_simps)
  have c: "ccount {C_count} s' = 1" "ccount {C_print, C_count} s' = 1"
    using n t by (simp_all add: s' pc_simps)
  show ?thesis using inv(3) n t(2) p' b unfolding buffer_ok_def f m c sl by simp
qed

section \<open>All steps\<close>

definition pc_inv :: "(nat \<Rightarrow> int) \<Rightarrow> ctln_pc_st \<Rightarrow> bool" where
  "pc_inv gettid s \<longleftrightarrow> sizes_ok s \<and> semaphores_ok s \<and> counts_ok s \<and> mains_ok s \<and> buffer_ok gettid s"

lemma buffer_producer:
  assumes inv: "pc_inv gettid s" and t: "int t < THREAD_PRO s" "producer gettid t s = Some (Inr s')"
  shows "buffer_ok gettid s'"
proof (cases "pro_at s t \<in> {P_count, P_enqueue, P_store, P_store_tid, P_print}")
  case True
  note i = inv [unfolded pc_inv_def]
  have no: "item_no (slot s (item_num s)) = item_num s" if "pro_at s t = P_store_tid"
  proof -
    have "pcount {P_store_tid} s = 1" using producer_alone(2) [OF _ t(1)] i that by simp
    then show ?thesis using i by (simp add: buffer_ok_def)
  qed
  from i have i: "sizes_ok s" "semaphores_ok s" "counts_ok s" "buffer_ok gettid s" by simp_all
  from True consider "pro_at s t = P_count" | "pro_at s t = P_enqueue" | "pro_at s t = P_store" | "pro_at s t = P_store_tid" | "pro_at s t = P_print" by blast
  then show ?thesis
  proof cases
    case 1
    then show ?thesis using t(2) by (intro buffer_count [OF i(2,4) t(1)]) (simp_all add: producer_def)
  next
    case 2
    then show ?thesis using t(2) by (intro buffer_enqueue [OF i(2,4) t(1)]) (simp_all add: producer_def)
  next
    case 3
    then obtain s1 where s1: "unit_update (\<lambda>u. u\<lparr>item_no := item_num s\<rparr>) (enqueue s) s = Inr s1" "s' = pro_goto t P_store_tid s1"
      using t(2) by (auto simp: producer_def andThen_eq_Inr)
    show ?thesis by (rule buffer_store_at [OF i t(1) _ _ s1]) (simp_all add: 3)
  next
    case 4
    then obtain s1 where s1: "unit_update (\<lambda>u. u\<lparr>pro_tid := gettid t\<rparr>) (enqueue s) s = Inr s1" "s' = pro_goto t P_print s1"
      using t(2) by (auto simp: producer_def andThen_eq_Inr)
    show ?thesis by (rule buffer_store_at [OF i t(1) _ _ s1]) (use 4 no t(1) in auto)
  next
    case 5
    then obtain u where "array_get (data s) (enqueue s + BASE_ADDR) = Inr u"
      "s' = pro_goto t P_flag (s\<lparr>printed := printed s @ [Prepared (pro_tid u) (item_no u) (enqueue s)]\<rparr>)"
      using t(2) by (auto simp: producer_def andThen_eq_Inr)
    then show ?thesis by (rule buffer_print [OF i(1,2,4) t(1) 5])
  qed
next
  case False
  from inv have b: "buffer_ok gettid s" by (simp add: pc_inv_def)
  show ?thesis using False t
    by (cases "pro_at s t"; clarsimp simp: producer_def split: if_splits; intro buffer_frame [OF b]; simp add: pc_simps)
qed

lemma buffer_consumer:
  assumes inv: "pc_inv gettid s" and t: "int t < THREAD_CONS s" "consumer gettid t s = Some (Inr s')"
  shows "buffer_ok gettid s'"
proof -
  from inv have i: "semaphores_ok s" "counts_ok s" "buffer_ok gettid s" by (simp_all add: pc_inv_def)
  consider "cons_at s t = C_dequeue" | "cons_at s t = C_print" | "cons_at s t = C_count" | "cons_at s t \<notin> {C_dequeue, C_print, C_count}" by blast
  then show ?thesis
  proof cases
    case 1
    then show ?thesis using t(2) by (intro buffer_dequeue [OF i(1,3) t(1)]) (simp_all add: consumer_def)
  next
    case 2
    then obtain u where "array_get (data s) (dequeue s + BASE_ADDR) = Inr u"
      "s' = cons_goto t C_count (s\<lparr>printed := printed s @ [Taken (gettid t) (item_no u) (pro_tid u) (dequeue s)]\<rparr>)"
      using t(2) by (auto simp: consumer_def andThen_eq_Inr)
    then show ?thesis by (rule buffer_take [OF i t(1) 2])
  next
    case 3
    then show ?thesis using t(2) by (intro buffer_count_taken [OF i(1,3) t(1)]) (simp_all add: consumer_def)
  next
    case 4
    then show ?thesis using t
      by (cases "cons_at s t"; clarsimp simp: consumer_def split: if_splits; intro buffer_frame [OF i(3)]; simp add: pc_simps)
  qed
qed

lemma pc_inv_move:
  assumes inv: "pc_inv gettid s" and a: "pc_move gettid a s = Some (Inr s')"
  shows "pc_inv gettid s'"
proof -
  note i = inv [unfolded pc_inv_def]
  have "buffer_ok gettid s'" using a
  proof (cases rule: pc_move_cases)
    case PM
    then show ?thesis using i by (cases "pro_main s") (auto simp: producer_main_def pc_simps split: if_splits elim!: buffer_frame)
  next
    case CM
    then show ?thesis using i by (cases "cons_main s") (auto simp: consumer_main_def pc_simps split: if_splits elim!: buffer_frame)
  qed (auto intro: buffer_producer [OF inv] buffer_consumer [OF inv])
  then show ?thesis using i a sizes_step(1) semaphores_step mains_step counts_step unfolding pc_inv_def by blast
qed

lemma read_sizes_positive: "read_sizes xs = Some (b, m, p, c) \<Longrightarrow> 0 < b \<and> b \<le> 100 \<and> 0 < m \<and> m \<le> 10000 \<and> 0 < p \<and> 0 < c"
  by (induction xs rule: read_sizes.induct) (auto split: if_splits list.splits)

lemma pc_inv_start: "console_main old input = Some s \<Longrightarrow> pc_inv gettid s"
  using read_sizes_positive [of input]
  by (auto simp: console_main_def pc_inv_def sizes_ok_def semaphores_ok_def counts_ok_def mains_ok_def buffer_simps pc_simps numbered_def BASE_ADDR_def
      split: option.splits prod.splits)

lemma pc_run_inv: "pc_run gettid old input s \<Longrightarrow> pc_inv gettid s"
  by (induction rule: pc_run.induct) (auto intro: pc_inv_start pc_inv_move)

section \<open>The end of a run\<close>

abbreviation "done_at m \<equiv> {C_post_empty, C_post_mutex, C_test, C_test_item m, C_test_end, C_exited}"

definition ends_ok :: "ctln_pc_st \<Rightarrow> bool" where
  "ends_ok s \<longleftrightarrow> (END_FLAG s = 0 \<longrightarrow> ccount {C_exited} s = 0)
     \<and> (consume_num s < item_num s \<longrightarrow> ccount {C_return} s = 0)
     \<and> (MAX_ITEM_NUM s \<le> consume_num s \<longrightarrow> 1 \<le> ccount (done_at (MAX_ITEM_NUM s)) s)
     \<and> (case cons_main s of Join i \<Rightarrow> int i \<le> THREAD_CONS s | Post i \<Rightarrow> False | Returned \<Rightarrow> True)"

lemma extra_posts_pos:
  assumes "mains_ok s" "0 < extra_posts (THREAD_CONS s) (pro_main s)" "int t < THREAD_PRO s"
  shows "pro_at s t = P_exited"
  using assms by (cases "pro_main s") (auto simp: mains_ok_def)

text \<open>When all items are made and taken, no producer is in its critical section any more.\<close>

lemma END_FLAG_set:
  assumes inv: "pc_inv gettid s" and all: "consume_num s = item_num s" "MAX_ITEM_NUM s \<le> item_num s"
  shows "END_FLAG s = 1"
proof -
  from inv have i: "semaphores_ok s" "counts_ok s" "mains_ok s" by (simp_all add: pc_inv_def)
  have n: "0 \<le> pcount with_item s" "0 \<le> ccount with_stock s" by (simp_all only: pcount_def ccount_def number_nonneg)
  have "pcount with_item s = 0"
  proof (cases "0 < extra_posts (THREAD_CONS s) (pro_main s)")
    case True
    then show ?thesis unfolding pcount_def number_zero using extra_posts_pos [OF i(3) True] by simp
  next
    case False
    then show ?thesis using i(1) all n by (simp add: semaphores_ok_def)
  qed
  moreover have "pcount {P_enqueue, P_store, P_store_tid, P_print, P_flag} s \<le> pcount with_item s"
    unfolding pcount_def by (rule number_mono) auto
  moreover have "0 \<le> pcount {P_enqueue, P_store, P_store_tid, P_print, P_flag} s" by (simp only: pcount_def number_nonneg)
  ultimately show ?thesis using i(2) all by (simp add: counts_ok_def)
qed

text \<open>A consumer that finds no item has a post of the producers' \<open>main\<close>: all items are made and taken.\<close>

lemma no_item_found:
  assumes inv: "pc_inv gettid s" and t: "int t < THREAD_CONS s" "cons_at s t \<in> {C_check, C_return}" "item_num s \<le> consume_num s"
  shows "consume_num s = MAX_ITEM_NUM s \<and> END_FLAG s = 1"
proof -
  from inv have i: "sizes_ok s" "semaphores_ok s" "counts_ok s" "mains_ok s" by (simp_all add: pc_inv_def)
  have e: "consume_num s = item_num s" using i(3) t(3) by (simp add: counts_ok_def)
  have "1 \<le> ccount with_stock s" unfolding ccount_def by (rule number_one [where f = "cons_at s", OF t(1)]) (use t(2) in auto)
  moreover have "0 \<le> pcount with_item s" by (simp only: pcount_def number_nonneg)
  ultimately have x: "0 < extra_posts (THREAD_CONS s) (pro_main s)" using i(2) e by (simp add: semaphores_ok_def)
  have "pro_at s 0 = P_exited" by (rule extra_posts_pos [OF i(4) x]) (use i(1) in \<open>simp add: sizes_ok_def\<close>)
  then have "pcount {P_return, P_exited} s \<noteq> 0"
    using i(1) unfolding pcount_def number_zero by (auto simp: sizes_ok_def intro!: exI [of _ 0])
  then have "item_num s = MAX_ITEM_NUM s" using i(3) by (auto simp: counts_ok_def)
  then show ?thesis using e END_FLAG_set [OF inv] by simp
qed

lemma ends_consumer:
  assumes inv: "pc_inv gettid s" "ends_ok s" and t: "int t < THREAD_CONS s" "consumer gettid t s = Some (Inr s')"
  shows "ends_ok s'"
proof -
  from inv(1) have c: "consume_num s \<le> item_num s" "item_num s \<le> MAX_ITEM_NUM s" "END_FLAG s = 0 \<or> END_FLAG s = 1" "semaphores_ok s"
    by (auto simp: pc_inv_def counts_ok_def)
  have E: "END_FLAG s = 1" if "MAX_ITEM_NUM s \<le> consume_num s" using END_FLAG_set [OF inv(1)] that c by simp
  have ret: "item_num s \<le> consume_num s" if "cons_at s t = C_return"
    using inv(2) ccount_zero [OF _ t(1), of "{C_return}"] that by (force simp: ends_ok_def)
  have nn: "0 \<le> number A n f" for A n and f :: "nat \<Rightarrow> consumer_at" by (rule number_nonneg)
  have al: "ccount {C_return} s = 0" if "cons_at s t = C_count"
    using alone_consumer(1) [OF c(4) t(1), of "{C_return}"] that by simp
  show ?thesis using inv(2) t c E ret nn al
    by (cases "cons_at s t"; clarsimp simp: consumer_def andThen_eq_Inr split: if_splits; clarsimp simp: ends_ok_def pc_simps split: main_at.splits)
qed

lemma ends_producer:
  assumes inv: "pc_inv gettid s" "ends_ok s" and t: "int t < THREAD_PRO s" "producer gettid t s = Some (Inr s')"
  shows "ends_ok s'"
proof -
  from inv(1) have c: "consume_num s \<le> item_num s" "item_num s \<le> MAX_ITEM_NUM s" "semaphores_ok s" by (auto simp: pc_inv_def counts_ok_def)
  have al: "ccount {C_return} s = 0" if "pro_at s t = P_count"
    using alone_producer(2) [OF c(3) t(1), of "{C_return}"] that by simp
  show ?thesis using inv(2) t c al
    by (cases "pro_at s t"; clarsimp simp: producer_def andThen_eq_Inr unit_update_Inr split: if_splits; clarsimp simp: ends_ok_def pc_simps split: main_at.splits)
qed

lemma ends_move:
  assumes inv: "pc_inv gettid s" "ends_ok s" and a: "pc_move gettid a s = Some (Inr s')"
  shows "ends_ok s'"
  using a
proof (cases rule: pc_move_cases)
  case PM
  then show ?thesis using inv(2)
    by (cases "pro_main s"; clarsimp simp: producer_main_def split: if_splits; clarsimp simp: ends_ok_def pc_simps split: main_at.splits)
next
  case CM
  then show ?thesis using inv(2)
    by (cases "cons_main s"; clarsimp simp: consumer_main_def split: if_splits; clarsimp simp: ends_ok_def pc_simps split: main_at.splits)
qed (auto intro: ends_producer [OF inv] ends_consumer [OF inv])

lemma ends_start: "console_main old input = Some s \<Longrightarrow> ends_ok s"
  using read_sizes_positive [of input]
  by (auto simp: console_main_def ends_ok_def pc_simps split: option.splits prod.splits)

lemma pc_run_ends: "pc_run gettid old input s \<Longrightarrow> ends_ok s"
  by (induction rule: pc_run.induct) (auto intro: ends_start ends_move pc_run_inv)

section \<open>Where the threads can stop\<close>

definition stuck :: "(nat \<Rightarrow> int) \<Rightarrow> ctln_pc_st \<Rightarrow> bool" where
  "stuck gettid s \<longleftrightarrow> (\<forall>a. pc_move gettid a s = None)"

lemma stuckD: "stuck gettid s \<Longrightarrow> pc_move gettid a s = None"
  by (simp add: stuck_def)

lemma stuck_producer: "stuck gettid s \<Longrightarrow> int t < THREAD_PRO s \<Longrightarrow> producer gettid t s = None"
  using stuckD [of gettid s "Producer t"] by (simp add: pc_move_def)

lemma stuck_consumer: "stuck gettid s \<Longrightarrow> int t < THREAD_CONS s \<Longrightarrow> consumer gettid t s = None"
  using stuckD [of gettid s "Consumer t"] by (simp add: pc_move_def)

lemma stuck_mains: "stuck gettid s \<Longrightarrow> producer_main s = None \<and> consumer_main s = None"
  using stuckD [of gettid s "Producer_main"] stuckD [of gettid s "Consumer_main"] by (simp add: pc_move_def)

lemma stuck_producer_at: "producer gettid t s = None \<Longrightarrow> pro_at s t = P_exited \<or> pro_at s t = P_wait_empty \<and> emptyslot s \<le> 0 \<or> pro_at s t = P_wait_mutex \<and> sem_mutex s \<le> 0"
  by (cases "pro_at s t") (auto simp: producer_def split: if_splits)

lemma stuck_consumer_at: "consumer gettid t s = None \<Longrightarrow> cons_at s t = C_exited \<or> cons_at s t = C_wait_stock \<and> stock s \<le> 0 \<or> cons_at s t = C_wait_mutex \<and> sem_mutex s \<le> 0"
  by (cases "cons_at s t") (auto simp: consumer_def split: if_splits)

lemma stuck_mutex:
  assumes "semaphores_ok s" "stuck gettid s"
  shows "sem_mutex s = 1"
proof -
  have "pro_at s t \<notin> in_producer" if "int t < THREAD_PRO s" for t
    using stuck_producer_at [OF stuck_producer [OF assms(2) that]] by auto
  then have "pcount in_producer s = 0" unfolding pcount_def number_zero by blast
  moreover have "cons_at s t \<notin> in_consumer" if "int t < THREAD_CONS s" for t
    using stuck_consumer_at [OF stuck_consumer [OF assms(2) that]] by auto
  then have "ccount in_consumer s = 0" unfolding ccount_def number_zero by blast
  ultimately show ?thesis using assms(1) by (simp add: semaphores_ok_def)
qed

lemma stuck_where:
  assumes "semaphores_ok s" "stuck gettid s"
  shows "int t < THREAD_PRO s \<Longrightarrow> pro_at s t = P_exited \<or> pro_at s t = P_wait_empty \<and> emptyslot s = 0"
    "int t < THREAD_CONS s \<Longrightarrow> cons_at s t = C_exited \<or> cons_at s t = C_wait_stock \<and> stock s = 0"
    "emptyslot s + (item_num s - consume_num s) = BUFFER_SIZE s"
    "stock s = item_num s - consume_num s + extra_posts (THREAD_CONS s) (pro_main s)"
proof -
  note m = stuck_mutex [OF assms]
  have pos: "0 \<le> emptyslot s" "0 \<le> stock s" using assms(1) by (simp_all add: semaphores_ok_def)
  show P: "pro_at s t = P_exited \<or> pro_at s t = P_wait_empty \<and> emptyslot s = 0" if "int t < THREAD_PRO s" for t
    using stuck_producer_at [OF stuck_producer [OF assms(2) that]] m pos(1) by auto
  show C: "cons_at s t = C_exited \<or> cons_at s t = C_wait_stock \<and> stock s = 0" if "int t < THREAD_CONS s" for t
    using stuck_consumer_at [OF stuck_consumer [OF assms(2) that]] m pos(2) by auto
  have "pcount with_slot s = 0" "pcount with_item s = 0" unfolding pcount_def number_zero using P by fastforce+
  moreover have "ccount {C_post_empty} s = 0" "ccount with_stock s = 0" unfolding ccount_def number_zero using C by fastforce+
  ultimately show "emptyslot s + (item_num s - consume_num s) = BUFFER_SIZE s"
    "stock s = item_num s - consume_num s + extra_posts (THREAD_CONS s) (pro_main s)"
    using assms(1) by (simp_all add: semaphores_ok_def)
qed

lemma producers_return:
  assumes "sizes_ok s" "mains_ok s" "stuck gettid s" "\<And>t. int t < THREAD_PRO s \<Longrightarrow> pro_at s t = P_exited"
  shows "pro_main s = Returned"
  using stuck_mains [OF assms(3)] assms(4) by (cases "pro_main s") (auto simp: producer_main_def split: if_splits)

lemma exited_producer_made_all:
  assumes "counts_ok s" "int t < THREAD_PRO s" "pro_at s t = P_exited"
  shows "item_num s = MAX_ITEM_NUM s"
proof -
  have "pcount {P_return, P_exited} s \<noteq> 0" using pcount_zero [OF _ assms(2), of "{P_return, P_exited}"] assms(3) by blast
  then show ?thesis using assms(1) by (auto simp: counts_ok_def)
qed

text \<open>At the end no consumer waits.\<close>

lemma consumers_exit:
  assumes inv: "pc_inv gettid s" "ends_ok s" and st: "stuck gettid s" and t: "int t < THREAD_CONS s"
  shows "cons_at s t = C_exited"
proof (rule ccontr)
  assume not: "cons_at s t \<noteq> C_exited"
  from inv(1) have i: "sizes_ok s" "semaphores_ok s" "counts_ok s" "mains_ok s" by (simp_all add: pc_inv_def)
  note w = stuck_where [OF i(2) st]
  have z: "cons_at s t = C_wait_stock" "stock s = 0" using w(2) [OF t] not by blast+
  have x: "0 \<le> extra_posts (THREAD_CONS s) (pro_main s)" using i(1) by (cases "pro_main s") (auto simp: sizes_ok_def)
  then have e: "item_num s = consume_num s" "extra_posts (THREAD_CONS s) (pro_main s) = 0" using w(4) z(2) i(3) by (auto simp: counts_ok_def)
  have ex: "pro_at s u = P_exited" if "int u < THREAD_PRO s" for u using w(1) [OF that] w(3) e(1) i(1) by (auto simp: sizes_ok_def)
  have "pro_main s = Returned" by (rule producers_return [OF i(1,4) st ex])
  then have one: "THREAD_CONS s = 1" using e(2) by simp
  have "pro_at s 0 = P_exited" by (rule ex) (use i(1) in \<open>simp add: sizes_ok_def\<close>)
  then have "item_num s = MAX_ITEM_NUM s" using exited_producer_made_all [OF i(3), of 0] i(1) by (simp add: sizes_ok_def)
  then have "1 \<le> ccount (done_at (MAX_ITEM_NUM s)) s" using inv(2) e(1) by (simp add: ends_ok_def)
  moreover have "ccount (done_at (MAX_ITEM_NUM s)) s = 0" unfolding ccount_def number_zero one using z(1) t one by simp
  ultimately show False by simp
qed

section \<open>The work that is left\<close>

fun producer_work :: "bool \<Rightarrow> producer_at \<Rightarrow> int" where
  "producer_work short P_test = (if short then 7 else 1)"
| "producer_work short P_wait_empty = 6"
| "producer_work short P_wait_mutex = 5"
| "producer_work short P_check = 4"
| "producer_work short P_count = 3"
| "producer_work short P_enqueue = 14"
| "producer_work short P_store = 13"
| "producer_work short P_store_tid = 12"
| "producer_work short P_print = 11"
| "producer_work short P_flag = 10"
| "producer_work short P_post_stock = 9"
| "producer_work short P_return = 3"
| "producer_work short P_post_mutex = (if short then 8 else 2)"
| "producer_work short P_exited = 0"

fun consumer_work :: "bool \<Rightarrow> int \<Rightarrow> consumer_at \<Rightarrow> int" where
  "consumer_work over m C_test = (if over then 3 else 11)"
| "consumer_work over m (C_test_item c) = (if over \<and> m \<le> c then 2 else 10)"
| "consumer_work over m C_test_end = (if over then 1 else 9)"
| "consumer_work over m C_wait_stock = 8"
| "consumer_work over m C_wait_mutex = 7"
| "consumer_work over m C_check = 6"
| "consumer_work over m C_dequeue = 5"
| "consumer_work over m C_print = 4"
| "consumer_work over m C_count = 3"
| "consumer_work over m C_post_empty = 13"
| "consumer_work over m C_return = 5"
| "consumer_work over m C_post_mutex = (if over then 4 else 12)"
| "consumer_work over m C_exited = 0"

fun main_work :: "int \<Rightarrow> int \<Rightarrow> main_at \<Rightarrow> int" where
  "main_work n posts (Join i) = n - int i + posts + 1"
| "main_work n posts (Post i) = posts - int i"
| "main_work n posts Returned = 0"

definition work_left :: "ctln_pc_st \<Rightarrow> int" where
  "work_left s =
     20 * (MAX_ITEM_NUM s - item_num s) + 20 * (MAX_ITEM_NUM s - consume_num s)
     + total (producer_work (item_num s < MAX_ITEM_NUM s)) (THREAD_PRO s) (pro_at s)
     + total (consumer_work (END_FLAG s = 1 \<and> MAX_ITEM_NUM s \<le> consume_num s) (MAX_ITEM_NUM s)) (THREAD_CONS s) (cons_at s)
     + main_work (THREAD_PRO s) (THREAD_CONS s) (pro_main s) + main_work (THREAD_CONS s) 0 (cons_main s)"

lemma total_mono: "(\<And>l. w l \<le> v l) \<Longrightarrow> total w n f \<le> total v n f"
  by (simp add: total_def sum_mono)

lemma total_const [simp]: "0 \<le> n \<Longrightarrow> total w n (\<lambda>_. l) = n * w l"
  by (simp add: total_def)

lemma total_nonneg: "(\<And>l. 0 \<le> w l) \<Longrightarrow> 0 \<le> total w n f"
  by (simp add: total_def sum_nonneg)

lemma producer_work_mono: "(short' \<longrightarrow> short) \<Longrightarrow> producer_work short' l \<le> producer_work short l"
  by (cases l) auto

lemma consumer_work_mono: "(over \<longrightarrow> over') \<Longrightarrow> consumer_work over' m l \<le> consumer_work over m l"
  by (cases l) auto

lemma work_nonneg:
  assumes "pc_inv gettid s" "ends_ok s"
  shows "0 \<le> work_left s"
proof -
  from assms(1) have i: "sizes_ok s" "counts_ok s" "mains_ok s" by (simp_all add: pc_inv_def)
  have "0 \<le> producer_work m l" for m l by (cases l) auto
  then have "0 \<le> total (producer_work m) n f" for m n f by (rule total_nonneg)
  moreover have "0 \<le> consumer_work m k l" for m k l by (cases l) auto
  then have "0 \<le> total (consumer_work m k) n f" for m k n f by (rule total_nonneg)
  moreover have "0 \<le> main_work (THREAD_PRO s) (THREAD_CONS s) (pro_main s)"
    using i by (cases "pro_main s") (auto simp: mains_ok_def sizes_ok_def)
  moreover have "0 \<le> main_work (THREAD_CONS s) 0 (cons_main s)"
    using assms(2) by (cases "cons_main s") (auto simp: ends_ok_def)
  ultimately show ?thesis using i(2) by (auto simp: work_left_def counts_ok_def intro!: add_nonneg_nonneg)
qed

lemma work_producer:
  assumes inv: "pc_inv gettid s" and t: "int t < THREAD_PRO s" "producer gettid t s = Some (Inr s')"
  shows "work_left s' < work_left s"
proof -
  from inv have c: "counts_ok s" by (simp add: pc_inv_def)
  have r: "item_num s = MAX_ITEM_NUM s" if "pro_at s t = P_return"
    using c pcount_zero [OF _ t(1), of "{P_return, P_exited}"] that by (force simp: counts_ok_def)
  have m: "total (producer_work (item_num s + 1 < MAX_ITEM_NUM s)) (THREAD_PRO s) (pro_at s)
      \<le> total (producer_work (item_num s < MAX_ITEM_NUM s)) (THREAD_PRO s) (pro_at s)"
    by (intro total_mono producer_work_mono) simp
  have e: "total (consumer_work (MAX_ITEM_NUM s \<le> consume_num s) (MAX_ITEM_NUM s)) (THREAD_CONS s) (cons_at s)
      \<le> total (consumer_work (END_FLAG s = 1 \<and> MAX_ITEM_NUM s \<le> consume_num s) (MAX_ITEM_NUM s)) (THREAD_CONS s) (cons_at s)"
    by (intro total_mono consumer_work_mono) simp
  show ?thesis using t r m e
    by (cases "pro_at s t"; clarsimp simp: producer_def andThen_eq_Inr unit_update_Inr split: if_splits; simp add: work_left_def pro_goto_def)
qed

lemma work_consumer:
  assumes inv: "pc_inv gettid s" "ends_ok s" and t: "int t < THREAD_CONS s" "consumer gettid t s = Some (Inr s')"
  shows "work_left s' < work_left s"
proof -
  from inv(1) have c: "counts_ok s" by (simp add: pc_inv_def)
  have le: "item_num s \<le> MAX_ITEM_NUM s" "consume_num s \<le> item_num s" "END_FLAG s = 0 \<or> END_FLAG s = 1" using c by (auto simp: counts_ok_def)
  have r: "END_FLAG s = 1 \<and> consume_num s = MAX_ITEM_NUM s" if "cons_at s t = C_return"
  proof -
    have "item_num s \<le> consume_num s" using inv(2) ccount_zero [OF _ t(1), of "{C_return}"] that by (force simp: ends_ok_def)
    then show ?thesis using no_item_found [OF inv(1) t(1)] that by simp
  qed
  have e: "total (consumer_work (END_FLAG s = 1 \<and> MAX_ITEM_NUM s \<le> consume_num s + 1) (MAX_ITEM_NUM s)) (THREAD_CONS s) (cons_at s)
      \<le> total (consumer_work (END_FLAG s = 1 \<and> MAX_ITEM_NUM s \<le> consume_num s) (MAX_ITEM_NUM s)) (THREAD_CONS s) (cons_at s)"
    by (intro total_mono consumer_work_mono) auto
  show ?thesis using t r e le
    by (cases "cons_at s t"; clarsimp simp: consumer_def andThen_eq_Inr split: if_splits; simp add: work_left_def cons_goto_def)
qed

lemma work_move:
  assumes inv: "pc_inv gettid s" "ends_ok s" and a: "pc_move gettid a s = Some (Inr s')"
  shows "work_left s' < work_left s"
  using a
proof (cases rule: pc_move_cases)
  case PM
  have "mains_ok s" "sizes_ok s" using inv by (simp_all add: pc_inv_def)
  then show ?thesis using PM by (cases "pro_main s") (auto simp: producer_main_def work_left_def mains_ok_def sizes_ok_def split: if_splits)
next
  case CM
  then show ?thesis using inv(2) by (cases "cons_main s") (auto simp: consumer_main_def work_left_def ends_ok_def split: if_splits)
qed (auto intro: work_producer [OF inv(1)] work_consumer [OF inv])

fun follow :: "(nat \<Rightarrow> int) \<Rightarrow> agent list \<Rightarrow> ctln_pc_st \<Rightarrow> ctln_pc_st option" where
  "follow gettid [] s = Some s"
| "follow gettid (a # as) s = (case pc_move gettid a s of Some (Inr s') \<Rightarrow> follow gettid as s' | _ \<Rightarrow> None)"

lemma follow_run: "pc_run gettid old input s \<Longrightarrow> follow gettid as s = Some s' \<Longrightarrow> pc_run gettid old input s'"
  by (induction as arbitrary: s) (auto split: option.splits sum.splits intro: pc_run.move)

lemma follow_work:
  assumes "pc_inv gettid s" "ends_ok s" "follow gettid as s = Some s'"
  shows "int (length as) \<le> work_left s"
  using assms
proof (induction as arbitrary: s)
  case Nil
  then show ?case using work_nonneg by simp
next
  case (Cons a as)
  obtain s1 where s1: "pc_move gettid a s = Some (Inr s1)" "follow gettid as s1 = Some s'"
    using Cons.prems(3) by (auto split: option.splits sum.splits)
  have "int (length as) \<le> work_left s1"
    using Cons.IH [OF pc_inv_move ends_move s1(2)] Cons.prems(1,2) s1(1) by blast
  then show ?case using work_move [OF Cons.prems(1,2) s1(1)] by simp
qed

lemma work_start: "console_main old input = Some s \<Longrightarrow> work_left s = 40 * MAX_ITEM_NUM s + 8 * THREAD_PRO s + 13 * THREAD_CONS s + 2"
  using read_sizes_positive [of input]
  by (auto simp: console_main_def work_left_def split: option.splits prod.splits)

lemma no_fault:
  assumes "pc_inv gettid s"
  shows "pc_move gettid a s \<noteq> Some (Inl e)"
proof
  assume m: "pc_move gettid a s = Some (Inl e)"
  from assms have i: "sizes_ok s" "buffer_ok gettid s" by (simp_all add: pc_inv_def)
  then have B: "0 < BUFFER_SIZE s" "int (length (data s)) = BUFFER_SIZE s + BASE_ADDR" by (simp_all add: sizes_ok_def)
  have e: "0 \<le> enqueue s" "enqueue s < BUFFER_SIZE s" "0 \<le> dequeue s" "dequeue s < BUFFER_SIZE s"
    using i(2) B(1) by (simp_all add: buffer_ok_def)
  show False using m
  proof (cases rule: pc_move_cases)
    case (P t)
    then show ?thesis using e B by (cases "pro_at s t") (auto simp: producer_def unit_update_def array_get_def array_set_def BASE_ADDR_def split: if_splits)
  next
    case (C t)
    then show ?thesis using e B by (cases "cons_at s t") (auto simp: consumer_def array_get_def BASE_ADDR_def split: if_splits)
  next
    case PM
    then show ?thesis by (cases "pro_main s") (auto simp: producer_main_def split: if_splits)
  next
    case CM
    then show ?thesis by (cases "cons_main s") (auto simp: consumer_main_def split: if_splits)
  qed
qed

section \<open>A consumer that leaves too early\<close>

text \<open>
  One item, two producers, one consumer: between the two tests of the consumer's loop a producer makes the only item. The other producer has passed
  its test, and waits for the only slot.
\<close>

definition hasty_moves :: "agent list" where
  "hasty_moves = [Producer 1, Consumer 0, Consumer 0] @ replicate 12 (Producer 0) @ [Consumer 0, Producer 0, Producer_main, Consumer_main, Consumer_main]"

lemma less_two: "int t < 2 \<longleftrightarrow> t = 0 \<or> t = 1"
  by auto

lemma hasty_run:
  "\<exists>s0 s. console_main old [1, 1, 2, 1] = Some s0 \<and> follow gettid hasty_moves s0 = Some s \<and> taken s = [] \<and> made s = [(1, gettid 0)]
     \<and> (\<forall>t. int t < THREAD_CONS s \<longrightarrow> cons_at s t = C_exited) \<and> pro_at s 1 = P_wait_empty \<and> stuck gettid s"
  by (simp add: console_main_def hasty_moves_def BASE_ADDR_def pc_move_def producer_def consumer_def producer_main_def consumer_main_def
      pro_goto_def cons_goto_def unit_update_def array_get_def array_set_def made_def taken_def stuck_def less_two eval_nat_numeral split: agent.split)

text \<open>A run with one thread of each kind that ends as intended.\<close>

definition orderly_moves :: "agent list" where
  "orderly_moves = replicate 12 (Producer 0) @ replicate 13 (Consumer 0) @ [Producer 0] @ replicate 3 Producer_main @ replicate 2 Consumer_main"

definition no_unit :: data_pc_st where
  "no_unit = \<lparr>item_no = 0, pro_tid = 0\<rparr>"

definition orderly_start :: ctln_pc_st where
  "orderly_start = the (console_main (\<lambda>_. no_unit) [1, 1, 1, 1])"

definition orderly_end :: ctln_pc_st where
  "orderly_end = the (follow int orderly_moves orderly_start)"

lemma orderly_start: "console_main (\<lambda>_. no_unit) [1, 1, 1, 1] = Some orderly_start"
  by (simp add: orderly_start_def console_main_def)

lemma orderly_run:
  "follow int orderly_moves orderly_start = Some orderly_end \<and> taken orderly_end = [(1, 0)] \<and> made orderly_end = [(1, 0)]
     \<and> stuck int orderly_end \<and> MAX_ITEM_NUM orderly_start = 1 \<and> THREAD_PRO orderly_start = 1 \<and> THREAD_CONS orderly_start = 1
     \<and> MAX_ITEM_NUM orderly_end = 1 \<and> BUFFER_SIZE orderly_end = 1"
  by (simp add: orderly_end_def orderly_start_def console_main_def orderly_moves_def BASE_ADDR_def pc_move_def producer_def consumer_def producer_main_def
      consumer_main_def pro_goto_def cons_goto_def unit_update_def array_get_def array_set_def made_def taken_def stuck_def eval_nat_numeral split: agent.split)

lemma orderly_reached: "pc_run int (\<lambda>_. no_unit) [1, 1, 1, 1] orderly_end"
  using follow_run [OF pc_run.start [OF orderly_start]] orderly_run by blast

section \<open>Properties\<close>

lemma numbered_from_1: "numbered gettid n xs \<Longrightarrow> map fst xs = [1..int (length xs)]"
  by (intro nth_equalityI) (simp_all add: numbered_def)

lemma numbered_by: "numbered gettid n xs \<Longrightarrow> snd ` set xs \<subseteq> gettid ` {t. int t < n}"
  by (fastforce simp: numbered_def in_set_conv_nth)

text \<open>C27. Whatever the interleaving, the items that the consumers have taken, with their producers, are the first of the items made, in the
  order in which they were made, and each once. The items are numbered from 1 up to at most \<open>MAX_ITEM_NUM\<close>; at most \<open>BUFFER_SIZE\<close> of them are outstanding. No step accesses
  memory outside the segment.\<close>

theorem items_delivered_in_order:
  assumes "pc_run gettid old input s"
  shows "prefix (taken s) (made s) \<and> map fst (made s) = [1..int (length (made s))] \<and> snd ` set (made s) \<subseteq> gettid ` {t. int t < THREAD_PRO s}
    \<and> int (length (made s)) \<le> MAX_ITEM_NUM s \<and> int (length (made s)) - int (length (taken s)) \<le> BUFFER_SIZE s
    \<and> (\<forall>a e. pc_move gettid a s \<noteq> Some (Inl e))"
proof -
  have inv: "pc_inv gettid s" by (rule pc_run_inv [OF assms])
  then have i: "semaphores_ok s" "counts_ok s" "buffer_ok gettid s" by (simp_all add: pc_inv_def)
  have b: "prefix (taken s) (made s)" "numbered gettid (THREAD_PRO s) (made s)"
    "int (length (made s)) \<le> item_num s" "consume_num s \<le> int (length (taken s))"
    using i(3) by (simp_all add: buffer_ok_def pcount_def ccount_def number_nonneg)
  then have "int (length (made s)) \<le> MAX_ITEM_NUM s" "int (length (made s)) - int (length (taken s)) \<le> BUFFER_SIZE s"
    using outstanding [OF i(1,2)] i(2) by (simp_all add: counts_ok_def)
  then show ?thesis using b no_fault [OF inv] numbered_from_1 numbered_by by blast
qed

theorem items_delivered_in_order_witness:
  "prefix (taken orderly_end) (made orderly_end) \<and> taken orderly_end = [(1, 0)] \<and> int (length (made orderly_end)) \<le> 1"
  using items_delivered_in_order [OF orderly_reached] orderly_run by simp

text \<open>C28. When no thread can go on, all \<open>MAX_ITEM_NUM\<close> items have been made and all consumers have exited. Either everything was taken and every
  thread and both \<open>main\<close> functions have ended, or the consumers have left items behind; then producers may wait for ever, for a slot of the full buffer.\<close>

theorem threads_stop_when_done:
  assumes "pc_run gettid old input s" "stuck gettid s"
  shows "int (length (made s)) = MAX_ITEM_NUM s \<and> (\<forall>t. int t < THREAD_CONS s \<longrightarrow> cons_at s t = C_exited) \<and> cons_main s = Returned
    \<and> (if taken s = made s then (\<forall>t. int t < THREAD_PRO s \<longrightarrow> pro_at s t = P_exited) \<and> pro_main s = Returned
       else \<forall>t. int t < THREAD_PRO s \<longrightarrow>
         pro_at s t = P_exited \<or> pro_at s t = P_wait_empty \<and> int (length (made s)) - int (length (taken s)) = BUFFER_SIZE s)"
proof -
  have inv: "pc_inv gettid s" "ends_ok s" by (rule pc_run_inv [OF assms(1)], rule pc_run_ends [OF assms(1)])
  then have i: "sizes_ok s" "semaphores_ok s" "counts_ok s" "mains_ok s" "buffer_ok gettid s" by (simp_all add: pc_inv_def)
  note w = stuck_where [OF i(2) assms(2)]
  note ce = consumers_exit [OF inv assms(2)]
  have zero: "int 0 < THREAD_CONS s" using i(1) by (simp add: sizes_ok_def)
  have "ccount {C_exited} s \<noteq> 0" using ccount_zero [OF _ zero, of "{C_exited}"] ce [OF zero] by blast
  then have all: "item_num s = MAX_ITEM_NUM s" using inv(2) i(3) by (auto simp: ends_ok_def counts_ok_def)
  have "pcount {P_enqueue, P_store, P_store_tid, P_print} s = 0" unfolding pcount_def number_zero using w(1) by fastforce
  moreover have "ccount {C_count} s = 0" unfolding ccount_def number_zero using ce by simp
  ultimately have len: "int (length (made s)) = item_num s" "int (length (taken s)) = consume_num s" using i(5) by (simp_all add: buffer_ok_def)
  have "cons_main s = Returned" using stuck_mains [OF assms(2)] ce inv(2)
    by (cases "cons_main s") (auto simp: consumer_main_def ends_ok_def split: if_splits)
  moreover have ex: "pro_at s t = P_exited" if "taken s = made s" "int t < THREAD_PRO s" for t
    using w(1) [OF that(2)] w(3) len that(1) i(1) by (auto simp: sizes_ok_def)
  moreover have "pro_main s = Returned" if "taken s = made s"
    by (rule producers_return [OF i(1,4) assms(2) ex [OF that]])
  moreover have "pro_at s t = P_exited \<or> pro_at s t = P_wait_empty \<and> int (length (made s)) - int (length (taken s)) = BUFFER_SIZE s"
    if "int t < THREAD_PRO s" for t using w(1) [OF that] w(3) len by auto
  ultimately show ?thesis using ce all len by simp
qed

theorem threads_stop_when_done_witness:
  "int (length (made orderly_end)) = 1 \<and> cons_main orderly_end = Returned \<and> pro_main orderly_end = Returned"
  using threads_stop_when_done [OF orderly_reached] orderly_run by simp

text \<open>C29. Every run is finite, without any assumption on the fairness of the scheduler: from the start the threads make at most
  \<open>40 * MAX_ITEM_NUM + 8 * THREAD_PRO + 13 * THREAD_CONS + 2\<close> steps, where waiting is no step.\<close>

theorem producers_consumers_terminate:
  assumes "console_main old input = Some s" "follow gettid as s = Some s'"
  shows "int (length as) \<le> 40 * MAX_ITEM_NUM s + 8 * THREAD_PRO s + 13 * THREAD_CONS s + 2"
  using follow_work [OF pc_inv_start [OF assms(1)] ends_start [OF assms(1)] assms(2)] work_start [OF assms(1)] by simp

theorem producers_consumers_terminate_witness: "int (length orderly_moves) \<le> 40 + 8 + 13 + 2"
  using producers_consumers_terminate [OF orderly_start, of int orderly_moves orderly_end] orderly_run by simp

text \<open>An item can be left behind.\<close>

theorem consumer_leaves_item_behind:
  "\<exists>s. pc_run gettid old [1, 1, 2, 1] s \<and> stuck gettid s \<and> taken s = [] \<and> made s = [(1, gettid 0)] \<and> pro_at s 1 = P_wait_empty"
  using hasty_run [of old gettid] follow_run pc_run.start by blast

end
