(* ===== verification/Kdebug.thy ===== *)
theory Kdebug
  imports String_Lib
begin

text \<open>
  The search in the debugging symbols of \<open>lab2/kern/debug/kdebug.c\<close>. The table of stabs and the table of their strings are arrays; an access
  outside is a fault. Indices are mathematical integers: the table has fewer than \<open>2 ^ 30\<close> entries.
\<close>

section \<open>Stabs (stab.h)\<close>

record stab =
  n_strx :: uint32
  n_type :: uint8
  n_other :: uint8
  n_desc :: "16 word"
  n_value :: uint32

definition N_FUN :: uint8 where "N_FUN = 0x24"
definition N_SLINE :: uint8 where "N_SLINE = 0x44"
definition N_SO :: uint8 where "N_SO = 0x64"
definition N_SOL :: uint8 where "N_SOL = 0x84"
definition N_PSYM :: uint8 where "N_PSYM = 0xa0"

section \<open>stab_binsearch\<close>

text \<open>The inner loop and the last loop: down from \<open>m\<close> to a stab of the type, but not below \<open>l\<close>.\<close>

function type_down :: "stab list \<Rightarrow> uint8 \<Rightarrow> int \<Rightarrow> int \<Rightarrow> int outcome" where
  "type_down stabs type l m =
     (if m \<ge> l then
        (case array_get stabs m of Inl e \<Rightarrow> Inl e
         | Inr st \<Rightarrow> if n_type st \<noteq> type then type_down stabs type l (m - 1) else Inr m)
      else Inr m)"
  by pat_completeness auto
termination
  by (relation "measure (\<lambda>(stabs, type, l, m). nat (m - l + 1))") auto

declare type_down.simps [simp del]

lemma type_down_le: "type_down stabs type l m = Inr m' \<Longrightarrow> m' \<le> m"
proof (induction stabs type l m arbitrary: m' rule: type_down.induct)
  case (1 stabs type l m)
  from 1(2) show ?case by (subst (asm) type_down.simps) (auto split: if_splits sum.splits dest: 1(1))
qed

lemma mid_shrinks: "l \<le> r \<Longrightarrow> Suc (2 * nat (r - (l + r) div 2)) < 2 * nat (r - l + 1)" for l :: int
proof -
  assume "l \<le> r"
  then have "l \<le> (l + r) div 2" "(l + r) div 2 \<le> r" by simp_all
  then show ?thesis by linarith
qed

text \<open>The outer loop, with the values of \<open>*region_left\<close>, \<open>*region_right\<close> and \<open>any_matches\<close>.\<close>

function search_loop :: "stab list \<Rightarrow> uint8 \<Rightarrow> int \<Rightarrow> int \<Rightarrow> uint32 \<Rightarrow> int \<Rightarrow> int \<Rightarrow> bool \<Rightarrow> (int \<times> int \<times> bool) outcome" where
  "search_loop stabs type l r addr region_left region_right any_matches =
     (if l \<le> r then
        (let true_m = (l + r) div 2 in
         case type_down stabs type l true_m of Inl e \<Rightarrow> Inl e
         | Inr m \<Rightarrow>
             if m < l then search_loop stabs type (true_m + 1) r addr region_left region_right any_matches
             else
               (case array_get stabs m of Inl e \<Rightarrow> Inl e
                | Inr st \<Rightarrow>
                    if n_value st < addr then search_loop stabs type (true_m + 1) r addr m region_right True
                    else if n_value st > addr then search_loop stabs type l (m - 1) addr region_left (m - 1) True
                    else search_loop stabs type m r (addr + 1) m region_right True))
      else Inr (region_left, region_right, any_matches))"
  by pat_completeness auto
termination
proof (relation "measure (\<lambda>(stabs, type, l, r, addr, rl, rr, any).
    2 * nat (r - l + 1) + (case array_get stabs l of Inl e \<Rightarrow> 0 | Inr st \<Rightarrow> if n_value st = addr then 1 else 0))", goal_cases)
  case (5 stabs type l r addr rl rr any true_m m st)
  then have m: "l \<le> m" "m \<le> true_m" "true_m \<le> r" "l \<le> true_m" using type_down_le by auto
  show ?case
  proof (cases "m = l")
    case True
    then show ?thesis using 5 by auto
  next
    case False
    then have "nat (r - m + 1) < nat (r - l + 1)" using m by linarith
    then show ?thesis by (auto split: sum.split)
  qed
qed (auto simp: mid_shrinks dest: type_down_le split: sum.split)

declare search_loop.simps [simp del]

definition stab_binsearch :: "stab list \<Rightarrow> int \<Rightarrow> int \<Rightarrow> uint8 \<Rightarrow> uint32 \<Rightarrow> (int \<times> int) outcome" where
  "stab_binsearch stabs region_left region_right type addr =
     andThen (search_loop stabs type region_left region_right addr region_left region_right False) (\<lambda>(rl, rr, any_matches).
       if \<not> any_matches then Inr (rl, rl - 1)
       else andThen (type_down stabs type (rl + 1) rr) (\<lambda>l. Inr (l, rr)))"

section \<open>debuginfo_eip\<close>

text \<open>
  A name is a position in the string table, or \<open>None\<close> for the literal \<open><unknown>\<close>. The length of a name is the distance to its first colon.
\<close>

record eipdebuginfo =
  eip_file :: "int option"
  eip_line :: int
  eip_fn_name :: "int option"
  eip_fn_namelen :: int
  eip_fn_addr :: uint32
  eip_fn_narg :: int

definition unknown_name :: byte_mem where
  "unknown_name = map ascii ''<unknown>'' @ [0]"

definition name_len :: "byte_mem \<Rightarrow> int option \<Rightarrow> int outcome" where
  "name_len stabstr name =
     (case name of None \<Rightarrow> strfind unknown_name 0 (ascii CHR '':'')
      | Some p \<Rightarrow> andThen (strfind stabstr p (ascii CHR '':'')) (\<lambda>q. Inr (q - p)))"

function file_loop :: "stab list \<Rightarrow> int \<Rightarrow> int \<Rightarrow> int outcome" where
  "file_loop stabs lfile lline =
     (if lline \<ge> lfile then
        (case array_get stabs lline of Inl e \<Rightarrow> Inl e
         | Inr st \<Rightarrow> if n_type st \<noteq> N_SOL \<and> (n_type st \<noteq> N_SO \<or> n_value st = 0) then file_loop stabs lfile (lline - 1) else Inr lline)
      else Inr lline)"
  by pat_completeness auto
termination
  by (relation "measure (\<lambda>(stabs, lfile, lline). nat (lline - lfile + 1))") auto

function narg_loop :: "stab list \<Rightarrow> int \<Rightarrow> int \<Rightarrow> int \<Rightarrow> int outcome" where
  "narg_loop stabs lline rfun narg =
     (if lline < rfun then
        (case array_get stabs lline of Inl e \<Rightarrow> Inl e
         | Inr st \<Rightarrow> if n_type st = N_PSYM then narg_loop stabs (lline + 1) rfun (narg + 1) else Inr narg)
      else Inr narg)"
  by pat_completeness auto
termination
  by (relation "measure (\<lambda>(stabs, lline, rfun, narg). nat (rfun - lline))") auto

declare file_loop.simps [simp del] narg_loop.simps [simp del]

definition debuginfo_eip :: "stab list \<Rightarrow> byte_mem \<Rightarrow> uint32 \<Rightarrow> (int \<times> eipdebuginfo) outcome" where
  "debuginfo_eip stabs stabstr addr =
     (let info0 = \<lparr>eip_file = None, eip_line = 0, eip_fn_name = None, eip_fn_namelen = 9, eip_fn_addr = addr, eip_fn_narg = 0\<rparr>;
          in_strings = (\<lambda>st. unat (n_strx st) < length stabstr) in
      if stabstr = [] \<or> last stabstr \<noteq> 0 then Inr (- 1, info0)
      else
        andThen (stab_binsearch stabs 0 (int (length stabs) - 1) N_SO addr) (\<lambda>(lfile, rfile).
        if lfile = 0 then Inr (- 1, info0)
        else
          andThen (stab_binsearch stabs lfile rfile N_FUN addr) (\<lambda>(lfun, rfun).
          andThen
            (if lfun \<le> rfun then
               andThen (array_get stabs lfun) (\<lambda>st.
                 Inr (info0\<lparr>eip_fn_name := if in_strings st then Some (int (unat (n_strx st))) else None, eip_fn_addr := n_value st\<rparr>,
                      addr - n_value st, lfun, rfun))
             else Inr (info0\<lparr>eip_fn_addr := addr\<rparr>, addr, lfile, rfile)) (\<lambda>(info1, addr1, lline0, rline0).
          andThen (name_len stabstr (eip_fn_name info1)) (\<lambda>len.
          let info2 = info1\<lparr>eip_fn_namelen := len\<rparr> in
          andThen (stab_binsearch stabs lline0 rline0 N_SLINE addr1) (\<lambda>(lline, rline).
          if lline \<le> rline then
            andThen (array_get stabs rline) (\<lambda>rst.
            let info3 = info2\<lparr>eip_line := uint (n_desc rst)\<rparr> in
            andThen (file_loop stabs lfile lline) (\<lambda>fline.
            andThen
              (if fline \<ge> lfile then
                 andThen (array_get stabs fline) (\<lambda>fst1.
                   Inr (if in_strings fst1 then info3\<lparr>eip_file := Some (int (unat (n_strx fst1)))\<rparr> else info3))
               else Inr info3) (\<lambda>info4.
            andThen (if lfun < rfun then narg_loop stabs (lfun + 1) rfun 0 else Inr 0) (\<lambda>narg.
              Inr (0, info4\<lparr>eip_fn_narg := narg\<rparr>)))))
          else Inr (- 1, info2)))))))"

section \<open>What the search finds\<close>

definition is_type :: "stab list \<Rightarrow> uint8 \<Rightarrow> int \<Rightarrow> bool" where
  "is_type stabs type i \<longleftrightarrow> 0 \<le> i \<and> i < int (length stabs) \<and> n_type (stabs ! nat i) = type"

definition value_at :: "stab list \<Rightarrow> int \<Rightarrow> uint32" where
  "value_at stabs i = n_value (stabs ! nat i)"

lemma type_down_ok:
  "0 \<le> l \<Longrightarrow> m < int (length stabs) \<Longrightarrow> l \<le> m + 1 \<Longrightarrow>
   \<exists>m'. type_down stabs type l m = Inr m' \<and> l - 1 \<le> m' \<and> m' \<le> m \<and> (l \<le> m' \<longrightarrow> is_type stabs type m') \<and>
     (\<forall>i. m' < i \<and> i \<le> m \<longrightarrow> \<not> is_type stabs type i)"
proof (induction stabs type l m rule: type_down.induct)
  case (1 stabs type l m)
  show ?case
  proof (cases "l \<le> m")
    case False
    then show ?thesis using "1.prems" by (subst type_down.simps) auto
  next
    case True
    then have g: "array_get stabs m = Inr (stabs ! nat m)" using "1.prems" by (simp add: array_get_in)
    show ?thesis
    proof (cases "n_type (stabs ! nat m) = type")
      case same: True
      have "type_down stabs type l m = Inr m" using True g same by (subst type_down.simps) simp
      moreover have "is_type stabs type m" using True same "1.prems"(1,2) unfolding is_type_def by linarith
      ultimately show ?thesis using True by (intro exI [of _ m]) auto
    next
      case diff: False
      have p: "m - 1 < int (length stabs)" "l \<le> m - 1 + 1" using "1.prems"(2) True by simp_all
      have "type_down stabs type l m = type_down stabs type l (m - 1)" using True g diff by (subst type_down.simps) simp
      moreover have "\<not> is_type stabs type m" using diff by (simp add: is_type_def)
      moreover obtain m' where m': "type_down stabs type l (m - 1) = Inr m'" "l - 1 \<le> m'" "m' \<le> m - 1" "l \<le> m' \<longrightarrow> is_type stabs type m'"
          "\<forall>i. m' < i \<and> i \<le> m - 1 \<longrightarrow> \<not> is_type stabs type i"
        using "1.IH" [OF True g diff "1.prems"(1) p] by blast
      moreover have "\<not> is_type stabs type i" if "m' < i" "i \<le> m" for i using that m'(5) calculation(2) by (cases "i = m") auto
      ultimately show ?thesis using m'(1-4) by (intro exI [of _ m']) auto
    qed
  qed
qed

text \<open>
  The state of the outer loop in the region from \<open>L\<close> to \<open>R\<close>: \<open>seen\<close> for every table, and \<open>sorts\<close> for the address \<open>a\<close> when the stabs of the type are in
  the order of their values: those before \<open>l\<close> do not lie behind the address, those behind \<open>r\<close> do.
\<close>

definition seen :: "stab list \<Rightarrow> uint8 \<Rightarrow> int \<Rightarrow> int \<Rightarrow> int \<Rightarrow> int \<Rightarrow> int \<Rightarrow> bool \<Rightarrow> bool" where
  "seen stabs type L R l r rl any \<longleftrightarrow> 0 \<le> L \<and> R < int (length stabs) \<and> L \<le> l \<and> r \<le> R \<and> l \<le> r + 1 \<and> (rl = L \<or> is_type stabs type rl \<and> L \<le> rl \<and> rl \<le> R) \<and>
     (r = R \<or> is_type stabs type (r + 1)) \<and> (\<not> any \<longrightarrow> r = R \<and> rl = L \<and> (\<forall>i. L \<le> i \<and> i < l \<longrightarrow> \<not> is_type stabs type i)) \<and>
     (any \<longrightarrow> (\<exists>i. L \<le> i \<and> i \<le> R \<and> is_type stabs type i))"

definition sorts :: "stab list \<Rightarrow> uint8 \<Rightarrow> uint32 \<Rightarrow> int \<Rightarrow> int \<Rightarrow> int \<Rightarrow> int \<Rightarrow> int \<Rightarrow> bool" where
  "sorts stabs type a L R l r rl \<longleftrightarrow>
     (\<forall>i. L \<le> i \<and> i < l \<and> is_type stabs type i \<longrightarrow> value_at stabs i \<le> a) \<and>
     (\<forall>i. r < i \<and> i \<le> R \<and> is_type stabs type i \<longrightarrow> a < value_at stabs i) \<and> (rl = L \<or> value_at stabs rl \<le> a)"

text \<open>\<open>*region_left\<close> stays in front of \<open>r\<close> as long as the address does not wrap around.\<close>

definition kept :: "stab list \<Rightarrow> int \<Rightarrow> int \<Rightarrow> int \<Rightarrow> uint32 \<Rightarrow> int \<Rightarrow> bool" where
  "kept stabs L l r addr rl \<longleftrightarrow> rl = L \<or> rl \<le> l \<and> rl \<le> r \<and> value_at stabs rl < addr"

text \<open>
  The stabs of the type are ordered, and none lies one byte behind the address, where the search would take it for a match once it has
  found the address itself.
\<close>

definition searchable :: "stab list \<Rightarrow> uint8 \<Rightarrow> uint32 \<Rightarrow> int \<Rightarrow> int \<Rightarrow> bool" where
  "searchable stabs type a L R \<longleftrightarrow> a + 1 \<noteq> 0 \<and> (\<forall>i. L \<le> i \<and> i \<le> R \<and> is_type stabs type i \<longrightarrow> value_at stabs i \<noteq> a + 1) \<and>
     (\<forall>i j. L \<le> i \<and> i \<le> j \<and> j \<le> R \<and> is_type stabs type i \<and> is_type stabs type j \<longrightarrow> value_at stabs i \<le> value_at stabs j)"

lemma less_Suc_word: "a + 1 \<noteq> 0 \<Longrightarrow> v < a + 1 \<longleftrightarrow> v \<le> a" "a + 1 \<noteq> 0 \<Longrightarrow> a + 1 < v \<Longrightarrow> a < v" for a v :: uint32
  using unatSuc [of a] by (auto simp: word_less_nat_alt word_le_nat_alt add.commute)

lemma search_step:
  assumes ok: "seen stabs type L R l r rl any" and lr: "l \<le> r"
    and m: "l - 1 \<le> m" "m \<le> (l + r) div 2" "l \<le> m \<longrightarrow> is_type stabs type m" "\<forall>i. m < i \<and> i \<le> (l + r) div 2 \<longrightarrow> \<not> is_type stabs type i"
  shows "m < l \<Longrightarrow> seen stabs type L R ((l + r) div 2 + 1) r rl any"
    "l \<le> m \<Longrightarrow> seen stabs type L R ((l + r) div 2 + 1) r m True" "l \<le> m \<Longrightarrow> seen stabs type L R l (m - 1) rl True"
    "l \<le> m \<Longrightarrow> seen stabs type L R m r m True"
proof -
  have mid: "l \<le> (l + r) div 2" "(l + r) div 2 \<le> r" using lr by simp_all
  have "\<not> is_type stabs type i" if "m < l" "L \<le> i" "i < (l + r) div 2 + 1" "\<not> any" for i
    using that m(4) ok by (cases "i < l") (auto simp: seen_def)
  then show "m < l \<Longrightarrow> seen stabs type L R ((l + r) div 2 + 1) r rl any" using ok mid unfolding seen_def by auto
  have ex: "l \<le> m \<Longrightarrow> \<exists>i. L \<le> i \<and> i \<le> R \<and> is_type stabs type i" using m(2,3) mid ok unfolding seen_def by (intro exI [of _ m]) auto
  show "l \<le> m \<Longrightarrow> seen stabs type L R ((l + r) div 2 + 1) r m True" using ok mid m(2,3) ex unfolding seen_def by auto
  show "l \<le> m \<Longrightarrow> seen stabs type L R l (m - 1) rl True" using ok mid m(2,3) ex unfolding seen_def by auto
  show "l \<le> m \<Longrightarrow> seen stabs type L R m r m True" using ok mid m(2,3) ex unfolding seen_def by auto
qed


lemma search_loop_ok:
  assumes "seen stabs type L R l r rl any" "rr = r"
  shows "\<exists>rl' rr' any'. search_loop stabs type l r addr rl rr any = Inr (rl', rr', any') \<and> seen stabs type L R (rr' + 1) rr' rl' any' \<and>
    (searchable stabs type a L R \<longrightarrow> addr = a \<or> addr = a + 1 \<longrightarrow> sorts stabs type a L R l r rl \<longrightarrow> sorts stabs type a L R (rr' + 1) rr' rl') \<and>
    ((\<forall>st \<in> set stabs. n_value st \<noteq> -1) \<longrightarrow> kept stabs L l r addr rl \<longrightarrow> rl' = L \<or> rl' \<le> rr')"
  using assms
proof (induction stabs type l r addr rl rr any rule: search_loop.induct)
  case (1 stabs type l r addr rl rr any)
  note ok = "1.prems"(1)
  show ?case
  proof (cases "l \<le> r")
    case False
    then have "l = r + 1" using ok by (auto simp: seen_def)
    then show ?thesis using ok "1.prems"(2) by (subst search_loop.simps) (auto simp: kept_def)
  next
    case lr: True
    let ?m = "(l + r) div 2"
    have mid: "l \<le> ?m" "?m \<le> r" using lr by simp_all
    have b: "0 \<le> l" "?m < int (length stabs)" "l \<le> ?m + 1" "r \<le> R" "L \<le> l" using ok mid by (auto simp: seen_def)
    obtain m where m: "type_down stabs type l ?m = Inr m" "l - 1 \<le> m" "m \<le> ?m" "l \<le> m \<longrightarrow> is_type stabs type m"
        "\<forall>i. m < i \<and> i \<le> ?m \<longrightarrow> \<not> is_type stabs type i"
      using type_down_ok [OF b(1-3), of type] by blast
    note st = search_step [OF ok lr m(2-5)]
    show ?thesis
    proof (cases "m < l")
      case True
      then have eq: "search_loop stabs type l r addr rl rr any = search_loop stabs type (?m + 1) r addr rl rr any"
        using lr m(1) by (subst search_loop.simps) (simp add: Let_def)
      have "sorts stabs type a L R (?m + 1) r rl" if "sorts stabs type a L R l r rl"
      proof -
        have "value_at stabs i \<le> a" if "L \<le> i" "i < ?m + 1" "is_type stabs type i" for i
          using that \<open>sorts stabs type a L R l r rl\<close> m(5) True by (cases "i < l") (auto simp: sorts_def)
        then show ?thesis using that by (auto simp: sorts_def)
      qed
      moreover have "kept stabs L (?m + 1) r addr rl" if "kept stabs L l r addr rl" using that mid by (auto simp: kept_def)
      ultimately show ?thesis using "1.IH"(1) [OF lr refl m(1) True st(1) [OF True] "1.prems"(2)] unfolding eq by blast
    next
      case False
      then have lm: "l \<le> m" by simp
      then have tm: "is_type stabs type m" using m(4) by simp
      then have g: "array_get stabs m = Inr (stabs ! nat m)" by (simp add: is_type_def array_get_in)
      have v: "n_value (stabs ! nat m) = value_at stabs m" by (simp add: value_at_def)
      have le: "value_at stabs i \<le> a" if "sorts stabs type a L R l r rl" "searchable stabs type a L R" "value_at stabs m \<le> a"
          "L \<le> i" "i < ?m + 1" "is_type stabs type i" for i
      proof (cases "i \<le> m")
        case True
        then have "value_at stabs i \<le> value_at stabs m" using that tm m(3) mid b unfolding searchable_def by (meson order_trans)
        then show ?thesis using that(3) by simp
      qed (use that m(5) in auto)
      have gt: "a < value_at stabs i" if "searchable stabs type a L R" "a < value_at stabs m" "m - 1 < i" "i \<le> R" "is_type stabs type i" for i
      proof -
        have "value_at stabs m \<le> value_at stabs i" using that tm lm b unfolding searchable_def by (meson order_trans zle_diff1_eq not_le)
        then show ?thesis using that(2) by simp
      qed
      consider (lt) "value_at stabs m < addr" | (gr) "addr < value_at stabs m" | (eq) "value_at stabs m = addr" by (meson linorder_neqE)
      then show ?thesis
      proof cases
        case lt
        then have e: "search_loop stabs type l r addr rl rr any = search_loop stabs type (?m + 1) r addr m rr True"
          using lr m(1) False g v by (subst search_loop.simps) (simp add: Let_def)
        have "sorts stabs type a L R (?m + 1) r m" if "sorts stabs type a L R l r rl" "searchable stabs type a L R" "addr = a \<or> addr = a + 1"
        proof -
          have "value_at stabs m \<le> a" using lt that(2,3) less_Suc_word(1) [of a "value_at stabs m"] by (auto simp: searchable_def)
          then show ?thesis using le [OF that(1,2)] that(1) by (auto simp: sorts_def)
        qed
        moreover have "kept stabs L (?m + 1) r addr m" using lt m(3) mid by (auto simp: kept_def)
        ultimately show ?thesis using "1.IH"(2) [OF lr refl m(1) False g lt [folded v] st(2) [OF lm] "1.prems"(2)] unfolding e by blast
      next
        case gr
        then have nl: "\<not> n_value (stabs ! nat m) < addr" using v by simp
        have e: "search_loop stabs type l r addr rl rr any = search_loop stabs type l (m - 1) addr rl (m - 1) True"
          using lr m(1) False g nl gr [folded v] by (subst search_loop.simps) (simp add: Let_def)
        have "sorts stabs type a L R l (m - 1) rl" if "sorts stabs type a L R l r rl" "searchable stabs type a L R" "addr = a \<or> addr = a + 1"
        proof -
          have "a < value_at stabs m" using gr that(2,3) less_Suc_word(2) [of a "value_at stabs m"] by (auto simp: searchable_def)
          then show ?thesis using gt [OF that(2)] that(1) by (auto simp: sorts_def)
        qed
        moreover have "kept stabs L l (m - 1) addr rl" if "kept stabs L l r addr rl"
          using that gr lm unfolding kept_def by (metis less_asym order_le_less order_trans zle_diff1_eq)
        ultimately show ?thesis using "1.IH"(3) [OF lr refl m(1) False g nl gr [folded v] st(3) [OF lm] refl] unfolding e by blast
      next
        case eq
        then have nl: "\<not> n_value (stabs ! nat m) < addr" "\<not> addr < n_value (stabs ! nat m)" using v by simp_all
        have e: "search_loop stabs type l r addr rl rr any = search_loop stabs type m r (addr + 1) m rr True"
          using lr m(1) False g nl by (subst search_loop.simps) (simp add: Let_def)
        have "addr + 1 = a + 1 \<and> sorts stabs type a L R m r m" if "sorts stabs type a L R l r rl" "searchable stabs type a L R" "addr = a \<or> addr = a + 1"
        proof -
          have "value_at stabs m \<noteq> a + 1" using that(2) tm lm m(3) mid b unfolding searchable_def by (meson order_trans)
          then have "addr = a" "value_at stabs m \<le> a" using that(3) eq by auto
          then show ?thesis using le [OF that(1,2)] m(3) that(1) by (auto simp: sorts_def)
        qed
        moreover have "kept stabs L m r (addr + 1) m" if "\<forall>st \<in> set stabs. n_value st \<noteq> -1"
        proof -
          have "stabs ! nat m \<in> set stabs" using tm by (auto simp: is_type_def intro!: nth_mem)
          then have "value_at stabs m \<noteq> -1" using that by (simp add: value_at_def)
          then have "addr + 1 \<noteq> 0" using eq by (metis add.inverse_inverse add_eq_0_iff2 eq_neg_iff_add_eq_0)
          then have "value_at stabs m < addr + 1" using less_Suc_word(1) eq by simp
          then show ?thesis using m(3) mid by (simp add: kept_def)
        qed
        ultimately show ?thesis using "1.IH"(4) [OF lr refl m(1) False g nl st(4) [OF lm] "1.prems"(2)] unfolding e by blast
      qed
    qed
  qed
qed

lemma search_result:
  assumes "0 \<le> L" "R < int (length stabs)" "L \<le> R + 1"
  shows "\<exists>rl rr any. search_loop stabs type L R addr L R False = Inr (rl, rr, any) \<and> seen stabs type L R (rr + 1) rr rl any \<and>
    (searchable stabs type addr L R \<longrightarrow> sorts stabs type addr L R (rr + 1) rr rl) \<and> ((\<forall>st \<in> set stabs. n_value st \<noteq> -1) \<longrightarrow> rl = L \<or> rl \<le> rr)"
proof -
  have "kept stabs L L R addr L" by (simp add: kept_def)
  moreover have "seen stabs type L R L R L False" "sorts stabs type addr L R L R L" using assms by (auto simp: seen_def sorts_def)
  ultimately show ?thesis using search_loop_ok [of stabs type L R L R L False R addr addr] by auto
qed

lemma binsearch_found:
  assumes reg: "0 \<le> L" "R < int (length stabs)" and se: "searchable stabs type addr L R"
    and i: "L \<le> i" "i \<le> R" "is_type stabs type i" "value_at stabs i \<le> addr"
  shows "\<exists>l r. stab_binsearch stabs L R type addr = Inr (l, r) \<and> L \<le> l \<and> l \<le> r \<and> r \<le> R \<and> is_type stabs type l \<and> value_at stabs l \<le> addr \<and>
    (\<forall>j. l < j \<and> j \<le> R \<and> is_type stabs type j \<longrightarrow> r < j \<and> addr < value_at stabs j) \<and> (r = R \<or> is_type stabs type (r + 1))"
proof -
  obtain rl rr any where s: "search_loop stabs type L R addr L R False = Inr (rl, rr, any)" "seen stabs type L R (rr + 1) rr rl any"
      "sorts stabs type addr L R (rr + 1) rr rl"
    using search_result [OF reg, of type addr] i(1,2) se by auto
  have low: "value_at stabs j \<le> addr" if "L \<le> j" "j \<le> rr" "is_type stabs type j" for j using s(3) that by (simp add: sorts_def)
  have high: "addr < value_at stabs j" if "rr < j" "j \<le> R" "is_type stabs type j" for j using s(3) that by (simp add: sorts_def)
  have irr: "i \<le> rr" using high [of i] i by force
  have rlL: "rl = L \<or> is_type stabs type rl \<and> L \<le> rl \<and> rl \<le> R" "rl = L \<or> value_at stabs rl \<le> addr" using s(2,3) by (auto simp: seen_def sorts_def)
  then have rl: "L \<le> rl" "rl \<le> rr" using irr i(1) high [of rl] by force+
  have any: any using s(2) i irr by (auto simp: seen_def)
  have "0 \<le> rl + 1" "rr < int (length stabs)" "rl + 1 \<le> rr + 1" using rl reg s(2) by (auto simp: seen_def)
  from type_down_ok [OF this, of type] obtain m where m: "type_down stabs type (rl + 1) rr = Inr m" "rl \<le> m" "m \<le> rr" "rl + 1 \<le> m \<longrightarrow> is_type stabs type m"
      "\<forall>j. m < j \<and> j \<le> rr \<longrightarrow> \<not> is_type stabs type j" by auto
  have tm: "is_type stabs type m"
  proof (cases "rl + 1 \<le> m")
    case False
    then have "m = rl" using m(2) by simp
    moreover have "i \<le> m" using m(5) i(3) irr by (meson not_le)
    ultimately show ?thesis using rlL(1) i(1,3) by fastforce
  qed (use m(4) in simp)
  have "rr < j \<and> addr < value_at stabs j" if "m < j" "j \<le> R" "is_type stabs type j" for j using that m(5) high [of j] by (meson not_le)
  moreover have "stab_binsearch stabs L R type addr = Inr (m, rr)" using s(1) any m(1) by (simp add: stab_binsearch_def)
  moreover have "rr \<le> R" "rr = R \<or> is_type stabs type (rr + 1)" using s(2) by (auto simp: seen_def)
  ultimately show ?thesis using m(2,3) rl tm low [of m] by (intro exI [of _ m] exI [of _ rr]) auto
qed

lemma binsearch_missed:
  assumes reg: "0 \<le> L" "R < int (length stabs)" "L \<le> R + 1" and se: "searchable stabs type addr L R"
    and none: "\<forall>i. L \<le> i \<and> i \<le> R \<and> is_type stabs type i \<longrightarrow> addr < value_at stabs i"
  shows "\<exists>r. stab_binsearch stabs L R type addr =
      Inr (if \<forall>i. L \<le> i \<and> i \<le> R \<longrightarrow> \<not> is_type stabs type i then (L, L - 1) else if is_type stabs type L then (L - 1, L - 1) else (L, r)) \<and>
    L - 1 \<le> r \<and> r \<le> R \<and> (\<forall>i. L \<le> i \<and> i \<le> r \<longrightarrow> \<not> is_type stabs type i)"
proof -
  obtain rl rr any where s: "search_loop stabs type L R addr L R False = Inr (rl, rr, any)" "seen stabs type L R (rr + 1) rr rl any"
      "sorts stabs type addr L R (rr + 1) rr rl"
    using search_result [OF reg, of type addr] se by auto
  have rrR: "L - 1 \<le> rr" "rr \<le> R" using s(2) by (auto simp: seen_def)
  have no: "\<not> is_type stabs type i" if "L \<le> i" "i \<le> rr" for i
  proof
    assume ty: "is_type stabs type i"
    then have "value_at stabs i \<le> addr" using s(3) that by (simp add: sorts_def)
    moreover have "addr < value_at stabs i" using none ty that rrR(2) by auto
    ultimately show False by simp
  qed
  have "rl = L \<or> is_type stabs type rl \<and> L \<le> rl \<and> rl \<le> R" "rl = L \<or> value_at stabs rl \<le> addr" using s(2,3) by (auto simp: seen_def sorts_def)
  then have rl: "rl = L" using none by (meson not_le)
  show ?thesis
  proof (cases any)
    case False
    then have "\<forall>i. L \<le> i \<and> i \<le> R \<longrightarrow> \<not> is_type stabs type i" using s(2) by (auto simp: seen_def)
    then show ?thesis using s(1) rl False no rrR by (intro exI [of _ rr]) (simp add: stab_binsearch_def)
  next
    case True
    then have ex: "\<not> (\<forall>i. L \<le> i \<and> i \<le> R \<longrightarrow> \<not> is_type stabs type i)" using s(2) by (auto simp: seen_def)
    then have nx: "is_type stabs type (rr + 1)" using s(2) no by (auto simp: seen_def)
    have "type_down stabs type (L + 1) rr = Inr (if is_type stabs type L then L - 1 else L)"
    proof (cases "L \<le> rr")
      case True
      obtain m where m: "type_down stabs type (L + 1) rr = Inr m" "L \<le> m" "m \<le> rr" "L + 1 \<le> m \<longrightarrow> is_type stabs type m"
        using type_down_ok [of "L + 1" rr stabs type] True reg rrR by auto
      then have "m = L" using no by force
      then show ?thesis using m(1) no True by auto
    next
      case False
      then have "rr = L - 1" using rrR by simp
      then show ?thesis using nx by (subst type_down.simps) simp
    qed
    then have e: "stab_binsearch stabs L R type addr = Inr (if is_type stabs type L then L - 1 else L, rr)" using s(1) rl True by (simp add: stab_binsearch_def)
    have "rr = L - 1" if "is_type stabs type L" using no [of L] that rrR(1) by force
    then have "stab_binsearch stabs L R type addr = Inr (if is_type stabs type L then (L - 1, L - 1) else (L, rr))" using e by simp
    then show ?thesis using ex no rrR by (intro exI [of _ rr]) (simp only: if_False, blast)
  qed
qed

section \<open>Safety for every table\<close>

lemma binsearch_safe:
  assumes reg: "0 \<le> L" "R < int (length stabs)" "L \<le> R + 1" and vals: "\<forall>st \<in> set stabs. n_value st \<noteq> -1"
  shows "\<exists>l r. stab_binsearch stabs L R type addr = Inr (l, r) \<and> L - 1 \<le> l \<and> l \<le> r + 1 \<and> r \<le> R \<and>
    (\<not> is_type stabs type L \<longrightarrow> L \<le> l \<and> (l = L \<or> is_type stabs type l \<and> l \<le> r))"
proof -
  obtain rl rr any where s: "search_loop stabs type L R addr L R False = Inr (rl, rr, any)" "seen stabs type L R (rr + 1) rr rl any" "rl = L \<or> rl \<le> rr"
    using search_result [OF reg, of type addr] vals by auto
  have rl: "rl = L \<or> is_type stabs type rl \<and> L \<le> rl \<and> rl \<le> R" and rr: "L - 1 \<le> rr" "rr \<le> R" "rr = R \<or> is_type stabs type (rr + 1)"
    using s(2) by (auto simp: seen_def)
  show ?thesis
  proof (cases any)
    case False
    then have "stab_binsearch stabs L R type addr = Inr (L, L - 1)" using s by (auto simp: stab_binsearch_def seen_def)
    then show ?thesis using reg by auto
  next
    case True
    have e: "stab_binsearch stabs L R type addr = andThen (type_down stabs type (rl + 1) rr) (\<lambda>l. Inr (l, rr))" using s(1) True by (simp add: stab_binsearch_def)
    show ?thesis
    proof (cases "rl \<le> rr")
      case le: True
      then obtain m where m: "type_down stabs type (rl + 1) rr = Inr m" "rl \<le> m" "m \<le> rr" "rl + 1 \<le> m \<longrightarrow> is_type stabs type m"
        using type_down_ok [of "rl + 1" rr stabs type] rl rr reg by auto
      then have "m = L \<or> is_type stabs type m" using rl by (cases "m = rl") auto
      then show ?thesis using e m rl rr by (intro exI [of _ m] exI [of _ rr]) auto
    next
      case False
      then have "rl = L" "rr = L - 1" using s(3) rr(1) by auto
      moreover from this have "type_down stabs type (rl + 1) rr = Inr rr" by (subst type_down.simps) simp
      moreover have "\<exists>i. L \<le> i \<and> i \<le> R \<and> is_type stabs type i" using s(2) True by (simp add: seen_def)
      then have "is_type stabs type L" using rr(3) \<open>rr = L - 1\<close> by auto
      ultimately show ?thesis using e reg by auto
    qed
  qed
qed

lemma strfind_safe: "m \<noteq> [] \<Longrightarrow> last m = 0 \<Longrightarrow> 0 \<le> s \<Longrightarrow> s < int (length m) \<Longrightarrow> \<exists>q. strfind m s c = Inr q"
proof (induction m s c rule: strfind.induct)
  case (1 m s c)
  have b: "load m s = Inr (m ! nat s)" using "1.prems" by (simp add: load_Inr)
  show ?case
  proof (cases "m ! nat s \<noteq> 0 \<and> m ! nat s \<noteq> c")
    case True
    have "nat s \<noteq> length m - 1" using True "1.prems"(1,2) by (auto simp: last_conv_nth)
    then have "s + 1 < int (length m)" using "1.prems"(3,4) by linarith
    then have "\<exists>q. strfind m (s + 1) c = Inr q" using "1.IH" [OF b] True "1.prems" by auto
    then show ?thesis using b True by (subst strfind.simps) simp
  qed (use b in \<open>subst strfind.simps, auto\<close>)
qed

lemma file_loop_safe:
  "0 \<le> lfile \<Longrightarrow> lline < int (length stabs) \<Longrightarrow> \<exists>q. file_loop stabs lfile lline = Inr q \<and> q \<le> lline"
proof (induction stabs lfile lline rule: file_loop.induct)
  case (1 stabs lfile lline)
  show ?case
  proof (cases "lline \<ge> lfile")
    case True
    then have g: "array_get stabs lline = Inr (stabs ! nat lline)" using "1.prems" by (simp add: array_get_in)
    show ?thesis using "1.IH" [OF True g] "1.prems" True g by (subst file_loop.simps) (auto intro: order_trans)
  qed (subst file_loop.simps, simp)
qed

lemma narg_loop_safe: "0 \<le> lline \<Longrightarrow> rfun \<le> int (length stabs) \<Longrightarrow> \<exists>q. narg_loop stabs lline rfun narg = Inr q"
proof (induction stabs lline rfun narg rule: narg_loop.induct)
  case (1 stabs lline rfun narg)
  show ?case
  proof (cases "lline < rfun")
    case True
    then have g: "array_get stabs lline = Inr (stabs ! nat lline)" using "1.prems" by (simp add: array_get_in)
    show ?thesis using "1.IH" [OF True g] "1.prems" True g by (subst narg_loop.simps) auto
  qed (subst narg_loop.simps, simp)
qed

lemma name_len_safe: "m \<noteq> [] \<Longrightarrow> last m = 0 \<Longrightarrow> (\<And>p. name = Some p \<Longrightarrow> 0 \<le> p \<and> p < int (length m)) \<Longrightarrow> \<exists>n. name_len m name = Inr n"
  using strfind_safe [of unknown_name 0 "ascii CHR '':''"]
  by (cases name) (auto simp: name_len_def unknown_name_def dest: strfind_safe [of m _ "ascii CHR '':''"])

lemma entry_name_len:
  assumes "m \<noteq> []" "last m = 0"
  shows "\<exists>n. name_len m (if unat (n_strx st) < length m then Some (int (unat (n_strx st))) else None) = Inr n"
proof (rule name_len_safe [OF assms])
  fix p
  assume "(if unat (n_strx st) < length m then Some (int (unat (n_strx st))) else None) = Some p"
  then show "0 \<le> p \<and> p < int (length m)" by (metis of_nat_0_le_iff of_nat_less_iff option.distinct(1) option.inject)
qed

text \<open>The file, the function and the line are searched in regions that stay inside the table and do not begin with entry 0.\<close>

lemma lines_safe:
  assumes reg: "1 \<le> lfile" "lfile \<le> rfile + 1" "rfile < int (length stabs)" and vals: "\<forall>st \<in> set stabs. n_value st \<noteq> -1"
    and region: "1 \<le> lline0" "lline0 \<le> rline0 + 1" "rline0 \<le> rfile" and fn: "0 \<le> lfun" "rfun \<le> rfile"
  shows "\<exists>r. andThen (stab_binsearch stabs lline0 rline0 N_SLINE addr1) (\<lambda>(lline, rline).
      if lline \<le> rline then
        andThen (array_get stabs rline) (\<lambda>rst.
        let info3 = f rst in
        andThen (file_loop stabs lfile lline) (\<lambda>fline.
        andThen (if fline \<ge> lfile then andThen (array_get stabs fline) (\<lambda>st. Inr (g info3 st)) else Inr (h info3)) (\<lambda>info4.
        andThen (if lfun < rfun then narg_loop stabs (lfun + 1) rfun 0 else Inr 0) (\<lambda>narg. Inr (0, k info4 narg)))))
      else Inr (- 1, i)) = Inr r \<and> fst r \<in> {0, - 1 :: int}"
proof -
  obtain lline rline where b: "stab_binsearch stabs lline0 rline0 N_SLINE addr1 = Inr (lline, rline)" "lline0 - 1 \<le> lline" "rline \<le> rline0"
    using binsearch_safe [of lline0 rline0 stabs N_SLINE addr1] region reg vals by auto
  show ?thesis
  proof (cases "lline \<le> rline")
    case True
    then have g: "array_get stabs rline = Inr (stabs ! nat rline)" using b region reg by (simp add: array_get_in)
    obtain q where q: "file_loop stabs lfile lline = Inr q" "q \<le> lline" using file_loop_safe [of lfile lline stabs] reg b(3) region True by auto
    have gq: "array_get stabs q = Inr (stabs ! nat q)" if "lfile \<le> q" using that q b region reg True by (simp add: array_get_in)
    obtain narg where "(if lfun < rfun then narg_loop stabs (lfun + 1) rfun 0 else Inr 0) = Inr narg"
      using narg_loop_safe [of "lfun + 1" rfun stabs 0] fn reg by (cases "lfun < rfun") auto
    then show ?thesis using b(1) True g q gq by (auto simp: Let_def)
  qed (use b(1) in auto)
qed

lemma debuginfo_safe:
  assumes vals: "\<forall>st \<in> set stabs. n_value st \<noteq> -1" and first: "\<not> is_type stabs N_SO 0"
  shows "\<exists>r. debuginfo_eip stabs stabstr addr = Inr r \<and> fst r \<in> {0, - 1}"
proof (cases "stabstr = [] \<or> last stabstr \<noteq> 0")
  case True
  then show ?thesis by (simp add: debuginfo_eip_def)
next
  case str: False
  obtain lfile rfile where fl: "stab_binsearch stabs 0 (int (length stabs) - 1) N_SO addr = Inr (lfile, rfile)" "0 \<le> lfile" "lfile \<le> rfile + 1"
      "rfile < int (length stabs)" "lfile = 0 \<or> is_type stabs N_SO lfile"
    using binsearch_safe [of 0 "int (length stabs) - 1" stabs N_SO addr] vals first by auto
  show ?thesis
  proof (cases "lfile = 0")
    case True
    then show ?thesis using str fl(1) by (simp add: debuginfo_eip_def)
  next
    case False
    then have lf: "1 \<le> lfile" and so: "is_type stabs N_SO lfile" using fl by auto
    have nf: "\<not> is_type stabs N_FUN lfile" using so by (simp add: is_type_def N_SO_def N_FUN_def)
    obtain lfun rfun where fn: "stab_binsearch stabs lfile rfile N_FUN addr = Inr (lfun, rfun)" "lfile \<le> lfun" "lfun \<le> rfun + 1" "rfun \<le> rfile"
      using binsearch_safe [of lfile rfile stabs N_FUN addr] vals nf lf fl(3,4) by auto
    let ?in = "\<lambda>st. unat (n_strx st) < length stabstr"
    let ?name = "\<lambda>st. if ?in st then Some (int (unat (n_strx st))) else None"
    show ?thesis
    proof (cases "lfun \<le> rfun")
      case True
      let ?st = "stabs ! nat lfun"
      have g: "array_get stabs lfun = Inr ?st" using True fn lf fl(4) by (simp add: array_get_in)
      obtain n where n: "name_len stabstr (?name ?st) = Inr n"
        using entry_name_len [of stabstr ?st] str by blast
      show ?thesis
        using lines_safe [OF lf fl(3,4) vals, of lfun rfun lfun rfun] lf fn True str fl(1) False g n
        by (simp add: debuginfo_eip_def Let_def split del: if_split)
    next
      case no: False
      obtain n where n: "name_len stabstr None = Inr n" using name_len_safe [of stabstr None] str by auto
      show ?thesis
        using lines_safe [OF lf fl(3,4) vals, of lfile rfile lfun rfun] lf fn no str fl(1,3) False n
        by (simp add: debuginfo_eip_def Let_def split del: if_split)
    qed
  qed
qed

section \<open>Properties\<close>

definition entry :: "uint32 \<Rightarrow> uint8 \<Rightarrow> 16 word \<Rightarrow> uint32 \<Rightarrow> stab" where
  "entry strx type desc v = \<lparr>n_strx = strx, n_type = type, n_other = 0, n_desc = desc, n_value = v\<rparr>"

text \<open>
  C30. The search for the stab of a type that contains an address. In a region whose stabs of the type are ordered by address and have none
  one byte behind the searched address, the search ends: if some stab of the type does not lie behind the address, the left end of the result is the last
  such stab, and the right end is just before the next stab of the type or the end of the region; if every stab of the type lies behind the
  address, the result holds no stab of the type, and begins at the left end of the region or, when that is a stab of the type, one before it.
\<close>

theorem stab_binsearch_finds:
  assumes "0 \<le> L" "R < int (length stabs)" "L \<le> R + 1" "searchable stabs type addr L R"
  shows "if \<exists>i. L \<le> i \<and> i \<le> R \<and> is_type stabs type i \<and> value_at stabs i \<le> addr
    then \<exists>l r. stab_binsearch stabs L R type addr = Inr (l, r) \<and> L \<le> l \<and> l \<le> r \<and> r \<le> R \<and> is_type stabs type l \<and> value_at stabs l \<le> addr \<and>
      (\<forall>j. l < j \<and> j \<le> R \<and> is_type stabs type j \<longrightarrow> r < j \<and> addr < value_at stabs j) \<and> (r = R \<or> is_type stabs type (r + 1))
    else \<exists>r. stab_binsearch stabs L R type addr =
        Inr (if \<forall>i. L \<le> i \<and> i \<le> R \<longrightarrow> \<not> is_type stabs type i then (L, L - 1) else if is_type stabs type L then (L - 1, L - 1) else (L, r)) \<and>
      L - 1 \<le> r \<and> r \<le> R \<and> (\<forall>i. L \<le> i \<and> i \<le> r \<longrightarrow> \<not> is_type stabs type i)"
proof (cases "\<exists>i. L \<le> i \<and> i \<le> R \<and> is_type stabs type i \<and> value_at stabs i \<le> addr")
  case True
  then show ?thesis using binsearch_found [OF assms(1,2,4)] by (simp only: if_True) blast
next
  case False
  then have "\<forall>i. L \<le> i \<and> i \<le> R \<and> is_type stabs type i \<longrightarrow> addr < value_at stabs i" using not_le by blast
  from binsearch_missed [OF assms this] show ?thesis using False by (simp only: if_False)
qed

lemma example_searchable: "searchable [entry 0 N_SO 0 0x100, entry 0 N_FUN 0 0x120, entry 0 N_SO 0 0x200] N_SO 0x184 0 2"
proof -
  have "i = 0 \<or> i = 1 \<or> i = 2" if "0 \<le> i" "i \<le> 2" for i :: int using that by linarith
  then show ?thesis
    unfolding searchable_def is_type_def value_at_def entry_def N_SO_def N_FUN_def by (auto simp: nth_Cons' nat_eq_iff)
qed

theorem stab_binsearch_finds_witness:
  "let stabs = [entry 0 N_SO 0 0x100, entry 0 N_FUN 0 0x120, entry 0 N_SO 0 0x200] in
   stab_binsearch stabs 0 2 N_SO 0x184 = Inr (0, 1) \<and> is_type stabs N_SO 0 \<and>
   (\<exists>l r. stab_binsearch stabs 0 2 N_SO 0x184 = Inr (l, r) \<and> (r = 2 \<or> is_type stabs N_SO (r + 1)))"
proof -
  let ?stabs = "[entry 0 N_SO 0 0x100, entry 0 N_FUN 0 0x120, entry 0 N_SO 0 0x200]"
  have v: "0 \<le> (0 :: int) \<and> 0 \<le> (2 :: int) \<and> is_type ?stabs N_SO 0 \<and> value_at ?stabs 0 \<le> 0x184" by code_simp
  then have ex: "\<exists>i \<ge> 0. i \<le> 2 \<and> is_type ?stabs N_SO i \<and> value_at ?stabs i \<le> 0x184" by (intro exI [of _ 0]) simp
  have "\<exists>l r. stab_binsearch ?stabs 0 2 N_SO 0x184 = Inr (l, r) \<and> (r = 2 \<or> is_type ?stabs N_SO (r + 1))"
    using stab_binsearch_finds [OF _ _ _ example_searchable, simplified if_P [OF ex]] by auto
  moreover have "stab_binsearch ?stabs 0 2 N_SO 0x184 = Inr (0, 1)" by code_simp
  ultimately show ?thesis using v unfolding Let_def by blast
qed

text \<open>A stab one byte behind the searched address is taken for its match: the search for 100 answers with the stab at 101.\<close>

lemma binsearch_one_byte_behind:
  "stab_binsearch [entry 0 N_FUN 0 100, entry 0 N_FUN 0 101] 0 1 N_FUN 100 = Inr (1, 1)"
  by code_simp

text \<open>The line is that of the last stab before the next line, whatever its type: the local variable here gives line 0.\<close>

lemma line_of_another_stab:
  "case debuginfo_eip [entry 0 0 0 0, entry 1 N_SO 0 100, entry 3 N_FUN 0 100, entry 0 N_SLINE 7 0, entry 0 0x80 0 5] [0, 97, 0, 102, 58, 70, 0] 102 of
     Inr (r, info) \<Rightarrow> r = 0 \<and> eip_line info = 0 | Inl e \<Rightarrow> False"
  by code_simp

text \<open>
  Two kinds of tables make it read outside. When the first entry is a source file and all source files lie behind the address, the search leaves
  \<open>lfile\<close> at -1, which passes the test for 0, and the next search reads \<open>stabs[-1]\<close>.
\<close>

lemma first_entry_source_file:
  "case debuginfo_eip [entry 0 N_SO 0 100] [0] 50 of Inl e \<Rightarrow> e = Out_of_bounds | Inr x \<Rightarrow> False"
  by code_simp

text \<open>When an entry has the last address, \<open>addr++\<close> in the search for that address wraps around to 0.\<close>

lemma entry_at_last_address:
  "case debuginfo_eip [entry 0 N_SLINE 0 0xF0000000, entry 0 N_FUN 0 (-1), entry 0 N_SO 0 (-1)] [0] (-1) of
     Inl e \<Rightarrow> e = Out_of_bounds | Inr x \<Rightarrow> False"
  by code_simp

text \<open>
  C31. For every symbol table whose first entry is not a source file and which has no entry at the last address \<open>0xFFFFFFFF\<close>, for every string
  table and every address, \<open>debuginfo_eip\<close> ends and returns 0 or -1 without reading outside the tables. Nothing else is required of the table: its
  entries need not be ordered, and their types and string offsets are arbitrary. Tables with such a first entry, and tables with an entry at the
  last address, can make it read outside, as the two examples above show.
\<close>

theorem debuginfo_eip_safe:
  assumes "\<forall>st \<in> set stabs. n_value st \<noteq> -1" "\<not> is_type stabs N_SO 0"
  shows "\<exists>code info. debuginfo_eip stabs stabstr addr = Inr (code, info) \<and> (code = 0 \<or> code = - 1)"
  using debuginfo_safe [OF assms, of stabstr addr] by auto

theorem debuginfo_eip_safe_witness:
  "let stabs = [entry 0 0 0 0, entry 1 N_SO 0 100, entry 3 N_FUN 0 100, entry 0 N_SLINE 7 0, entry 0 N_SLINE 8 6]; str = [0, 97, 0, 102, 58, 70, 0] in
   (\<exists>code info. debuginfo_eip stabs str 103 = Inr (code, info) \<and> (code = 0 \<or> code = - 1)) \<and>
   debuginfo_eip stabs str 103 =
     Inr (0, \<lparr>eip_file = Some 1, eip_line = 7, eip_fn_name = Some 3, eip_fn_namelen = 1, eip_fn_addr = 100, eip_fn_narg = 0\<rparr>)"
proof -
  let ?stabs = "[entry 0 0 0 0, entry 1 N_SO 0 100, entry 3 N_FUN 0 100, entry 0 N_SLINE 7 0, entry 0 N_SLINE 8 6]"
  have "\<forall>st \<in> set ?stabs. n_value st \<noteq> -1" "\<not> is_type ?stabs N_SO 0" by (simp add: entry_def) code_simp
  from debuginfo_eip_safe [OF this, of "[0, 97, 0, 102, 58, 70, 0]" 103]
  have "\<exists>code info. debuginfo_eip ?stabs [0, 97, 0, 102, 58, 70, 0] 103 = Inr (code, info) \<and> (code = 0 \<or> code = - 1)" .
  moreover have "debuginfo_eip ?stabs [0, 97, 0, 102, 58, 70, 0] 103 =
     Inr (0, \<lparr>eip_file = Some 1, eip_line = 7, eip_fn_name = Some 3, eip_fn_namelen = 1, eip_fn_addr = 100, eip_fn_narg = 0\<rparr>)" by code_simp
  ultimately show ?thesis unfolding Let_def by blast
qed

end
