(* ===== verification/Console_Output.thy ===== *)
theory Console_Output
  imports Printfmt
begin

text \<open>
  Output to the console, \<open>lab2/kern/driver/console.c\<close>, and the interrupt controller of \<open>picirq.c\<close>. The port instructions \<open>inb\<close> and \<open>outb\<close> are
  parameters over the state \<open>'w\<close> of the devices. The screen memory is an array of \<open>CRT_SIZE\<close> cells; a write outside it is a fault. The
  operations switch interrupts off (\<open>local_intr_save\<close>), so that each of them is one step.
\<close>

section \<open>The machine\<close>

type_synonym uint16 = "16 word"

text \<open>What a probe of the first cell of a colour card reads back, and the memory of a monochrome card, used when the probe fails.\<close>

record 'w hardware =
  inb_port :: "uint16 \<Rightarrow> 'w \<Rightarrow> uint8 \<times> 'w"
  outb_port :: "uint16 \<Rightarrow> uint8 \<Rightarrow> 'w \<Rightarrow> 'w"
  cga_readback :: "uint16 \<Rightarrow> uint16"
  mono_text :: "uint16 list"

record cons_buffer =
  cons_buf :: "uint8 list"
  rpos :: uint32
  wpos :: uint32

record 'w console =
  crt_buf :: "uint16 list"
  crt_pos :: uint16
  addr_6845 :: uint16
  serial_exists :: bool
  cons :: cons_buffer
  kbd_shift :: uint32
  irq_mask :: uint16
  did_init :: bool
  world :: 'w

definition inb :: "'w hardware \<Rightarrow> uint16 \<Rightarrow> 'w console \<Rightarrow> uint8 \<times> 'w console" where
  "inb hw p s = (let (v, w) = inb_port hw p (world s) in (v, s\<lparr>world := w\<rparr>))"

definition outb :: "'w hardware \<Rightarrow> uint16 \<Rightarrow> uint8 \<Rightarrow> 'w console \<Rightarrow> 'w console" where
  "outb hw p v s = s\<lparr>world := outb_port hw p v (world s)\<rparr>"

definition CRT_ROWS :: nat where "CRT_ROWS = 25"
definition CRT_COLS :: nat where "CRT_COLS = 80"
definition CRT_SIZE :: nat where "CRT_SIZE = CRT_ROWS * CRT_COLS"

definition COM1 :: uint16 where "COM1 = 0x3F8"
definition COM_RX :: uint16 where "COM_RX = 0"
definition COM_TX :: uint16 where "COM_TX = 0"
definition COM_LSR :: uint16 where "COM_LSR = 5"
definition COM_LSR_DATA :: uint8 where "COM_LSR_DATA = 0x01"
definition COM_LSR_TXRDY :: uint8 where "COM_LSR_TXRDY = 0x20"
definition MONO_BASE :: uint16 where "MONO_BASE = 0x3B4"
definition CGA_BASE :: uint16 where "CGA_BASE = 0x3D4"
definition LPTPORT :: uint16 where "LPTPORT = 0x378"

section \<open>Ports\<close>

definition delay :: "'w hardware \<Rightarrow> 'w console \<Rightarrow> 'w console" where
  "delay hw s = snd (inb hw 0x84 (snd (inb hw 0x84 (snd (inb hw 0x84 (snd (inb hw 0x84 s)))))))"

text \<open>The loop that waits for a bit of a status port, at most \<open>n\<close> more times.\<close>

fun wait_ready :: "'w hardware \<Rightarrow> uint16 \<Rightarrow> uint8 \<Rightarrow> nat \<Rightarrow> 'w console \<Rightarrow> 'w console" where
  "wait_ready hw p bits 0 s = snd (inb hw p s)"
| "wait_ready hw p bits (Suc k) s =
     (let (v, s1) = inb hw p s in if v AND bits \<noteq> 0 then s1 else wait_ready hw p bits k (delay hw s1))"

declare wait_ready.simps [simp del]

definition lpt_putc_sub :: "'w hardware \<Rightarrow> int \<Rightarrow> 'w console \<Rightarrow> 'w console" where
  "lpt_putc_sub hw c s =
     outb hw (LPTPORT + 2) 0x08 (outb hw (LPTPORT + 2) (0x08 OR 0x04 OR 0x01)
       (outb hw (LPTPORT + 0) (word_of_int c) (wait_ready hw (LPTPORT + 1) 0x80 12800 s)))"

definition lpt_putc :: "'w hardware \<Rightarrow> int \<Rightarrow> 'w console \<Rightarrow> 'w console" where
  "lpt_putc hw c s = (if c \<noteq> 8 then lpt_putc_sub hw c s else lpt_putc_sub hw 8 (lpt_putc_sub hw 32 (lpt_putc_sub hw 8 s)))"

definition serial_putc_sub :: "'w hardware \<Rightarrow> int \<Rightarrow> 'w console \<Rightarrow> 'w console" where
  "serial_putc_sub hw c s = outb hw (COM1 + COM_TX) (word_of_int c) (wait_ready hw (COM1 + COM_LSR) COM_LSR_TXRDY 12800 s)"

definition serial_putc :: "'w hardware \<Rightarrow> int \<Rightarrow> 'w console \<Rightarrow> 'w console" where
  "serial_putc hw c s = (if c \<noteq> 8 then serial_putc_sub hw c s else serial_putc_sub hw 8 (serial_putc_sub hw 32 (serial_putc_sub hw 8 s)))"

section \<open>The screen\<close>

fun blank_cells :: "uint16 list \<Rightarrow> int \<Rightarrow> nat \<Rightarrow> uint16 list outcome" where
  "blank_cells b i 0 = Inr b"
| "blank_cells b i (Suc n) = andThen (array_set b i (0x0700 OR 0x20)) (\<lambda>b'. blank_cells b' (i + 1) n)"

text \<open>\<open>memmove\<close> of all lines but the first, in units of cells, and a blank last line.\<close>

definition scroll :: "uint16 list \<Rightarrow> uint16 list outcome" where
  "scroll b =
     (if length b < CRT_SIZE then Inl Out_of_bounds
      else blank_cells (take (CRT_SIZE - CRT_COLS) (drop CRT_COLS b) @ drop (CRT_SIZE - CRT_COLS) b) (int (CRT_SIZE - CRT_COLS)) CRT_COLS)"

definition black_on_white :: "uint32 \<Rightarrow> uint32" where
  "black_on_white c = (if c AND NOT 0xFF = 0 then c OR 0x0700 else c)"

definition crt_put :: "uint32 \<Rightarrow> uint16 list \<Rightarrow> uint16 \<Rightarrow> (uint16 list \<times> uint16) outcome" where
  "crt_put c b pos =
     (if c AND 0xff = 8 then
        (if pos > 0 then andThen (array_set b (uint (pos - 1)) (ucast ((c AND NOT 0xff) OR 0x20))) (\<lambda>b'. Inr (b', pos - 1)) else Inr (b, pos))
      else if c AND 0xff = 10 then (let pos1 = pos + of_nat CRT_COLS in Inr (b, pos1 - pos1 mod of_nat CRT_COLS))
      else if c AND 0xff = 13 then Inr (b, pos - pos mod of_nat CRT_COLS)
      else andThen (array_set b (uint pos) (ucast c)) (\<lambda>b'. Inr (b', pos + 1)))"

definition cga_putc :: "'w hardware \<Rightarrow> int \<Rightarrow> 'w console \<Rightarrow> 'w console outcome" where
  "cga_putc hw c s =
     andThen (crt_put (black_on_white (word_of_int c)) (crt_buf s) (crt_pos s)) (\<lambda>(b1, pos1).
     andThen (if pos1 \<ge> of_nat CRT_SIZE then andThen (scroll b1) (\<lambda>b2. Inr (b2, pos1 - of_nat CRT_COLS)) else Inr (b1, pos1)) (\<lambda>(b, pos).
       let a = addr_6845 s in
       Inr (outb hw (a + 1) (ucast pos) (outb hw a 15 (outb hw (a + 1) (ucast (drop_bit 8 pos)) (outb hw a 14 (s\<lparr>crt_buf := b, crt_pos := pos\<rparr>)))))))"

definition cons_putc :: "'w hardware \<Rightarrow> int \<Rightarrow> 'w console \<Rightarrow> 'w console outcome" where
  "cons_putc hw c s = andThen (cga_putc hw c (lpt_putc hw c s)) (\<lambda>s'. Inr (serial_putc hw c s'))"

section \<open>High-level output (stdio.c)\<close>

text \<open>\<open>cputch\<close> counts the characters in the variable behind \<open>cnt\<close>.\<close>

definition cputch :: "'w hardware \<Rightarrow> ('w console \<times> int) putch" where
  "cputch hw c = (\<lambda>(s, n). andThen (cons_putc hw c s) (\<lambda>s'. Inr (s', int32 (n + 1))))"

definition vcprintf :: "'w hardware \<Rightarrow> byte_mem \<Rightarrow> int \<Rightarrow> va_list \<Rightarrow> 'w console \<Rightarrow> ('w console \<times> int) outcome" where
  "vcprintf hw m fmt ap s = vprintfmt (cputch hw) m fmt ap (s, 0)"

definition cprintf :: "'w hardware \<Rightarrow> byte_mem \<Rightarrow> int \<Rightarrow> va_list \<Rightarrow> 'w console \<Rightarrow> ('w console \<times> int) outcome" where
  "cprintf hw m fmt ap s = vcprintf hw m fmt ap s"

definition cputchar :: "'w hardware \<Rightarrow> int \<Rightarrow> 'w console \<Rightarrow> 'w console outcome" where
  "cputchar hw c s = cons_putc hw c s"

text \<open>The characters are signed: \<open>char c\<close> becomes an \<open>int\<close>.\<close>

function cputs_loop :: "'w hardware \<Rightarrow> byte_mem \<Rightarrow> int \<Rightarrow> 'w console \<times> int \<Rightarrow> ('w console \<times> int) outcome" where
  "cputs_loop hw m str t =
     (case load m str of Inl e \<Rightarrow> Inl e
      | Inr b \<Rightarrow> if b \<noteq> 0 then (case cputch hw (sint b) t of Inl e \<Rightarrow> Inl e | Inr t' \<Rightarrow> cputs_loop hw m (str + 1) t') else Inr t)"
  by pat_completeness auto
termination
  by (relation "measure (\<lambda>(hw, m, str, t). nat (int (length m) - str))") (auto simp: load_Inr)

definition cputs :: "'w hardware \<Rightarrow> byte_mem \<Rightarrow> int \<Rightarrow> 'w console \<Rightarrow> ('w console \<times> int) outcome" where
  "cputs hw m str s = andThen (cputs_loop hw m str (s, 0)) (cputch hw 10)"

declare cputs_loop.simps [simp del]

section \<open>The interrupt controller (picirq.c)\<close>

definition IO_PIC1 :: uint16 where "IO_PIC1 = 0x20"
definition IO_PIC2 :: uint16 where "IO_PIC2 = 0xA0"
definition IRQ_SLAVE :: nat where "IRQ_SLAVE = 2"
definition IRQ_OFFSET :: nat where "IRQ_OFFSET = 32"
definition IRQ_TIMER :: nat where "IRQ_TIMER = 0"
definition IRQ_KBD :: nat where "IRQ_KBD = 1"
definition IRQ_COM1 :: nat where "IRQ_COM1 = 4"

definition pic_setmask :: "'w hardware \<Rightarrow> uint16 \<Rightarrow> 'w console \<Rightarrow> 'w console" where
  "pic_setmask hw bits s =
     (let s1 = s\<lparr>irq_mask := bits\<rparr> in
      if did_init s1 then outb hw (IO_PIC2 + 1) (ucast (drop_bit 8 bits)) (outb hw (IO_PIC1 + 1) (ucast bits) s1) else s1)"

definition pic_enable :: "'w hardware \<Rightarrow> nat \<Rightarrow> 'w console \<Rightarrow> 'w console" where
  "pic_enable hw irq s = pic_setmask hw (irq_mask s AND NOT (push_bit irq 1)) s"

definition pic_init :: "'w hardware \<Rightarrow> 'w console \<Rightarrow> 'w console" where
  "pic_init hw s =
     (let s1 = fold (\<lambda>(p, v). outb hw p v)
        [(IO_PIC1 + 1, 0xFF), (IO_PIC2 + 1, 0xFF), (IO_PIC1, 0x11), (IO_PIC1 + 1, of_nat IRQ_OFFSET), (IO_PIC1 + 1, push_bit IRQ_SLAVE 1), (IO_PIC1 + 1, 0x3),
         (IO_PIC2, 0x11), (IO_PIC2 + 1, of_nat (IRQ_OFFSET + 8)), (IO_PIC2 + 1, of_nat IRQ_SLAVE), (IO_PIC2 + 1, 0x3),
         (IO_PIC1, 0x68), (IO_PIC1, 0x0a), (IO_PIC2, 0x68), (IO_PIC2, 0x0a)] (s\<lparr>did_init := True\<rparr>) in
      if irq_mask s1 \<noteq> 0xFFFF then pic_setmask hw (irq_mask s1) s1 else s1)"

end
