(* ===== verification/Terminal.thy ===== *)
theory Terminal
  imports Console_Output Printf_Correct
begin

text \<open>
  What the console output shows: \<open>cga_putc\<close> is a refinement of a terminal with 25 rows of 80 cells and a cursor, whatever the character is, and the
  other devices do not disturb it.
\<close>

section \<open>The terminal\<close>

record terminal =
  rows :: "uint16 list list"
  row :: nat
  col :: nat

definition put_cell :: "uint16 \<Rightarrow> terminal \<Rightarrow> terminal" where
  "put_cell x t = t\<lparr>rows := (rows t)[row t := (rows t ! row t)[col t := x]]\<rparr>"

definition cursor_forward :: "terminal \<Rightarrow> terminal" where
  "cursor_forward t = (if col t + 1 < 80 then t\<lparr>col := col t + 1\<rparr> else t\<lparr>row := row t + 1, col := 0\<rparr>)"

definition cursor_back :: "terminal \<Rightarrow> terminal" where
  "cursor_back t = (if 0 < col t then t\<lparr>col := col t - 1\<rparr> else t\<lparr>row := row t - 1, col := 79\<rparr>)"

definition scroll_up :: "terminal \<Rightarrow> terminal" where
  "scroll_up t = (if row t < 25 then t else t\<lparr>rows := tl (rows t) @ [replicate 80 0x0720], row := row t - 1\<rparr>)"

text \<open>A character without an attribute is shown in black on white; a backspace deletes the character before the cursor.\<close>

definition term_putc :: "int \<Rightarrow> terminal \<Rightarrow> terminal" where
  "term_putc c t =
     (let x = black_on_white (word_of_int c) in
      scroll_up
       (if c mod 256 = 8 then
          (if row t = 0 \<and> col t = 0 then t else put_cell (ucast ((x AND NOT 0xff) OR 0x20)) (cursor_back t))
        else if c mod 256 = 10 then t\<lparr>row := row t + 1, col := 0\<rparr>
        else if c mod 256 = 13 then t\<lparr>col := 0\<rparr>
        else cursor_forward (put_cell (ucast x) t)))"

definition lines_of :: "uint16 list \<Rightarrow> uint16 list list" where
  "lines_of b = map (\<lambda>i. take 80 (drop (80 * i) b)) [0..<25]"

definition screen :: "'w console \<Rightarrow> terminal" where
  "screen s = \<lparr>rows = lines_of (crt_buf s), row = unat (crt_pos s) div 80, col = unat (crt_pos s) mod 80\<rparr>"

definition crt_ok :: "'w console \<Rightarrow> bool" where
  "crt_ok s \<longleftrightarrow> length (crt_buf s) = CRT_SIZE \<and> unat (crt_pos s) < CRT_SIZE"

lemmas crt_defs = CRT_SIZE_def CRT_ROWS_def CRT_COLS_def

section \<open>Lines of the screen memory\<close>

lemma length_lines [simp]: "length (lines_of b) = 25"
  by (simp add: lines_of_def)

lemma lines_nth: "i < 25 \<Longrightarrow> lines_of b ! i = take 80 (drop (80 * i) b)"
  by (simp add: lines_of_def)

lemma lines_update:
  assumes "length b = 2000" "p < 2000"
  shows "lines_of (b[p := x]) = (lines_of b)[p div 80 := (lines_of b ! (p div 80))[p mod 80 := x]]"
proof (rule nth_equalityI)
  fix i
  assume "i < length (lines_of (b[p := x]))"
  then have i: "i < 25" by simp
  have p: "p = 80 * (p div 80) + p mod 80" "p div 80 < 25" using assms(2) by auto
  show "lines_of (b[p := x]) ! i = (lines_of b)[p div 80 := (lines_of b ! (p div 80))[p mod 80 := x]] ! i"
  proof (cases "i = p div 80")
    case True
    then have "80 * i \<le> p" "p - 80 * i = p mod 80" using p(1) by linarith+
    then show ?thesis using i True p(2) by (simp add: lines_nth drop_update_swap take_update_swap)
  next
    case False
    then have "p < 80 * i \<or> 80 * i + 80 \<le> p" using p(1) by (cases "i < p div 80") auto
    then have "take 80 (drop (80 * i) (b[p := x])) = take 80 (drop (80 * i) b)"
      by (auto simp: drop_update_swap intro: take_update_cancel)
    then show ?thesis using i False by (simp add: lines_nth)
  qed
qed simp

lemma lines_scroll:
  assumes "length b = 2000"
  shows "lines_of (take 1920 (drop 80 b) @ replicate 80 x) = tl (lines_of b) @ [replicate 80 x]"
proof (rule nth_equalityI)
  fix i
  assume "i < length (lines_of (take 1920 (drop 80 b) @ replicate 80 x))"
  then have i: "i < 25" by simp
  show "lines_of (take 1920 (drop 80 b) @ replicate 80 x) ! i = (tl (lines_of b) @ [replicate 80 x]) ! i"
  proof (cases "i < 24")
    case True
    then have "take 80 (drop (80 * i) (take 1920 (drop 80 b) @ replicate 80 x)) = take 80 (drop (80 * (i + 1)) b)"
      using assms by (simp add: drop_take add.commute min_def)
    then show ?thesis using True i by (simp add: lines_nth nth_append nth_tl)
  next
    case False
    then have "i = 24" using i by simp
    then show ?thesis using assms by (simp add: lines_nth nth_append)
  qed
qed simp

lemma blank_cells_ok:
  "i + n \<le> length b \<Longrightarrow> blank_cells b (int i) n = Inr (take i b @ replicate n 0x0720 @ drop (i + n) b)"
proof (induction n arbitrary: b i)
  case (Suc n)
  then have "blank_cells b (int i) (Suc n) = blank_cells (b[i := 0x0720]) (int (Suc i)) n" by (simp add: array_set_in add.commute)
  also have "\<dots> = Inr (take (Suc i) (b[i := 0x0720]) @ replicate n 0x0720 @ drop (Suc i + n) (b[i := 0x0720]))" using Suc by (subst Suc.IH) auto
  also have "take (Suc i) (b[i := 0x0720]) = take i b @ [0x0720]" using Suc.prems by (simp add: take_Suc_conv_app_nth)
  finally show ?case by simp
qed simp

lemma scroll_ok: "length b = 2000 \<Longrightarrow> scroll b = Inr (take 1920 (drop 80 b) @ replicate 80 0x0720)"
  using blank_cells_ok [of 1920 80 "take 1920 (drop 80 b) @ drop 1920 b"] by (simp add: scroll_def crt_defs)

section \<open>One character\<close>

lemma low_byte: "black_on_white (word_of_int c) AND 0xff = (word_of_int (c mod 256) :: uint32)"
proof -
  have ff: "(0xff :: uint32) = mask 8" by (simp add: mask_eq_exp_minus_1)
  have "(x OR 0x0700) AND 0xff = x AND 0xff" for x :: uint32 by (subst bit.conj_disj_distrib2) simp
  then have "black_on_white (word_of_int c) AND 0xff = (word_of_int c AND 0xff :: uint32)" by (simp add: black_on_white_def)
  also have "\<dots> = take_bit 8 (word_of_int c)" by (simp add: ff take_bit_eq_mask)
  also have "\<dots> = word_of_int (take_bit 8 c)" by (simp add: take_bit_word_eq_self take_bit_of_int)
  finally show ?thesis by (simp add: take_bit_eq_mod)
qed

lemma low_byte_is: "0 \<le> k \<Longrightarrow> k < 256 \<Longrightarrow> black_on_white (word_of_int c) AND 0xff = (word_of_int k :: uint32) \<longleftrightarrow> c mod 256 = k"
proof -
  assume k: "0 \<le> k" "k < 256"
  have "(word_of_int a :: uint32) = word_of_int b \<longleftrightarrow> a = b" if "0 \<le> a" "a < 256" "0 \<le> b" "b < 256" for a b :: int
    using that by (simp add: word_of_int_eq_iff take_bit_int_eq_self)
  then show ?thesis using k by (simp add: low_byte)
qed

lemma div_mod_80: "(p - p mod 80) div 80 = p div (80 :: nat)" "(p - p mod 80) mod 80 = (0 :: nat)"
  by (simp_all add: minus_mod_eq_mult_div)

lemma unat_16: "n < 65536 \<Longrightarrow> unat (p :: uint16) + n < 65536 \<Longrightarrow> unat (p + of_nat n) = unat p + n"
  by (simp add: unat_word_ariths unat_of_nat)

lemma unat_round: "unat (p - p mod 80) = unat p - unat p mod 80" for p :: uint16
  by (simp add: unat_sub word_le_nat_alt unat_mod_distrib)

lemma back_80:
  "0 < p \<Longrightarrow> (p - 1) div 80 = (if 0 < p mod 80 then p div 80 else p div 80 - 1)"
  "0 < p \<Longrightarrow> (p - 1) mod 80 = (if 0 < p mod 80 then p mod 80 - 1 else 79)" for p :: nat
  by (cases p; simp add: div_Suc mod_Suc)+

text \<open>The cell array and the position after one character, before the screen scrolls.\<close>

lemma crt_put_ok:
  fixes pos :: uint16
  assumes len: "length b = 2000" and pos: "unat pos < 2000"
  defines "t \<equiv> \<lparr>rows = lines_of b, row = unat pos div 80, col = unat pos mod 80\<rparr>"
  shows "\<exists>b' pos'. crt_put (black_on_white (word_of_int c)) b pos = Inr (b', pos') \<and> length b' = 2000 \<and> unat pos' < 2080 \<and>
    scroll_up \<lparr>rows = lines_of b', row = unat pos' div 80, col = unat pos' mod 80\<rparr> = term_putc c t"
proof -
  let ?x = "black_on_white (word_of_int c)"
  note lb = low_byte_is [of 8 c, simplified] low_byte_is [of 10 c, simplified] low_byte_is [of 13 c, simplified]
  consider (bs) "c mod 256 = 8" | (nl) "c mod 256 = 10" | (cr) "c mod 256 = 13" | (ch) "c mod 256 \<noteq> 8" "c mod 256 \<noteq> 10" "c mod 256 \<noteq> 13" by blast
  then show ?thesis
  proof cases
    case bs
    show ?thesis
    proof (cases "pos = 0")
      case True
      then show ?thesis using bs lb len by (simp add: crt_put_def term_putc_def t_def Let_def)
    next
      case False
      then have p: "unat (pos - 1) = unat pos - 1" "0 < unat pos" "pos > 0" by (simp_all add: unat_minus_one unat_gt_0 word_neq_0_conv)
      let ?y = "ucast ((?x AND NOT 0xff) OR 0x20) :: uint16"
      have "crt_put ?x b pos = Inr (b[unat pos - 1 := ?y], pos - 1)"
        using bs lb p len pos by (simp add: crt_put_def array_set_unat)
      moreover have "cursor_back t = \<lparr>rows = lines_of b, row = (unat pos - 1) div 80, col = (unat pos - 1) mod 80\<rparr>"
        using p(2) back_80 [of "unat pos"] by (simp add: cursor_back_def t_def)
      ultimately show ?thesis using bs p len pos by (auto simp: term_putc_def t_def Let_def put_cell_def lines_update)
    qed
  next
    case nl
    have "unat pos + 80 - unat pos mod 80 < 2080" "(unat pos + 80) div 80 = Suc (unat pos div 80)" using pos by simp_all
    then show ?thesis using nl lb len pos unat_16 [of 80 pos] div_mod_80 [of "unat pos + 80"]
      by (simp add: crt_put_def term_putc_def t_def Let_def crt_defs unat_round)
  next
    case cr
    then show ?thesis using lb len pos div_mod_80 [of "unat pos"]
      by (simp add: crt_put_def term_putc_def t_def Let_def crt_defs unat_round)
  next
    case ch
    have "crt_put ?x b pos = Inr (b[unat pos := ucast ?x], pos + 1)" using ch lb len pos by (simp add: crt_put_def array_set_unat)
    moreover have "unat (pos + 1) = unat pos + 1" using unat_16 [of 1 pos] pos by simp
    ultimately show ?thesis using ch len pos
      by (auto simp: term_putc_def t_def Let_def put_cell_def lines_update cursor_forward_def div_Suc mod_Suc)
  qed
qed

lemma screen_eq: "screen s = \<lparr>rows = lines_of (crt_buf s), row = unat (crt_pos s) div 80, col = unat (crt_pos s) mod 80\<rparr>"
  by (simp add: screen_def)

text \<open>The state that the output devices leave alone: the input buffer, the keyboard and the interrupt controller.\<close>

definition same_input :: "'w console \<Rightarrow> 'w console \<Rightarrow> bool" where
  "same_input s s' \<longleftrightarrow> addr_6845 s' = addr_6845 s \<and> serial_exists s' = serial_exists s \<and> cons s' = cons s \<and>
      kbd_shift s' = kbd_shift s \<and> irq_mask s' = irq_mask s \<and> did_init s' = did_init s"

lemma same_input_refl [simp]: "same_input s s"
  by (simp add: same_input_def)

lemma same_input_trans: "same_input s t \<Longrightarrow> same_input t u \<Longrightarrow> same_input s u"
  by (simp add: same_input_def)

definition same_console :: "'w console \<Rightarrow> 'w console \<Rightarrow> bool" where
  "same_console s s' \<longleftrightarrow> (\<exists>w. s' = s\<lparr>world := w\<rparr>)"

lemma same_console_refl [simp]: "same_console s s"
  unfolding same_console_def by (rule exI [of _ "world s"]) simp

lemma same_console_trans: "same_console s t \<Longrightarrow> same_console t u \<Longrightarrow> same_console s u"
  by (auto simp: same_console_def)

lemma port_same [simp]: "same_console s (outb hw p v s)" "same_console s (snd (inb hw p s))"
  by (auto simp: same_console_def outb_def inb_def split: prod.split)

lemma same_out: "same_console s t \<Longrightarrow> same_console s (outb hw p v t)"
  using port_same(1) same_console_trans by blast

lemma same_in: "same_console s t \<Longrightarrow> same_console s (snd (inb hw p t))"
  using port_same(2) same_console_trans by blast

lemma delay_same: "same_console s t \<Longrightarrow> same_console s (delay hw t)"
  by (simp add: delay_def same_in)

lemma wait_same: "same_console s t \<Longrightarrow> same_console s (wait_ready hw p bits n t)"
proof (induction n arbitrary: t)
  case (Suc n)
  obtain v t1 where i: "inb hw p t = (v, t1)" by fastforce
  then have "same_console s t1" using same_in [OF Suc.prems, of hw p] by simp
  then show ?case using Suc.IH [OF delay_same] i by (simp add: wait_ready.simps)
qed (simp add: wait_ready.simps same_in)

lemma lpt_same: "same_console s (lpt_putc hw c s)"
  by (simp add: lpt_putc_def lpt_putc_sub_def same_out wait_same)

lemma serial_same: "same_console s (serial_putc hw c s)"
  by (simp add: serial_putc_def serial_putc_sub_def same_out wait_same)

lemma same_consoleD:
  assumes "same_console s s'"
  shows "screen s' = screen s" "crt_ok s' = crt_ok s" "same_input s s'"
  using assms by (auto simp: same_console_def screen_def crt_ok_def same_input_def)

lemma cga_putc_ok:
  assumes "crt_ok s"
  shows "\<exists>s'. cga_putc hw c s = Inr s' \<and> crt_ok s' \<and> screen s' = term_putc c (screen s) \<and> same_input s s'"
proof -
  have b: "length (crt_buf s) = 2000" "unat (crt_pos s) < 2000" using assms by (simp_all add: crt_ok_def crt_defs)
  obtain b' pos' where p: "crt_put (black_on_white (word_of_int c)) (crt_buf s) (crt_pos s) = Inr (b', pos')" "length b' = 2000" "unat pos' < 2080"
      "scroll_up \<lparr>rows = lines_of b', row = unat pos' div 80, col = unat pos' mod 80\<rparr> = term_putc c (screen s)"
    using crt_put_ok [OF b, of c] by (auto simp: screen_eq)
  have le: "2000 \<le> pos' \<longleftrightarrow> 2000 \<le> unat pos'" by (simp add: word_le_nat_alt)
  obtain b2 pos2 where q: "(if pos' \<ge> of_nat CRT_SIZE then andThen (scroll b') (\<lambda>b2. Inr (b2, pos' - of_nat CRT_COLS)) else Inr (b', pos')) = Inr (b2, pos2)"
      "length b2 = 2000" "unat pos2 < 2000" "\<lparr>rows = lines_of b2, row = unat pos2 div 80, col = unat pos2 mod 80\<rparr> = term_putc c (screen s)"
  proof (cases "2000 \<le> unat pos'")
    case True
    then have r: "unat pos' div 80 = 25" using p(3) by simp
    have u: "unat (pos' - 80) = unat pos' - 80" using True by (simp add: unat_sub word_le_nat_alt)
    have "(unat pos' - 80) div 80 = 24" "(unat pos' - 80) mod 80 = unat pos' mod 80" using True r by (simp_all add: div_if [of "unat pos'"] le_mod_geq)
    then show thesis using that [of "take 1920 (drop 80 b') @ replicate 80 0x0720" "pos' - 80"] True le p u r lines_scroll [OF p(2), where x = "0x0720"]
      by (simp add: scroll_ok crt_defs scroll_up_def)
  next
    case False
    then have "unat pos' div 80 < 25" by auto
    then show thesis using that [of b' pos'] False le p by (simp add: crt_defs scroll_up_def)
  qed
  let ?s = "s\<lparr>crt_buf := b2, crt_pos := pos2\<rparr>"
  obtain s' where s': "cga_putc hw c s = Inr s'" "same_console ?s s'"
    unfolding cga_putc_def p(1) andThen_simps prod.case q(1) Let_def by (simp add: same_out)
  moreover have "crt_ok ?s" "screen ?s = term_putc c (screen s)" "same_input s ?s" using q by (simp_all add: crt_ok_def crt_defs screen_eq same_input_def)
  ultimately show ?thesis using same_consoleD [OF s'(2)] same_input_trans by metis
qed

lemma cons_putc_ok:
  assumes "crt_ok s"
  shows "\<exists>s'. cons_putc hw c s = Inr s' \<and> crt_ok s' \<and> screen s' = term_putc c (screen s) \<and> same_input s s'"
proof -
  have "crt_ok (lpt_putc hw c s)" using assms same_consoleD(2) [OF lpt_same] by blast
  then obtain s1 where s1: "cga_putc hw c (lpt_putc hw c s) = Inr s1" "crt_ok s1" "screen s1 = term_putc c (screen (lpt_putc hw c s))" "same_input (lpt_putc hw c s) s1"
    using cga_putc_ok by blast
  then have "cons_putc hw c s = Inr (serial_putc hw c s1)" by (simp add: cons_putc_def)
  then show ?thesis using s1 same_consoleD [OF lpt_same [of s hw c]] same_consoleD [OF serial_same [of s1 hw c]] same_input_trans by metis
qed

section \<open>Formatted output\<close>

text \<open>The screen after the characters \<open>out\<close>, and the counter of \<open>cputch\<close>.\<close>

definition shown :: "'w console \<Rightarrow> 'w console \<times> int \<Rightarrow> int list \<Rightarrow> bool" where
  "shown s r out \<longleftrightarrow> crt_ok (fst r) \<and> screen (fst r) = fold term_putc out (screen s) \<and> same_input s (fst r) \<and> snd r = int32 (int (length out))"

lemma cputch_shown:
  assumes "shown s r out"
  shows "\<exists>r'. cputch hw c r = Inr r' \<and> shown s r' (out @ [c])"
proof -
  obtain s' where s': "cons_putc hw c (fst r) = Inr s'" "crt_ok s'" "screen s' = term_putc c (screen (fst r))" "same_input (fst r) s'"
    using cons_putc_ok [of "fst r" hw c] assms by (auto simp: shown_def)
  then have "cputch hw c r = Inr (s', int32 (snd r + 1))" by (simp add: cputch_def split_beta)
  moreover have "shown s (s', int32 (snd r + 1)) (out @ [c])"
    using s' assms same_input_trans [of s "fst r" s'] by (simp add: shown_def int32_add add.commute)
  ultimately show ?thesis by blast
qed

lemma cputch_rel: "putch_rel (shown s) (cputch hw) collect"
  unfolding putch_rel_def collect_def using cputch_shown by (metis rel_sum_simps(4))

lemma shown_start: "crt_ok s \<Longrightarrow> shown s (s, 0) []"
  by (simp add: shown_def int32_def)

lemma cprintf_shown:
  assumes "crt_ok s" "format_output m fmt ap = Inr out"
  shows "\<exists>r. cprintf hw m fmt ap s = Inr r \<and> shown s r out"
  using vprintfmt_rel [OF cputch_rel shown_start [OF assms(1)], of hw m fmt ap] assms(2)
  unfolding cprintf_def vcprintf_def format_output_def by (cases "vprintfmt (cputch hw) m fmt ap (s, 0)") auto

lemma cputs_loop_shown:
  "string_at m p xs \<Longrightarrow> shown s r out \<Longrightarrow> \<exists>r'. cputs_loop hw m p r = Inr r' \<and> shown s r' (out @ map sint xs)"
proof (induction xs arbitrary: p r out)
  case Nil
  then show ?case by (subst cputs_loop.simps) auto
next
  case (Cons x xs)
  obtain r1 where r1: "cputch hw (sint x) r = Inr r1" "shown s r1 (out @ [sint x])" using cputch_shown [OF Cons.prems(2)] by blast
  have "string_at m (p + 1) xs" using Cons.prems(1) by simp
  from Cons.IH [OF this r1(2)] show ?case using Cons.prems(1) r1(1) by (subst cputs_loop.simps) simp
qed

lemma cputs_shown:
  assumes "crt_ok s" "string_at m p xs"
  shows "\<exists>r. cputs hw m p s = Inr r \<and> shown s r (map sint xs @ [10])"
proof -
  obtain r where "cputs_loop hw m p (s, 0) = Inr r" "shown s r (map sint xs)"
    using cputs_loop_shown [OF assms(2) shown_start [OF assms(1)], of hw] by auto
  then show ?thesis using cputch_shown [of s r "map sint xs" hw 10] by (simp add: cputs_def)
qed

section \<open>Text without directives, and \<open>%s\<close>\<close>

lemma plain_loop:
  "string_at m p xs \<Longrightarrow> ascii CHR ''%'' \<notin> set xs \<Longrightarrow> vprintfmt_loop pe collect (\<lambda>_. m) p ap out = Inr (out @ map uint xs)"
proof (induction xs arbitrary: p out)
  case Nil
  then show ?case by (subst vprintfmt_loop_eq) (simp add: ascii_def)
next
  case (Cons x xs)
  then have "vprintfmt_loop pe collect (\<lambda>_. m) p ap out = vprintfmt_loop pe collect (\<lambda>_. m) (p + 1) ap (out @ [uint x])"
    by (subst vprintfmt_loop_eq) (auto simp: collect_def)
  also have "\<dots> = Inr ((out @ [uint x]) @ map uint xs)" by (rule Cons.IH) (use Cons.prems in auto)
  finally show ?case by simp
qed

lemma plain_output: "string_at m p xs \<Longrightarrow> ascii CHR ''%'' \<notin> set xs \<Longrightarrow> format_output m p ap = Inr (map uint xs)"
  unfolding format_output_def vprintfmt_def vprintfmt_live_def by (simp add: plain_loop)

lemma chars_loop_collect:
  "string_at m p xs \<Longrightarrow> chars_loop collect (\<lambda>_. m) False p (- 1) w out = Inr (out @ map sint xs, if xs = [] then w else int32 (w - int (length xs)))"
proof (induction xs arbitrary: p w out)
  case Nil
  then show ?case by (subst chars_loop_eq) simp
next
  case (Cons x xs)
  then have "chars_loop collect (\<lambda>_. m) False p (- 1) w out = chars_loop collect (\<lambda>_. m) False (p + 1) (- 1) (int32 (w - 1)) (out @ [sint x])"
    by (subst chars_loop_eq) (auto simp: collect_def Let_def)
  also have "\<dots> = Inr ((out @ [sint x]) @ map sint xs, if xs = [] then int32 (w - 1) else int32 (int32 (w - 1) - int (length xs)))"
    by (rule Cons.IH) (use Cons.prems in auto)
  also have "int32 (int32 (w - 1) - int (length xs)) = int32 (w - int (length (x # xs)))"
    using int32_add(1) [of "w - 1" "- int (length xs)"] by (simp add: algebra_simps)
  finally show ?case by simp
qed

lemma convert_s:
  assumes "string_at m (uint w) xs" "w \<noteq> 0" "length xs < 2 ^ 31"
  shows "convert pe collect (\<lambda>_. m) (ascii CHR ''s'') flags0 (w # ap) out = Inr (Some (out @ map sint xs, ap))"
proof -
  have "(if xs = [] then - 1 else int32 (- 1 - int (length xs))) < 0" using int32_id [of "- 1 - int (length xs)"] assms(3) by simp
  then have p: "pad_loop collect (uint (ascii CHR '' '')) (nat (if xs = [] then - 1 else int32 (- 1 - int (length xs)))) (out @ map sint xs) = Inr (out @ map sint xs)" by simp
  have "print_string collect (\<lambda>_. m) (uint w) flags0 out = Inr (out @ map sint xs)"
    using chars_loop_collect [OF assms(1), of "- 1" out] p by (simp add: print_string_def flags0_def split del: if_split)
  then show ?thesis using assms(2) by (simp add: convert_def va_word_def) (simp add: ascii_def)
qed

lemma percent_s_output:
  assumes "string_at m fmt [ascii CHR ''%'', ascii CHR ''s'']" "string_at m (uint w) xs" "w \<noteq> 0" "length xs < 2 ^ 31"
  shows "format_output m fmt [w] = Inr (map sint xs)"
proof -
  have "no_flag (ascii CHR ''s'')" by (simp add: no_flag_def is_digit_def ascii_def)
  then show ?thesis unfolding format_output_def using convert_s [OF assms(2-4), of _ "[]" "[]"] by (intro one_directive [OF assms(1)]) auto
qed

lemma string_at_start: "0 \<notin> set xs \<Longrightarrow> string_at (xs @ [0]) 0 xs"
  by (simp add: string_at_iff nth_append in_mem_def)

lemma string_at_front: "0 \<notin> set xs \<Longrightarrow> string_at (xs @ [0] @ m) 0 xs"
  by (simp add: string_at_iff nth_append in_mem_def)

lemma load_behind: "0 \<le> a \<Longrightarrow> load (pre @ m) (int (length pre) + a) = load m a"
  by (simp add: load_def array_get_def nat_add_distrib nth_append)

lemma string_at_behind: "0 \<le> a \<Longrightarrow> string_at m a xs \<Longrightarrow> string_at (pre @ m) (int (length pre) + a) xs"
proof (induction xs arbitrary: a)
  case (Cons x xs)
  then show ?case using Cons.IH [of "a + 1"] by (simp add: load_behind add.assoc)
qed (simp add: load_behind)

lemma c_string_at: "0 \<notin> set (map ascii cs) \<Longrightarrow> string_at (c_string cs) 0 (map ascii cs)"
  unfolding c_string_def by (rule string_at_start)

section \<open>Properties\<close>

text \<open>
  C32. Formatted output to the console. While the cursor is on the screen, \<open>cprintf\<close> shows exactly the characters of the formatted text, one after
  another, as a terminal with 25 rows and 80 columns does, with line breaks, deletion, wrapping and scrolling; it returns their number, writes only
  inside the screen memory, leaves the cursor on the screen and the input side of the console as it was. This holds for all devices behind
  the ports.
\<close>

theorem cprintf_shows_text:
  assumes "crt_ok s" "format_output m fmt ap = Inr out"
  shows "\<exists>s'. cprintf hw m fmt ap s = Inr (s', int32 (int (length out))) \<and> screen s' = fold term_putc out (screen s) \<and> crt_ok s' \<and> same_input s s'"
  using cprintf_shown [OF assms, of hw] by (auto simp: shown_def)

definition idle_hardware :: "unit hardware" where
  "idle_hardware = \<lparr>inb_port = (\<lambda>p w. (0xFF, w)), outb_port = (\<lambda>p v w. w), cga_readback = (\<lambda>x. x), mono_text = replicate CRT_SIZE 0\<rparr>"

definition blank_console :: "'w \<Rightarrow> 'w console" where
  "blank_console w = \<lparr>crt_buf = replicate CRT_SIZE 0x0720, crt_pos = 79, addr_6845 = 0x3D4, serial_exists = True,
     cons = \<lparr>cons_buf = replicate 512 0, rpos = 0, wpos = 0\<rparr>, kbd_shift = 0, irq_mask = 0xFFFB, did_init = False, world = w\<rparr>"

lemma blank_console_ok: "crt_ok (blank_console w)"
  by (simp add: crt_ok_def blank_console_def crt_defs)

theorem cprintf_shows_text_witness:
  "\<exists>s'. cprintf idle_hardware (c_string ''ok'') 0 [] (blank_console ()) = Inr (s', 2) \<and> row (screen s') = 1 \<and> col (screen s') = 1"
proof -
  have "string_at (c_string ''ok'') 0 (map ascii ''ok'')" by (rule c_string_at) (simp add: ascii_def)
  from plain_output [OF this, of "[]"] have "format_output (c_string ''ok'') 0 [] = Inr [111, 107]" by (simp add: ascii_def)
  from cprintf_shows_text [OF blank_console_ok this, of idle_hardware "()"]
  obtain s' where "cprintf idle_hardware (c_string ''ok'') 0 [] (blank_console ()) = Inr (s', int32 2)"
      "screen s' = fold term_putc [111, 107] (screen (blank_console ()))" by auto
  moreover have "int32 2 = 2" by code_simp
  moreover have "row (fold term_putc [111, 107] (screen (blank_console ()))) = 1" "col (fold term_putc [111, 107] (screen (blank_console ()))) = 1"
    by (simp_all add: term_putc_def screen_def blank_console_def scroll_up_def cursor_forward_def put_cell_def Let_def)
  ultimately show ?thesis by auto
qed

end
