(* ===== verification/Console_Input.thy ===== *)
theory Console_Input
  imports Terminal
begin

text \<open>
  Input from the console, \<open>lab2/kern/driver/console.c\<close>: the ring buffer, the serial port, the keyboard with its tables, and the initialisation of the
  devices. A device routine returns a character, 0 for none, or -1 when it has no more data; the loop of \<open>cons_intr\<close> ends only if the
  device runs dry.
\<close>

section \<open>The ring buffer\<close>

definition CONSBUFSIZE :: nat where "CONSBUFSIZE = 512"

definition cons_put :: "int \<Rightarrow> cons_buffer \<Rightarrow> cons_buffer outcome" where
  "cons_put c q =
     andThen (array_set (cons_buf q) (uint (wpos q)) (word_of_int c)) (\<lambda>b.
     let w = wpos q + 1 in Inr (q\<lparr>cons_buf := b, wpos := if w = of_nat CONSBUFSIZE then 0 else w\<rparr>))"

definition cons_take :: "cons_buffer \<Rightarrow> (int \<times> cons_buffer) outcome" where
  "cons_take q =
     (if rpos q \<noteq> wpos q then
        andThen (array_get (cons_buf q) (uint (rpos q))) (\<lambda>b.
        let r = rpos q + 1 in Inr (uint b, q\<lparr>rpos := if r = of_nat CONSBUFSIZE then 0 else r\<rparr>))
      else Inr (0, q))"

type_synonym 'w proc = "'w console \<Rightarrow> (int \<times> 'w console) outcome"

partial_function (option) cons_intr :: "'w proc \<Rightarrow> 'w console \<Rightarrow> 'w console outcome option" where
  "cons_intr proc s =
     (case proc s of Inl e \<Rightarrow> Some (Inl e)
      | Inr r \<Rightarrow>
          if fst r = - 1 then Some (Inr (snd r))
          else if fst r \<noteq> 0 then
            (case cons_put (fst r) (cons (snd r)) of Inl e \<Rightarrow> Some (Inl e) | Inr q \<Rightarrow> cons_intr proc ((snd r)\<lparr>cons := q\<rparr>))
          else cons_intr proc (snd r))"

declare cons_intr.simps [code]

text \<open>A loop that never ends has no result.\<close>

definition run_loop :: "'a outcome option \<Rightarrow> 'a outcome" where
  "run_loop r = (case r of None \<Rightarrow> Inl Diverges | Some x \<Rightarrow> x)"

lemma run_loop_simps [simp]: "run_loop None = Inl Diverges" "run_loop (Some x) = x"
  by (simp_all add: run_loop_def)

section \<open>The serial port\<close>

definition serial_proc_data :: "'w hardware \<Rightarrow> 'w proc" where
  "serial_proc_data hw s =
     (let (lsr, s1) = inb hw (COM1 + COM_LSR) s in
      if lsr AND COM_LSR_DATA = 0 then Inr (- 1, s1)
      else let (b, s2) = inb hw (COM1 + COM_RX) s1 in Inr (if uint b = 127 then 8 else uint b, s2))"

definition serial_intr :: "'w hardware \<Rightarrow> 'w console \<Rightarrow> 'w console outcome" where
  "serial_intr hw s = (if serial_exists s then run_loop (cons_intr (serial_proc_data hw) s) else Inr s)"

section \<open>The keyboard\<close>

definition SHIFT :: uint32 where "SHIFT = 1"
definition CTL :: uint32 where "CTL = 2"
definition ALT :: uint32 where "ALT = 4"
definition CAPSLOCK :: uint32 where "CAPSLOCK = 8"
definition NUMLOCK :: uint32 where "NUMLOCK = 16"
definition SCROLLLOCK :: uint32 where "SCROLLLOCK = 32"
definition E0ESC :: uint32 where "E0ESC = 64"

definition KEY_DEL :: uint8 where "KEY_DEL = 0xE9"

text \<open>An array of 256 bytes from its first elements and from elements at given places; all others are 0.\<close>

definition key_table :: "uint8 list \<Rightarrow> (nat \<times> uint8) list \<Rightarrow> uint8 list" where
  "key_table xs ps = fold (\<lambda>(i, v) t. t[i := v]) ps (xs @ replicate (256 - length xs) 0)"

definition shiftcode :: "uint8 list" where
  "shiftcode = key_table [] [(0x1D, ucast CTL), (0x2A, ucast SHIFT), (0x36, ucast SHIFT), (0x38, ucast ALT), (0x9D, ucast CTL), (0xB8, ucast ALT)]"

definition togglecode :: "uint8 list" where
  "togglecode = key_table [] [(0x3A, ucast CAPSLOCK), (0x45, ucast NUMLOCK), (0x46, ucast SCROLLLOCK)]"

definition extended_keys :: "(nat \<times> uint8) list" where
  "extended_keys = [(0xC8, 0xE2), (0xC9, 0xE6), (0xCB, 0xE4), (0xCD, 0xE5), (0xCF, 0xE1), (0xD0, 0xE3), (0xD1, 0xE7), (0xD2, 0xE8), (0xD3, KEY_DEL)]"

definition keypad :: "uint8 list" where
  "keypad = replicate 13 0 @ map ascii ''789-456+1230.'' @ replicate 4 0"

definition normalmap :: "uint8 list" where
  "normalmap = key_table
     ([0, 0x1B] @ map ascii ''1234567890-='' @ [8, 9] @ map ascii ''qwertyuiop[]'' @ [10, 0] @ map ascii ''asdfghjkl;'' @ [0x27] @ map ascii ''`'' @ [0, 0x5C] @
      map ascii ''zxcvbnm,./'' @ [0] @ map ascii ''*'' @ [0] @ map ascii '' '' @ keypad)
     ([(0xC7, 0xE0), (0x9C, 10), (0xB5, ascii CHR ''/'')] @ extended_keys)"

definition shiftmap :: "uint8 list" where
  "shiftmap = key_table
     ([0, 0x1B] @ map ascii ''!@#$%^&*()_+'' @ [8, 9] @ map ascii ''QWERTYUIOP{}'' @ [10, 0] @ map ascii ''ASDFGHJKL:'' @ [0x22] @ map ascii ''~'' @ [0] @ map ascii ''|'' @
      map ascii ''ZXCVBNM<>?'' @ [0] @ map ascii ''*'' @ [0] @ map ascii '' '' @ keypad)
     ([(0xC7, 0xE0), (0x9C, 10), (0xB5, ascii CHR ''/'')] @ extended_keys)"

definition ctl :: "char \<Rightarrow> uint8" where
  "ctl x = ascii x - ascii CHR ''@''"

definition ctlmap :: "uint8 list" where
  "ctlmap = key_table
     (replicate 16 0 @ map ctl ''QWERTYUIOP'' @ [0, 0, 13, 0] @ map ctl ''ASDFGHJKL'' @ [0, 0, 0, 0, 0x1C] @ map ctl ''ZXCVBNM'' @ [0, 0] @ map ctl ''/'' @ [0, 0])
     ([(0x97, 0xE0), (0xB5, ctl CHR ''/'')] @ extended_keys)"

definition charcode :: "uint8 list list" where
  "charcode = [normalmap, shiftmap, ctlmap, ctlmap]"

text \<open>
  One scan code: the character, the new modifiers, and whether Ctrl-Alt-Del was pressed. \<open>kbd_press\<close> is the part for a key that is pressed,
  behind the treatment of the prefix.
\<close>

definition kbd_press :: "uint8 \<Rightarrow> uint32 \<Rightarrow> (int \<times> uint32 \<times> bool) outcome" where
  "kbd_press d sh =
     andThen (array_get shiftcode (uint d)) (\<lambda>sc.
     andThen (array_get togglecode (uint d)) (\<lambda>tc.
     let sh1 = (sh OR ucast sc) XOR ucast tc in
     andThen (array_get charcode (uint (sh1 AND (CTL OR SHIFT)))) (\<lambda>km.
     andThen (array_get km (uint d)) (\<lambda>b.
     let c = (if sh1 AND CAPSLOCK \<noteq> 0 then
                if ascii CHR ''a'' \<le> b \<and> b \<le> ascii CHR ''z'' then uint b + (uint (ascii CHR ''A'') - uint (ascii CHR ''a''))
                else if ascii CHR ''A'' \<le> b \<and> b \<le> ascii CHR ''Z'' then uint b + (uint (ascii CHR ''a'') - uint (ascii CHR ''A''))
                else uint b
              else uint b) in
     Inr (c, sh1, NOT sh1 AND (CTL OR ALT) = 0 \<and> c = uint KEY_DEL)))))"

definition kbd_decode :: "uint8 \<Rightarrow> uint32 \<Rightarrow> (int \<times> uint32 \<times> bool) outcome" where
  "kbd_decode data shift =
     (if data = 0xE0 then Inr (0, shift OR E0ESC, False)
      else if data AND 0x80 \<noteq> 0 then
        let d = (if shift AND E0ESC \<noteq> 0 then data else data AND 0x7F) in
        andThen (array_get shiftcode (uint d)) (\<lambda>sc. Inr (0, shift AND NOT (ucast sc OR E0ESC), False))
      else if shift AND E0ESC \<noteq> 0 then kbd_press (data OR 0x80) (shift AND NOT E0ESC)
      else kbd_press data shift)"

definition KBSTATP :: uint16 where "KBSTATP = 0x64"
definition KBS_DIB :: uint8 where "KBS_DIB = 0x01"
definition KBDATAP :: uint16 where "KBDATAP = 0x60"

definition kbd_proc_data :: "'w hardware \<Rightarrow> 'w proc" where
  "kbd_proc_data hw s =
     (let (st, s1) = inb hw KBSTATP s in
      if st AND KBS_DIB = 0 then Inr (- 1, s1)
      else
        let (data, s2) = inb hw KBDATAP s1 in
        andThen (kbd_decode data (kbd_shift s2)) (\<lambda>(c, shift, reboot).
        let s3 = s2\<lparr>kbd_shift := shift\<rparr> in
        andThen (if reboot then andThen (cprintf hw (map ascii ''Rebooting!'' @ [10, 0]) 0 [] s3) (\<lambda>(s4, n). Inr (outb hw 0x92 0x3 s4)) else Inr s3) (\<lambda>s5.
          Inr (c, s5))))"

definition kbd_intr :: "'w hardware \<Rightarrow> 'w console \<Rightarrow> 'w console outcome" where
  "kbd_intr hw s = run_loop (cons_intr (kbd_proc_data hw) s)"

definition cons_getc :: "'w hardware \<Rightarrow> 'w console \<Rightarrow> (int \<times> 'w console) outcome" where
  "cons_getc hw s =
     andThen (serial_intr hw s) (\<lambda>s1.
     andThen (kbd_intr hw s1) (\<lambda>s2.
     andThen (cons_take (cons s2)) (\<lambda>(c, q). Inr (c, s2\<lparr>cons := q\<rparr>))))"

section \<open>Initialisation\<close>

definition cga_init :: "'w hardware \<Rightarrow> 'w console \<Rightarrow> 'w console" where
  "cga_init hw s =
     (let s1 = (if cga_readback hw 0xA55A \<noteq> 0xA55A then s\<lparr>crt_buf := mono_text hw, addr_6845 := MONO_BASE\<rparr> else s\<lparr>addr_6845 := CGA_BASE\<rparr>);
          a = addr_6845 s1;
          (hi, s2) = inb hw (a + 1) (outb hw a 14 s1);
          (lo, s3) = inb hw (a + 1) (outb hw a 15 s2)
      in s3\<lparr>crt_pos := push_bit 8 (ucast hi) OR ucast lo\<rparr>)"

definition serial_init :: "'w hardware \<Rightarrow> 'w console \<Rightarrow> 'w console" where
  "serial_init hw s =
     (let s1 = fold (\<lambda>(p, v). outb hw (COM1 + p) v) [(2, 0), (3, 0x80), (0, of_nat (115200 div 9600)), (1, 0), (3, 0x03 AND NOT 0x80), (4, 0), (1, 0x01)] s;
          (lsr, s2) = inb hw (COM1 + COM_LSR) s1;
          s3 = s2\<lparr>serial_exists := (lsr \<noteq> 0xFF)\<rparr>;
          s4 = snd (inb hw (COM1 + COM_RX) (snd (inb hw (COM1 + 2) s3)))
      in if serial_exists s4 then pic_enable hw IRQ_COM1 s4 else s4)"

definition kbd_init :: "'w hardware \<Rightarrow> 'w console \<Rightarrow> 'w console outcome" where
  "kbd_init hw s = andThen (kbd_intr hw s) (\<lambda>s1. Inr (pic_enable hw IRQ_KBD s1))"

definition cons_init :: "'w hardware \<Rightarrow> 'w console \<Rightarrow> 'w console outcome" where
  "cons_init hw s =
     andThen (kbd_init hw (serial_init hw (cga_init hw s))) (\<lambda>s1.
     if \<not> serial_exists s1 then andThen (cprintf hw (map ascii ''serial port does not exist!!'' @ [10, 0]) 0 [] s1) (\<lambda>(s2, n). Inr s2)
     else Inr s1)"

end
