(* ===== verification/Console_Queue.thy ===== *)
theory Console_Queue
  imports Console_Input
begin

text \<open>
  The console input as a queue: the ring buffer behaves as a queue of at most 511 characters that is emptied by one character more, and
  \<open>cons_getc\<close> delivers what the devices produce in the order of its arrival.
\<close>

section \<open>The interface of the queue\<close>

fun put_all :: "(int \<Rightarrow> 'q \<Rightarrow> 'q outcome) \<Rightarrow> int list \<Rightarrow> 'q \<Rightarrow> 'q outcome" where
  "put_all put [] q = Inr q"
| "put_all put (c # cs) q = andThen (put c q) (put_all put cs)"

text \<open>
  A buffer that holds up to \<open>cap\<close> characters in the order in which they came, and forgets all of them when one more comes. Taking from an
  empty buffer gives 0.
\<close>

locale input_queue =
  fixes put :: "int \<Rightarrow> 'q \<Rightarrow> 'q outcome" and take1 :: "'q \<Rightarrow> (int \<times> 'q) outcome" and valid :: "'q \<Rightarrow> bool" and unread :: "'q \<Rightarrow> int list" and cap :: nat
  assumes put_law: "valid q \<Longrightarrow> 0 \<le> c \<Longrightarrow> c < 256 \<Longrightarrow>
      \<exists>q'. put c q = Inr q' \<and> valid q' \<and> unread q' = (if length (unread q) = cap then [] else unread q @ [c])"
    and take_law: "valid q \<Longrightarrow>
      \<exists>q'. take1 q = Inr (case unread q of [] \<Rightarrow> 0 | c # cs \<Rightarrow> c, q') \<and> valid q' \<and> unread q' = tl (unread q)"
    and bounded: "valid q \<Longrightarrow> length (unread q) \<le> cap"
begin

text \<open>What is left of all characters that came: those behind the last multiple of \<open>cap + 1\<close>.\<close>

lemma put_all_keeps:
  assumes "valid q" "\<forall>c \<in> set cs. 0 \<le> c \<and> c < 256"
  shows "\<exists>q'. put_all put cs q = Inr q' \<and> valid q' \<and>
    unread q' = drop ((length (unread q) + length cs) div Suc cap * Suc cap) (unread q @ cs)"
  using assms
proof (induction cs arbitrary: q)
  case Nil
  then have "length (unread q) div Suc cap = 0" using bounded by (simp add: div_eq_0_iff less_Suc_eq_le)
  then show ?case using Nil by simp
next
  case (Cons c cs)
  obtain q1 where q1: "put c q = Inr q1" "valid q1" "unread q1 = (if length (unread q) = cap then [] else unread q @ [c])"
    using put_law [OF Cons.prems(1), of c] Cons.prems(2) by auto
  obtain q' where q': "put_all put cs q1 = Inr q'" "valid q'" "unread q' = drop ((length (unread q1) + length cs) div Suc cap * Suc cap) (unread q1 @ cs)"
    using Cons.IH [OF q1(2)] Cons.prems(2) by auto
  have "drop ((length (unread q1) + length cs) div Suc cap * Suc cap) (unread q1 @ cs) =
      drop ((length (unread q) + length (c # cs)) div Suc cap * Suc cap) (unread q @ c # cs)"
  proof (cases "length (unread q) = cap")
    case True
    then have "length (unread q) + length (c # cs) = Suc cap + length cs" by simp
    moreover have "(Suc cap + length cs) div Suc cap = Suc (length cs div Suc cap)" using div_add_self1 [of "Suc cap" "length cs"] by simp
    ultimately have "(length (unread q) + length (c # cs)) div Suc cap * Suc cap = Suc cap + length cs div Suc cap * Suc cap" by (simp only: mult_Suc)
    then show ?thesis using q1(3) True by simp
  qed (use q1(3) in simp)
  then show ?case using q1(1) q' by simp
qed

lemma put_all_fifo:
  assumes "valid q" "\<forall>c \<in> set cs. 0 \<le> c \<and> c < 256" "length (unread q) + length cs \<le> cap"
  shows "\<exists>q'. put_all put cs q = Inr q' \<and> valid q' \<and> unread q' = unread q @ cs"
proof -
  have "(length (unread q) + length cs) div Suc cap = 0" using assms(3) by (simp add: div_eq_0_iff)
  then show ?thesis using put_all_keeps [OF assms(1,2)] by simp
qed

end

section \<open>The ring buffer of console.c\<close>

definition ring_ok :: "cons_buffer \<Rightarrow> bool" where
  "ring_ok q \<longleftrightarrow> length (cons_buf q) = 512 \<and> unat (rpos q) < 512 \<and> unat (wpos q) < 512"

definition ring_unread :: "cons_buffer \<Rightarrow> int list" where
  "ring_unread q = map (\<lambda>i. uint (cons_buf q ! ((unat (rpos q) + i) mod 512))) [0..<(unat (wpos q) + 512 - unat (rpos q)) mod 512]"

lemma unat_next:
  fixes p :: uint32
  assumes "unat p < 512"
  shows "unat (if p + 1 = of_nat CONSBUFSIZE then 0 else p + 1) = (unat p + 1) mod 512"
proof -
  have u: "unat (p + 1) = unat p + 1" using assms by (simp add: unat_word_ariths)
  have "p + 1 = of_nat CONSBUFSIZE \<longleftrightarrow> unat (p + 1) = 512" by (auto simp: CONSBUFSIZE_def word_unat_eq_iff)
  then show ?thesis using u assms by auto
qed

text \<open>Positions in the ring: the number of unread characters, and where they lie.\<close>

lemma ring_positions:
  fixes r w :: nat
  assumes "r < 512" "w < 512"
  shows "(r + (w + 512 - r) mod 512) mod 512 = w"
    "((w + 1) mod 512 + 512 - r) mod 512 = ((w + 512 - r) mod 512 + 1) mod 512"
    "i < (w + 512 - r) mod 512 \<Longrightarrow> (r + i) mod 512 \<noteq> w"
    "r \<noteq> w \<Longrightarrow> (w + 512 - (r + 1) mod 512) mod 512 + 1 = (w + 512 - r) mod 512"
proof -
  have m: "(w + 512 - r) mod 512 = (if r \<le> w then w - r else w + 512 - r)" using assms by (simp add: mod_if)
  show "(r + (w + 512 - r) mod 512) mod 512 = w" unfolding m using assms by (simp add: mod_if)
  show "((w + 1) mod 512 + 512 - r) mod 512 = ((w + 512 - r) mod 512 + 1) mod 512"
    unfolding m using assms by (cases "w = 511") (simp add: mod_if, arith)+
  show "(r + i) mod 512 \<noteq> w" if "i < (w + 512 - r) mod 512"
  proof (cases "r + i < 512")
    case True
    then show ?thesis using that assms unfolding m by (cases "r \<le> w") simp_all
  next
    case False
    then have "(r + i) mod 512 = r + i - 512" using that assms unfolding m by (cases "r \<le> w") (simp_all add: le_mod_geq)
    then show ?thesis using False that assms unfolding m by (cases "r \<le> w") simp_all
  qed
  show "(w + 512 - (r + 1) mod 512) mod 512 + 1 = (w + 512 - r) mod 512" if "r \<noteq> w"
  proof (cases "r = 511")
    case True
    then show ?thesis using that assms unfolding m by simp
  next
    case False
    then have r: "(r + 1) mod 512 = r + 1" using assms by simp
    show ?thesis
    proof (cases "r < w")
      case True
      then have "w + 512 - (r + 1) = (w - (r + 1)) + 512" by simp
      moreover have "(w - (r + 1) + 512) mod 512 = w - (r + 1)" using assms(2) by simp
      ultimately have "(w + 512 - (r + 1)) mod 512 = w - (r + 1)" by metis
      moreover have "(if r \<le> w then w - r else w + 512 - r) = w - r" using True by simp
      ultimately show ?thesis using True unfolding m r by linarith
    next
      case False
      then have "w < r" using that by simp
      then have "(w + 512 - (r + 1)) mod 512 = w + 512 - (r + 1)" by (intro mod_less) linarith
      moreover have "(if r \<le> w then w - r else w + 512 - r) = w + 512 - r" using \<open>w < r\<close> by simp
      ultimately show ?thesis using \<open>w < r\<close> assms unfolding m r by linarith
    qed
  qed
qed

lemma ring_put:
  assumes "ring_ok q" "0 \<le> c" "c < 256"
  shows "\<exists>q'. cons_put c q = Inr q' \<and> ring_ok q' \<and> ring_unread q' = (if length (ring_unread q) = 511 then [] else ring_unread q @ [c])"
proof -
  let ?r = "unat (rpos q)" and ?w = "unat (wpos q)" and ?n = "(unat (wpos q) + 512 - unat (rpos q)) mod 512"
  let ?q = "q\<lparr>cons_buf := (cons_buf q)[?w := word_of_int c], wpos := if wpos q + 1 = of_nat CONSBUFSIZE then 0 else wpos q + 1\<rparr>"
  have b: "length (cons_buf q) = 512" "?r < 512" "?w < 512" using assms(1) by (simp_all add: ring_ok_def)
  have e: "cons_put c q = Inr ?q" using b by (simp add: cons_put_def array_set_unat Let_def)
  have c: "uint (word_of_int c :: uint8) = c" using assms(2,3) by (simp add: unsigned_of_int take_bit_int_eq_self)
  note p = ring_positions [OF b(2,3)]
  have keep: "uint ((cons_buf q)[?w := word_of_int c] ! ((?r + i) mod 512)) = uint (cons_buf q ! ((?r + i) mod 512))" if "i < ?n" for i
    using p(3) [OF that] by simp
  have "ring_unread ?q = (if ?n = 511 then [] else ring_unread q @ [c])"
  proof (cases "?n = 511")
    case True
    then have "((?w + 1) mod 512 + 512 - ?r) mod 512 = 0" unfolding p(2) by simp
    then show ?thesis using True unat_next [OF b(3)] by (simp add: ring_unread_def)
  next
    case False
    have "?n < 512" by simp
    then have "?n + 1 < 512" using False by linarith
    then have "(?n + 1) mod 512 = Suc ?n" by (simp only: mod_less Suc_eq_plus1)
    then have "((?w + 1) mod 512 + 512 - ?r) mod 512 = Suc ?n" unfolding p(2) .
    then have "ring_unread ?q = map (\<lambda>i. uint ((cons_buf q)[?w := word_of_int c] ! ((?r + i) mod 512))) [0..<Suc ?n]"
      using unat_next [OF b(3)] by (simp add: ring_unread_def)
    also have "\<dots> = map (\<lambda>i. uint (cons_buf q ! ((?r + i) mod 512))) [0..<?n] @ [c]" using keep p(1) b(1,3) c by simp
    finally show ?thesis using False by (simp add: ring_unread_def)
  qed
  moreover have "ring_ok ?q" using b unat_next [OF b(3)] by (simp add: ring_ok_def)
  moreover have "length (ring_unread q) = ?n" by (simp add: ring_unread_def)
  ultimately show ?thesis using e by auto
qed

lemma ring_take:
  assumes "ring_ok q"
  shows "\<exists>q'. cons_take q = Inr (case ring_unread q of [] \<Rightarrow> 0 | c # cs \<Rightarrow> c, q') \<and> ring_ok q' \<and> ring_unread q' = tl (ring_unread q)"
proof -
  let ?r = "unat (rpos q)" and ?w = "unat (wpos q)"
  have b: "length (cons_buf q) = 512" "?r < 512" "?w < 512" using assms by (simp_all add: ring_ok_def)
  show ?thesis
  proof (cases "rpos q = wpos q")
    case True
    then have "ring_unread q = []" by (simp add: ring_unread_def)
    then show ?thesis using True assms by (simp add: cons_take_def)
  next
    case False
    then have ne: "?r \<noteq> ?w" by (simp add: word_unat_eq_iff)
    define n where "n = (?w + 512 - (?r + 1) mod 512) mod 512"
    let ?q = "q\<lparr>rpos := if rpos q + 1 = of_nat CONSBUFSIZE then 0 else rpos q + 1\<rparr>"
    let ?at = "\<lambda>i. uint (cons_buf q ! ((?r + i) mod 512))"
    have "ring_unread q = map ?at [0..<Suc n]" using ring_positions(4) [OF b(2,3) ne] by (simp add: ring_unread_def n_def)
    then have u: "ring_unread q = uint (cons_buf q ! ?r) # map (\<lambda>i. ?at (Suc i)) [0..<n]"
      using b(2) by (simp add: map_upt_Suc del: upt_Suc)
    have "ring_unread ?q = map (\<lambda>i. uint (cons_buf q ! (((?r + 1) mod 512 + i) mod 512))) [0..<n]"
      using unat_next [OF b(2)] by (simp add: ring_unread_def n_def)
    also have "\<dots> = map (\<lambda>i. ?at (Suc i)) [0..<n]" by (simp add: mod_simps)
    finally have "ring_unread ?q = tl (ring_unread q)" using u by simp
    moreover have "ring_ok ?q" using b unat_next [OF b(2)] by (simp add: ring_ok_def)
    moreover have "cons_take q = Inr (uint (cons_buf q ! ?r), ?q)" using False b by (simp add: cons_take_def array_get_unat Let_def)
    ultimately show ?thesis using u by simp
  qed
qed

interpretation ring: input_queue cons_put cons_take ring_ok ring_unread 511
proof
  show "length (ring_unread q) \<le> 511" for q
  proof -
    have "(unat (wpos q) + 512 - unat (rpos q)) mod 512 < 512" by simp
    then show ?thesis unfolding ring_unread_def length_map length_upt by linarith
  qed
qed (use ring_put ring_take in auto)

section \<open>Device routines\<close>

text \<open>The characters that a device routine delivers until it has no more data.\<close>

inductive feeds :: "('s \<Rightarrow> (int \<times> 's) outcome) \<Rightarrow> 's \<Rightarrow> int list \<Rightarrow> 's \<Rightarrow> bool" for proc where
  dry: "proc s = Inr (- 1, s') \<Longrightarrow> feeds proc s [] s'"
| data: "proc s = Inr (c, s1) \<Longrightarrow> c \<noteq> - 1 \<Longrightarrow> feeds proc s1 cs s2 \<Longrightarrow> feeds proc s (c # cs) s2"

text \<open>A device routine does not touch the ring buffer and delivers bytes.\<close>

locale input_device =
  fixes proc :: "'w proc"
  assumes frame: "proc (s\<lparr>cons := q\<rparr>) = map_sum id (map_prod id (\<lambda>t. t\<lparr>cons := q\<rparr>)) (proc s)"
    and byte: "proc s = Inr (c, s') \<Longrightarrow> c = - 1 \<or> 0 \<le> c \<and> c < 256"
begin

lemma frame_Inr: "proc s = Inr (c, t) \<Longrightarrow> proc (s\<lparr>cons := q\<rparr>) = Inr (c, t\<lparr>cons := q\<rparr>)"
  by (simp add: frame)

lemma feeds_frame: "feeds proc s cs s' \<Longrightarrow> feeds proc (s\<lparr>cons := q\<rparr>) cs (s'\<lparr>cons := q\<rparr>)"
  by (induction rule: feeds.induct) (auto intro: feeds.intros frame_Inr)

lemma keeps_ring: "proc s = Inr (c, t) \<Longrightarrow> cons t = cons s"
  using frame_Inr [of s c t "cons s"] by simp (metis console.select_convs(5) console.surjective console.update_convs(5))

lemma feeds_keeps_ring: "feeds proc s cs s' \<Longrightarrow> cons s' = cons s"
  by (induction rule: feeds.induct) (auto dest: keeps_ring)

lemma feeds_bytes: "feeds proc s cs s' \<Longrightarrow> \<forall>c \<in> set cs. 0 \<le> c \<and> c < 256"
  by (induction rule: feeds.induct) (auto dest: byte)

lemma cons_intr_feeds:
  "feeds proc s cs s' \<Longrightarrow> put_all cons_put (filter (\<lambda>c. c \<noteq> 0) cs) q = Inr q' \<Longrightarrow> cons_intr proc (s\<lparr>cons := q\<rparr>) = Some (Inr (s'\<lparr>cons := q'\<rparr>))"
proof (induction arbitrary: q rule: feeds.induct)
  case (dry s s')
  then show ?case by (subst cons_intr.simps) (simp add: frame_Inr)
next
  case (data s c s1 cs s2)
  show ?case
  proof (cases "c = 0")
    case True
    then show ?thesis using data by (subst cons_intr.simps) (simp add: frame_Inr)
  next
    case False
    then obtain q1 where q1: "cons_put c q = Inr q1" "put_all cons_put (filter (\<lambda>c. c \<noteq> 0) cs) q1 = Inr q'"
      using data.prems by (auto simp: andThen_eq_Inr)
    then show ?thesis using data.hyps data.IH [OF q1(2)] False by (subst cons_intr.simps) (simp add: frame_Inr)
  qed
qed

end

section \<open>The two devices\<close>

named_theorems ring_frame \<open>the ring buffer does not influence the other operations\<close>

abbreviation with_ring :: "cons_buffer \<Rightarrow> 'w console \<Rightarrow> 'w console" where
  "with_ring q \<equiv> (\<lambda>s. s\<lparr>cons := q\<rparr>)"

lemma outb_ring [ring_frame]: "outb hw p v (s\<lparr>cons := q\<rparr>) = (outb hw p v s)\<lparr>cons := q\<rparr>"
  by (simp add: outb_def)

lemma inb_ring [ring_frame]: "inb hw p (s\<lparr>cons := q\<rparr>) = map_prod id (with_ring q) (inb hw p s)"
  by (simp add: inb_def split_beta)

lemma delay_ring [ring_frame]: "delay hw (s\<lparr>cons := q\<rparr>) = (delay hw s)\<lparr>cons := q\<rparr>"
  by (simp add: delay_def inb_ring)

lemma wait_ring [ring_frame]: "wait_ready hw p bits n (s\<lparr>cons := q\<rparr>) = (wait_ready hw p bits n s)\<lparr>cons := q\<rparr>"
  by (induction n arbitrary: s) (auto simp: wait_ready.simps ring_frame split_beta Let_def)

lemma lpt_ring [ring_frame]: "lpt_putc hw c (s\<lparr>cons := q\<rparr>) = (lpt_putc hw c s)\<lparr>cons := q\<rparr>"
  by (simp add: lpt_putc_def lpt_putc_sub_def ring_frame)

lemma serial_ring [ring_frame]: "serial_putc hw c (s\<lparr>cons := q\<rparr>) = (serial_putc hw c s)\<lparr>cons := q\<rparr>"
  by (simp add: serial_putc_def serial_putc_sub_def ring_frame)

lemma cga_ring [ring_frame]: "cga_putc hw c (s\<lparr>cons := q\<rparr>) = map_sum id (with_ring q) (cga_putc hw c s)"
  unfolding cga_putc_def by (auto simp: andThen_def outb_def Let_def split: sum.splits)

lemma cons_putc_ring: "cons_putc hw c (s\<lparr>cons := q\<rparr>) = map_sum id (with_ring q) (cons_putc hw c s)"
  by (cases "cga_putc hw c (lpt_putc hw c s)") (simp_all add: cons_putc_def ring_frame)

lemma cprintf_ring: "cprintf hw m fmt ap (s\<lparr>cons := q\<rparr>) = map_sum id (map_prod (with_ring q) id) (cprintf hw m fmt ap s)"
proof -
  let ?R = "\<lambda>a b. b = map_prod (with_ring q) id a"
  have "rel_sum (=) ?R (cputch hw c a) (cputch hw c b)" if "?R a b" for c a b
    using that by (cases "cons_putc hw c (fst a)") (auto simp: cputch_def cons_putc_ring split_beta)
  then have "putch_rel ?R (cputch hw) (cputch hw)" by (simp add: putch_rel_def)
  from vprintfmt_rel [OF this, where s = "(s, 0)" and t = "(s\<lparr>cons := q\<rparr>, 0)"]
  have "rel_sum (=) ?R (cprintf hw m fmt ap s) (cprintf hw m fmt ap (s\<lparr>cons := q\<rparr>))" by (simp add: cprintf_def vcprintf_def)
  then show ?thesis by (cases "cprintf hw m fmt ap s"; cases "cprintf hw m fmt ap (s\<lparr>cons := q\<rparr>)") auto
qed

lemma byte_range: "0 \<le> uint (b :: uint8)" "uint (b :: uint8) < 256"
  using unsigned_less [of b] by simp_all

lemma shift_ring [ring_frame]: "s\<lparr>cons := q, kbd_shift := sh\<rparr> = s\<lparr>kbd_shift := sh, cons := q\<rparr>"
  by simp

interpretation serial: input_device "serial_proc_data hw" for hw :: "'w hardware"
proof
  fix s :: "'w console" and q
  show "serial_proc_data hw (s\<lparr>cons := q\<rparr>) = map_sum id (map_prod id (with_ring q)) (serial_proc_data hw s)"
    by (simp add: serial_proc_data_def ring_frame split_beta Let_def)
  show "c = - 1 \<or> 0 \<le> c \<and> c < 256" if "serial_proc_data hw s = Inr (c, s')" for c s'
    using that byte_range by (auto simp: serial_proc_data_def split_beta Let_def split: if_splits)
qed

lemma kbd_decode_byte:
  assumes "kbd_decode data shift = Inr (c, shift', reboot)"
  shows "0 \<le> c \<and> c < 256"
proof -
  have up: "0 \<le> uint b - 32" "uint b - 32 < 256" if "97 \<le> b" for b :: uint8 using that byte_range [of b] by (simp_all add: word_le_def)
  have down: "0 \<le> uint b + 32" "uint b + 32 < 256" if "b \<le> 90" for b :: uint8 using that byte_range [of b] by (simp_all add: word_le_def)
  show ?thesis using assms byte_range up down
    by (auto simp: kbd_decode_def kbd_press_def Let_def andThen_eq_Inr ascii_def split: if_splits prod.splits)
qed

interpretation kbd: input_device "kbd_proc_data hw" for hw :: "'w hardware"
proof
  fix s :: "'w console" and q
  show "kbd_proc_data hw (s\<lparr>cons := q\<rparr>) = map_sum id (map_prod id (with_ring q)) (kbd_proc_data hw s)"
  proof -
    obtain st s1 where i1: "inb hw KBSTATP s = (st, s1)" by fastforce
    obtain d s2 where i2: "inb hw KBDATAP s1 = (d, s2)" by fastforce
    show ?thesis
    proof (cases "kbd_decode d (kbd_shift s2)")
      case (Inr r)
      obtain c sh rb where r: "r = (c, sh, rb)" by (cases r)
      let ?m = "map ascii ''Rebooting!'' @ [10, 0]"
      have "cprintf hw ?m 0 [] (s2\<lparr>kbd_shift := sh, cons := q\<rparr>) = map_sum id (map_prod (with_ring q) id) (cprintf hw ?m 0 [] (s2\<lparr>kbd_shift := sh\<rparr>))"
        by (rule cprintf_ring)
      then show ?thesis using i1 i2 Inr r
        by (cases "cprintf hw ?m 0 [] (s2\<lparr>kbd_shift := sh\<rparr>)") (simp_all add: kbd_proc_data_def ring_frame Let_def split_beta)
    qed (use i1 i2 in \<open>simp add: kbd_proc_data_def ring_frame Let_def\<close>)
  qed
  show "c = - 1 \<or> 0 \<le> c \<and> c < 256" if "kbd_proc_data hw s = Inr (c, s')" for c s'
    using that by (auto simp: kbd_proc_data_def Let_def andThen_eq_Inr split_beta split: if_splits dest: kbd_decode_byte)
qed

section \<open>Properties\<close>

lemma put_all_append: "put_all put (xs @ ys) q = andThen (put_all put xs q) (put_all put ys)"
proof (induction xs arbitrary: q)
  case (Cons x xs)
  then show ?case by (cases "put x q") simp_all
qed simp

lemma cons_intr_from:
  assumes "input_device proc" "feeds proc s cs s'" "put_all cons_put (filter (\<lambda>c. c \<noteq> 0) cs) (cons s) = Inr q"
  shows "cons_intr proc s = Some (Inr (s'\<lparr>cons := q\<rparr>))"
  using input_device.cons_intr_feeds [OF assms] by simp

text \<open>The serial port is read only if it exists.\<close>

definition serial_feeds :: "'w hardware \<Rightarrow> 'w console \<Rightarrow> int list \<Rightarrow> 'w console \<Rightarrow> bool" where
  "serial_feeds hw s cs s' \<longleftrightarrow> (if serial_exists s then feeds (serial_proc_data hw) s cs s' else cs = [] \<and> s' = s)"

lemma serial_feeds_facts:
  assumes "serial_feeds hw s cs s'"
  shows "\<forall>c \<in> set cs. 0 \<le> c \<and> c < 256" "cons s' = cons s"
  using assms serial.feeds_bytes [of hw s cs s'] serial.feeds_keeps_ring [of hw s cs s'] by (auto simp: serial_feeds_def split: if_splits)

lemma serial_intr_feeds:
  assumes "serial_feeds hw s cs s'" "put_all cons_put (filter (\<lambda>c. c \<noteq> 0) cs) (cons s) = Inr q"
  shows "serial_intr hw s = Inr (s'\<lparr>cons := q\<rparr>)"
  using assms cons_intr_from [OF serial.input_device_axioms, of hw s cs s' q] by (auto simp: serial_feeds_def serial_intr_def split: if_splits)

text \<open>
  C33. Console input is a queue. When the serial port delivers the characters \<open>cs1\<close> and then the keyboard \<open>cs2\<close>, \<open>cons_getc\<close> appends those that
  are not 0 to the unread ones and returns and removes the oldest, or returns 0 if there is none; the ring buffer stays well-formed.
  All characters are kept as long as at most 511 are unread; with the 512th, the buffer counts as empty and all are lost.
\<close>

theorem cons_getc_fifo:
  assumes "ring_ok (cons s)" "serial_feeds hw s cs1 s1" "feeds (kbd_proc_data hw) s1 cs2 s2"
  shows "let came = ring_unread (cons s) @ filter (\<lambda>c. c \<noteq> 0) (cs1 @ cs2);
      unread = (if length came \<le> 511 then came else drop (length came div 512 * 512) came)
    in \<exists>q. cons_getc hw s = Inr (case unread of [] \<Rightarrow> 0 | c # _ \<Rightarrow> c, s2\<lparr>cons := q\<rparr>) \<and> ring_ok q \<and> ring_unread q = tl unread"
proof -
  let ?f = "filter (\<lambda>c. c \<noteq> 0)"
  let ?came = "ring_unread (cons s) @ ?f (cs1 @ cs2)"
  note facts = serial_feeds_facts [OF assms(2)]
  have b1: "\<forall>c \<in> set (?f cs1). 0 \<le> c \<and> c < 256" and b2: "\<forall>c \<in> set (?f cs2). 0 \<le> c \<and> c < 256"
    using facts(1) kbd.feeds_bytes [OF assms(3)] by auto
  obtain q1 where q1: "put_all cons_put (?f cs1) (cons s) = Inr q1" "ring_ok q1" using ring.put_all_keeps [OF assms(1) b1] by blast
  obtain q2 where q2: "put_all cons_put (?f cs2) q1 = Inr q2" "ring_ok q2" using ring.put_all_keeps [OF q1(2) b2] by blast
  have b: "\<forall>c \<in> set (?f (cs1 @ cs2)). 0 \<le> c \<and> c < 256" using b1 b2 by auto
  have "put_all cons_put (?f (cs1 @ cs2)) (cons s) = Inr q2" using q1(1) q2(1) by (simp add: put_all_append)
  then have u: "ring_unread q2 = drop (length ?came div 512 * 512) ?came" using ring.put_all_keeps [OF assms(1) b] by simp
  have "feeds (kbd_proc_data hw) (s1\<lparr>cons := q1\<rparr>) cs2 (s2\<lparr>cons := q1\<rparr>)" by (rule kbd.feeds_frame [OF assms(3)])
  from cons_intr_from [OF kbd.input_device_axioms this, of q2] q2(1)
  have "kbd_intr hw (s1\<lparr>cons := q1\<rparr>) = Inr (s2\<lparr>cons := q2\<rparr>)" by (simp add: kbd_intr_def)
  moreover obtain q where "cons_take q2 = Inr (case ring_unread q2 of [] \<Rightarrow> 0 | c # _ \<Rightarrow> c, q)" "ring_ok q" "ring_unread q = tl (ring_unread q2)"
    using ring.take_law [OF q2(2)] by blast
  moreover have "(if length ?came \<le> 511 then ?came else drop (length ?came div 512 * 512) ?came) = ring_unread q2" using u by simp
  ultimately show ?thesis using serial_intr_feeds [OF assms(2) q1(1)] unfolding Let_def by (simp only: cons_getc_def andThen_simps) auto
qed

text \<open>Devices with the given data: a serial port and a keyboard that report data as long as there is some.\<close>

definition typed_hardware :: "(uint8 list \<times> uint8 list) hardware" where
  "typed_hardware =
     \<lparr>inb_port = (\<lambda>p (ser, keys).
        if p = COM1 + COM_LSR then (if ser = [] then 0x20 else 0x21, (ser, keys))
        else if p = COM1 + COM_RX then (case ser of [] \<Rightarrow> 0 | b # _ \<Rightarrow> b, (tl ser, keys))
        else if p = KBSTATP then (if keys = [] then 0 else 1, (ser, keys))
        else if p = KBDATAP then (case keys of [] \<Rightarrow> 0 | b # _ \<Rightarrow> b, (ser, tl keys))
        else (0xFF, (ser, keys))),
      outb_port = (\<lambda>p v w. w), cga_readback = (\<lambda>x. x), mono_text = []\<rparr>"

theorem cons_getc_fifo_witness:
  "\<exists>q. cons_getc typed_hardware (blank_console ([104], [0x17, 0x97])) = Inr (104, (blank_console ([], []))\<lparr>cons := q\<rparr>) \<and> ring_unread q = [105]"
proof -
  let ?s = "blank_console :: uint8 list \<times> uint8 list \<Rightarrow> _"
  have "feeds (serial_proc_data typed_hardware) (?s ([], [0x17, 0x97])) [] (?s ([], [0x17, 0x97]))"
    by (rule feeds.dry) code_simp
  moreover have "serial_proc_data typed_hardware (?s ([104], [0x17, 0x97])) = Inr (104, ?s ([], [0x17, 0x97]))" by code_simp
  ultimately have f1: "feeds (serial_proc_data typed_hardware) (?s ([104], [0x17, 0x97])) [104] (?s ([], [0x17, 0x97]))"
    by (intro feeds.data) auto
  have "feeds (kbd_proc_data typed_hardware) (?s ([], [])) [] (?s ([], []))" by (rule feeds.dry) code_simp
  moreover have "kbd_proc_data typed_hardware (?s ([], [0x97])) = Inr (0, ?s ([], []))" by code_simp
  moreover have "kbd_proc_data typed_hardware (?s ([], [0x17, 0x97])) = Inr (105, ?s ([], [0x97]))" by code_simp
  ultimately have f2: "feeds (kbd_proc_data typed_hardware) (?s ([], [0x17, 0x97])) [105, 0] (?s ([], []))" by (auto intro!: feeds.data)
  have "ring_ok (cons (?s ([104], [0x17, 0x97])))" "ring_unread (cons (?s ([104], [0x17, 0x97]))) = []" "serial_exists (?s ([104], [0x17, 0x97]))"
    by (simp_all add: blank_console_def ring_ok_def ring_unread_def)
  then show ?thesis using cons_getc_fifo [of "?s ([104], [0x17, 0x97])" typed_hardware "[104]", OF _ _ f2] f1
    by (auto simp: serial_feeds_def Let_def)
qed

end
