(* ===== verification/Monitor.thy ===== *)
theory Monitor
  imports Console_Queue
begin

text \<open>
  The kernel monitor: \<open>getchar\<close> of \<open>lab2/kern/libs/stdio.c\<close>, \<open>readline\<close> of \<open>readline.c\<close>, and \<open>parse\<close>, \<open>runcmd\<close> and \<open>kmonitor\<close> of
  \<open>lab2/kern/debug/kmonitor.c\<close>, with the model only. The commands \<open>kerninfo\<close> and \<open>backtrace\<close> are arguments of \<open>runcmd\<close>, as the code calls them
  through pointers.
\<close>

section \<open>Output of a format with strings\<close>

text \<open>Each call of \<open>cprintf\<close> has a memory with the format, followed by the strings among the arguments.\<close>

datatype arg = Word uint32 | Text byte_mem

fun arg_memory :: "nat \<Rightarrow> arg list \<Rightarrow> byte_mem \<times> va_list" where
  "arg_memory n [] = ([], [])"
| "arg_memory n (Word w # as) = (let (m, ap) = arg_memory n as in (m, w # ap))"
| "arg_memory n (Text xs # as) = (let (m, ap) = arg_memory (n + length xs + 1) as in (xs @ [0] @ m, of_nat n # ap))"

definition cprint :: "'w hardware \<Rightarrow> string \<Rightarrow> arg list \<Rightarrow> 'w console \<Rightarrow> 'w console outcome" where
  "cprint hw fmt args s =
     (let (m, ap) = arg_memory (length fmt + 1) args in andThen (cprintf hw (c_string fmt @ m) 0 ap s) (\<lambda>(s', n). Inr s'))"

definition newline :: string where
  "newline = [CHR 0x0A]"

section \<open>getchar and readline\<close>

partial_function (option) getchar_loop :: "'w hardware \<Rightarrow> 'w console \<Rightarrow> (int \<times> 'w console) outcome option" where
  "getchar_loop hw s =
     (case cons_getc hw s of Inl e \<Rightarrow> Some (Inl e) | Inr r \<Rightarrow> if fst r = 0 then getchar_loop hw (snd r) else Some (Inr r))"

declare getchar_loop.simps [code]

definition getchar :: "'w hardware \<Rightarrow> 'w console \<Rightarrow> (int \<times> 'w console) outcome" where
  "getchar hw s = run_loop (getchar_loop hw s)"

definition BUFSIZE :: int where "BUFSIZE = 1024"

text \<open>The state of \<open>readline\<close>: its static buffer and the number of characters in it.\<close>

record 'w line_state =
  line_console :: "'w console"
  line_buf :: byte_mem
  line_len :: int

text \<open>One pass of the loop; the result \<open>Some ok\<close> ends it, with \<open>NULL\<close> if \<open>ok\<close> is false.\<close>

definition readline_step :: "'w hardware \<Rightarrow> 'w line_state \<Rightarrow> (bool option \<times> 'w line_state) outcome" where
  "readline_step hw l =
     andThen (getchar hw (line_console l)) (\<lambda>(c, s).
     let i = line_len l; l1 = l\<lparr>line_console := s\<rparr> in
     if c < 0 then Inr (Some False, l1)
     else if c \<ge> 32 \<and> i < BUFSIZE - 1 then
       andThen (cputchar hw c s) (\<lambda>s'. andThen (store (line_buf l) i (word_of_int c)) (\<lambda>b. Inr (None, \<lparr>line_console = s', line_buf = b, line_len = i + 1\<rparr>)))
     else if c = 8 \<and> i > 0 then
       andThen (cputchar hw c s) (\<lambda>s'. Inr (None, l\<lparr>line_console := s', line_len := i - 1\<rparr>))
     else if c = 10 \<or> c = 13 then
       andThen (cputchar hw c s) (\<lambda>s'. andThen (store (line_buf l) i 0) (\<lambda>b. Inr (Some True, l\<lparr>line_console := s', line_buf := b\<rparr>)))
     else Inr (None, l1))"

partial_function (option) readline_loop :: "'w hardware \<Rightarrow> 'w line_state \<Rightarrow> (bool \<times> 'w line_state) outcome option" where
  "readline_loop hw l =
     (case readline_step hw l of Inl e \<Rightarrow> Some (Inl e)
      | Inr r \<Rightarrow> (case fst r of None \<Rightarrow> readline_loop hw (snd r) | Some ok \<Rightarrow> Some (Inr (ok, snd r))))"

declare readline_loop.simps [code]

text \<open>The new contents of the buffer and the console; the pointer returned is the buffer or, if the first component is false, \<open>NULL\<close>.\<close>

definition readline :: "'w hardware \<Rightarrow> byte_mem option \<Rightarrow> byte_mem \<Rightarrow> 'w console \<Rightarrow> (bool \<times> byte_mem \<times> 'w console) outcome" where
  "readline hw prompt lbuf s =
     andThen (case prompt of None \<Rightarrow> Inr s | Some p \<Rightarrow> cprint hw ''%s'' [Text p] s) (\<lambda>s1.
     andThen (run_loop (readline_loop hw \<lparr>line_console = s1, line_buf = lbuf, line_len = 0\<rparr>)) (\<lambda>(ok, l).
       Inr (ok, line_buf l, line_console l)))"

section \<open>parse\<close>

definition MAXARGS :: nat where "MAXARGS = 16"

definition whitespace :: byte_mem where
  "whitespace = [32, 9, 10, 13, 0]"

text \<open>\<open>strchr(WHITESPACE, b) != NULL\<close>\<close>

definition is_white :: "uint8 \<Rightarrow> bool outcome" where
  "is_white b = andThen (strchr whitespace 0 b) (\<lambda>r. Inr (r \<noteq> None))"

function skip_white :: "byte_mem \<Rightarrow> int \<Rightarrow> (byte_mem \<times> int) outcome" where
  "skip_white m p =
     (case load m p of Inl e \<Rightarrow> Inl e
      | Inr b \<Rightarrow>
          if b \<noteq> 0 \<and> is_white b = Inr True then (case store m p 0 of Inl e \<Rightarrow> Inl e | Inr m' \<Rightarrow> skip_white m' (p + 1)) else Inr (m, p))"
  by pat_completeness auto
termination
  by (relation "measure (\<lambda>(m, p). nat (int (length m) - p))") (auto simp: load_Inr store_Inr)

function skip_arg :: "byte_mem \<Rightarrow> int \<Rightarrow> int outcome" where
  "skip_arg m p =
     (case load m p of Inl e \<Rightarrow> Inl e | Inr b \<Rightarrow> if b \<noteq> 0 \<and> is_white b = Inr False then skip_arg m (p + 1) else Inr p)"
  by pat_completeness auto
termination
  by (relation "measure (\<lambda>(m, p). nat (int (length m) - p))") (auto simp: load_Inr)

declare skip_white.simps [simp del] skip_arg.simps [simp del]

lemma is_white_eq: "is_white b = Inr (b \<in> {32, 9, 10, 13})"
proof -
  have "string_at whitespace 0 [32, 9, 10, 13]" by (simp add: whitespace_def load_def array_get_def)
  from strchr_string [OF this, of b] show ?thesis by (auto simp: is_white_def split: if_splits)
qed

lemma skip_white_result: "skip_white m p = Inr (m', q) \<Longrightarrow> p \<le> q \<and> length m' = length m \<and> (\<exists>b. load m' q = Inr b \<and> (b = 0 \<or> is_white b = Inr False))"
proof (induction m p rule: skip_white.induct)
  case (1 m p)
  then obtain b where b: "load m p = Inr b" by (subst (asm) (2) skip_white.simps) (auto split: sum.splits)
  show ?case
  proof (cases "b \<noteq> 0 \<and> is_white b = Inr True")
    case True
    then obtain m1 where m1: "store m p 0 = Inr m1" "skip_white m1 (p + 1) = Inr (m', q)"
      using "1.prems" b by (subst (asm) skip_white.simps) (auto split: sum.splits)
    then show ?thesis using "1.IH" [OF b True m1] by (auto simp: store_Inr)
  next
    case False
    then have "m' = m" "q = p" using "1.prems" b by (subst (asm) skip_white.simps, auto)+
    then show ?thesis using b False by (auto simp: is_white_eq)
  qed
qed

lemma skip_arg_forward: "skip_arg m p = Inr q \<Longrightarrow> p \<le> q"
proof (induction m p rule: skip_arg.induct)
  case (1 m p)
  then show ?case by (subst (asm) (2) skip_arg.simps) (force split: sum.splits if_splits)
qed

text \<open>The loop of \<open>parse\<close>. The array \<open>argv\<close> is given with its length.\<close>

function parse_loop :: "'w hardware \<Rightarrow> byte_mem \<Rightarrow> int \<Rightarrow> int option list \<Rightarrow> nat \<Rightarrow> 'w console \<Rightarrow> (nat \<times> byte_mem \<times> int option list \<times> 'w console) outcome" where
  "parse_loop hw m lbuf argv argc s =
     (case skip_white m lbuf of Inl e \<Rightarrow> Inl e
      | Inr mp \<Rightarrow>
          (case load (fst mp) (snd mp) of Inl e \<Rightarrow> Inl e
           | Inr b \<Rightarrow>
               if b = 0 then Inr (argc, fst mp, argv, s)
               else
                 (case (if argc = MAXARGS - 1 then cprint hw (''Too many arguments (max %d).'' @ newline) [Word (of_nat MAXARGS)] s else Inr s) of Inl e \<Rightarrow> Inl e
                  | Inr s' \<Rightarrow>
                      (case array_set argv (int argc) (Some (snd mp)) of Inl e \<Rightarrow> Inl e
                       | Inr argv' \<Rightarrow>
                           (case skip_arg (fst mp) (snd mp) of Inl e \<Rightarrow> Inl e | Inr q \<Rightarrow> parse_loop hw (fst mp) q argv' (argc + 1) s')))))"
  by pat_completeness auto
termination
proof (relation "measure (\<lambda>(hw, m, lbuf, argv, argc, s). nat (int (length m) - lbuf))", simp, goal_cases)
  case (1 hw m lbuf argv argc s mp b s' argv' q)
  obtain m1 p where mp: "mp = (m1, p)" by (cases mp)
  have w: "lbuf \<le> p" "length m1 = length m" "is_white b = Inr False" using skip_white_result [of m lbuf m1 p] 1(1,2,3) mp by auto
  have l: "load m1 p = Inr b" using 1(2) mp by simp
  then have "skip_arg m1 p = skip_arg m1 (p + 1)" using w(3) 1(3) by (subst skip_arg.simps) simp
  then have "p + 1 \<le> q" using 1(6) mp skip_arg_forward by simp
  then show ?case using w l mp by (auto simp: load_Inr)
qed

declare parse_loop.simps [simp del]

definition parse :: "'w hardware \<Rightarrow> byte_mem \<Rightarrow> int \<Rightarrow> int option list \<Rightarrow> 'w console \<Rightarrow> (nat \<times> byte_mem \<times> int option list \<times> 'w console) outcome" where
  "parse hw m lbuf argv s = parse_loop hw m lbuf argv 0 s"

section \<open>runcmd and kmonitor\<close>

record 'w command =
  name :: string
  desc :: string
  func :: "nat \<Rightarrow> int option list \<Rightarrow> byte_mem \<Rightarrow> 'w console \<Rightarrow> (int \<times> 'w console) outcome"

fun mon_help_loop :: "'w hardware \<Rightarrow> (string \<times> string) list \<Rightarrow> 'w console \<Rightarrow> 'w console outcome" where
  "mon_help_loop hw [] s = Inr s"
| "mon_help_loop hw ((n, d) # cs) s = andThen (cprint hw (''%s - %s'' @ newline) [Text (map ascii n), Text (map ascii d)] s) (mon_help_loop hw cs)"

definition help_entry :: "string \<times> string" where "help_entry = (''help'', ''Display this list of commands.'')"
definition kerninfo_entry :: "string \<times> string" where "kerninfo_entry = (''kerninfo'', ''Display information about the kernel.'')"
definition backtrace_entry :: "string \<times> string" where "backtrace_entry = (''backtrace'', ''Print backtrace of stack frame.'')"

definition mon_help :: "'w hardware \<Rightarrow> 'w console \<Rightarrow> (int \<times> 'w console) outcome" where
  "mon_help hw s = andThen (mon_help_loop hw [help_entry, kerninfo_entry, backtrace_entry] s) (\<lambda>s'. Inr (0, s'))"

text \<open>The other two commands, which print information about the kernel and the stack.\<close>

definition commands :: "'w hardware \<Rightarrow> ('w console \<Rightarrow> 'w console outcome) \<Rightarrow> ('w console \<Rightarrow> 'w console outcome) \<Rightarrow> 'w command list" where
  "commands hw print_kerninfo print_stackframe =
     [\<lparr>name = fst help_entry, desc = snd help_entry, func = (\<lambda>argc argv m. mon_help hw)\<rparr>,
      \<lparr>name = fst kerninfo_entry, desc = snd kerninfo_entry, func = (\<lambda>argc argv m s. andThen (print_kerninfo s) (\<lambda>s'. Inr (0, s')))\<rparr>,
      \<lparr>name = fst backtrace_entry, desc = snd backtrace_entry, func = (\<lambda>argc argv m s. andThen (print_stackframe s) (\<lambda>s'. Inr (0, s')))\<rparr>]"

text \<open>The name of a command lies in front of the line, in the memory of the comparison.\<close>

fun find_command :: "byte_mem \<Rightarrow> int \<Rightarrow> 'w command list \<Rightarrow> 'w command option outcome" where
  "find_command m arg0 [] = Inr None"
| "find_command m arg0 (c # cs) =
     andThen (strcmp (c_string (name c) @ m) 0 (int (length (name c)) + 1 + arg0)) (\<lambda>d. if d = 0 then Inr (Some c) else find_command m arg0 cs)"

definition unknown_format :: string where
  "unknown_format = ''Unknown command '' @ [CHR 0x27] @ ''%s'' @ [CHR 0x27] @ newline"

definition runcmd :: "'w hardware \<Rightarrow> 'w command list \<Rightarrow> byte_mem \<Rightarrow> int \<Rightarrow> 'w console \<Rightarrow> (int \<times> byte_mem \<times> 'w console) outcome" where
  "runcmd hw cmds m lbuf s =
     andThen (parse hw m lbuf (replicate MAXARGS None) s) (\<lambda>(argc, m1, argv, s1).
     if argc = 0 then Inr (0, m1, s1)
     else
       andThen (array_get argv 0) (\<lambda>a0. andThen (deref a0) (\<lambda>arg0.
       andThen (find_command m1 arg0 cmds) (\<lambda>found.
       case found of
         Some c \<Rightarrow> andThen (func c (argc - 1) (drop 1 argv) m1 s1) (\<lambda>(r, s2). Inr (r, m1, s2))
       | None \<Rightarrow>
           andThen (cprintf hw (c_string unknown_format @ m1) 0 [of_int (int (length unknown_format) + 1 + arg0)] s1) (\<lambda>(s2, n).
             Inr (0, m1, s2))))))"

text \<open>One pass of the loop of \<open>kmonitor\<close>; the result \<open>True\<close> ends it.\<close>

definition kmonitor_step :: "'w hardware \<Rightarrow> 'w command list \<Rightarrow> byte_mem \<times> 'w console \<Rightarrow> (bool \<times> byte_mem \<times> 'w console) outcome" where
  "kmonitor_step hw cmds = (\<lambda>(lbuf, s).
     andThen (readline hw (Some (map ascii ''K> '')) lbuf s) (\<lambda>(ok, buf1, s1).
     if ok then andThen (runcmd hw cmds buf1 0 s1) (\<lambda>(r, buf2, s2). Inr (r < 0, buf2, s2)) else Inr (False, buf1, s1)))"

partial_function (option) kmonitor_loop :: "'w hardware \<Rightarrow> 'w command list \<Rightarrow> byte_mem \<times> 'w console \<Rightarrow> (byte_mem \<times> 'w console) outcome option" where
  "kmonitor_loop hw cmds t =
     (case kmonitor_step hw cmds t of Inl e \<Rightarrow> Some (Inl e) | Inr r \<Rightarrow> if fst r then Some (Inr (snd r)) else kmonitor_loop hw cmds (snd r))"

definition kmonitor :: "'w hardware \<Rightarrow> 'w command list \<Rightarrow> ('w console \<Rightarrow> 'w console outcome) option \<Rightarrow> byte_mem \<Rightarrow> 'w console \<Rightarrow> (byte_mem \<times> 'w console) outcome" where
  "kmonitor hw cmds print_trapframe lbuf s =
     andThen (cprint hw (''Welcome to the kernel debug monitor!!'' @ newline) [] s) (\<lambda>s1.
     andThen (cprint hw (''Type '' @ [CHR 0x27] @ ''help'' @ [CHR 0x27] @ '' for a list of commands.'' @ newline) [] s1) (\<lambda>s2.
     andThen (case print_trapframe of None \<Rightarrow> Inr s2 | Some print \<Rightarrow> print s2) (\<lambda>s3.
       run_loop (kmonitor_loop hw cmds (lbuf, s3)))))"

end
