(* ===== verification/Trap.thy ===== *)
theory Trap
  imports Monitor
begin

text \<open>
  Traps and the clock: \<open>lab2/kern/trap/trap.c\<close> and \<open>lab2/kern/driver/clock.c\<close>. A trap finds the console and the counter of clock ticks, and may change
  the saved registers in its frame. A \<open>panic\<close> does not return.
\<close>

section \<open>Frames and gates\<close>

record pushregs =
  reg_edi :: uint32
  reg_esi :: uint32
  reg_ebp :: uint32
  reg_oesp :: uint32
  reg_ebx :: uint32
  reg_edx :: uint32
  reg_ecx :: uint32
  reg_eax :: uint32

record trapframe =
  tf_regs :: pushregs
  tf_gs :: uint16
  tf_fs :: uint16
  tf_es :: uint16
  tf_ds :: uint16
  tf_trapno :: uint32
  tf_err :: uint32
  tf_eip :: uint32
  tf_cs :: uint16
  tf_eflags :: uint32
  tf_esp :: uint32
  tf_ss :: uint16

definition T_SWITCH_TOU :: nat where "T_SWITCH_TOU = 120"
definition T_SWITCH_TOK :: nat where "T_SWITCH_TOK = 121"
definition IRQ_IDE1 :: nat where "IRQ_IDE1 = 14"
definition IRQ_IDE2 :: nat where "IRQ_IDE2 = 15"
definition TICK_NUM :: nat where "TICK_NUM = 100"

definition FL_IOPL_MASK :: uint32 where "FL_IOPL_MASK = 0x3000"
definition GD_KTEXT :: uint16 where "GD_KTEXT = push_bit 3 1"
definition GD_KDATA :: uint16 where "GD_KDATA = push_bit 3 2"
definition GD_UTEXT :: uint16 where "GD_UTEXT = push_bit 3 3"
definition GD_UDATA :: uint16 where "GD_UDATA = push_bit 3 4"
definition DPL_KERNEL :: uint16 where "DPL_KERNEL = 0"
definition DPL_USER :: uint16 where "DPL_USER = 3"
definition KERNEL_CS :: uint16 where "KERNEL_CS = GD_KTEXT OR DPL_KERNEL"
definition KERNEL_DS :: uint16 where "KERNEL_DS = GD_KDATA OR DPL_KERNEL"
definition USER_CS :: uint16 where "USER_CS = GD_UTEXT OR DPL_USER"
definition USER_DS :: uint16 where "USER_DS = GD_UDATA OR DPL_USER"

record gatedesc =
  gd_off_15_0 :: uint16
  gd_ss :: uint16
  gd_args :: "5 word"
  gd_rsv1 :: "3 word"
  gd_type :: "4 word"
  gd_s :: "1 word"
  gd_dpl :: "2 word"
  gd_p :: "1 word"
  gd_off_31_16 :: uint16

definition SETGATE :: "bool \<Rightarrow> uint16 \<Rightarrow> uint32 \<Rightarrow> uint16 \<Rightarrow> gatedesc" where
  "SETGATE istrap sel off dpl =
     \<lparr>gd_off_15_0 = ucast (off AND 0xffff), gd_ss = sel, gd_args = 0, gd_rsv1 = 0, gd_type = (if istrap then 0xF else 0xE), gd_s = 0,
      gd_dpl = ucast dpl, gd_p = 1, gd_off_31_16 = ucast (drop_bit 16 off)\<rparr>"

text \<open>The table of vectors is built by \<open>tools/vector.c\<close>; the new descriptor table.\<close>

fun idt_loop :: "uint32 list \<Rightarrow> int \<Rightarrow> nat \<Rightarrow> gatedesc list \<Rightarrow> gatedesc list outcome" where
  "idt_loop vectors i 0 idt = Inr idt"
| "idt_loop vectors i (Suc n) idt =
     andThen (array_get vectors i) (\<lambda>v. andThen (array_set idt i (SETGATE False GD_KTEXT v DPL_KERNEL)) (\<lambda>idt'. idt_loop vectors (i + 1) n idt'))"

definition idt_init :: "uint32 list \<Rightarrow> gatedesc list \<Rightarrow> gatedesc list outcome" where
  "idt_init vectors idt =
     andThen (idt_loop vectors 0 256 idt) (\<lambda>idt1.
     andThen (array_get vectors (int T_SWITCH_TOK)) (\<lambda>v. array_set idt1 (int T_SWITCH_TOK) (SETGATE False GD_KTEXT v DPL_USER)))"

section \<open>Printing a frame\<close>

definition excnames :: "string list" where
  "excnames = [''Divide error'', ''Debug'', ''Non-Maskable Interrupt'', ''Breakpoint'', ''Overflow'', ''BOUND Range Exceeded'', ''Invalid Opcode'',
     ''Device Not Available'', ''Double Fault'', ''Coprocessor Segment Overrun'', ''Invalid TSS'', ''Segment Not Present'', ''Stack Fault'',
     ''General Protection'', ''Page Fault'', ''(unknown trap)'', ''x87 FPU Floating-Point Error'', ''Alignment Check'', ''Machine-Check'',
     ''SIMD Floating-Point Exception'']"

text \<open>The argument is an \<open>int\<close>; the first comparison is unsigned.\<close>

definition trapname :: "uint32 \<Rightarrow> string" where
  "trapname trapno =
     (if unat trapno < length excnames then excnames ! unat trapno
      else if sint trapno \<ge> int IRQ_OFFSET \<and> sint trapno < int IRQ_OFFSET + 16 then ''Hardware Interrupt''
      else ''(unknown trap)'')"

definition trap_in_kernel :: "trapframe \<Rightarrow> bool" where
  "trap_in_kernel tf \<longleftrightarrow> tf_cs tf = KERNEL_CS"

definition IA32flags :: "string option list" where
  "IA32flags = [Some ''CF'', None, Some ''PF'', None, Some ''AF'', None, Some ''ZF'', Some ''SF'', Some ''TF'', Some ''IF'', Some ''DF'', Some ''OF'',
     None, None, Some ''NT'', None, Some ''RF'', Some ''VM'', Some ''AC'', Some ''VIF'', Some ''VIP'', Some ''ID'', None, None]"

text \<open>A line of the dump: its format and its arguments.\<close>

fun print_lines :: "'w hardware \<Rightarrow> (string \<times> arg list) list \<Rightarrow> 'w console \<Rightarrow> 'w console outcome" where
  "print_lines hw [] s = Inr s"
| "print_lines hw ((fmt, args) # ls) s = andThen (cprint hw fmt args s) (print_lines hw ls)"

definition print_regs :: "'w hardware \<Rightarrow> pushregs \<Rightarrow> 'w console \<Rightarrow> 'w console outcome" where
  "print_regs hw regs =
     print_lines hw
       [(''  edi  0x%08x'' @ newline, [Word (reg_edi regs)]), (''  esi  0x%08x'' @ newline, [Word (reg_esi regs)]),
        (''  ebp  0x%08x'' @ newline, [Word (reg_ebp regs)]), (''  oesp 0x%08x'' @ newline, [Word (reg_oesp regs)]),
        (''  ebx  0x%08x'' @ newline, [Word (reg_ebx regs)]), (''  edx  0x%08x'' @ newline, [Word (reg_edx regs)]),
        (''  ecx  0x%08x'' @ newline, [Word (reg_ecx regs)]), (''  eax  0x%08x'' @ newline, [Word (reg_eax regs)])]"

fun print_flags :: "'w hardware \<Rightarrow> uint32 \<Rightarrow> string option list \<Rightarrow> uint32 \<Rightarrow> 'w console \<Rightarrow> 'w console outcome" where
  "print_flags hw eflags [] j s = Inr s"
| "print_flags hw eflags (f # fs) j s =
     andThen (case f of None \<Rightarrow> Inr s | Some n \<Rightarrow> if eflags AND j \<noteq> 0 then cprint hw ''%s,'' [Text (map ascii n)] s else Inr s)
       (print_flags hw eflags fs (push_bit 1 j))"

text \<open>\<open>addr\<close> is the address of the frame.\<close>

definition print_trapframe :: "'w hardware \<Rightarrow> uint32 \<Rightarrow> trapframe \<Rightarrow> 'w console \<Rightarrow> 'w console outcome" where
  "print_trapframe hw addr tf s =
     andThen (cprint hw (''trapframe at %p'' @ newline) [Word addr] s) (\<lambda>s1.
     andThen (print_regs hw (tf_regs tf) s1) (\<lambda>s2.
     andThen (print_lines hw
       [(''  ds   0x----%04x'' @ newline, [Word (ucast (tf_ds tf))]), (''  es   0x----%04x'' @ newline, [Word (ucast (tf_es tf))]),
        (''  fs   0x----%04x'' @ newline, [Word (ucast (tf_fs tf))]), (''  gs   0x----%04x'' @ newline, [Word (ucast (tf_gs tf))]),
        (''  trap 0x%08x %s'' @ newline, [Word (tf_trapno tf), Text (map ascii (trapname (tf_trapno tf)))]),
        (''  err  0x%08x'' @ newline, [Word (tf_err tf)]), (''  eip  0x%08x'' @ newline, [Word (tf_eip tf)]),
        (''  cs   0x----%04x'' @ newline, [Word (ucast (tf_cs tf))]), (''  flag 0x%08x '', [Word (tf_eflags tf)])] s2) (\<lambda>s3.
     andThen (print_flags hw (tf_eflags tf) IA32flags 1 s3) (\<lambda>s4.
     andThen (cprint hw (''IOPL=%d'' @ newline) [Word (drop_bit 12 (tf_eflags tf AND FL_IOPL_MASK))] s4) (\<lambda>s5.
     if \<not> trap_in_kernel tf then
       print_lines hw [(''  esp  0x%08x'' @ newline, [Word (tf_esp tf)]), (''  ss   0x----%04x'' @ newline, [Word (ucast (tf_ss tf))])] s5
     else Inr s5)))))"

section \<open>The clock\<close>

record 'w kernel =
  con :: "'w console"
  ticks :: size_t

definition TIMER_DIV :: "nat \<Rightarrow> nat" where
  "TIMER_DIV x = (1193182 + x div 2) div x"

definition clock_init :: "'w hardware \<Rightarrow> 'w kernel \<Rightarrow> 'w kernel outcome" where
  "clock_init hw k =
     (let s1 = outb hw 0x43 (0x00 OR 0x04 OR 0x30) (con k);
          s2 = outb hw 0x40 (of_nat (TIMER_DIV 100 mod 256)) s1;
          s3 = outb hw 0x40 (of_nat (TIMER_DIV 100 div 256)) s2 in
      andThen (cprint hw (''++ setup timer interrupts'' @ newline) [] s3) (\<lambda>s4. Inr (k\<lparr>con := pic_enable hw IRQ_TIMER s4, ticks := 0\<rparr>)))"

definition print_ticks :: "'w hardware \<Rightarrow> 'w console \<Rightarrow> 'w console outcome" where
  "print_ticks hw s = cprint hw (''%d ticks'' @ newline) [Word (of_nat TICK_NUM)] s"

section \<open>trap\<close>

text \<open>The character read is a signed \<open>char\<close>, and is printed also when it is 0.\<close>

definition echo_input :: "'w hardware \<Rightarrow> string \<Rightarrow> 'w kernel \<Rightarrow> 'w kernel outcome" where
  "echo_input hw fmt k =
     andThen (cons_getc hw (con k)) (\<lambda>(c, s).
     let w = scast (word_of_int c :: uint8) in andThen (cprint hw fmt [Word w, Word w] s) (\<lambda>s'. Inr (k\<lparr>con := s'\<rparr>)))"

definition trap_dispatch :: "'w hardware \<Rightarrow> uint32 \<Rightarrow> 'w kernel \<Rightarrow> trapframe \<Rightarrow> ('w kernel \<times> trapframe) outcome" where
  "trap_dispatch hw addr k tf =
     (let no = tf_trapno tf in
      if no = of_nat (IRQ_OFFSET + IRQ_TIMER) then
        let k1 = k\<lparr>ticks := ticks k + 1\<rparr> in
        if ticks k1 mod of_nat TICK_NUM = 0 then andThen (print_ticks hw (con k1)) (\<lambda>s. Inr (k1\<lparr>con := s, ticks := 0\<rparr>, tf)) else Inr (k1, tf)
      else if no = of_nat (IRQ_OFFSET + IRQ_COM1) then andThen (echo_input hw (''serial [%03d] %c'' @ newline) k) (\<lambda>k1. Inr (k1, tf))
      else if no = of_nat (IRQ_OFFSET + IRQ_KBD) then andThen (echo_input hw (''kbd [%03d] %c'' @ newline) k) (\<lambda>k1. Inr (k1, tf))
      else if no = of_nat T_SWITCH_TOU then
        Inr (k, if tf_cs tf \<noteq> USER_CS then
                  tf\<lparr>tf_cs := USER_CS, tf_ds := USER_DS, tf_es := USER_DS, tf_ss := USER_DS, tf_eflags := tf_eflags tf OR FL_IOPL_MASK\<rparr> else tf)
      else if no = of_nat T_SWITCH_TOK then
        Inr (k, if tf_cs tf \<noteq> KERNEL_CS then
                  tf\<lparr>tf_cs := KERNEL_CS, tf_ds := KERNEL_DS, tf_es := KERNEL_DS, tf_eflags := tf_eflags tf OR 0x3000\<rparr> else tf)
      else if no = of_nat (IRQ_OFFSET + IRQ_IDE1) \<or> no = of_nat (IRQ_OFFSET + IRQ_IDE2) then Inr (k, tf)
      else if tf_cs tf AND 3 = 0 then andThen (print_trapframe hw addr tf (con k)) (\<lambda>s. Inl Panicked)
      else Inr (k, tf))"

definition trap :: "'w hardware \<Rightarrow> uint32 \<Rightarrow> 'w kernel \<Rightarrow> trapframe \<Rightarrow> ('w kernel \<times> trapframe) outcome" where
  "trap hw addr k tf = trap_dispatch hw addr k tf"

end
