(* ===== verification/Keyboard.thy ===== *)
theory Keyboard
  imports Console_Input
begin

text \<open>
  The keyboard driver as a machine over seven flags: \<open>kbd_decode\<close>, which keeps the flags in the bits of a word and looks keys up in tables, does what the
  machine does for every sequence of scan codes.
\<close>

section \<open>The reference keyboard\<close>

record keyboard =
  shift_held :: bool
  ctl_held :: bool
  alt_held :: bool
  caps_on :: bool
  num_on :: bool
  scroll_on :: bool
  after_E0 :: bool

text \<open>A key is named by its scan code, plus 128 for the second key of that code, which comes after \<open>0xE0\<close>.\<close>

definition hold :: "nat \<Rightarrow> bool \<Rightarrow> keyboard \<Rightarrow> keyboard" where
  "hold k down kb =
     (if k = 0x2A \<or> k = 0x36 then kb\<lparr>shift_held := down\<rparr>
      else if k = 0x1D \<or> k = 0x9D then kb\<lparr>ctl_held := down\<rparr>
      else if k = 0x38 \<or> k = 0xB8 then kb\<lparr>alt_held := down\<rparr>
      else kb)"

definition toggle :: "nat \<Rightarrow> keyboard \<Rightarrow> keyboard" where
  "toggle k kb =
     (if k = 0x3A then kb\<lparr>caps_on := \<not> caps_on kb\<rparr>
      else if k = 0x45 then kb\<lparr>num_on := \<not> num_on kb\<rparr>
      else if k = 0x46 then kb\<lparr>scroll_on := \<not> scroll_on kb\<rparr>
      else kb)"

definition swap_case :: "int \<Rightarrow> int" where
  "swap_case c = (if 97 \<le> c \<and> c \<le> 122 then c - 32 else if 65 \<le> c \<and> c \<le> 90 then c + 32 else c)"

definition key_char :: "nat \<Rightarrow> keyboard \<Rightarrow> int" where
  "key_char k kb =
     (let c = uint ((if ctl_held kb then ctlmap else if shift_held kb then shiftmap else normalmap) ! k)
      in if caps_on kb then swap_case c else c)"

definition key_event :: "nat \<Rightarrow> keyboard \<Rightarrow> int \<times> keyboard \<times> bool" where
  "key_event data kb =
     (if data = 0xE0 then (0, kb\<lparr>after_E0 := True\<rparr>, False)
      else if 128 \<le> data then (0, hold (if after_E0 kb then data else data - 128) False (kb\<lparr>after_E0 := False\<rparr>), False)
      else
        let k = (if after_E0 kb then data + 128 else data);
            kb' = toggle k (hold k True (kb\<lparr>after_E0 := False\<rparr>));
            c = key_char k kb'
        in (c, kb', ctl_held kb' \<and> alt_held kb' \<and> c = 0xE9))"

definition flags_of :: "uint32 \<Rightarrow> keyboard" where
  "flags_of sh = \<lparr>shift_held = bit sh 0, ctl_held = bit sh 1, alt_held = bit sh 2, caps_on = bit sh 3, num_on = bit sh 4, scroll_on = bit sh 5, after_E0 = bit sh 6\<rparr>"

section \<open>Tables\<close>

lemma key_table_length: "length xs \<le> 256 \<Longrightarrow> length (key_table xs ps) = 256"
proof -
  have "length (fold (\<lambda>(i, v) t. t[i := v]) ps t) = length t" for t :: "uint8 list" by (induction ps arbitrary: t) auto
  then show "length xs \<le> 256 \<Longrightarrow> ?thesis" by (simp add: key_table_def)
qed

lemma table_lengths:
  "length shiftcode = 256" "length togglecode = 256" "length normalmap = 256" "length shiftmap = 256" "length ctlmap = 256"
  unfolding shiftcode_def togglecode_def normalmap_def shiftmap_def ctlmap_def keypad_def by (simp_all add: key_table_length)

lemma shiftcode_nth:
  assumes "k < 256"
  shows "shiftcode ! k = (if k = 0x2A \<or> k = 0x36 then 1 else if k = 0x1D \<or> k = 0x9D then 2 else if k = 0x38 \<or> k = 0xB8 then 4 else 0)"
  using assms by (simp add: shiftcode_def key_table_def nth_list_update CTL_def SHIFT_def ALT_def)

lemma togglecode_nth:
  assumes "k < 256"
  shows "togglecode ! k = (if k = 0x3A then 8 else if k = 0x45 then 16 else if k = 0x46 then 32 else 0)"
  using assms by (simp add: togglecode_def key_table_def nth_list_update CAPSLOCK_def NUMLOCK_def SCROLLLOCK_def)

section \<open>Flags and bits\<close>

lemma bit_test: "x AND 64 = 0 \<longleftrightarrow> \<not> bit x 6" "x AND 8 = 0 \<longleftrightarrow> \<not> bit x 3" for x :: uint32
  using and_exp_eq_0_iff_not_bit [of x 6] and_exp_eq_0_iff_not_bit [of x 3] by simp_all

lemma flags_E0: "flags_of (sh OR 64) = (flags_of sh)\<lparr>after_E0 := True\<rparr>" "flags_of (sh AND NOT 64) = (flags_of sh)\<lparr>after_E0 := False\<rparr>"
  by (simp_all add: flags_of_def bit_simps)

lemma flags_hold:
  assumes "k < 256"
  shows "flags_of (sh OR ucast (shiftcode ! k)) = hold k True (flags_of sh)"
    "flags_of (sh AND NOT (ucast (shiftcode ! k) OR 64)) = hold k False ((flags_of sh)\<lparr>after_E0 := False\<rparr>)"
  using assms by (simp_all add: shiftcode_nth hold_def flags_of_def bit_simps)

lemma flags_toggle:
  assumes "k < 256"
  shows "flags_of (sh XOR ucast (togglecode ! k)) = toggle k (flags_of sh)"
  using assms by (simp add: togglecode_nth toggle_def flags_of_def bit_simps)

lemma high_bit: "data AND 0x80 = 0 \<longleftrightarrow> unat data < 128" for data :: uint8
proof -
  have "unat data < 256" using unsigned_less [of data] by simp
  then have "odd (unat data div 128) \<longleftrightarrow> 128 \<le> unat data" by (cases "unat data < 128") (auto simp: div_if [of "unat data"])
  moreover have "bit data 7 \<longleftrightarrow> bit (unat data) 7" by (simp add: bit_unsigned_iff)
  ultimately show ?thesis using and_exp_eq_0_iff_not_bit [of data 7] bit_iff_odd [of "unat data" 7] by auto
qed

lemma low_bits: "unat (data AND 0x7F) = unat data mod 128" for data :: uint8
proof -
  have "data AND 0x7F = take_bit 7 data" by (simp add: take_bit_eq_mask mask_eq_exp_minus_1)
  then show ?thesis by (simp add: take_bit_eq_mod unat_mod_distrib)
qed

lemma set_high_bit: "unat data < 128 \<Longrightarrow> unat (data OR 0x80) = unat data + 128" for data :: uint8
proof -
  assume d: "unat data < 128"
  then have "data AND 0x80 = 0" by (simp add: high_bit)
  then have "data OR 0x80 = data + 0x80" using disjunctive_add_eq_or [of data "0x80"] by simp
  then show ?thesis using d by (simp add: unat_word_ariths)
qed

lemma map_choice: "charcode ! nat (uint (sh AND 3)) = (if bit sh 1 then ctlmap else if bit sh 0 then shiftmap else normalmap)"
  "uint (sh AND 3) < 4" for sh :: uint32
proof -
  have "sh AND 3 = take_bit 2 sh" by (simp add: take_bit_eq_mask mask_eq_exp_minus_1)
  then have u: "uint (sh AND 3) = uint sh mod 4" by (simp add: take_bit_eq_mod uint_mod_distrib)
  then show "uint (sh AND 3) < 4" by simp
  have "uint sh mod 4 = 2 * (uint sh div 2 mod 2) + uint sh mod 2" by presburger
  moreover have "bit sh 1 \<longleftrightarrow> odd (uint sh div 2)" "bit sh 0 \<longleftrightarrow> odd (uint sh)" 
    using bit_iff_odd [of "uint sh" 1] bit_iff_odd [of "uint sh" 0] by (simp_all add: bit_uint_iff)
  ultimately have "uint sh mod 4 = 2 * of_bool (bit sh 1) + of_bool (bit sh 0)" by (simp add: mod_2_eq_odd)
  then show "charcode ! nat (uint (sh AND 3)) = (if bit sh 1 then ctlmap else if bit sh 0 then shiftmap else normalmap)"
    unfolding u by (cases "bit sh 1"; cases "bit sh 0"; simp add: charcode_def)
qed

lemma both_bits: "NOT sh AND 6 = 0 \<longleftrightarrow> bit sh 1 \<and> bit sh 2" for sh :: uint32
proof -
  have "(6 :: uint32) = 2 OR 4" by simp
  then have "NOT sh AND 6 = (NOT sh AND 2) OR (NOT sh AND 4)" by (simp only: bit.conj_disj_distrib)
  then show ?thesis using and_exp_eq_0_iff_not_bit [of "NOT sh" 1] and_exp_eq_0_iff_not_bit [of "NOT sh" 2] by (simp add: or_eq_0_iff bit_simps)
qed

section \<open>Refinement\<close>

lemma pressed_char:
  fixes b :: uint8
  shows "(if 97 \<le> b \<and> b \<le> 122 then uint b + (65 - 97) else if 65 \<le> b \<and> b \<le> 90 then uint b + (97 - 65) else uint b) = swap_case (uint b)"
  by (simp add: swap_case_def word_le_def)

lemma press_refines:
  fixes d :: uint8 and sh :: uint32
  defines "kb \<equiv> toggle (unat d) (hold (unat d) True (flags_of sh))"
  shows "\<exists>sh1. kbd_press d sh = (let c = key_char (unat d) kb in Inr (c, sh1, ctl_held kb \<and> alt_held kb \<and> c = 0xE9)) \<and> flags_of sh1 = kb"
proof -
  define sh1 where "sh1 = (sh OR ucast (shiftcode ! unat d)) XOR ucast (togglecode ! unat d)"
  have k: "unat d < 256" using unsigned_less [of d] by simp
  have fl: "flags_of sh1 = kb" unfolding sh1_def kb_def using k by (simp add: flags_toggle flags_hold)
  have get: "array_get xs (uint d) = Inr (xs ! unat d)" if "length xs = 256" for xs :: "uint8 list"
    using k that by (simp add: array_get_unat)
  let ?km = "if bit sh1 1 then ctlmap else if bit sh1 0 then shiftmap else normalmap"
  have "length charcode = 4" by (simp add: charcode_def)
  then have g: "array_get charcode (uint (sh1 AND 3)) = Inr ?km" using map_choice [of sh1] array_get_in [of "uint (sh1 AND 3)" charcode] by simp
  have km: "length ?km = 256" by (simp add: table_lengths)
  note gets = get [OF table_lengths(1)] get [OF table_lengths(2)] get [OF km]
  have cs: "CTL OR SHIFT = 3" "CTL OR ALT = 6" "CAPSLOCK = 8" "uint KEY_DEL = 0xE9"
    by (simp_all add: CTL_def SHIFT_def ALT_def CAPSLOCK_def KEY_DEL_def)
  have as: "ascii CHR ''a'' = 97" "ascii CHR ''z'' = 122" "ascii CHR ''A'' = 65" "ascii CHR ''Z'' = 90" by (simp_all add: ascii_def)
  have e: "uint (97 :: uint8) = 97" "uint (65 :: uint8) = 65" by simp_all
  have ch: "key_char (unat d) kb = (if sh1 AND 8 \<noteq> 0 then swap_case (uint (?km ! unat d)) else uint (?km ! unat d))"
    unfolding fl [symmetric] by (simp add: key_char_def flags_of_def bit_test Let_def)
  have held: "ctl_held kb \<longleftrightarrow> bit sh1 1" "alt_held kb \<longleftrightarrow> bit sh1 2" unfolding fl [symmetric] by (simp_all add: flags_of_def)
  have "kbd_press d sh = (let c = key_char (unat d) kb in Inr (c, sh1, ctl_held kb \<and> alt_held kb \<and> c = 0xE9))"
    unfolding kbd_press_def gets(1,2) andThen_simps Let_def sh1_def [symmetric] cs g gets(3) as e pressed_char ch both_bits held by simp
  then show ?thesis using fl by blast
qed

lemma decode_refines:
  "\<exists>c sh' rb. kbd_decode data sh = Inr (c, sh', rb) \<and> key_event (unat data) (flags_of sh) = (c, flags_of sh', rb)"
proof -
  have k: "unat data < 256" using unsigned_less [of data] by simp
  have E: "E0ESC = 64" by (simp add: E0ESC_def)
  have e0: "data = 0xE0 \<longleftrightarrow> unat data = 0xE0" by (simp add: word_unat_eq_iff)
  have esc: "after_E0 (flags_of sh) \<longleftrightarrow> bit sh 6" by (simp add: flags_of_def)
  consider (prefix) "data = 0xE0" | (released) "data \<noteq> 0xE0" "128 \<le> unat data" | (pressed) "data \<noteq> 0xE0" "unat data < 128" by linarith
  then show ?thesis
  proof cases
    case prefix
    then show ?thesis by (intro exI [of _ 0] exI [of _ "sh OR 64"] exI [of _ False]) (simp add: kbd_decode_def key_event_def E flags_E0)
  next
    case released
    let ?d = "if bit sh 6 then data else data AND 0x7F" and ?k = "if bit sh 6 then unat data else unat data - 128"
    have d: "unat ?d = ?k" using released k by (simp add: low_bits le_mod_geq)
    then have k': "unat ?d < 256" "?k < 256" using k by (metis less_imp_diff_less)+
    then have "kbd_decode data sh = Inr (0, sh AND NOT (ucast (shiftcode ! ?k) OR 64), False)"
      using released high_bit [of data] d k'(1) by (simp add: kbd_decode_def E bit_test array_get_unat table_lengths Let_def)
    moreover have "key_event (unat data) (flags_of sh) = (0, hold ?k False ((flags_of sh)\<lparr>after_E0 := False\<rparr>), False)"
      using released e0 esc by (simp add: key_event_def)
    ultimately show ?thesis using flags_hold(2) [OF k'(2), of sh] by metis
  next
    case pressed
    define d where "d = (if bit sh 6 then data OR 0x80 else data)"
    define sh0 where "sh0 = (if bit sh 6 then sh AND NOT 64 else sh)"
    have d: "unat d = (if bit sh 6 then unat data + 128 else unat data)" using pressed set_high_bit by (simp add: d_def)
    have f: "flags_of sh0 = (flags_of sh)\<lparr>after_E0 := False\<rparr>" 
    proof (cases "bit sh 6")
      case True
      then show ?thesis unfolding sh0_def using flags_E0(2) by simp
    qed (simp add: sh0_def flags_of_def)
    have dec: "kbd_decode data sh = kbd_press d sh0" using pressed high_bit [of data] by (simp add: kbd_decode_def E bit_test d_def sh0_def)
    obtain sh1 where "kbd_press d sh0 = (let kb = toggle (unat d) (hold (unat d) True (flags_of sh0)); c = key_char (unat d) kb in
        Inr (c, sh1, ctl_held kb \<and> alt_held kb \<and> c = 0xE9))" "flags_of sh1 = toggle (unat d) (hold (unat d) True (flags_of sh0))"
      using press_refines [of d sh0] by (auto simp: Let_def)
    then show ?thesis using pressed e0 esc dec unfolding f d [symmetric] by (simp add: key_event_def Let_def flip: d)
  qed
qed

section \<open>Properties\<close>

definition rebooting :: byte_mem where
  "rebooting = map ascii ''Rebooting!'' @ [10]"

lemma rebooting_shown:
  assumes "crt_ok s"
  shows "\<exists>s' n. cprintf hw (map ascii ''Rebooting!'' @ [10, 0]) 0 [] s = Inr (s', n) \<and> crt_ok s' \<and> same_input s s' \<and>
    screen s' = fold term_putc (map uint rebooting) (screen s)"
proof -
  have "0 \<notin> set rebooting" by (simp add: rebooting_def ascii_def)
  then have "string_at (map ascii ''Rebooting!'' @ [10, 0]) 0 rebooting" using string_at_start [of rebooting] by (simp add: rebooting_def)
  moreover have "ascii CHR ''%'' \<notin> set rebooting" by (simp add: rebooting_def ascii_def)
  ultimately have "format_output (map ascii ''Rebooting!'' @ [10, 0]) 0 [] = Inr (map uint rebooting)" by (rule plain_output)
  from cprintf_shown [OF assms this, of hw] show ?thesis by (auto simp: shown_def)
qed

lemma inb_same: "inb hw p s = (v, s') \<Longrightarrow> same_console s s'"
  using port_same(2) [of s hw p] by simp

lemma kbd_proc_data_refines_lemma:
  assumes "crt_ok s" "inb hw KBSTATP s = (st, s1)" "st AND KBS_DIB \<noteq> 0" "inb hw KBDATAP s1 = (data, s2)"
  shows "\<exists>c kb reboot s'. key_event (unat data) (flags_of (kbd_shift s)) = (c, kb, reboot) \<and> kbd_proc_data hw s = Inr (c, s') \<and>
    flags_of (kbd_shift s') = kb \<and> crt_ok s' \<and> screen s' = (if reboot then fold term_putc (map uint rebooting) (screen s) else screen s)"
proof -
  have "same_console s s2" using inb_same [OF assms(2)] inb_same [OF assms(4)] same_console_trans by blast
  note s2 = same_consoleD [OF this]
  then have ok: "crt_ok s2" "screen s2 = screen s" "kbd_shift s2 = kbd_shift s" using assms(1) by (simp_all add: same_input_def)
  obtain c sh rb where d: "kbd_decode data (kbd_shift s) = Inr (c, sh, rb)" "key_event (unat data) (flags_of (kbd_shift s)) = (c, flags_of sh, rb)"
    using decode_refines by blast
  let ?s3 = "s2\<lparr>kbd_shift := sh\<rparr>"
  have s3: "crt_ok ?s3" "screen ?s3 = screen s" using ok by (simp_all add: crt_ok_def screen_def)
  show ?thesis
  proof (cases rb)
    case False
    then have "kbd_proc_data hw s = Inr (c, ?s3)" using assms(2-4) d(1) ok(3) by (simp add: kbd_proc_data_def Let_def)
    then show ?thesis using d(2) s3 False by (intro exI [of _ c] exI [of _ "flags_of sh"] exI [of _ False] exI [of _ ?s3]) simp
  next
    case True
    obtain s4 n where s4: "cprintf hw (map ascii ''Rebooting!'' @ [10, 0]) 0 [] ?s3 = Inr (s4, n)" "crt_ok s4" "same_input ?s3 s4"
        "screen s4 = fold term_putc (map uint rebooting) (screen s)"
      using rebooting_shown [OF s3(1), of hw] s3(2) by auto
    let ?s5 = "outb hw 0x92 0x3 s4"
    have "kbd_proc_data hw s = Inr (c, ?s5)" using assms(2-4) d(1) ok(3) s4(1) True by (simp add: kbd_proc_data_def Let_def)
    moreover have "kbd_shift ?s5 = sh" using s4(3) by (simp add: outb_def same_input_def)
    moreover have "crt_ok ?s5" "screen ?s5 = screen s4" using s4(2) same_consoleD [OF port_same(1) [of s4 hw "0x92" "0x3"]] by simp_all
    ultimately show ?thesis using d(2) s4(4) True by (intro exI [of _ c] exI [of _ "flags_of sh"] exI [of _ True] exI [of _ ?s5]) simp
  qed
qed

text \<open>
  C34. The keyboard. When the controller has the scan code \<open>data\<close>, \<open>kbd_proc_data\<close> returns the character and keeps the state of the reference
  keyboard: Shift, Ctrl and Alt are held from the press to the release of one of their keys, the three locks change with each press, the code
  \<open>0xE0\<close> selects the second key of a code, Ctrl goes before Shift, and Caps Lock swaps the case of letters. No table is read outside its 256 entries,
  the character is a byte, and only Ctrl-Alt-Del prints the message and resets the machine.
\<close>

theorem kbd_proc_data_refines:
  assumes "crt_ok s" "inb hw KBSTATP s = (st, s1)" "st AND KBS_DIB \<noteq> 0" "inb hw KBDATAP s1 = (data, s2)"
  shows "\<exists>c kb reboot s'. key_event (unat data) (flags_of (kbd_shift s)) = (c, kb, reboot) \<and> kbd_proc_data hw s = Inr (c, s') \<and>
    flags_of (kbd_shift s') = kb \<and> crt_ok s' \<and> screen s' = (if reboot then fold term_putc (map uint rebooting) (screen s) else screen s)"
  by (rule kbd_proc_data_refines_lemma [OF assms])

theorem kbd_proc_data_refines_witness:
  "\<exists>s'. kbd_proc_data (idle_hardware\<lparr>inb_port := \<lambda>p w. (if p = KBDATAP then 0x1E else 1, w)\<rparr>) ((blank_console ())\<lparr>kbd_shift := 1\<rparr>) = Inr (65, s') \<and>
     shift_held (flags_of (kbd_shift s'))"
proof -
  let ?hw = "idle_hardware\<lparr>inb_port := \<lambda>p w. (if p = KBDATAP then 0x1E else 1, w)\<rparr>" and ?s = "(blank_console ())\<lparr>kbd_shift := 1\<rparr>"
  have "crt_ok ?s" using blank_console_ok [of "()"] by (simp add: crt_ok_def)
  moreover have "inb ?hw KBSTATP ?s = (1, ?s)" "inb ?hw KBDATAP ?s = (0x1E, ?s)" by (simp_all add: inb_def KBSTATP_def KBDATAP_def blank_console_def)
  moreover have "1 AND KBS_DIB \<noteq> 0" by (simp add: KBS_DIB_def)
  ultimately obtain c kb rb s' where "key_event (unat (0x1E :: uint8)) (flags_of (kbd_shift ?s)) = (c, kb, rb)" "kbd_proc_data ?hw ?s = Inr (c, s')" "flags_of (kbd_shift s') = kb"
    using kbd_proc_data_refines [of ?s ?hw 1 ?s "0x1E" ?s] by blast
  moreover have "key_event (unat (0x1E :: uint8)) (flags_of (kbd_shift ?s)) = (65, flags_of 1, False)" by code_simp
  moreover have "shift_held (flags_of 1)" by (simp add: flags_of_def)
  ultimately show ?thesis by auto
qed

text \<open>
  With Ctrl held, the Home key (\<open>0xE0 0x47\<close>, number \<open>0xC7\<close>) gives no character, while the other maps have it: the table \<open>ctlmap\<close> has
  its entry at \<open>0x97\<close>.
\<close>

lemma ctl_home_lost: "normalmap ! 0xC7 = 0xE0 \<and> shiftmap ! 0xC7 = 0xE0 \<and> ctlmap ! 0xC7 = 0 \<and> ctlmap ! 0x97 = 0xE0"
  by code_simp

end
