(* ===== verification/Readline.thy ===== *)
theory Readline
  imports Monitor
begin

text \<open>
  Reading a line: \<open>readline\<close> returns the line that results from the editing of what is typed, and shows it as it is typed. The devices and the user
  are a \<open>typist\<close>, whose pending characters \<open>getchar\<close> delivers one after another and output does not disturb.
\<close>

section \<open>The reference line editor\<close>

text \<open>The line, the characters shown, and the characters left, once the line is ended.\<close>

fun edit :: "int list \<Rightarrow> int list \<Rightarrow> (int list \<times> int list \<times> int list) option" where
  "edit line [] = None"
| "edit line (c # cs) =
     (if 32 \<le> c \<and> length line < 1023 then map_option (\<lambda>(l, shown, left). (l, c # shown, left)) (edit (line @ [c]) cs)
      else if c = 8 \<and> line \<noteq> [] then map_option (\<lambda>(l, shown, left). (l, c # shown, left)) (edit (butlast line) cs)
      else if c = 10 \<or> c = 13 then Some (line, [c], cs)
      else edit line cs)"

lemma take_store: "i < length b \<Longrightarrow> take (Suc i) (b[i := x]) = take i b @ [x]"
  by (simp add: take_Suc_conv_app_nth)

lemma string_of_line:
  assumes "length b = 1024" "length line \<le> 1023" "\<forall>c \<in> set line. 32 \<le> c \<and> c < 256" "take (length line) b = map word_of_int line"
  shows "string_at (b[length line := 0]) 0 (map word_of_int line)"
proof -
  have "(word_of_int c :: uint8) \<noteq> 0" if "c \<in> set line" for c
  proof -
    have "uint (word_of_int c :: uint8) = c" using assms(3) that by (auto simp: unsigned_of_int take_bit_int_eq_self)
    then show ?thesis using assms(3) that by auto
  qed
  moreover have "(b[length line := 0]) ! i = (map word_of_int line @ [0]) ! i" if "i < Suc (length line)" for i
  proof -
    have "take (Suc (length line)) (b[length line := 0]) = map word_of_int line @ [0]" using assms take_store [of "length line" b 0] by simp
    then show ?thesis using nth_take [OF that, of "b[length line := 0]"] by simp
  qed
  ultimately show ?thesis using assms(1,2) by (auto simp: string_at_iff in_mem_def)
qed

section \<open>The typist\<close>

locale typist =
  fixes hw :: "'w hardware" and alive :: "'w console \<Rightarrow> bool" and pend :: "'w console \<Rightarrow> int list"
  assumes key: "alive s \<Longrightarrow> pend s = c # cs \<Longrightarrow> \<exists>s'. getchar hw s = Inr (c, s') \<and> alive s' \<and> pend s' = cs \<and> screen s' = screen s"
    and key_range: "alive s \<Longrightarrow> c \<in> set (pend s) \<Longrightarrow> 0 < c \<and> c < 256"
    and undisturbed: "alive s \<Longrightarrow> cons_putc hw c s = Inr s' \<Longrightarrow> alive s' \<and> pend s' = pend s"
    and screen_ok: "alive s \<Longrightarrow> crt_ok s"
begin

lemma putc: "alive s \<Longrightarrow> \<exists>s'. cons_putc hw c s = Inr s' \<and> alive s' \<and> pend s' = pend s \<and> screen s' = term_putc c (screen s)"
  using cons_putc_ok [of s hw c] screen_ok undisturbed by blast

text \<open>Formatted output leaves the pending characters alone.\<close>

definition printed :: "'w console \<Rightarrow> 'w console \<times> int \<Rightarrow> int list \<Rightarrow> bool" where
  "printed s r out \<longleftrightarrow> alive (fst r) \<and> pend (fst r) = pend s \<and> screen (fst r) = fold term_putc out (screen s)"

lemma printed_rel: "putch_rel (printed s) (cputch hw) collect"
proof -
  have "\<exists>r'. cputch hw c r = Inr r' \<and> printed s r' (out @ [c])" if "printed s r out" for c r out
    using that putc [of "fst r" c] by (auto simp: printed_def cputch_def split_beta)
  then show ?thesis unfolding putch_rel_def collect_def by (metis rel_sum_simps(4))
qed

lemma cprintf_printed:
  assumes "alive s" "format_output m fmt ap = Inr out"
  shows "\<exists>s' n. cprintf hw m fmt ap s = Inr (s', n) \<and> alive s' \<and> pend s' = pend s \<and> screen s' = fold term_putc out (screen s)"
proof -
  have "printed s (s, 0) []" using assms(1) by (simp add: printed_def)
  from vprintfmt_rel [OF printed_rel this, of m fmt ap] show ?thesis
    using assms(2) unfolding cprintf_def vcprintf_def format_output_def by (cases "vprintfmt (cputch hw) m fmt ap (s, 0)") (auto simp: printed_def)
qed

section \<open>The loop of readline\<close>

text \<open>The buffer holds the line so far.\<close>

definition editing :: "'w line_state \<Rightarrow> int list \<Rightarrow> bool" where
  "editing l line \<longleftrightarrow> alive (line_console l) \<and> length (line_buf l) = 1024 \<and> line_len l = int (length line) \<and> length line \<le> 1023 \<and>
     (\<forall>c \<in> set line. 32 \<le> c \<and> c < 256) \<and> take (length line) (line_buf l) = map word_of_int line"

definition edited :: "'w line_state \<Rightarrow> 'w line_state \<Rightarrow> int list \<Rightarrow> int list \<Rightarrow> int list \<Rightarrow> bool" where
  "edited l l' line out left \<longleftrightarrow> alive (line_console l') \<and> pend (line_console l') = left \<and> screen (line_console l') = fold term_putc out (screen (line_console l)) \<and>
     length (line_buf l') = 1024 \<and> length line \<le> 1023 \<and> string_at (line_buf l') 0 (map word_of_int line)"

lemma readline_loop_edits:
  "editing l line \<Longrightarrow> edit line (pend (line_console l)) = Some (line', out, left) \<Longrightarrow>
   \<exists>l'. readline_loop hw l = Some (Inr (True, l')) \<and> edited l l' line' out left"
proof (induction "pend (line_console l)" arbitrary: l line out)
  case Nil
  then show ?case by simp
next
  case (Cons c cs)
  note e = Cons.prems(1) [unfolded editing_def] and ed = Cons.prems(2) [folded Cons.hyps(2)]
  obtain s where s: "getchar hw (line_console l) = Inr (c, s)" "alive s" "pend s = cs" "screen s = screen (line_console l)"
    using key [of "line_console l" c cs] e Cons.hyps(2) by metis
  obtain s' where s': "cons_putc hw c s = Inr s'" "alive s'" "pend s' = cs" "screen s' = term_putc c (screen s)" using putc [OF s(2)] s(3) by metis
  have c: "0 < c" "c < 256" using key_range [of "line_console l" c] e Cons.hyps(2) by (metis list.set_intros(1))+
  consider (char) "32 \<le> c" "length line < 1023" | (del) "c = 8" "line \<noteq> []" | (eol) "c = 10 \<or> c = 13" | (other) "\<not> (32 \<le> c \<and> length line < 1023)" "\<not> (c = 8 \<and> line \<noteq> [])" "c \<noteq> 10" "c \<noteq> 13" by blast
  then show ?case
  proof cases
    case char
    let ?l = "\<lparr>line_console = s', line_buf = (line_buf l)[length line := word_of_int c], line_len = line_len l + 1\<rparr>"
    have step: "readline_step hw l = Inr (None, ?l)"
      using s(1) s'(1) e char c by (simp add: readline_step_def cputchar_def BUFSIZE_def Let_def store_in)
    have "editing ?l (line @ [c])" using e char s'(2) c take_store [of "length line" "line_buf l"] by (simp add: editing_def)
    moreover obtain out' where out': "edit (line @ [c]) cs = Some (line', out', left)" "out = c # out'" using ed char by auto
    ultimately obtain l' where "readline_loop hw ?l = Some (Inr (True, l'))" "edited ?l l' line' out' left"
      using Cons.hyps(1) [of ?l "line @ [c]" out'] s'(3) by auto
    then show ?thesis using step out' s(4) s'(4) by (subst readline_loop.simps) (simp add: edited_def)
  next
    case del
    let ?l = "l\<lparr>line_console := s', line_len := line_len l - 1\<rparr>"
    have step: "readline_step hw l = Inr (None, ?l)"
      using s(1) s'(1) e del by (simp add: readline_step_def cputchar_def Let_def)
    have "take (length line - 1) (line_buf l) = map word_of_int (butlast line)"
      using e del by (metis butlast_take diff_le_self length_map map_butlast order_trans take_all_iff length_take nat_le_linear butlast_conv_take)
    then have "editing ?l (butlast line)" using e del s'(2) by (auto simp: editing_def of_nat_diff Suc_le_eq dest: in_set_butlastD)
    moreover obtain out' where out': "edit (butlast line) cs = Some (line', out', left)" "out = c # out'" using ed del by auto
    ultimately obtain l' where "readline_loop hw ?l = Some (Inr (True, l'))" "edited ?l l' line' out' left"
      using Cons.hyps(1) [of ?l "butlast line" out'] s'(3) by auto
    then show ?thesis using step out' s(4) s'(4) by (subst readline_loop.simps) (simp add: edited_def)
  next
    case eol
    let ?l = "l\<lparr>line_console := s', line_buf := (line_buf l)[length line := 0]\<rparr>"
    have step: "readline_step hw l = Inr (Some True, ?l)"
      using s(1) s'(1) e eol by (auto simp: readline_step_def cputchar_def Let_def store_in)
    have "line' = line" "out = [c]" "left = cs" using ed eol by auto
    then have "edited l ?l line' out left" using s s' e string_of_line [of "line_buf l" line] by (simp add: edited_def)
    then show ?thesis using step by (subst readline_loop.simps) simp
  next
    case other
    let ?l = "l\<lparr>line_console := s\<rparr>"
    have step: "readline_step hw l = Inr (None, ?l)" using s(1) e other c by (auto simp: readline_step_def Let_def BUFSIZE_def)
    have "editing ?l line" using e s(2) by (simp add: editing_def)
    moreover have "edit line cs = Some (line', out, left)" using ed other by (auto split: if_splits)
    ultimately obtain l' where "readline_loop hw ?l = Some (Inr (True, l'))" "edited ?l l' line' out left"
      using Cons.hyps(1) [of ?l line out] s(3) by auto
    then show ?thesis using step s(4) by (subst readline_loop.simps) (simp add: edited_def)
  qed
qed

end

section \<open>A user at the serial port\<close>

text \<open>
  The devices of \<open>typed_hardware\<close> with characters waiting at the serial port, none of which is 0 or 127, and an idle keyboard. The ring buffer has room
  for all of them.
\<close>

definition typing :: "(uint8 list \<times> uint8 list) console \<Rightarrow> bool" where
  "typing s \<longleftrightarrow> crt_ok s \<and> ring_ok (cons s) \<and> serial_exists s \<and> snd (world s) = [] \<and> (\<forall>b \<in> set (fst (world s)). b \<noteq> 0 \<and> b \<noteq> 127) \<and>
     (\<forall>c \<in> set (ring_unread (cons s)). c \<noteq> 0) \<and> length (ring_unread (cons s)) + length (fst (world s)) \<le> 511"

definition typed :: "(uint8 list \<times> uint8 list) console \<Rightarrow> int list" where
  "typed s = ring_unread (cons s) @ map uint (fst (world s))"

lemma uint_is: "uint b = 0 \<longleftrightarrow> b = 0" "uint b = 127 \<longleftrightarrow> b = 127" for b :: uint8
  by (simp_all add: word_uint_eq_iff)

lemma serial_delivers:
  "world s = (ser, []) \<Longrightarrow> \<forall>b \<in> set ser. b \<noteq> 0 \<and> b \<noteq> 127 \<Longrightarrow> feeds (serial_proc_data typed_hardware) s (map uint ser) (s\<lparr>world := ([], [])\<rparr>)"
proof (induction ser arbitrary: s)
  case Nil
  have "serial_proc_data typed_hardware s = Inr (- 1, s\<lparr>world := ([], [])\<rparr>)"
    using Nil by (simp add: serial_proc_data_def inb_def typed_hardware_def COM_LSR_DATA_def COM1_def COM_LSR_def Let_def)
  then show ?case by (simp add: feeds.dry)
next
  case (Cons b ser)
  have "uint b \<noteq> 127" using Cons.prems(2) uint_is [of b] by simp
  then have "serial_proc_data typed_hardware s = Inr (uint b, s\<lparr>world := (ser, [])\<rparr>)"
    using Cons.prems by (simp add: serial_proc_data_def inb_def typed_hardware_def COM_LSR_DATA_def COM1_def COM_LSR_def COM_RX_def Let_def)
  moreover have "uint b \<noteq> - 1" using byte_range(1) [of b] by linarith
  moreover have "feeds (serial_proc_data typed_hardware) (s\<lparr>world := (ser, [])\<rparr>) (map uint ser) (s\<lparr>world := ([], [])\<rparr>)"
    using Cons.IH [of "s\<lparr>world := (ser, [])\<rparr>"] Cons.prems by simp
  ultimately show ?case by (auto intro: feeds.data)
qed

lemma keyboard_idle: "snd (world s) = [] \<Longrightarrow> feeds (kbd_proc_data typed_hardware) s [] s"
  by (rule feeds.dry) (cases s, cases "world s", simp add: kbd_proc_data_def inb_def typed_hardware_def KBSTATP_def KBS_DIB_def COM1_def COM_LSR_def COM_RX_def Let_def)

lemma ring_unread_range: "c \<in> set (ring_unread q) \<Longrightarrow> 0 \<le> c \<and> c < 256"
  using byte_range by (auto simp: ring_unread_def)

lemma getchar_typed:
  assumes "typing s" "typed s = c # cs"
  shows "\<exists>s'. getchar typed_hardware s = Inr (c, s') \<and> typing s' \<and> typed s' = cs \<and> screen s' = screen s"
proof -
  note a = assms(1) [unfolded typing_def]
  obtain ser where w: "world s = (ser, [])" using a by (cases "world s") auto
  let ?s = "s\<lparr>world := ([], [])\<rparr>"
  have f: "serial_feeds typed_hardware s (map uint ser) ?s" using serial_delivers [OF w] a w by (simp add: serial_feeds_def)
  have k: "feeds (kbd_proc_data typed_hardware) ?s [] ?s" by (rule keyboard_idle) simp
  have nz: "filter (\<lambda>c. c \<noteq> 0) (map uint ser @ []) = map uint ser" using a w uint_is(1) by (auto simp: filter_id_conv)
  have came: "ring_unread (cons s) @ map uint ser = c # cs" using assms(2) w by (simp add: typed_def)
  have len: "length (c # cs) \<le> 511" unfolding came [symmetric] using a w by simp
  obtain q where q: "cons_getc typed_hardware s = Inr (c, ?s\<lparr>cons := q\<rparr>)" "ring_ok q" "ring_unread q = cs"
    using cons_getc_fifo [OF _ f k] a len unfolding nz came Let_def by auto
  have "c \<in> set (ring_unread (cons s) @ map uint ser)" unfolding came by simp
  then have "c \<noteq> 0" using a w uint_is(1) by auto
  then have g: "getchar typed_hardware s = Inr (c, ?s\<lparr>cons := q\<rparr>)" using q(1) by (simp add: getchar_def getchar_loop.simps)
  have "\<forall>d \<in> set cs. d \<noteq> 0"
  proof
    fix d assume "d \<in> set cs"
    then have "d \<in> set (ring_unread (cons s) @ map uint ser)" unfolding came by simp
    then show "d \<noteq> 0" using a w uint_is(1) by auto
  qed
  then have "typing (?s\<lparr>cons := q\<rparr>)" using a q len by (simp add: typing_def crt_ok_def)
  moreover have "typed (?s\<lparr>cons := q\<rparr>) = cs" using q(3) by (simp add: typed_def)
  ultimately show ?thesis using g by (auto simp: screen_def)
qed

text \<open>Output reads only status ports, which does not take characters away.\<close>

lemma typed_quiet:
  "world (outb typed_hardware p v s) = world s"
  "p \<noteq> COM1 + COM_RX \<Longrightarrow> p \<noteq> KBDATAP \<Longrightarrow> world (snd (inb typed_hardware p s)) = world s"
  by (simp_all add: outb_def inb_def typed_hardware_def split: prod.split)

lemma typed_wait: "p \<noteq> COM1 + COM_RX \<Longrightarrow> p \<noteq> KBDATAP \<Longrightarrow> world (wait_ready typed_hardware p bits n s) = world s"
proof (induction n arbitrary: s)
  case (Suc n)
  have "world (delay typed_hardware t) = world t" for t by (simp add: delay_def typed_quiet COM1_def COM_RX_def KBDATAP_def)
  then show ?case using Suc typed_quiet(2) [OF Suc.prems, of s] by (simp add: wait_ready.simps split_beta Let_def)
qed (simp add: wait_ready.simps typed_quiet)

lemma cons_putc_typed:
  assumes "cons_putc typed_hardware c s = Inr s'"
  shows "world s' = world s"
proof -
  have p: "LPTPORT + 1 \<noteq> COM1 + COM_RX" "LPTPORT + 1 \<noteq> KBDATAP" "COM1 + COM_LSR \<noteq> COM1 + COM_RX" "COM1 + COM_LSR \<noteq> KBDATAP"
    by (simp_all add: LPTPORT_def COM1_def COM_RX_def COM_LSR_def KBDATAP_def)
  have lpt: "world (lpt_putc typed_hardware c t) = world t" for c t
    by (simp add: lpt_putc_def lpt_putc_sub_def typed_quiet typed_wait [OF p(1,2)])
  have ser: "world (serial_putc typed_hardware c t) = world t" for c t
    by (simp add: serial_putc_def serial_putc_sub_def typed_quiet typed_wait [OF p(3,4)])
  have "world u = world t" if "cga_putc typed_hardware c t = Inr u" for t u
    using that by (auto simp: cga_putc_def andThen_eq_Inr typed_quiet Let_def)
  then show ?thesis using assms lpt ser by (auto simp: cons_putc_def andThen_eq_Inr)
qed

interpretation typed: typist typed_hardware typing typed
proof
  show "\<exists>s'. getchar typed_hardware s = Inr (c, s') \<and> typing s' \<and> typed s' = cs \<and> screen s' = screen s" if "typing s" "typed s = c # cs" for s c cs
    by (rule getchar_typed [OF that])
  show "0 < c \<and> c < 256" if "typing s" "c \<in> set (typed s)" for s c
    using that ring_unread_range [of c "cons s"] byte_range uint_pos by (auto simp: typing_def typed_def order_less_le)
  show "typing s' \<and> typed s' = typed s" if "typing s" "cons_putc typed_hardware c s = Inr s'" for s c s'
  proof -
    have "crt_ok s'" "same_input s s'" using cons_putc_ok [of s typed_hardware c] that by (auto simp: typing_def)
    then show ?thesis using that(1) cons_putc_typed [OF that(2)] by (simp add: typing_def typed_def same_input_def)
  qed
  show "crt_ok s" if "typing s" for s using that by (simp add: typing_def)
qed

section \<open>Properties\<close>

lemma prompt_output:
  assumes "0 \<notin> set p" "length p < 2 ^ 31"
  shows "format_output (c_string ''%s'' @ p @ [0]) 0 [3] = Inr (map sint p)"
proof (rule percent_s_output)
  show "string_at (c_string ''%s'' @ p @ [0]) 0 [ascii CHR ''%'', ascii CHR ''s'']"
    by (simp add: c_string_def load_def array_get_def ascii_def)
  show "string_at (c_string ''%s'' @ p @ [0]) (uint (3 :: uint32)) p"
    using string_at_behind [OF _ string_at_start [OF assms(1)], of "c_string ''%s''"] by (simp add: c_string_def)
qed (use assms in auto)

lemma readline_edits_lemma:
  assumes "typist hw alive pend" "alive s" "length b = 1024" "edit [] (pend s) = Some (line, echo, left)" "0 \<notin> set p" "length p < 2 ^ 31"
  shows "\<exists>b' s'. readline hw (Some p) b s = Inr (True, b', s') \<and> length b' = 1024 \<and> string_at b' 0 (map word_of_int line) \<and> length line \<le> 1023 \<and>
    screen s' = fold term_putc (map sint p @ echo) (screen s) \<and> pend s' = left \<and> alive s'"
proof -
  obtain s1 n where s1: "cprintf hw (c_string ''%s'' @ p @ [0]) 0 [3] s = Inr (s1, n)" "alive s1" "pend s1 = pend s" "screen s1 = fold term_putc (map sint p) (screen s)"
    using typist.cprintf_printed [OF assms(1,2) prompt_output [OF assms(5,6)]] by blast
  then have pr: "cprint hw ''%s'' [Text p] s = Inr s1" by (simp add: cprint_def)
  let ?l = "\<lparr>line_console = s1, line_buf = b, line_len = 0\<rparr>"
  have "typist.editing alive ?l []" using s1(2) assms(3) by (simp add: typist.editing_def [OF assms(1)])
  from typist.readline_loop_edits [OF assms(1) this, of line echo left] obtain l' where
      l': "readline_loop hw ?l = Some (Inr (True, l'))" "typist.edited alive pend ?l l' line echo left"
    using assms(4) s1(3) by auto
  then show ?thesis using pr s1(4) by (auto simp: readline_def typist.edited_def [OF assms(1)])
qed

text \<open>
  C35. Reading a line. For every user and all devices that deliver the typed characters one after another, \<open>readline\<close> shows the prompt, and then
  returns the line that the reference editor makes of what is typed, as a string in its buffer of 1024 bytes: a backspace takes the last character
  away, control characters are ignored, characters beyond 1023 are dropped. Exactly the characters that the editor accepts are shown, and what is
  typed behind the end of the line stays pending.
\<close>

theorem readline_edits:
  assumes "typist hw alive pend" "alive s" "length b = 1024" "edit [] (pend s) = Some (line, echo, left)" "0 \<notin> set p" "length p < 2 ^ 31"
  shows "\<exists>b' s'. readline hw (Some p) b s = Inr (True, b', s') \<and> length b' = 1024 \<and> string_at b' 0 (map word_of_int line) \<and> length line \<le> 1023 \<and>
    screen s' = fold term_putc (map sint p @ echo) (screen s) \<and> pend s' = left \<and> alive s'"
  by (rule readline_edits_lemma [OF assms])

lemma typing_blank: "\<forall>b \<in> set ser. b \<noteq> 0 \<and> b \<noteq> 127 \<Longrightarrow> length ser \<le> 511 \<Longrightarrow> typing (blank_console (ser, []))" "typed (blank_console (ser, [])) = map uint ser"
  by (simp_all add: typing_def typed_def crt_ok_def crt_defs blank_console_def ring_ok_def ring_unread_def)

theorem readline_edits_witness:
  "\<exists>b' s'. readline typed_hardware (Some [62]) (replicate 1024 0) (blank_console ([104, 106, 8, 105, 13, 120], [])) = Inr (True, b', s') \<and>
     string_at b' 0 [104, 105] \<and> typed s' = [120]"
proof -
  let ?s = "blank_console ([104, 106, 8, 105, 13, 120], []) :: (uint8 list \<times> uint8 list) console"
  have "typing ?s" by (rule typing_blank(1)) simp_all
  moreover have "edit [] (typed ?s) = Some ([104, 105], [104, 106, 8, 105, 13], [120])" unfolding typing_blank(2) by simp
  ultimately show ?thesis using readline_edits [OF typed.typist_axioms, of ?s "replicate 1024 0" "[104, 105]" "[104, 106, 8, 105, 13]" "[120]" "[62]"] by auto
qed

end
