(* ===== verification/Monitor_Correct.thy ===== *)
theory Monitor_Correct
  imports Readline
begin

text \<open>
  The kernel monitor: \<open>parse\<close> splits a line into its words in place, and what is typed at the prompt is executed. With more words than \<open>argv\<close> has
  elements, \<open>parse\<close> writes behind the array.
\<close>

section \<open>Formats with a number\<close>

lemma plain_prefix:
  "string_at m p (xs @ ys) \<Longrightarrow> ascii CHR ''%'' \<notin> set xs \<Longrightarrow>
   vprintfmt_loop pe collect (\<lambda>_. m) p ap out = vprintfmt_loop pe collect (\<lambda>_. m) (p + int (length xs)) ap (out @ map uint xs)"
proof (induction xs arbitrary: p out)
  case (Cons x xs)
  then have "vprintfmt_loop pe collect (\<lambda>_. m) p ap out = vprintfmt_loop pe collect (\<lambda>_. m) (p + 1) ap (out @ [uint x])"
    by (subst vprintfmt_loop_eq) (auto simp: collect_def)
  also have "\<dots> = vprintfmt_loop pe collect (\<lambda>_. m) (p + 1 + int (length xs)) ap ((out @ [uint x]) @ map uint xs)"
    by (rule Cons.IH) (use Cons.prems in auto)
  finally show ?case by (simp add: add.assoc)
qed simp

lemma string_at_rest: "string_at m p (xs @ ys) \<Longrightarrow> string_at m (p + int (length xs)) ys"
proof (induction xs arbitrary: p)
  case (Cons x xs)
  then show ?case using Cons.IH [of "p + 1"] by (simp add: add.assoc)
qed simp

lemma directive_step:
  assumes "string_at m p (ascii CHR ''%'' # c # ys)" "no_flag c" "convert pe collect (\<lambda>_. m) c flags0 ap out = Inr (Some (out', ap'))"
  shows "vprintfmt_loop pe collect (\<lambda>_. m) p ap out = vprintfmt_loop pe collect (\<lambda>_. m) (p + 1 + 1) ap' out'"
proof -
  have l: "load m p = Inr (ascii CHR ''%'')" "load m (p + 1) = Inr c" using assms(1) by auto
  show ?thesis by (subst vprintfmt_loop_eq) (simp add: l(1) reswitch_no_flag [OF l(2) assms(2)] assms(3))
qed

lemma convert_d:
  assumes "0 \<le> sint w"
  shows "convert pe collect (\<lambda>_. m) (ascii CHR ''d'') flags0 (w # ap) out = Inr (Some (out @ map uint (map hex_digit (digits_of 10 (unat w))), ap))"
  using assms wide_argument [of w] printnum_default [of 10 "scast w" _ out]
  by (simp add: convert_def getint_def va_word_def flags0_def collect_def ascii_def)

definition too_many :: byte_mem where
  "too_many = map ascii ''Too many arguments (max 16).'' @ [10]"

lemma too_many_output:
  "format_output (c_string (''Too many arguments (max %d).'' @ newline)) 0 [of_nat MAXARGS] = Inr (map uint too_many)"
proof -
  let ?a = "map ascii ''Too many arguments (max ''" and ?b = "map ascii '').'' @ [10 :: uint8]"
  let ?m = "c_string (''Too many arguments (max %d).'' @ newline)"
  have nl: "ascii CHR 0x0A = 10" by (simp add: ascii_def)
  have e: "?m = (?a @ ascii CHR ''%'' # ascii CHR ''d'' # ?b) @ [0]" by (simp add: c_string_def newline_def nl)
  have "0 \<notin> set (?a @ ascii CHR ''%'' # ascii CHR ''d'' # ?b)" by (simp add: ascii_def)
  then have s: "string_at ?m 0 (?a @ ascii CHR ''%'' # ascii CHR ''d'' # ?b)" unfolding e by (rule string_at_start)
  have pa: "ascii CHR ''%'' \<notin> set ?a" and pb: "ascii CHR ''%'' \<notin> set ?b" by (simp_all add: ascii_def)
  note s1 = string_at_rest [OF s]
  have s2: "string_at ?m (0 + int (length ?a) + 1 + 1) ?b" using s1 by (simp del: string_at.simps(2) add: string_at.simps(2) [of _ _ "ascii CHR ''%''"] string_at.simps(2) [of _ _ "ascii CHR ''d''"])
  have nf: "no_flag (ascii CHR ''d'')" by (simp add: no_flag_def is_digit_def ascii_def)
  have "sint (of_nat MAXARGS :: uint32) = 16" "unat (of_nat MAXARGS :: uint32) = 16" by (simp_all add: MAXARGS_def)
  then have c: "convert pe collect (\<lambda>_. ?m) (ascii CHR ''d'') flags0 [of_nat MAXARGS] out = Inr (Some (out @ map uint (map hex_digit (digits_of 10 16)), []))" for pe out
    using convert_d [of "of_nat MAXARGS" pe ?m "[]" out] by simp
  have d: "map hex_digit (digits_of 10 16) = map ascii ''16''" by (simp add: digits_of.simps hex_digit_def)
  show ?thesis unfolding format_output_def vprintfmt_def vprintfmt_live_def plain_prefix [OF s pa] directive_step [OF s1 nf c] plain_loop [OF s2 pb] d
    by (simp add: too_many_def)
qed

definition too_many_msg :: "'w hardware \<Rightarrow> 'w console \<Rightarrow> 'w console outcome" where
  "too_many_msg hw s = cprint hw (''Too many arguments (max %d).'' @ newline) [Word (of_nat MAXARGS)] s"

lemma too_many_shown:
  assumes "crt_ok s"
  shows "\<exists>s'. too_many_msg hw s = Inr s' \<and> crt_ok s' \<and> same_input s s' \<and> screen s' = fold term_putc (map uint too_many) (screen s)"
proof -
  obtain s' n where "cprintf hw (c_string (''Too many arguments (max %d).'' @ newline)) 0 [of_nat MAXARGS] s = Inr (s', n)" "crt_ok s'" "same_input s s'"
      "screen s' = fold term_putc (map uint too_many) (screen s)"
    using cprintf_shown [OF assms too_many_output, of hw] by (auto simp: shown_def)
  then show ?thesis by (simp add: too_many_msg_def cprint_def)
qed

section \<open>Words\<close>

definition white :: "uint8 \<Rightarrow> bool" where
  "white b \<longleftrightarrow> b \<in> {32, 9, 10, 13}"

text \<open>The reference: the words between the white space of a line.\<close>

function line_words :: "uint8 list \<Rightarrow> uint8 list list" where
  "line_words xs =
     (case dropWhile white xs of [] \<Rightarrow> [] | b # ys \<Rightarrow> takeWhile (\<lambda>b. \<not> white b) (b # ys) # line_words (dropWhile (\<lambda>b. \<not> white b) (b # ys)))"
  by pat_completeness auto
termination
proof (relation "measure length", simp, goal_cases)
  case (1 xs b ys)
  have "\<not> white b" using 1 hd_dropWhile [of white xs] by simp
  then have "length (dropWhile (\<lambda>b. \<not> white b) (b # ys)) \<le> length ys" using length_dropWhile_le [of "\<lambda>b. \<not> white b" ys] by simp
  also have "\<dots> < length (b # ys)" by simp
  also have "\<dots> \<le> length xs" using length_dropWhile_le [of white xs] 1 by simp
  finally show ?case by simp
qed

declare line_words.simps [simp del]

lemma skip_white_string:
  "string_at m p xs \<Longrightarrow> \<exists>m' q. skip_white m p = Inr (m', q) \<and> q = p + int (length (takeWhile white xs)) \<and> string_at m' q (dropWhile white xs) \<and> length m' = length m \<and>
    (\<forall>j. int j < p \<longrightarrow> m' ! j = m ! j) \<and> (xs = [] \<or> white (hd xs) \<longrightarrow> load m' p = Inr 0)"
proof (induction xs arbitrary: m p)
  case Nil
  then show ?case by (subst skip_white.simps) simp
next
  case (Cons x xs)
  then have l: "load m p = Inr x" "x \<noteq> 0" by auto
  show ?case
  proof (cases "white x")
    case True
    have p: "0 \<le> p" "p < int (length m)" using l by (auto simp: load_Inr)
    let ?m = "m[nat p := 0]"
    have st: "store m p 0 = Inr ?m" using p by (rule store_in)
    have "string_at ?m (p + 1) xs" using string_store [of m "p + 1" xs p 0] Cons.prems p by simp
    from Cons.IH [OF this] obtain m' q where q: "skip_white ?m (p + 1) = Inr (m', q)" "q = p + 1 + int (length (takeWhile white xs))"
        "string_at m' q (dropWhile white xs)" "length m' = length ?m" "\<forall>j. int j < p + 1 \<longrightarrow> m' ! j = ?m ! j" by blast
    have "skip_white m p = Inr (m', q)" using l True st q(1) by (subst skip_white.simps) (simp add: is_white_eq white_def)
    moreover have "load m' p = Inr 0" using q(4,5) p by (simp add: load_Inr)
    ultimately show ?thesis using q True by auto
  next
    case False
    then have "skip_white m p = Inr (m, p)" using l by (subst skip_white.simps) (auto simp: is_white_eq white_def)
    then show ?thesis using Cons.prems False by auto
  qed
qed

lemma skip_arg_string: "string_at m p xs \<Longrightarrow> skip_arg m p = Inr (p + int (length (takeWhile (\<lambda>b. \<not> white b) xs)))"
proof (induction xs arbitrary: p)
  case Nil
  then show ?case by (subst skip_arg.simps) simp
next
  case (Cons x xs)
  then show ?case using Cons.IH [of "p + 1"] by (subst skip_arg.simps) (auto simp: is_white_eq white_def)
qed

section \<open>parse\<close>

lemma string_at_cut:
  "string_at m q (w @ zs) \<Longrightarrow> length m' = length m \<Longrightarrow> \<forall>j. int j < q + int (length w) \<longrightarrow> m' ! j = m ! j \<Longrightarrow> load m' (q + int (length w)) = Inr 0 \<Longrightarrow>
   string_at m' q w"
proof (induction w arbitrary: q)
  case (Cons x w)
  have "string_at m' (q + 1) w" by (rule Cons.IH) (use Cons.prems in \<open>auto simp: add.assoc\<close>)
  moreover have "load m' q = Inr x" using Cons.prems(1,2,3) by (auto simp: load_Inr)
  ultimately show ?case using Cons.prems(1) by simp
qed simp

text \<open>One pass of the loop, when there is another word.\<close>

lemma parse_pass:
  assumes "string_at m p xs" "dropWhile white xs = b # ys"
  defines "w \<equiv> takeWhile (\<lambda>b. \<not> white b) (b # ys)" and "zs \<equiv> dropWhile (\<lambda>b. \<not> white b) (b # ys)"
  obtains m1 q where "string_at m1 q (w @ zs)" "p \<le> q" "length m1 = length m" "\<forall>j. int j < p \<longrightarrow> m1 ! j = m ! j" "xs = [] \<or> white (hd xs) \<longrightarrow> load m1 p = Inr 0"
    "parse_loop hw m p argv n s =
      andThen (if n = 15 then too_many_msg hw s else Inr s) (\<lambda>s'. andThen (array_set argv (int n) (Some q)) (\<lambda>argv'.
        parse_loop hw m1 (q + int (length w)) argv' (n + 1) s'))"
proof -
  obtain m1 q where q: "skip_white m p = Inr (m1, q)" "q = p + int (length (takeWhile white xs))" "string_at m1 q (b # ys)" "length m1 = length m"
      "\<forall>j. int j < p \<longrightarrow> m1 ! j = m ! j" "xs = [] \<or> white (hd xs) \<longrightarrow> load m1 p = Inr 0"
    using skip_white_string [OF assms(1)] assms(2) by auto
  have a: "skip_arg m1 q = Inr (q + int (length w))" using skip_arg_string [OF q(3)] by (simp add: w_def)
  have b: "load m1 q = Inr b" "b \<noteq> 0" using q(3) by auto
  have "parse_loop hw m p argv n s =
      andThen (if n = 15 then too_many_msg hw s else Inr s) (\<lambda>s'. andThen (array_set argv (int n) (Some q)) (\<lambda>argv'.
        parse_loop hw m1 (q + int (length w)) argv' (n + 1) s'))"
    by (subst parse_loop.simps) (simp add: q(1) b a andThen_def too_many_msg_def MAXARGS_def split: sum.split)
  moreover have "w @ zs = b # ys" by (simp add: w_def zs_def)
  ultimately show thesis using that q by auto
qed

lemma line_words_Nil: "dropWhile white xs = [] \<Longrightarrow> line_words xs = []"
  by (subst line_words.simps) (simp only: list.case)

lemma line_words_Cons:
  "dropWhile white xs = b # ys \<Longrightarrow> line_words xs = takeWhile (\<lambda>b. \<not> white b) (b # ys) # line_words (dropWhile (\<lambda>b. \<not> white b) (b # ys))"
  by (subst line_words.simps) simp

lemma hd_rest: "dropWhile (\<lambda>b. \<not> white b) xs = [] \<or> white (hd (dropWhile (\<lambda>b. \<not> white b) xs))"
  using hd_dropWhile [of "\<lambda>b. \<not> white b" xs] by auto

lemma parse_loop_ok:
  assumes "string_at m p xs" "n + length (line_words xs) \<le> 16" "length argv = 16" "crt_ok s"
  shows "\<exists>m' ps s'. parse_loop hw m p argv n s = Inr (n + length (line_words xs), m', take n argv @ map Some ps @ drop (n + length (line_words xs)) argv, s') \<and>
    length ps = length (line_words xs) \<and> (\<forall>i < length ps. string_at m' (ps ! i) (line_words xs ! i) \<and> p \<le> ps ! i) \<and> length m' = length m \<and>
    (\<forall>j. int j < p \<longrightarrow> m' ! j = m ! j) \<and> (xs = [] \<or> white (hd xs) \<longrightarrow> load m' p = Inr 0) \<and>
    (if n \<le> 15 \<and> 15 < n + length (line_words xs) then too_many_msg hw s = Inr s' else s' = s)"
  using assms
proof (induction xs arbitrary: m p n argv s rule: line_words.induct)
  case (1 xs)
  show ?case
  proof (cases "dropWhile white xs")
    case Nil
    obtain m' q where q: "skip_white m p = Inr (m', q)" "string_at m' q []" "length m' = length m"
        "\<forall>j. int j < p \<longrightarrow> m' ! j = m ! j" "xs = [] \<or> white (hd xs) \<longrightarrow> load m' p = Inr 0"
      using skip_white_string [OF "1.prems"(1)] Nil by metis
    then have "parse_loop hw m p argv n s = Inr (n, m', argv, s)" by (subst parse_loop.simps) simp
    then show ?thesis using q line_words_Nil [OF Nil] by (intro exI [of _ m'] exI [of _ "[]"] exI [of _ s]) auto
  next
    case (Cons b ys)
    let ?w = "takeWhile (\<lambda>b. \<not> white b) (b # ys)" and ?zs = "dropWhile (\<lambda>b. \<not> white b) (b # ys)"
    have ws: "line_words xs = ?w # line_words ?zs" by (rule line_words_Cons [OF Cons])
    obtain m1 q where q: "string_at m1 q (?w @ ?zs)" "p \<le> q" "length m1 = length m" "\<forall>j. int j < p \<longrightarrow> m1 ! j = m ! j" "xs = [] \<or> white (hd xs) \<longrightarrow> load m1 p = Inr 0"
        "parse_loop hw m p argv n s =
          andThen (if n = 15 then too_many_msg hw s else Inr s) (\<lambda>s'. andThen (array_set argv (int n) (Some q)) (\<lambda>argv'.
            parse_loop hw m1 (q + int (length ?w)) argv' (n + 1) s'))"
      by (rule parse_pass [OF "1.prems"(1) Cons])
    have n: "n < 16" using "1.prems"(2) ws by simp
    obtain s1 where s1: "(if n = 15 then too_many_msg hw s else Inr s) = Inr s1" "crt_ok s1" using too_many_shown [OF "1.prems"(4), of hw] "1.prems"(4) by (cases "n = 15") auto
    let ?argv = "argv[n := Some q]"
    have set: "array_set argv (int n) (Some q) = Inr ?argv" using n "1.prems"(3) by (simp add: array_set_in)
    have zs: "string_at m1 (q + int (length ?w)) ?zs" by (rule string_at_rest [OF q(1)])
    have "n + 1 + length (line_words ?zs) \<le> 16" "length ?argv = 16" using "1.prems"(2,3) ws by simp_all
    from "1.IH" [OF Cons zs this s1(2)] obtain m' ps s' where r:
      "parse_loop hw m1 (q + int (length ?w)) ?argv (n + 1) s1 =
         Inr (n + 1 + length (line_words ?zs), m', take (n + 1) ?argv @ map Some ps @ drop (n + 1 + length (line_words ?zs)) ?argv, s')"
      "length ps = length (line_words ?zs)" "\<forall>i < length ps. string_at m' (ps ! i) (line_words ?zs ! i) \<and> q + int (length ?w) \<le> ps ! i" "length m' = length m1"
      "\<forall>j. int j < q + int (length ?w) \<longrightarrow> m' ! j = m1 ! j" "?zs = [] \<or> white (hd ?zs) \<longrightarrow> load m' (q + int (length ?w)) = Inr 0"
      "if n + 1 \<le> 15 \<and> 15 < n + 1 + length (line_words ?zs) then too_many_msg hw s1 = Inr s' else s' = s1" by blast
    have "?w \<noteq> []" using Cons hd_dropWhile [of white xs] by simp
    then have w: "1 \<le> length ?w" by (simp add: Suc_le_eq)
    have here: "string_at m' q ?w" by (rule string_at_cut [OF q(1) r(4,5)]) (use r(6) hd_rest in blast)
    have argv: "take (n + 1) ?argv = take n argv @ [Some q]" "drop (n + 1 + length (line_words ?zs)) ?argv = drop (n + length (line_words xs)) argv"
      using n "1.prems"(3) ws take_store [of n argv "Some q"] by simp_all
    have res: "parse_loop hw m p argv n s = Inr (n + length (line_words xs), m', take n argv @ map Some (q # ps) @ drop (n + length (line_words xs)) argv, s')"
      unfolding q(6) s1(1) set andThen_simps r(1) argv using ws by simp
    have all: "string_at m' ((q # ps) ! i) (line_words xs ! i) \<and> p \<le> (q # ps) ! i" if "i < length (q # ps)" for i
      using that here r(3) q(2) w unfolding ws by (cases i) (auto intro: order_trans)
    have keep: "m' ! j = m ! j" if "int j < p" for j using that q(2,4) r(5) by simp
    have z: "load m' p = Inr 0" if "xs = [] \<or> white (hd xs)"
      using that q(2,5) r(4,5) w by (auto simp: load_Inr)
    have msg: "if n \<le> 15 \<and> 15 < n + length (line_words xs) then too_many_msg hw s = Inr s' else s' = s"
      using r(7) s1(1) ws n by (cases "n = 15") (auto split: if_splits)
    show ?thesis
      by (intro exI [of _ m'] exI [of _ "q # ps"] exI [of _ s'] conjI res allI impI all keep z msg) (use r(2,4) q(3) ws in auto)
  qed
qed

text \<open>With 17 words the array is too short.\<close>

lemma parse_loop_overflow:
  assumes "string_at m p xs" "16 < n + length (line_words xs)" "n \<le> 16" "length argv = 16" "crt_ok s"
  shows "parse_loop hw m p argv n s = Inl Out_of_bounds"
  using assms
proof (induction xs arbitrary: m p n argv s rule: line_words.induct)
  case (1 xs)
  show ?case
  proof (cases "dropWhile white xs")
    case Nil
    then show ?thesis using "1.prems" line_words_Nil by simp
  next
    case (Cons b ys)
    let ?w = "takeWhile (\<lambda>b. \<not> white b) (b # ys)" and ?zs = "dropWhile (\<lambda>b. \<not> white b) (b # ys)"
    have ws: "line_words xs = ?w # line_words ?zs" by (rule line_words_Cons [OF Cons])
    obtain m1 q where q: "string_at m1 q (?w @ ?zs)"
        "parse_loop hw m p argv n s =
          andThen (if n = 15 then too_many_msg hw s else Inr s) (\<lambda>s'. andThen (array_set argv (int n) (Some q)) (\<lambda>argv'.
            parse_loop hw m1 (q + int (length ?w)) argv' (n + 1) s'))"
      by (rule parse_pass [OF "1.prems"(1) Cons])
    obtain s1 where s1: "(if n = 15 then too_many_msg hw s else Inr s) = Inr s1" "crt_ok s1" using too_many_shown [OF "1.prems"(5), of hw] "1.prems"(5) by (cases "n = 15") auto
    show ?thesis
    proof (cases "n = 16")
      case True
      then show ?thesis unfolding q(2) s1(1) using "1.prems"(4) by (simp add: array_set_def)
    next
      case False
      then have set: "array_set argv (int n) (Some q) = Inr (argv[n := Some q])" using "1.prems"(3,4) by (simp add: array_set_in)
      have "parse_loop hw m1 (q + int (length ?w)) (argv[n := Some q]) (n + 1) s1 = Inl Out_of_bounds"
        by (rule "1.IH" [OF Cons string_at_rest [OF q(1)]]) (use "1.prems" ws s1(2) False in auto)
      then show ?thesis unfolding q(2) s1(1) set by simp
    qed
  qed
qed

section \<open>Commands\<close>

lemma find_command_finds:
  assumes "string_at m a w" "0 \<le> a" "\<forall>c \<in> set cmds. 0 \<notin> set (map ascii (name c))"
  shows "find_command m a cmds = Inr (find (\<lambda>c. map ascii (name c) = w) cmds)"
  using assms(3)
proof (induction cmds)
  case (Cons c cs)
  let ?n = "map ascii (name c)"
  have n: "string_at (c_string (name c) @ m) 0 ?n" using Cons.prems string_at_front [of ?n m] by (simp add: c_string_def)
  have "string_at (c_string (name c) @ m) (int (length (c_string (name c))) + a) w" by (rule string_at_behind [OF assms(2,1)])
  moreover have "int (length (c_string (name c))) + a = int (length (name c)) + 1 + a" by (simp add: c_string_def)
  ultimately have "strcmp (c_string (name c) @ m) 0 (int (length (name c)) + 1 + a) = Inr (str_diff ?n w)" using strcmp_string [OF n] by metis
  moreover have "str_diff ?n w = 0 \<longleftrightarrow> ?n = w"
    using str_diff_sign [of ?n w] Cons.prems assms(1) by (auto simp: string_at_iff)
  ultimately show ?case using Cons by simp
qed simp

definition unknown_command :: "uint8 list \<Rightarrow> int list" where
  "unknown_command w = map uint (map ascii (''Unknown command '' @ [CHR 0x27])) @ map sint w @ map uint (map ascii [CHR 0x27] @ [10])"

lemma unknown_output:
  assumes "string_at m a w" "0 \<le> a" "length m < 2 ^ 31"
  shows "format_output (c_string unknown_format @ m) 0 [of_int (int (length unknown_format) + 1 + a)] = Inr (unknown_command w)"
proof -
  let ?a = "map ascii (''Unknown command '' @ [CHR 0x27])" and ?b = "map ascii [CHR 0x27] @ [10 :: uint8]"
  let ?m = "c_string unknown_format @ m" and ?f = "?a @ ascii CHR ''%'' # ascii CHR ''s'' # ?b"
  have nl: "ascii CHR 0x0A = 10" by (simp add: ascii_def)
  have e: "?m = ?f @ [0] @ m" by (simp add: c_string_def newline_def nl unknown_format_def)
  have "0 \<notin> set ?f" by (simp add: ascii_def)
  then have s: "string_at ?m 0 ?f" unfolding e by (rule string_at_front)
  have pa: "ascii CHR ''%'' \<notin> set ?a" and pb: "ascii CHR ''%'' \<notin> set ?b" by (simp_all add: ascii_def)
  note s1 = string_at_rest [OF s]
  have s2: "string_at ?m (0 + int (length ?a) + 1 + 1) ?b" using s1 by (simp del: string_at.simps(2) add: string_at.simps(2) [of _ _ "ascii CHR ''%''"] string_at.simps(2) [of _ _ "ascii CHR ''s''"])
  have nf: "no_flag (ascii CHR ''s'')" by (simp add: no_flag_def is_digit_def ascii_def)
  have len: "a + int (length w) < int (length m)" using assms(1,2) by (auto simp: string_at_iff in_mem_def)
  define x where "x = int (length unknown_format) + 1 + a"
  have x: "x = int (length (c_string unknown_format)) + a" "0 < x" "x < 2 ^ 32"
    using len assms(2,3) by (simp_all add: x_def c_string_def) (simp add: unknown_format_def newline_def)
  have u: "uint (word_of_int x :: uint32) = x" using x(2,3) by (simp add: unsigned_of_int take_bit_int_eq_self)
  have "string_at ?m x w" unfolding x(1) by (rule string_at_behind [OF assms(2,1)])
  then have w: "string_at ?m (uint (word_of_int x :: uint32)) w" unfolding u .
  have nz: "(word_of_int x :: uint32) \<noteq> 0" using u x(2) by (metis order_less_irrefl unsigned_0)
  have lw: "length w < 2 ^ 31" using len assms(2,3) by linarith
  show ?thesis unfolding x_def [symmetric] format_output_def vprintfmt_def vprintfmt_live_def plain_prefix [OF s pa] directive_step [OF s1 nf convert_s [OF w nz lw]] plain_loop [OF s2 pb]
    by (simp add: unknown_command_def)
qed

section \<open>A command line\<close>

lemma runcmd_empty:
  assumes "string_at m p xs" "line_words xs = []" "crt_ok s"
  shows "\<exists>m'. length m' = length m \<and> runcmd hw cmds m p s = Inr (0, m', s)"
  using parse_loop_ok [OF assms(1) _ _ assms(3), of 0 "replicate 16 None" hw] assms(2)
  by (auto simp: runcmd_def parse_def MAXARGS_def)

lemma runcmd_line:
  assumes "string_at m p xs" "0 \<le> p" "line_words xs = w # ws" "length ws \<le> 14" "crt_ok s" "\<forall>c \<in> set cmds. 0 \<notin> set (map ascii (name c))"
  obtains m' q argv where "length m' = length m" "string_at m' q w" "0 \<le> q" "length argv = 15"
    "\<forall>i < length ws. \<exists>a. argv ! i = Some a \<and> string_at m' a (ws ! i)"
    "runcmd hw cmds m p s =
      (case find (\<lambda>c. map ascii (name c) = w) cmds of
         Some c \<Rightarrow> andThen (func c (length ws) argv m' s) (\<lambda>(r, s'). Inr (r, m', s'))
       | None \<Rightarrow>
           andThen (cprintf hw (c_string unknown_format @ m') 0 [of_int (int (length unknown_format) + 1 + q)] s) (\<lambda>(s', n). Inr (0, m', s')))"
proof -
  obtain m' ps where r: "parse hw m p (replicate 16 None) s = Inr (Suc (length ws), m', map Some ps @ replicate (15 - length ws) None, s)"
      "length ps = Suc (length ws)" "\<forall>i < length ps. string_at m' (ps ! i) ((w # ws) ! i) \<and> p \<le> ps ! i" "length m' = length m"
    using parse_loop_ok [OF assms(1) _ _ assms(5), of 0 "replicate 16 None" hw] assms(3,4) by (auto simp: parse_def)
  obtain q qs where ps: "ps = q # qs" using r(2) by (cases ps) auto
  have q: "string_at m' q w" "0 \<le> q" using r(3) ps assms(2) by force+
  let ?argv = "map Some qs @ replicate (15 - length ws) None"
  have "\<exists>a. ?argv ! i = Some a \<and> string_at m' a (ws ! i)" if "i < length ws" for i
    using that r(2,3) ps by (auto simp: nth_append)
  moreover have "length ?argv = 15" using r(2) ps assms(4) by simp
  moreover have "runcmd hw cmds m p s =
      (case find (\<lambda>c. map ascii (name c) = w) cmds of
         Some c \<Rightarrow> andThen (func c (length ws) ?argv m' s) (\<lambda>(r, s'). Inr (r, m', s'))
       | None \<Rightarrow>
           andThen (cprintf hw (c_string unknown_format @ m') 0 [of_int (int (length unknown_format) + 1 + q)] s) (\<lambda>(s', n). Inr (0, m', s')))"
    unfolding runcmd_def MAXARGS_def r(1) ps by (simp add: array_get_def find_command_finds [OF q assms(6)] del: of_int_add)
  ultimately show thesis using that r(4) q by blast
qed

section \<open>Properties\<close>

text \<open>
  C36. \<open>parse\<close>. A line of at most 16 words is split in place: the result is their number, \<open>argv\<close> points to the words, each of them ended by a null
  byte, in their order, the rest of \<open>argv\<close> is unchanged, and nothing in front of the line is written. With 16 words the message about
  too many arguments is printed, although they fit.
\<close>

theorem parse_splits:
  assumes "string_at m p xs" "length (line_words xs) \<le> 16" "length argv = 16" "crt_ok s"
  shows "\<exists>m' ps s'. parse hw m p argv s = Inr (length ps, m', map Some ps @ drop (length ps) argv, s') \<and> length ps = length (line_words xs) \<and>
    (\<forall>i < length ps. string_at m' (ps ! i) (line_words xs ! i)) \<and> length m' = length m \<and> (\<forall>j. int j < p \<longrightarrow> m' ! j = m ! j) \<and>
    screen s' = (if length ps = 16 then fold term_putc (map uint too_many) (screen s) else screen s)"
proof -
  obtain m' ps s' where r: "parse hw m p argv s = Inr (length (line_words xs), m', map Some ps @ drop (length (line_words xs)) argv, s')"
      "length ps = length (line_words xs)" "\<forall>i < length ps. string_at m' (ps ! i) (line_words xs ! i)" "length m' = length m" "\<forall>j. int j < p \<longrightarrow> m' ! j = m ! j"
      "if 15 < length (line_words xs) then too_many_msg hw s = Inr s' else s' = s"
    using parse_loop_ok [OF assms(1) _ assms(3,4), of 0 hw] assms(2) unfolding parse_def by auto
  have "screen s' = (if length ps = 16 then fold term_putc (map uint too_many) (screen s) else screen s)"
  proof (cases "15 < length (line_words xs)")
    case True
    then have "length ps = 16" using assms(2) r(2) by simp
    then show ?thesis using True r(6) too_many_shown [OF assms(4), of hw] by auto
  qed (use r(2,6) in auto)
  then show ?thesis using r(1-5) by (intro exI [of _ m'] exI [of _ ps] exI [of _ s']) (simp only: r(2) simp_thms)
qed

theorem parse_splits_witness:
  "\<exists>m' s' p q. parse idle_hardware [32, 97, 98, 9, 99, 0] 0 (replicate 16 None) (blank_console ()) = Inr (2, m', Some p # Some q # replicate 14 None, s') \<and>
     string_at m' p [97, 98] \<and> string_at m' q [99]"
proof -
  have w: "line_words [32, 97, 98, 9, 99] = [[97, 98], [99]]" by (simp add: line_words.simps white_def)
  have s: "string_at [32, 97, 98, 9, 99, 0] 0 [32, 97, 98, 9, 99]" by (simp add: load_def array_get_def)
  obtain m' ps s' where "parse idle_hardware [32, 97, 98, 9, 99, 0] 0 (replicate 16 None) (blank_console ()) =
        Inr (length ps, m', map Some ps @ drop (length ps) (replicate 16 None), s')"
      "length ps = 2" "\<forall>i < length ps. string_at m' (ps ! i) ([[97, 98], [99]] ! i)"
    using parse_splits [OF s _ _ blank_console_ok, of "replicate 16 None" idle_hardware "()"] unfolding w by auto
  moreover from this obtain a b where "ps = [a, b]" by (auto simp: numeral_2_eq_2 length_Suc_conv)
  ultimately show ?thesis by (auto simp: numeral_2_eq_2 All_less_Suc2)
qed

text \<open>
  C37. \<open>parse\<close> with too many words. With more than 16 words the message is printed, but the loop goes on and the pointer to word 17 is written
  behind \<open>argv\<close>. A line of 33 typed characters is enough.
\<close>

theorem parse_overflows:
  assumes "string_at m p xs" "16 < length (line_words xs)" "length argv = 16" "crt_ok s"
  shows "parse hw m p argv s = Inl Out_of_bounds"
  using parse_loop_overflow [OF assms(1) _ _ assms(3,4), of 0 hw] assms(2) by (simp add: parse_def)

lemma one_letter_words: "line_words (concat (replicate n [97, 32])) = replicate n [97]"
proof (induction n)
  case (Suc n)
  have "line_words (32 # xs) = line_words xs" for xs by (subst (1 2) line_words.simps) (simp add: white_def)
  then have "line_words (97 # 32 # xs) = [97] # line_words xs" for xs by (subst line_words.simps) (simp add: white_def)
  then show ?case using Suc by simp
qed (simp add: line_words.simps)

theorem parse_overflows_witness:
  "parse idle_hardware (concat (replicate 17 [97, 32]) @ [0]) 0 (replicate 16 None) (blank_console ()) = Inl Out_of_bounds"
proof (rule parse_overflows [OF _ _ _ blank_console_ok])
  show "string_at (concat (replicate 17 [97, 32]) @ [0]) 0 (concat (replicate 17 [97, 32]))" by (rule string_at_start) simp
  show "16 < length (line_words (concat (replicate 17 [97, 32])))" unfolding one_letter_words by simp
qed simp

text \<open>
  C38. From the keys to the command. When the user types a line of 1 to 15 words at the prompt, one pass of \<open>kmonitor\<close> shows the prompt and what is
  typed, and then calls the first command whose name is the first word, with the number of the other words and with pointers to them, as strings, in
  the line buffer; a negative result ends the monitor. If no command has this name, it shows the message with the word and goes on.
\<close>

theorem kmonitor_runs_typed_command:
  assumes "typist hw alive pend" "alive s" "length b = 1024" "edit [] (pend s) = Some (line, echo, left)"
    "line_words (map word_of_int line) = w # ws" "length ws \<le> 14" "\<forall>c \<in> set cmds. 0 \<notin> set (map ascii (name c))"
  shows "\<exists>m' s' argv. alive s' \<and> pend s' = left \<and> screen s' = fold term_putc (map sint (map ascii ''K> '') @ echo) (screen s) \<and> length argv = 15 \<and>
    (\<forall>i < length ws. \<exists>a. argv ! i = Some a \<and> string_at m' a (ws ! i)) \<and>
    (case find (\<lambda>c. map ascii (name c) = w) cmds of
       Some c \<Rightarrow> kmonitor_step hw cmds (b, s) = andThen (func c (length ws) argv m' s') (\<lambda>(r, s2). Inr (r < 0, m', s2))
     | None \<Rightarrow> \<exists>s2. kmonitor_step hw cmds (b, s) = Inr (False, m', s2) \<and> screen s2 = fold term_putc (unknown_command w) (screen s') \<and> pend s2 = left \<and> alive s2)"
proof -
  have "0 \<notin> set (map ascii ''K> '')" by (simp add: ascii_def)
  from readline_edits_lemma [OF assms(1-4) this] obtain b' s' where
    r: "readline hw (Some (map ascii ''K> '')) b s = Inr (True, b', s')" "length b' = 1024" "string_at b' 0 (map word_of_int line)"
      "screen s' = fold term_putc (map sint (map ascii ''K> '') @ echo) (screen s)" "pend s' = left" "alive s'" by auto
  have crt: "crt_ok s'" using typist.screen_ok [OF assms(1) r(6)] .
  obtain m' q argv where c: "length m' = length b'" "string_at m' q w" "0 \<le> q" "length argv = 15"
    "\<forall>i < length ws. \<exists>a. argv ! i = Some a \<and> string_at m' a (ws ! i)"
    "runcmd hw cmds b' 0 s' =
      (case find (\<lambda>c. map ascii (name c) = w) cmds of
         Some c \<Rightarrow> andThen (func c (length ws) argv m' s') (\<lambda>(r, s'). Inr (r, m', s'))
       | None \<Rightarrow>
           andThen (cprintf hw (c_string unknown_format @ m') 0 [of_int (int (length unknown_format) + 1 + q)] s') (\<lambda>(s', n). Inr (0, m', s')))"
    by (rule runcmd_line [OF r(3) order_refl assms(5,6) crt assms(7)])
  have step: "kmonitor_step hw cmds (b, s) = andThen (runcmd hw cmds b' 0 s') (\<lambda>(r, m, s2). Inr (r < 0, m, s2))"
    unfolding kmonitor_step_def prod.case r(1) andThen_simps by simp
  show ?thesis
  proof (cases "find (\<lambda>c. map ascii (name c) = w) cmds")
    case (Some cmd)
    then have "kmonitor_step hw cmds (b, s) = andThen (func cmd (length ws) argv m' s') (\<lambda>(r, s2). Inr (r < 0, m', s2))"
      unfolding step c(6) by (cases "func cmd (length ws) argv m' s'") auto
    then show ?thesis using Some r c by (intro exI [of _ m'] exI [of _ s'] exI [of _ argv]) simp
  next
    case None
    obtain s2 n where s2: "cprintf hw (c_string unknown_format @ m') 0 [of_int (int (length unknown_format) + 1 + q)] s' = Inr (s2, n)" "alive s2" "pend s2 = pend s'"
        "screen s2 = fold term_putc (unknown_command w) (screen s')"
      using typist.cprintf_printed [OF assms(1) r(6) unknown_output [OF c(2,3)]] c(1) r(2) by auto
    then have "kmonitor_step hw cmds (b, s) = Inr (False, m', s2)" unfolding step c(6) None by (simp del: of_int_add)
    then show ?thesis using None r c s2 by (intro exI [of _ m'] exI [of _ s'] exI [of _ argv]) simp
  qed
qed

theorem kmonitor_runs_typed_command_witness:
  "\<exists>m' s'. kmonitor_step typed_hardware (commands typed_hardware Inr Inr) (replicate 1024 0, blank_console (map ascii ''kernino'' @ [8, 102, 111, 13], [])) = Inr (False, m', s') \<and>
     typed s' = []"
proof -
  let ?keys = "map ascii ''kernino'' @ [8, 102, 111, 13]" and ?cmds = "commands typed_hardware Inr Inr :: (uint8 list \<times> uint8 list) command list"
  let ?s = "blank_console (?keys, []) :: (uint8 list \<times> uint8 list) console" and ?line = "map (\<lambda>c. uint (ascii c)) ''kerninfo''"
  have b: "\<forall>b \<in> set ?keys. b \<noteq> 0 \<and> b \<noteq> 127" by (simp add: ascii_def)
  have e: "edit [] (typed ?s) = Some (?line, map uint ?keys, [])" unfolding typing_blank(2) by (simp add: ascii_def)
  have w: "line_words (map word_of_int ?line) = map ascii ''kerninfo'' # []" by (simp add: ascii_def line_words.simps white_def)
  have n: "\<forall>c \<in> set ?cmds. 0 \<notin> set (map ascii (name c))"
    by (simp add: commands_def help_entry_def kerninfo_entry_def backtrace_entry_def ascii_def)
  have f: "find (\<lambda>c. map ascii (name c) = map ascii ''kerninfo'') ?cmds = Some (?cmds ! 1)"
    by (simp add: commands_def help_entry_def kerninfo_entry_def ascii_def)
  have "typing ?s" by (rule typing_blank(1) [OF b]) simp
  from kmonitor_runs_typed_command [OF typed.typist_axioms this _ e w _ n, of "replicate 1024 0"] obtain m' s' argv where
    "typed s' = []" "kmonitor_step typed_hardware ?cmds (replicate 1024 0, ?s) = andThen (func (?cmds ! 1) 0 argv m' s') (\<lambda>(r, s2). Inr (r < 0, m', s2))"
    unfolding f by auto
  then show ?thesis by (simp add: commands_def)
qed

text \<open>No command returns a negative value, so that the monitor ends only by a fault.\<close>

lemma commands_return_0: "cmd \<in> set (commands hw pk ps) \<Longrightarrow> func cmd n argv m s = Inr (r, s') \<Longrightarrow> r = 0"
  by (auto simp: commands_def mon_help_def andThen_eq_Inr)

lemma find_command_in: "find_command m a cmds = Inr (Some c) \<Longrightarrow> c \<in> set cmds"
  by (induction cmds) (auto simp: andThen_eq_Inr split: if_splits)

lemma kmonitor_step_goes_on: "kmonitor_step hw (commands hw pk ps) t = Inr r \<Longrightarrow> \<not> fst r"
  by (auto simp: kmonitor_step_def runcmd_def andThen_eq_Inr split: prod.splits if_splits option.splits dest!: find_command_in dest: commands_return_0)

lemma kmonitor_never_exits:
  assumes "kmonitor_loop hw cmds t = Some r" "cmds = commands hw pk ps"
  shows "\<exists>e. r = Inl e"
proof -
  have "cmds = commands hw pk ps \<longrightarrow> (\<exists>e. r = Inl e)"
  proof (rule kmonitor_loop.raw_induct [OF _ assms(1)])
    fix f hw cmds t r
    assume IH: "\<And>hw cmds t r. f hw cmds t = Some r \<Longrightarrow> cmds = commands hw pk ps \<longrightarrow> (\<exists>e. r = Inl e)"
      and r: "(case kmonitor_step hw cmds t of Inl e \<Rightarrow> Some (Inl e) | Inr r \<Rightarrow> if fst r then Some (Inr (snd r)) else f hw cmds (snd r)) = Some r"
    show "cmds = commands hw pk ps \<longrightarrow> (\<exists>e. r = Inl e)"
    proof (cases "kmonitor_step hw cmds t")
      case (Inr x)
      then show ?thesis using r IH [of hw cmds "snd x" r] kmonitor_step_goes_on [of hw pk ps t x] by auto
    qed (use r in auto)
  qed
  then show ?thesis using assms(2) by simp
qed

end
