(* ===== verification/Trap_Correct.thy ===== *)
theory Trap_Correct
  imports Trap Keyboard Monitor_Correct
begin

text \<open>
  Traps: the clock counts modulo 100 and prints once in 100 ticks, and every trap keeps the console and the counter well-formed.
\<close>

section \<open>The format of echoed input\<close>

lemma directive_flags:
  assumes "load m p = Inr (ascii CHR ''%'')" "reswitch m (p + 1) flags0 ap = Inr (c, p', fl, ap1)" "convert pe collect (\<lambda>_. m) c fl ap1 out = Inr (Some (out', ap'))"
  shows "vprintfmt_loop pe collect (\<lambda>_. m) p ap out = vprintfmt_loop pe collect (\<lambda>_. m) p' ap' out'"
  by (subst vprintfmt_loop_eq) (simp add: assms)

lemma reswitch_03d:
  assumes "string_at m p (ascii CHR ''0'' # ascii CHR ''3'' # ascii CHR ''d'' # xs)"
  shows "reswitch m p flags0 ap = Inr (ascii CHR ''d'', p + 1 + 1 + 1, flags0\<lparr>padc := uint (ascii CHR ''0''), width := 3\<rparr>, ap)"
proof -
  have l: "load m p = Inr 48" "load m (p + 1) = Inr 51" "load m (p + 1 + 1) = Inr 100" using assms by (simp_all add: ascii_def)
  have as: "ascii CHR ''0'' = 48" "ascii CHR ''-'' = 45" "ascii CHR ''d'' = 100" "ascii CHR ''9'' = 57" by (simp_all add: ascii_def)
  have dg: "is_digit 51" "\<not> is_digit 100" "no_flag 100" by (simp_all add: is_digit_def no_flag_def ascii_def)
  have w: "width_loop m (p + 1 + 1) 51 0 = Inr (3, p + 1 + 1)" using l dg by (subst width_loop.simps) (simp add: as Let_def int32_def)
  have pp: "process_precision (flags0\<lparr>padc := uint (48 :: uint8), precision := 3\<rparr>) = flags0\<lparr>padc := uint (48 :: uint8), width := 3\<rparr>"
    by (simp add: process_precision_def flags0_def)
  have "reswitch m (p + 1) (flags0\<lparr>padc := uint (48 :: uint8)\<rparr>) ap = reswitch m (p + 1 + 1) (flags0\<lparr>padc := uint (48 :: uint8), width := 3\<rparr>) ap"
    by (subst reswitch.simps) (simp only: l(2) w pp dg(1) as sum.case fst_conv snd_conv if_True, simp)
  also have "\<dots> = Inr (100, p + 1 + 1 + 1, flags0\<lparr>padc := uint (48 :: uint8), width := 3\<rparr>, ap)" by (rule reswitch_no_flag [OF l(3) dg(3)])
  finally show ?thesis by (subst reswitch.simps) (simp only: l(1) as sum.case if_True refl, simp)
qed

lemma convert_d_wide:
  assumes "0 \<le> wd" "wd < 2 ^ 31"
  shows "\<exists>out'. convert pe collect (\<lambda>_. m) (ascii CHR ''d'') (flags0\<lparr>padc := pc, width := wd\<rparr>) (w # ap) out = Inr (Some (out', ap))"
proof -
  have p: "\<exists>out'. printnum collect num 10 wd pc out1 = Inr out'" for num out1
    using printnum_correct [of 10 wd num pc out1] assms by auto
  define num :: "64 word" where "num = scast w"
  define out1 where "out1 = (if sint num < 0 then out @ [uint (ascii CHR ''-'')] else out)"
  obtain out' where "printnum collect (if sint num < 0 then - num else num) 10 wd pc out1 = Inr out'" using p by blast
  then have "convert pe collect (\<lambda>_. m) (ascii CHR ''d'') (flags0\<lparr>padc := pc, width := wd\<rparr>) (w # ap) out = Inr (Some (out', ap))"
    unfolding convert_def getint_def va_word_def flags0_def collect_def out1_def num_def by (simp add: ascii_def split: if_splits)
  then show ?thesis by blast
qed

lemma echo_output:
  assumes "0 \<notin> set (map ascii pre)" "ascii CHR ''%'' \<notin> set (map ascii pre)"
  shows "\<exists>out. format_output (c_string (pre @ ''%03d] %c'' @ newline)) 0 [w, v] = Inr out"
proof -
  let ?a = "map ascii pre" and ?b = "map ascii ''] ''" and ?d = "[10 :: uint8]" and ?m = "c_string (pre @ ''%03d] %c'' @ newline)"
  let ?f = "?a @ ascii CHR ''%'' # ascii CHR ''0'' # ascii CHR ''3'' # ascii CHR ''d'' # ?b @ ascii CHR ''%'' # ascii CHR ''c'' # ?d"
  have nl: "ascii CHR 0x0A = 10" by (simp add: ascii_def)
  have e: "?m = ?f @ [0]" by (simp add: c_string_def newline_def nl)
  have "0 \<notin> set ?f" using assms(1) by (auto simp: ascii_def)
  then have s: "string_at ?m 0 ?f" unfolding e by (rule string_at_start)
  let ?p = "0 + int (length ?a)"
  have s1: "string_at ?m ?p (ascii CHR ''%'' # ascii CHR ''0'' # ascii CHR ''3'' # ascii CHR ''d'' # ?b @ ascii CHR ''%'' # ascii CHR ''c'' # ?d)"
    by (rule string_at_rest [OF s])
  then have l: "load ?m ?p = Inr (ascii CHR ''%'')" and s2: "string_at ?m (?p + 1) (ascii CHR ''0'' # ascii CHR ''3'' # ascii CHR ''d'' # ?b @ ascii CHR ''%'' # ascii CHR ''c'' # ?d)"
    unfolding string_at.simps(2) by blast+
  then have s3: "string_at ?m (?p + 1 + 1 + 1 + 1) (?b @ ascii CHR ''%'' # ascii CHR ''c'' # ?d)" unfolding string_at.simps(2) by blast
  have pb: "ascii CHR ''%'' \<notin> set ?b" and pd: "ascii CHR ''%'' \<notin> set ?d" by (simp_all add: ascii_def)
  have s4: "string_at ?m (?p + 1 + 1 + 1 + 1 + int (length ?b)) (ascii CHR ''%'' # ascii CHR ''c'' # ?d)" by (rule string_at_rest [OF s3])
  then have s5: "string_at ?m (?p + 1 + 1 + 1 + 1 + int (length ?b) + 1 + 1) ?d" unfolding string_at.simps(2) by blast
  have nf: "no_flag (ascii CHR ''c'')" by (simp add: no_flag_def is_digit_def ascii_def)
  obtain out1 where c1: "convert (print_error collect) collect (\<lambda>_. ?m) (ascii CHR ''d'') (flags0\<lparr>padc := uint (ascii CHR ''0''), width := 3\<rparr>) [w, v] ([] @ map uint ?a) = Inr (Some (out1, [v]))"
    using convert_d_wide [of 3 "print_error collect" ?m "uint (ascii CHR ''0'')" w "[v]" "[] @ map uint ?a"] by auto
  have c2: "convert (print_error collect) collect (\<lambda>_. ?m) (ascii CHR ''c'') flags0 [v] (out1 @ map uint ?b) = Inr (Some ((out1 @ map uint ?b) @ [sint v], []))"
    by (simp add: convert_def va_word_def collect_def)
  show ?thesis unfolding format_output_def vprintfmt_def vprintfmt_live_def plain_prefix [OF s assms(2)] directive_flags [OF l reswitch_03d [OF s2] c1]
      plain_prefix [OF s3 pb] directive_step [OF s4 nf c2] plain_loop [OF s5 pd] by blast
qed

lemma cprint_shown:
  assumes "crt_ok s" "format_output (c_string fmt @ fst (arg_memory (length fmt + 1) args)) 0 (snd (arg_memory (length fmt + 1) args)) = Inr out"
  shows "\<exists>s'. cprint hw fmt args s = Inr s' \<and> crt_ok s' \<and> same_input s s' \<and> screen s' = fold term_putc out (screen s)"
  using cprintf_shown [OF assms, of hw] by (auto simp: cprint_def split_beta shown_def)

section \<open>Input keeps the console well-formed\<close>

definition console_ok :: "'w console \<Rightarrow> bool" where
  "console_ok s \<longleftrightarrow> crt_ok s \<and> ring_ok (cons s)"

definition proc_ok :: "'w proc \<Rightarrow> bool" where
  "proc_ok proc \<longleftrightarrow> (\<forall>s. crt_ok s \<longrightarrow> (\<exists>c s'. proc s = Inr (c, s') \<and> crt_ok s' \<and> (c = - 1 \<or> 0 \<le> c \<and> c < 256) \<and> cons s' = cons s))"

lemma cons_intr_ok:
  assumes "cons_intr proc s = Some r" "proc_ok proc" "console_ok s"
  shows "\<exists>s'. r = Inr s' \<and> console_ok s'"
proof -
  have "proc_ok proc \<longrightarrow> console_ok s \<longrightarrow> (\<exists>s'. r = Inr s' \<and> console_ok s')"
  proof (rule cons_intr.raw_induct [OF _ assms(1)], intro impI)
    fix f and proc :: "'a proc" and s r
    assume IH: "\<And>proc s r. f proc s = Some r \<Longrightarrow> proc_ok proc \<longrightarrow> console_ok s \<longrightarrow> (\<exists>s'. r = Inr s' \<and> console_ok s')"
      and r: "(case proc s of Inl e \<Rightarrow> Some (Inl e)
         | Inr r \<Rightarrow> if fst r = - 1 then Some (Inr (snd r))
             else if fst r \<noteq> 0 then (case cons_put (fst r) (cons (snd r)) of Inl e \<Rightarrow> Some (Inl e) | Inr q \<Rightarrow> f proc ((snd r)\<lparr>cons := q\<rparr>))
             else f proc (snd r)) = Some r"
      and p: "proc_ok proc" and ok: "console_ok s"
    obtain c s1 where s1: "proc s = Inr (c, s1)" "crt_ok s1" "c = - 1 \<or> 0 \<le> c \<and> c < 256" "cons s1 = cons s"
      using p ok unfolding proc_ok_def console_ok_def by blast
    have ok1: "console_ok s1" using s1 ok by (simp add: console_ok_def)
    consider (dry) "c = - 1" | (none) "c = 0" | (char) "c \<noteq> - 1" "c \<noteq> 0" by blast
    then show "\<exists>s'. r = Inr s' \<and> console_ok s'"
    proof cases
      case dry
      then show ?thesis using r s1 ok1 by auto
    next
      case none
      then show ?thesis using r s1 IH [of proc s1 r] p ok1 by simp
    next
      case char
      then obtain q where q: "cons_put c (cons s1) = Inr q" "ring_ok q" using ring_put [of "cons s1" c] ok1 s1(3) by (auto simp: console_ok_def)
      then have "console_ok (s1\<lparr>cons := q\<rparr>)" using s1(2) by (simp add: console_ok_def crt_ok_def)
      then show ?thesis using r s1 char q IH [of proc "s1\<lparr>cons := q\<rparr>" r] p by simp
    qed
  qed
  then show ?thesis using assms(2,3) by blast
qed

lemma serial_proc_ok: "proc_ok (serial_proc_data hw)"
  unfolding proc_ok_def
proof (intro allI impI)
  fix s :: "'a console"
  assume ok: "crt_ok s"
  obtain v s1 where i1: "inb hw (COM1 + COM_LSR) s = (v, s1)" by fastforce
  obtain b s2 where i2: "inb hw (COM1 + COM_RX) s1 = (b, s2)" by fastforce
  have "crt_ok s1" "crt_ok s2" using ok same_consoleD(2) [OF inb_same [OF i1]] same_consoleD(2) [OF inb_same [OF i2]] by simp_all
  moreover obtain r where "serial_proc_data hw s = Inr r" by (cases "v AND COM_LSR_DATA = 0") (auto simp: serial_proc_data_def i1 i2)
  moreover have "snd r \<in> {s1, s2}" using calculation(3) by (auto simp: serial_proc_data_def i1 i2 Let_def split: if_splits)
  moreover have "cons (snd r) = cons s" using serial.keeps_ring [of hw s "fst r" "snd r"] calculation(3) by simp
  ultimately show "\<exists>c s'. serial_proc_data hw s = Inr (c, s') \<and> crt_ok s' \<and> (c = - 1 \<or> 0 \<le> c \<and> c < 256) \<and> cons s' = cons s"
    using serial.byte [of hw s "fst r" "snd r"] by (intro exI [of _ "fst r"] exI [of _ "snd r"]) auto
qed

lemma kbd_proc_ok: "proc_ok (kbd_proc_data hw)"
  unfolding proc_ok_def
proof (intro allI impI)
  fix s :: "'a console"
  assume ok: "crt_ok s"
  obtain st s1 where i1: "inb hw KBSTATP s = (st, s1)" by fastforce
  obtain d s2 where i2: "inb hw KBDATAP s1 = (d, s2)" by fastforce
  have ok1: "crt_ok s1" using ok same_consoleD(2) [OF inb_same [OF i1]] by simp
  obtain c s' where r: "kbd_proc_data hw s = Inr (c, s')" "crt_ok s'"
  proof (cases "st AND KBS_DIB = 0")
    case True
    then show thesis using that [of "- 1" s1] ok1 by (simp add: kbd_proc_data_def i1)
  next
    case False
    then show thesis using kbd_proc_data_refines_lemma [OF ok i1 _ i2] that by blast
  qed
  then show "\<exists>c s'. kbd_proc_data hw s = Inr (c, s') \<and> crt_ok s' \<and> (c = - 1 \<or> 0 \<le> c \<and> c < 256) \<and> cons s' = cons s"
    using kbd.byte [OF r(1)] kbd.keeps_ring [OF r(1)] by blast
qed

lemma run_loop_ok:
  assumes "proc_ok proc" "console_ok s"
  shows "case run_loop (cons_intr proc s) of Inl e \<Rightarrow> e = Diverges | Inr s' \<Rightarrow> console_ok s'"
  using cons_intr_ok [OF _ assms] by (cases "cons_intr proc s") auto

lemma cons_getc_ok:
  assumes "console_ok s"
  shows "case cons_getc hw s of Inl e \<Rightarrow> e = Diverges | Inr r \<Rightarrow> console_ok (snd r)"
proof -
  have 1: "case serial_intr hw s of Inl e \<Rightarrow> e = Diverges | Inr s' \<Rightarrow> console_ok s'"
    using run_loop_ok [OF serial_proc_ok assms, of hw] assms by (simp add: serial_intr_def)
  show ?thesis
  proof (cases "serial_intr hw s")
    case (Inr s1)
    then have ok1: "console_ok s1" using 1 by simp
    have 2: "case kbd_intr hw s1 of Inl e \<Rightarrow> e = Diverges | Inr s' \<Rightarrow> console_ok s'"
      using run_loop_ok [OF kbd_proc_ok ok1, of hw] by (simp add: kbd_intr_def)
    show ?thesis
    proof (cases "kbd_intr hw s1")
      case (Inr s2)
      then have ok2: "console_ok s2" using 2 by simp
      then obtain c q where q: "cons_take (cons s2) = Inr (c, q)" "ring_ok q" using ring_take [of "cons s2"] by (auto simp: console_ok_def)
      then have "cons_getc hw s = Inr (c, s2\<lparr>cons := q\<rparr>)" using \<open>serial_intr hw s = Inr s1\<close> Inr by (simp add: cons_getc_def)
      then show ?thesis using q(2) ok2 by (simp add: console_ok_def crt_ok_def)
    qed (use 2 \<open>serial_intr hw s = Inr s1\<close> in \<open>simp add: cons_getc_def\<close>)
  qed (use 1 in \<open>simp add: cons_getc_def\<close>)
qed

section \<open>The clock\<close>

definition ticks_line :: byte_mem where
  "ticks_line = map ascii ''100 ticks'' @ [10]"

lemma ticks_output: "format_output (c_string (''%d ticks'' @ newline)) 0 [of_nat TICK_NUM] = Inr (map uint ticks_line)"
proof -
  let ?b = "map ascii '' ticks'' @ [10 :: uint8]" and ?m = "c_string (''%d ticks'' @ newline)"
  have nl: "ascii CHR 0x0A = 10" by (simp add: ascii_def)
  have e: "?m = (ascii CHR ''%'' # ascii CHR ''d'' # ?b) @ [0]" by (simp add: c_string_def newline_def nl)
  have "0 \<notin> set (ascii CHR ''%'' # ascii CHR ''d'' # ?b)" by (simp add: ascii_def)
  then have s: "string_at ?m 0 (ascii CHR ''%'' # ascii CHR ''d'' # ?b)" unfolding e by (rule string_at_start)
  then have s2: "string_at ?m (0 + 1 + 1) ?b" unfolding string_at.simps(2) by blast
  have nf: "no_flag (ascii CHR ''d'')" by (simp add: no_flag_def is_digit_def ascii_def)
  have pb: "ascii CHR ''%'' \<notin> set ?b" by (simp add: ascii_def)
  have "sint (of_nat TICK_NUM :: uint32) = 100" "unat (of_nat TICK_NUM :: uint32) = 100" by (simp_all add: TICK_NUM_def)
  then have c: "convert pe collect (\<lambda>_. ?m) (ascii CHR ''d'') flags0 [of_nat TICK_NUM] out = Inr (Some (out @ map uint (map hex_digit (digits_of 10 100)), []))" for pe out
    using convert_d [of "of_nat TICK_NUM" pe ?m "[]" out] by simp
  have d: "map hex_digit (digits_of 10 100) = map ascii ''100''" by (simp add: digits_of.simps hex_digit_def)
  show ?thesis unfolding format_output_def vprintfmt_def vprintfmt_live_def directive_step [OF s nf c] plain_loop [OF s2 pb] d by (simp add: ticks_line_def)
qed

definition kernel_ok :: "'w kernel \<Rightarrow> bool" where
  "kernel_ok k \<longleftrightarrow> console_ok (con k) \<and> unat (ticks k) < TICK_NUM"

definition is_timer :: "trapframe \<Rightarrow> bool" where
  "is_timer tf \<longleftrightarrow> tf_trapno tf = 32"

lemma timer_trap:
  assumes "is_timer tf" "kernel_ok k"
  shows "\<exists>k'. trap hw addr k tf = Inr (k', tf) \<and> kernel_ok k' \<and> unat (ticks k') = (unat (ticks k) + 1) mod 100 \<and>
    screen (con k') = (if unat (ticks k) = 99 then fold term_putc (map uint ticks_line) (screen (con k)) else screen (con k))"
proof -
  let ?k = "k\<lparr>ticks := ticks k + 1\<rparr>"
  have t: "unat (ticks k) < 100" using assms(2) by (simp add: kernel_ok_def TICK_NUM_def)
  then have u: "unat (ticks k + 1) = unat (ticks k) + 1" by (simp add: unat_word_ariths)
  have m: "(ticks k + 1) mod of_nat TICK_NUM = 0 \<longleftrightarrow> unat (ticks k) = 99"
  proof -
    have "(ticks k + 1) mod 100 = 0 \<longleftrightarrow> unat ((ticks k + 1) mod 100) = 0" by (simp add: unat_eq_0)
    also have "unat ((ticks k + 1) mod 100) = (unat (ticks k) + 1) mod 100" by (simp add: unat_mod_distrib u)
    also have "\<dots> = 0 \<longleftrightarrow> unat (ticks k) = 99" using t by (cases "unat (ticks k) = 99") auto
    finally show ?thesis by (simp add: TICK_NUM_def)
  qed
  have no: "tf_trapno tf = of_nat (IRQ_OFFSET + IRQ_TIMER)" using assms(1) by (simp add: is_timer_def IRQ_OFFSET_def IRQ_TIMER_def)
  show ?thesis
  proof (cases "unat (ticks k) = 99")
    case True
    obtain s where s: "print_ticks hw (con k) = Inr s" "crt_ok s" "same_input (con k) s" "screen s = fold term_putc (map uint ticks_line) (screen (con k))"
      using cprint_shown [of "con k" "''%d ticks'' @ newline" "[Word (of_nat TICK_NUM)]" _ hw] ticks_output assms(2)
      by (auto simp: print_ticks_def kernel_ok_def console_ok_def)
    have "trap hw addr k tf = Inr (k\<lparr>ticks := 0, con := s\<rparr>, tf)" using no m True s(1) by (simp add: trap_def trap_dispatch_def Let_def)
    moreover have "kernel_ok (k\<lparr>ticks := 0, con := s\<rparr>)" using s assms(2) by (simp add: kernel_ok_def console_ok_def same_input_def TICK_NUM_def)
    ultimately show ?thesis using True s(4) by simp
  next
    case False
    then have "trap hw addr k tf = Inr (?k, tf)" using no m by (simp add: trap_def trap_dispatch_def Let_def)
    moreover have "kernel_ok ?k" using assms(2) False t u by (simp add: kernel_ok_def TICK_NUM_def)
    ultimately show ?thesis using False t u by simp
  qed
qed

fun run_traps :: "'w hardware \<Rightarrow> uint32 \<Rightarrow> trapframe list \<Rightarrow> 'w kernel \<Rightarrow> 'w kernel outcome" where
  "run_traps hw addr [] k = Inr k"
| "run_traps hw addr (tf # tfs) k = andThen (trap hw addr k tf) (\<lambda>(k', tf'). run_traps hw addr tfs k')"

section \<open>Every trap\<close>

definition handled :: "nat list" where
  "handled = [32, 33, 36, 46, 47, 120, 121]"

text \<open>A trap that the kernel does not expect: an exception of the kernel itself.\<close>

definition unexpected :: "trapframe \<Rightarrow> bool" where
  "unexpected tf \<longleftrightarrow> unat (tf_trapno tf) \<notin> set handled \<and> tf_cs tf AND 3 = 0"

lemma echo_input_ok:
  assumes "kernel_ok k" "0 \<notin> set (map ascii pre)" "ascii CHR ''%'' \<notin> set (map ascii pre)"
  shows "case echo_input hw (pre @ ''%03d] %c'' @ newline) k of Inl e \<Rightarrow> e = Diverges | Inr k' \<Rightarrow> kernel_ok k'"
proof (cases "cons_getc hw (con k)")
  case (Inl e)
  then show ?thesis using cons_getc_ok [of "con k" hw] assms(1) by (simp add: echo_input_def kernel_ok_def)
next
  case (Inr r)
  then have ok: "console_ok (snd r)" using cons_getc_ok [of "con k" hw] assms(1) by (simp add: kernel_ok_def)
  let ?w = "scast (word_of_int (fst r) :: uint8) :: uint32"
  obtain out where "format_output (c_string (pre @ ''%03d] %c'' @ newline)) 0 [?w, ?w] = Inr out" using echo_output [OF assms(2,3)] by blast
  then obtain s where s: "cprint hw (pre @ ''%03d] %c'' @ newline) [Word ?w, Word ?w] (snd r) = Inr s" "crt_ok s" "same_input (snd r) s"
    using cprint_shown [of "snd r" "pre @ ''%03d] %c'' @ newline" "[Word ?w, Word ?w]" out hw] ok by (auto simp: console_ok_def)
  then have "echo_input hw (pre @ ''%03d] %c'' @ newline) k = Inr (k\<lparr>con := s\<rparr>)" by (simp add: echo_input_def Inr split_beta Let_def)
  then show ?thesis using s(2,3) ok assms(1) by (simp add: kernel_ok_def console_ok_def same_input_def)
qed

lemma trap_ok:
  assumes "kernel_ok k"
  shows "case trap hw addr k tf of Inl e \<Rightarrow> unexpected tf \<or> e = Diverges \<and> unat (tf_trapno tf) \<in> {33, 36}
    | Inr (k', tf') \<Rightarrow> kernel_ok k' \<and> tf_cs tf' AND 3 = (if tf_trapno tf = 120 then 3 else if tf_trapno tf = 121 then 0 else tf_cs tf AND 3)"
proof -
  have nos: "of_nat (IRQ_OFFSET + IRQ_TIMER) = (32 :: uint32)" "of_nat (IRQ_OFFSET + IRQ_COM1) = (36 :: uint32)" "of_nat (IRQ_OFFSET + IRQ_KBD) = (33 :: uint32)"
    "of_nat T_SWITCH_TOU = (120 :: uint32)" "of_nat T_SWITCH_TOK = (121 :: uint32)" "of_nat (IRQ_OFFSET + IRQ_IDE1) = (46 :: uint32)" "of_nat (IRQ_OFFSET + IRQ_IDE2) = (47 :: uint32)"
    by (simp_all add: IRQ_OFFSET_def IRQ_TIMER_def IRQ_COM1_def IRQ_KBD_def T_SWITCH_TOU_def T_SWITCH_TOK_def IRQ_IDE1_def IRQ_IDE2_def)
  have cs: "USER_CS AND 3 = 3" "KERNEL_CS AND 3 = 0" by (simp_all add: USER_CS_def KERNEL_CS_def GD_UTEXT_def GD_KTEXT_def DPL_USER_def DPL_KERNEL_def)
  have serial: "case echo_input hw (''serial [%03d] %c'' @ newline) k of Inl e \<Rightarrow> e = Diverges | Inr k' \<Rightarrow> kernel_ok k'"
    using echo_input_ok [OF assms, of "''serial [''" hw] by (simp add: ascii_def)
  have kbd: "case echo_input hw (''kbd [%03d] %c'' @ newline) k of Inl e \<Rightarrow> e = Diverges | Inr k' \<Rightarrow> kernel_ok k'"
    using echo_input_ok [OF assms, of "''kbd [''" hw] by (simp add: ascii_def)
  let ?no = "tf_trapno tf"
  note e = trap_def [of hw addr k tf, unfolded trap_dispatch_def nos Let_def]
  consider (timer) "?no = 32" | (serial) "?no = 36" | (kbd) "?no = 33" | (tou) "?no = 120" | (tok) "?no = 121" | (ide) "?no = 46 \<or> ?no = 47"
    | (other) "?no \<noteq> 32" "?no \<noteq> 36" "?no \<noteq> 33" "?no \<noteq> 120" "?no \<noteq> 121" "?no \<noteq> 46" "?no \<noteq> 47" by blast
  then show ?thesis
  proof cases
    case timer
    then show ?thesis using timer_trap [of tf k hw addr] assms by (auto simp: is_timer_def)
  next
    case serial
    then show ?thesis using \<open>case echo_input hw (''serial [%03d] %c'' @ newline) k of Inl e \<Rightarrow> _ e | Inr k' \<Rightarrow> _ k'\<close>
      by (cases "echo_input hw (''serial [%03d] %c'' @ newline) k") (simp_all add: e)
  next
    case kbd
    then show ?thesis using \<open>case echo_input hw (''kbd [%03d] %c'' @ newline) k of Inl e \<Rightarrow> _ e | Inr k' \<Rightarrow> _ k'\<close>
      by (cases "echo_input hw (''kbd [%03d] %c'' @ newline) k") (simp_all add: e)
  next
    case tou
    then show ?thesis using assms cs by (simp add: e)
  next
    case tok
    then show ?thesis using assms cs by (simp add: e)
  next
    case ide
    then show ?thesis using assms by (auto simp: e)
  next
    case other
    then have "unat ?no \<notin> set handled" by (simp add: handled_def word_unat_eq_iff)
    then show ?thesis using other assms
      by (cases "tf_cs tf AND 3 = 0"; cases "print_trapframe hw addr tf (con k)") (simp_all add: e unexpected_def)
  qed
qed

section \<open>Properties\<close>

text \<open>
  C39. The clock. Any number of timer interrupts is handled: the counter counts them modulo 100, and the line \<open>100 ticks\<close> is shown once for every 100 of
  them, and nothing else.
\<close>

theorem timer_prints:
  assumes "kernel_ok k" "\<forall>tf \<in> set tfs. is_timer tf"
  shows "\<exists>k'. run_traps hw addr tfs k = Inr k' \<and> kernel_ok k' \<and> unat (ticks k') = (unat (ticks k) + length tfs) mod 100 \<and>
    screen (con k') = (fold term_putc (map uint ticks_line) ^^ ((unat (ticks k) + length tfs) div 100)) (screen (con k))"
  using assms
proof (induction tfs arbitrary: k)
  case Nil
  then show ?case by (simp add: kernel_ok_def TICK_NUM_def)
next
  case (Cons tf tfs)
  let ?t = "unat (ticks k)" and ?line = "fold term_putc (map uint ticks_line)"
  have t: "?t < 100" using Cons.prems(1) by (simp add: kernel_ok_def TICK_NUM_def)
  obtain k1 where k1: "trap hw addr k tf = Inr (k1, tf)" "kernel_ok k1" "unat (ticks k1) = (?t + 1) mod 100"
      "screen (con k1) = (if ?t = 99 then ?line (screen (con k)) else screen (con k))"
    using timer_trap [of tf k hw addr] Cons.prems by auto
  obtain k' where k': "run_traps hw addr tfs k1 = Inr k'" "kernel_ok k'" "unat (ticks k') = (unat (ticks k1) + length tfs) mod 100"
      "screen (con k') = (?line ^^ ((unat (ticks k1) + length tfs) div 100)) (screen (con k1))"
    using Cons.IH [OF k1(2)] Cons.prems(2) by auto
  have "unat (ticks k') = (?t + length (tf # tfs)) mod 100" using k'(3) k1(3) by (simp add: mod_simps)
  moreover have "screen (con k') = (?line ^^ ((?t + length (tf # tfs)) div 100)) (screen (con k))"
  proof (cases "?t = 99")
    case True
    then have "(?t + length (tf # tfs)) div 100 = Suc (length tfs div 100)" by simp
    then show ?thesis using True k'(4) k1(3,4) by (simp add: funpow_swap1)
  next
    case False
    then show ?thesis using t k'(4) k1(3,4) by simp
  qed
  ultimately show ?case using k1(1) k'(1,2) by simp
qed

definition trap_of :: "uint32 \<Rightarrow> uint16 \<Rightarrow> trapframe" where
  "trap_of no cs =
     \<lparr>tf_regs = \<lparr>reg_edi = 0, reg_esi = 0, reg_ebp = 0, reg_oesp = 0, reg_ebx = 0, reg_edx = 0, reg_ecx = 0, reg_eax = 0\<rparr>,
      tf_gs = 0, tf_fs = 0, tf_es = 0, tf_ds = 0, tf_trapno = no, tf_err = 0, tf_eip = 0, tf_cs = cs, tf_eflags = 0, tf_esp = 0, tf_ss = 0\<rparr>"

lemma example_kernel_ok: "unat t < 100 \<Longrightarrow> kernel_ok \<lparr>con = blank_console w, ticks = t\<rparr>"
  using blank_console_ok [of w] by (simp add: kernel_ok_def console_ok_def TICK_NUM_def) (simp add: blank_console_def ring_ok_def)

theorem timer_prints_witness:
  "\<exists>k'. run_traps idle_hardware 0 (replicate 103 (trap_of 32 8)) \<lparr>con = blank_console (), ticks = 98\<rparr> = Inr k' \<and> unat (ticks k') = 1 \<and>
     screen (con k') = fold term_putc (map uint ticks_line) (fold term_putc (map uint ticks_line) (screen (blank_console ())))"
proof -
  let ?k = "\<lparr>con = blank_console (), ticks = 98\<rparr>" and ?f = "fold term_putc (map uint ticks_line)"
  have u: "unat (ticks ?k) = 98" by simp
  have "kernel_ok ?k" by (rule example_kernel_ok) simp
  moreover have "\<forall>tf \<in> set (replicate 103 (trap_of 32 8)). is_timer tf" by (simp add: is_timer_def trap_of_def)
  ultimately obtain k' where "run_traps idle_hardware 0 (replicate 103 (trap_of 32 8)) ?k = Inr k'" "unat (ticks k') = (98 + 103) mod 100"
      "screen (con k') = (?f ^^ ((98 + 103) div 100)) (screen (con ?k))"
    using timer_prints [of ?k "replicate 103 (trap_of 32 8)" idle_hardware 0] unfolding u length_replicate by blast
  moreover have "(98 + 103) mod 100 = (1 :: nat)" "(98 + 103) div 100 = Suc (Suc (0 :: nat))" by simp_all
  ultimately show ?thesis by (intro exI [of _ k']) (simp only: funpow.simps comp_apply id_apply kernel.select_convs simp_thms)
qed

text \<open>
  C40. Every trap, whatever its number and frame are, keeps the kernel state well-formed: the cursor is on the screen, the positions of the ring buffer are
  inside it, and the tick counter is below 100. The privilege level in the frame changes only by the two traps made for it. The handler fails only for an
  exception of the kernel itself, where it panics, and does not return only if an input device never runs dry.
\<close>

theorem trap_type_safe:
  assumes "kernel_ok k"
  shows "case trap hw addr k tf of Inl e \<Rightarrow> unexpected tf \<or> e = Diverges \<and> unat (tf_trapno tf) \<in> {33, 36}
    | Inr (k', tf') \<Rightarrow> kernel_ok k' \<and> tf_cs tf' AND 3 = (if tf_trapno tf = 120 then 3 else if tf_trapno tf = 121 then 0 else tf_cs tf AND 3)"
  by (rule trap_ok [OF assms])

theorem trap_type_safe_witness:
  "case trap idle_hardware 0 \<lparr>con = blank_console (), ticks = 99\<rparr> (trap_of 120 8) of Inl e \<Rightarrow> False | Inr (k', tf') \<Rightarrow> kernel_ok k' \<and> tf_cs tf' AND 3 = 3"
proof -
  have "\<not> unexpected (trap_of 120 8)" by (simp add: unexpected_def handled_def trap_of_def)
  then show ?thesis using trap_type_safe [OF example_kernel_ok [of 99 "()"], where hw = idle_hardware and addr = 0 and tf = "trap_of 120 8"]
    by (auto simp: trap_of_def split: sum.splits prod.splits)
qed

end
