(* ===== verification/Backtrace.thy ===== *)
theory Backtrace
  imports Kdebug Monitor
begin

text \<open>
  The dumps of \<open>lab2/kern/debug/kdebug.c\<close> that the monitor calls: \<open>print_kerninfo\<close>, \<open>print_debuginfo\<close> and \<open>print_stackframe\<close>. The addresses of the
  linker, the registers and the words of the stack are arguments.
\<close>

section \<open>print_kerninfo\<close>

record kernel_symbols =
  sym_kern_init :: uint32
  sym_etext :: uint32
  sym_edata :: uint32
  sym_end :: uint32

text \<open>The difference of two pointers is an \<open>int\<close>, and its division rounds towards 0.\<close>

definition footprint :: "kernel_symbols \<Rightarrow> uint32" where
  "footprint sy = (let d = sint (sym_end sy - sym_kern_init sy + 1023) in word_of_int (sgn d * (\<bar>d\<bar> div 1024)))"

definition print_kerninfo :: "'w hardware \<Rightarrow> kernel_symbols \<Rightarrow> 'w console \<Rightarrow> 'w console outcome" where
  "print_kerninfo hw sy s =
     andThen (cprint hw (''Special kernel symbols:'' @ newline) [] s) (\<lambda>s1.
     andThen (cprint hw (''  entry  0x%08x (phys)'' @ newline) [Word (sym_kern_init sy)] s1) (\<lambda>s2.
     andThen (cprint hw (''  etext  0x%08x (phys)'' @ newline) [Word (sym_etext sy)] s2) (\<lambda>s3.
     andThen (cprint hw (''  edata  0x%08x (phys)'' @ newline) [Word (sym_edata sy)] s3) (\<lambda>s4.
     andThen (cprint hw (''  end    0x%08x (phys)'' @ newline) [Word (sym_end sy)] s4) (\<lambda>s5.
       cprint hw (''Kernel executable memory footprint: %dKB'' @ newline) [Word (footprint sy)] s5)))))"

section \<open>print_debuginfo\<close>

text \<open>The loop that copies the name into an array on the stack.\<close>

fun copy_name :: "byte_mem \<Rightarrow> int \<Rightarrow> byte_mem \<Rightarrow> int \<Rightarrow> nat \<Rightarrow> byte_mem outcome" where
  "copy_name m p fnname j 0 = Inr fnname"
| "copy_name m p fnname j (Suc n) = andThen (load m (p + j)) (\<lambda>b. andThen (store fnname j b) (\<lambda>f. copy_name m p f (j + 1) n))"

definition text_at :: "byte_mem \<Rightarrow> int \<Rightarrow> byte_mem" where
  "text_at m p = takeWhile (\<lambda>b. b \<noteq> 0) (drop (nat p) m)"

text \<open>The memory of a name and the position in it.\<close>

definition name_place :: "byte_mem \<Rightarrow> int option \<Rightarrow> byte_mem \<times> int" where
  "name_place stabstr nm = (case nm of None \<Rightarrow> (unknown_name, 0) | Some p \<Rightarrow> (stabstr, p))"

definition print_debuginfo :: "'w hardware \<Rightarrow> stab list \<Rightarrow> byte_mem \<Rightarrow> uint32 \<Rightarrow> 'w console \<Rightarrow> 'w console outcome" where
  "print_debuginfo hw stabs stabstr eip s =
     andThen (debuginfo_eip stabs stabstr eip) (\<lambda>(r, info).
     if r \<noteq> 0 then cprint hw (''    <unknow>: -- 0x%08x --'' @ newline) [Word eip] s
     else
       let (m, p) = name_place stabstr (eip_fn_name info); len = eip_fn_namelen info in
       andThen (copy_name m p (replicate 256 0) 0 (nat len)) (\<lambda>f.
       andThen (store f (max len 0) 0) (\<lambda>fnname.
         cprint hw (''    %s:%d: %s+%d'' @ newline)
           [Text (case name_place stabstr (eip_file info) of (fm, fp) \<Rightarrow> text_at fm fp), Word (word_of_int (eip_line info)), Text (text_at fnname 0),
            Word (eip - eip_fn_addr info)] s)))"

section \<open>print_stackframe\<close>

definition STACKFRAME_DEPTH :: nat where "STACKFRAME_DEPTH = 20"

text \<open>\<open>word_at\<close> reads a word of memory. At most \<open>n\<close> more frames are printed.\<close>

fun stackframe_loop :: "'w hardware \<Rightarrow> stab list \<Rightarrow> byte_mem \<Rightarrow> (uint32 \<Rightarrow> uint32) \<Rightarrow> nat \<Rightarrow> uint32 \<Rightarrow> uint32 \<Rightarrow> 'w console \<Rightarrow> 'w console outcome" where
  "stackframe_loop hw stabs stabstr word_at 0 ebp_val eip_val s = Inr s"
| "stackframe_loop hw stabs stabstr word_at (Suc n) ebp_val eip_val s =
     (if ebp_val \<noteq> 0 then
        andThen (cprint hw ''ebp:0x%08x eip:0x%08x args:'' [Word ebp_val, Word eip_val] s) (\<lambda>s1.
        let args = ebp_val + 8 in
        andThen (cprint hw ''0x%08x 0x%08x 0x%08x 0x%08x'' [Word (word_at args), Word (word_at (args + 4)), Word (word_at (args + 8)), Word (word_at (args + 12))] s1) (\<lambda>s2.
        andThen (cprint hw newline [] s2) (\<lambda>s3.
        andThen (print_debuginfo hw stabs stabstr (eip_val - 1) s3) (\<lambda>s4.
          stackframe_loop hw stabs stabstr word_at n (word_at ebp_val) (word_at (ebp_val + 4)) s4))))
      else Inr s)"

definition print_stackframe :: "'w hardware \<Rightarrow> stab list \<Rightarrow> byte_mem \<Rightarrow> (uint32 \<Rightarrow> uint32) \<Rightarrow> uint32 \<Rightarrow> uint32 \<Rightarrow> 'w console \<Rightarrow> 'w console outcome" where
  "print_stackframe hw stabs stabstr word_at ebp eip s = stackframe_loop hw stabs stabstr word_at STACKFRAME_DEPTH ebp eip s"

section \<open>A name of 256 characters or more\<close>

lemma copy_name_fault: "0 \<le> j \<Longrightarrow> j \<le> int (length f) \<Longrightarrow> int (length f) < j + int n \<Longrightarrow> copy_name m p f j n = Inl Out_of_bounds"
proof (induction m p f j n rule: copy_name.induct)
  case (2 m p f j n)
  show ?case
  proof (cases "load m (p + j)")
    case (Inl e)
    then show ?thesis by (auto simp: load_def array_get_def split: if_splits)
  next
    case (Inr b)
    show ?thesis
    proof (cases "j < int (length f)")
      case True
      then have "store f j b = Inr (f[nat j := b])" using "2.prems"(1) by (simp add: store_in)
      then show ?thesis using Inr "2.IH" [of "f[nat j := b]"] "2.prems" True by simp
    next
      case False
      then show ?thesis using Inr by (simp add: store_def array_set_def)
    qed
  qed
qed simp

lemma print_debuginfo_long_name:
  assumes "debuginfo_eip stabs stabstr eip = Inr (0, info)" "256 \<le> eip_fn_namelen info"
  shows "print_debuginfo hw stabs stabstr eip s = Inl Out_of_bounds"
proof (cases "256 < eip_fn_namelen info")
  case True
  then show ?thesis using assms(1) copy_name_fault [of 0 "replicate 256 0" "nat (eip_fn_namelen info)"] by (simp add: print_debuginfo_def split_beta Let_def)
next
  case False
  then have len: "eip_fn_namelen info = 256" using assms(2) by simp
  have keep: "copy_name m p f j n = Inr f' \<Longrightarrow> length f' = length f" for m p f j n f'
    by (induction m p f j n rule: copy_name.induct) (auto simp: andThen_eq_Inr store_Inr)
  obtain m p where np: "name_place stabstr (eip_fn_name info) = (m, p)" by fastforce
  show ?thesis
  proof (cases "copy_name m p (replicate 256 0) 0 256")
    case (Inl e)
    have "copy_name m p f j n = Inl e \<Longrightarrow> e = Out_of_bounds" for f j n
      by (induction m p f j n rule: copy_name.induct) (auto simp: andThen_def load_def store_def array_get_def array_set_def split: sum.splits if_splits)
    then show ?thesis using Inl assms(1) np len by (simp add: print_debuginfo_def Let_def)
  next
    case (Inr f)
    then have "length f = 256" using keep by fastforce
    then show ?thesis using Inr assms(1) np len by (simp add: print_debuginfo_def Let_def store_def array_set_def)
  qed
qed

end
