(* ===== verification/Spec2Isabelle.thy ===== *)
theory Spec2Isabelle
  imports First_Fit Bankers HDD_Scheduling Page_Replacement Scheduler_Threads Heap_Queue Printf_Correct Paging Peterson Producer_Consumer_Correct Kdebug Trap_Correct Backtrace
begin

text \<open>
  \<^bold>\<open>The programs.\<close>
  The repository holds the homework of an operating-systems course: a small x86 kernel (\<open>Labweek11/lab2\<close>, of which \<open>Labweek1/lab1\<close> is
  an earlier state) and independent C programs, one directory per week. This library models the parts with logic of their own: the kernel
  below the processor's instructions, and the scheduling, paging, deadlock, locking and heap programs.

  \<^bold>\<open>How the parts of the kernel interact.\<close>
  An interrupt enters \<open>trap_dispatch\<close> (\<open>kern/trap/trap.c\<close>), which counts clock ticks and reads a character of the serial port or the keyboard
  through \<open>cons_getc\<close>. The console (\<open>kern/driver/console.c\<close>) keeps the characters in a ring buffer and writes to the screen, the printer and the
  serial port. Above it \<open>kern/libs/stdio.c\<close> prints with \<open>vprintfmt\<close> of \<open>libs/printfmt.c\<close>, one character at a time through a pointer to \<open>cputch\<close>, and
  \<open>kern/libs/readline.c\<close> edits a line. The monitor (\<open>kern/debug/kmonitor.c\<close>) splits this line with the functions of \<open>libs/string.c\<close> and runs a command; two
  commands dump the stack by the symbol search of \<open>kern/debug/kdebug.c\<close>. Physical pages come from the first-fit allocator
  (\<open>kern/mm/default_pmm.c\<close>, over the lists of \<open>libs/list.h\<close>) behind the table of functions \<open>pmm_manager\<close>; the page tables of \<open>kern/mm/pmm.c\<close> take
  their pages from it.

  \<^bold>\<open>Theories and sources\<close> (paths of the kernel below \<open>Labweek11/lab2\<close>):
  \<^item> \<open>Prelude\<close>: outcomes (\<open>Inl\<close> a fault, a failed assertion or a loop that does not end; \<open>Inr\<close> a result), checked arrays, lemmas on both.
  \<^item> \<open>Linked_List\<close>: \<open>libs/list.h\<close>. The record \<open>links\<close> is the memory of the \<open>prev\<close> and \<open>next\<close> pointers; \<open>ring\<close> says which entries hang in a list; the
    locale \<open>entry_ring\<close> is the interface of the allocator.
  \<^item> \<open>Pmm_Manager\<close>, \<open>First_Fit\<close>: \<open>struct pmm_manager\<close> of \<open>kern/mm/pmm.h\<close> as a locale, and its implementation \<open>kern/mm/default_pmm.c\<close>. The state is the
    array of page descriptors with the free list; the abstract state is a list of free blocks.
  \<^item> \<open>Page_Table\<close>, \<open>Page_Map\<close>, \<open>Memory_Detect\<close>, \<open>Paging\<close>: \<open>kern/mm/pmm.c\<close>, \<open>pmm.h\<close>, \<open>mmu.h\<close>, \<open>memlayout.h\<close>. The state is the contents of the physical pages, the
    descriptors and the TLB; the abstract state is the map from addresses to entries, its representation predicate is in \<open>Page_Map\<close>.
  \<^item> \<open>String_Lib\<close>: \<open>libs/string.c\<close> over a memory of bytes. \<open>Printfmt\<close>, \<open>Printf_Correct\<close>: \<open>libs/printfmt.c\<close> and \<open>do_div\<close> of \<open>libs/x86.h\<close>.
  \<^item> \<open>Console_Output\<close>, \<open>Terminal\<close>: output of \<open>kern/driver/console.c\<close>, \<open>picirq.c\<close>, output of \<open>kern/libs/stdio.c\<close>, and the terminal the screen implements.
  \<^item> \<open>Console_Input\<close>, \<open>Console_Queue\<close>, \<open>Keyboard\<close>: input of \<open>console.c\<close>; the ring buffer as a queue (locale \<open>input_queue\<close>), the devices that fill it (locale
    \<open>input_device\<close>, interpreted for the serial port and the keyboard); the keyboard as a machine over seven flags.
  \<^item> \<open>Monitor\<close>, \<open>Readline\<close>, \<open>Monitor_Correct\<close>: \<open>kern/libs/readline.c\<close> and \<open>kern/debug/kmonitor.c\<close>; the editing of a line (locale \<open>typist\<close>), the splitting
    into words, and what is typed being run.
  \<^item> \<open>Kdebug\<close>, \<open>Backtrace\<close>: \<open>kern/debug/kdebug.c\<close>, \<open>stab.h\<close>. \<open>Trap\<close>, \<open>Trap_Correct\<close>: \<open>kern/trap/trap.c\<close>, \<open>kern/driver/clock.c\<close>.
  \<^item> \<open>Bankers\<close>: \<open>Labweek15/alg.17-1-bankers-5.c\<close>. \<open>HDD_Scheduling\<close>: \<open>Labweek18/HDD_scheduling.c\<close>. \<open>Page_Replacement\<close>: \<open>Labweek17/page_replacement.c\<close>.
  \<^item> \<open>Scheduler\<close>, \<open>Scheduler_Threads\<close>: \<open>Labweek16/scheduler.c\<close>, the ready queue with its five policies, and a step relation over the interleavings of the
    threads with one step per access to what they share. A signal is pending until its thread handles it, at any later time and in any order.
  \<^item> \<open>Min_Heap\<close>, \<open>Heap_Order\<close>, \<open>Heap_Queue\<close>: \<open>Labweek7/SLList_MinHeap.c\<close>, an array that is a list and a heap at once.
  \<^item> \<open>Peterson\<close>: \<open>Labweek14/alg.15-1-peterson-counter.c\<close>, a step relation with one step per access of a shared variable.
  \<^item> \<open>Producer_Consumer\<close>: \<open>Labweek15/alg.18-6-syn-pc-con-6.c\<close>, \<open>.h\<close>, \<open>alg.18-7-syn-pc-producer-6.c\<close> and \<open>alg.18-8-syn-pc-consumer-6.c\<close>, a step relation over three semaphores.

  Globals and locals of a program are the fields of a record, functions are definitions of the same names that return the updated record, and
  an assertion, a panic or an access outside an array is an \<open>Inl\<close>. Concurrent programs have a location per thread, and a step function that is
  \<open>None\<close> when the thread is blocked.

  \<^bold>\<open>What the lemmas show.\<close>
  The allocator refines the list of blocks on every call, keeps clients apart and coalesces what is freed. Mapping and unmapping change the abstract
  map at one address and the reference counts with it, and free a page with its last mapping; \<open>page_init\<close> frees exactly the usable memory when the
  page descriptors fit into the 4 MB that are mapped at boot, and faults when they do not. The functions of strings equal their
  mathematical definitions, also when areas overlap. The formatter reads the memory that it writes; with a format apart from
  its buffer it writes what the directives say, stays in the buffer, and is inverse to \<open>strtol\<close>. The console shows the printed text on the terminal, delivers its input in order and loses it when the buffer overflows; the keyboard
  equals its flag machine for every sequence of codes; a typed line arrives edited, is split and executed. Every trap
  number is handled with the console, the ring buffer and the tick counter staying well-formed and only the privilege fields of the frame changed, and the
  timer prints once in a hundred ticks. The symbol search reads only inside its tables, but for two kinds of tables that are named. The banker's check decides exactly whether a safe order exists and
  no run deadlocks. Each disk scheduler serves all requests in its order, with the head movement it prints. Each replacement program
  reports exactly the faults of its policy. In every interleaving the ready queue is the abstract queue of its policy, in the order of the policy; the accesses that
  can fault are those that races of the signals make possible, and runs that show each of these races are given. The heap keeps its order and sorts. The lock excludes, and cannot deadlock. Producers and
  consumers hand the items over in order and always come to an end, but a consumer may leave too early, because it tests for the end without the lock.

  \<^bold>\<open>Bounds and loops.\<close>
  Numbers of the kernel are words of the width of the C type. Sizes are those of the sources: a screen of 25 by 80 cells, a ring buffer of 512
  characters, a line of 1024, 12800 polls of a port, 20 stack frames, 16 arguments. A loop whose end depends on the input or a device is a
  \<open>partial_function (option)\<close> or recursion with the bound of the source; where it is turned into an outcome, \<open>Diverges\<close> stands for a run without end, and the
  theorems show that it does not occur. The loops of the formatter end when the output does not change the format. Integers of the user programs are unbounded where the theory says so.

  \<^bold>\<open>Assumptions.\<close>
  Ports and devices are arguments of the model: arbitrary functions over a state of the devices. Operations of the console run with interrupts
  off and are one step. \<open>string.c\<close> is modelled in its portable C bodies, not in the assembly that the build selects. Threads see sequentially consistent memory.
  Library calls that create threads, and \<open>sem_init\<close>, succeed. The format of the console lies apart from the screen.

  \<^bold>\<open>Not modelled.\<close>
  \<^item> The processor: assembly, descriptor registers, the entry to a trap, the boot loader, which reads sectors of a disk, and \<open>kern_init\<close>, which only calls
    the initialisations in turn. \<open>panic\<close> is an outcome; what it prints is left out.
  \<^item> \<open>gdt_init\<close>, \<open>pmm_init\<close> and the self-tests \<open>check_*\<close>, \<open>basic_check\<close>, \<open>default_check\<close>: they load registers of the processor, or test what is proved here.
  \<^item> The tools of the build, generated files and object files.
  \<^item> \<open>Labweek1/lab1\<close>: the same drivers, libraries and monitor as \<open>lab2\<close> in an earlier state; its memory management has only a descriptor table.
  \<^item> \<open>Labweek7/ipc-shmcon.h\<close> and the directory \<open>list implement\<close>: copies and an early form, with pointers, of the list and heap modelled here.
  \<^item> Demonstrations of system calls (processes, shared memory, message queues, sockets, threads, thread-local storage, \<open>clone\<close>, OpenMP): they print what the
    operating system does, and have no state of their own. This includes the bulletin-board programs of \<open>Labweek9\<close>, whose behaviour is that of \<open>select\<close>, pipes and sockets.
  \<^item> The thread pools of \<open>Labweek13\<close> and \<open>Labweek15\<close>, whose ring of tasks is a simpler form of the buffer in \<open>Producer_Consumer\<close>.
  \<^item> In \<open>Labweek16/scheduler.c\<close> the clocks and averages, and what the threads and handlers print; elsewhere the functions that only print.
\<close>

end
